(* ===== verification/Prelude.thy ===== *)
theory Prelude
  imports Main "HOL-Library.Word"
begin

text \<open>
  The prelude: what the components share. Python exceptions are values of \<open>exn\<close>, a call
  that may raise returns \<open>exn + 'a\<close>, a Python \<^verbatim>\<open>str\<close> is its list of code points (so a lone
  surrogate is representable, as it is in Python) and \<^verbatim>\<open>bytes\<close> is a list of 8-bit words. The
  generic lemmas on results, lists and powers of two used by the components are here too.
\<close>

named_theorems res_simps "equations that run a computation of type \<open>exn + 'a\<close>"
named_theorems frame_simps "equations that unfold the byte frames of the program"
named_theorems code_lengths "lengths of fixed-width encodings"

section \<open>Types\<close>

type_synonym byte = "8 word"
type_synonym bytes = "byte list"
type_synonym pystr = "nat list"

datatype exn =
    ValueError | LpEncodingError | UnicodeEncodeError | UnicodeDecodeError | JSONDecodeError
  | TypeError | KeyError | IndexError | StructError | RuntimeError | AttestationFailure
  | OverflowError | AbiError | PinMalformed | PinVersionUnknown | OSError | AssertionError
  | InvalidIdentifier | MalformedEnvelope | PreconditionFailed | DamagedReceiptLog | RemoteError
  | ClientError | IntegrityError | DerError

type_synonym 'a res = "exn + 'a"

text \<open>
  The subclasses of \<^verbatim>\<open>ValueError\<close> an \<^verbatim>\<open>except ValueError\<close> clause catches: the two Unicode errors
  and \<^verbatim>\<open>JSONDecodeError\<close> of the standard library, and \<^verbatim>\<open>LpEncodingError\<close>, \<^verbatim>\<open>AbiError\<close>, \<^verbatim>\<open>DerError\<close>,
  \<^verbatim>\<open>InvalidIdentifier\<close> and \<^verbatim>\<open>MalformedEnvelope\<close>, which the program derives from it.
\<close>

fun is_ValueError :: "exn \<Rightarrow> bool" where
  "is_ValueError ValueError = True"
| "is_ValueError LpEncodingError = True"
| "is_ValueError UnicodeEncodeError = True"
| "is_ValueError UnicodeDecodeError = True"
| "is_ValueError JSONDecodeError = True"
| "is_ValueError AbiError = True"
| "is_ValueError InvalidIdentifier = True"
| "is_ValueError MalformedEnvelope = True"
| "is_ValueError DerError = True"
| "is_ValueError _ = False"

text \<open>A Python string literal of ASCII characters.\<close>

definition str :: "string \<Rightarrow> pystr" where
  "str cs = map of_char cs"

text \<open>A Python bytes literal of ASCII characters.\<close>

definition asc :: "string \<Rightarrow> bytes" where
  "asc cs = map of_char cs"

section \<open>Computations that may raise\<close>

definition res_bind :: "'a res \<Rightarrow> ('a \<Rightarrow> 'b res) \<Rightarrow> 'b res" where
  "res_bind m f = (case m of Inl e \<Rightarrow> Inl e | Inr x \<Rightarrow> f x)"

definition res_map :: "('a \<Rightarrow> 'b) \<Rightarrow> 'a res \<Rightarrow> 'b res" where
  "res_map f m = (case m of Inl e \<Rightarrow> Inl e | Inr x \<Rightarrow> Inr (f x))"

fun res_mapM :: "('a \<Rightarrow> 'b res) \<Rightarrow> 'a list \<Rightarrow> 'b list res" where
  "res_mapM f [] = Inr []"
| "res_mapM f (x # xs) = res_bind (f x) (\<lambda>y. res_bind (res_mapM f xs) (\<lambda>ys. Inr (y # ys)))"

lemma res_bind_simps [simp, res_simps]:
  "res_bind (Inl e) f = Inl e"
  "res_bind (Inr x) f = f x"
  by (simp_all add: res_bind_def)

lemma res_map_simps [simp, res_simps]:
  "res_map g (Inl e) = Inl e"
  "res_map g (Inr x) = Inr (g x)"
  by (simp_all add: res_map_def)

lemma res_bind_cong [fundef_cong]:
  "m = m' \<Longrightarrow> (\<And>x. m' = Inr x \<Longrightarrow> f x = f' x) \<Longrightarrow> res_bind m f = res_bind m' f'"
  by (cases m') auto

lemma res_bind_eq_Inr:
  "res_bind m f = Inr y \<longleftrightarrow> (\<exists>x. m = Inr x \<and> f x = Inr y)"
  by (cases m) auto

lemma res_bind_eq_Inl:
  "res_bind m f = Inl e \<longleftrightarrow> m = Inl e \<or> (\<exists>x. m = Inr x \<and> f x = Inl e)"
  by (cases m) auto

lemma res_map_eq_Inr: "res_map f m = Inr y \<longleftrightarrow> (\<exists>x. m = Inr x \<and> y = f x)"
  by (cases m) auto

lemma res_map_eq_Inl: "res_map f m = Inl e \<longleftrightarrow> m = Inl e"
  by (cases m) auto

text \<open>The same for computations whose failures are of another type.\<close>

definition sum_bind :: "'e + 'a \<Rightarrow> ('a \<Rightarrow> 'e + 'b) \<Rightarrow> 'e + 'b" where
  "sum_bind m f = (case m of Inl e \<Rightarrow> Inl e | Inr x \<Rightarrow> f x)"

lemma sum_bind_simps [simp]: "sum_bind (Inl e) f = Inl e" "sum_bind (Inr x) f = f x"
  by (simp_all add: sum_bind_def)

lemma sum_bind_Inr: "sum_bind m f = Inr y \<longleftrightarrow> (\<exists>x. m = Inr x \<and> f x = Inr y)"
  by (cases m) auto

lemma sum_bind_Inl: "sum_bind m f = Inl e \<longleftrightarrow> m = Inl e \<or> (\<exists>x. m = Inr x \<and> f x = Inl e)"
  by (cases m) auto

lemmas res_elims = res_bind_eq_Inr res_bind_eq_Inl res_map_eq_Inr res_map_eq_Inl

lemma res_mapM_cong [fundef_cong]:
  "xs = ys \<Longrightarrow> (\<And>x. x \<in> set ys \<Longrightarrow> f x = g x) \<Longrightarrow> res_mapM f xs = res_mapM g ys"
  by (induction ys arbitrary: xs) auto

lemma res_mapM_length: "res_mapM f xs = Inr ys \<Longrightarrow> length ys = length xs"
  by (induction xs arbitrary: ys) (auto simp: res_elims)

lemma res_mapM_nth:
  "res_mapM f xs = Inr ys \<Longrightarrow> i < length xs \<Longrightarrow> f (xs ! i) = Inr (ys ! i)"
  by (induction xs arbitrary: ys i) (auto simp: res_elims nth_Cons split: nat.splits)

lemma res_mapM_append:
  "res_mapM f (xs @ ys) = res_bind (res_mapM f xs) (\<lambda>us. res_map ((@) us) (res_mapM f ys))"
  by (induction xs) (auto simp: res_bind_def res_map_def split: sum.splits)

lemma res_mapM_take: "res_mapM f xs = Inr ys \<Longrightarrow> res_mapM f (take n xs) = Inr (take n ys)"
  by (induction xs arbitrary: ys n) (auto simp: res_elims take_Cons split: nat.splits)

lemma res_mapM_total: "(\<And>x. x \<in> set xs \<Longrightarrow> f x = Inr (g x)) \<Longrightarrow> res_mapM f xs = Inr (map g xs)"
  by (induction xs) auto

lemma res_mapM_Inl: "res_mapM f xs = Inl e \<Longrightarrow> \<exists>x \<in> set xs. f x = Inl e"
  by (induction xs) (auto simp: res_elims)

lemma res_mapM_Inr [simp]: "res_mapM (\<lambda>l. l) (map Inr xs) = Inr xs"
  by (induction xs) simp_all

section \<open>Lists\<close>

lemma all_less_Suc_split: "(\<forall>j < Suc n. P j) \<longleftrightarrow> P 0 \<and> (\<forall>j < n. P (Suc j))"
  by (auto simp: less_Suc_eq_0_disj)


lemma append_eq_prefix_length:
  "length xs = length ys \<Longrightarrow> xs @ us = ys @ vs \<longleftrightarrow> xs = ys \<and> us = vs"
  by simp

lemma takeWhile_all: "(\<And>x. x \<in> set xs \<Longrightarrow> P x) \<Longrightarrow> takeWhile P xs = xs"
  by (induction xs) auto

lemma last_drop_nonempty: "n < length xs \<Longrightarrow> last (drop n xs) = last xs"
  by (simp add: last_drop)

section \<open>Scans that stop at the first problem\<close>

text \<open>
  The verifiers are loops over rows that return at the first one with a problem; this is the
  specification they are compared with.
\<close>

fun first_problem :: "(nat \<Rightarrow> 'a \<Rightarrow> 'r option) \<Rightarrow> nat \<Rightarrow> 'a list \<Rightarrow> (nat \<times> 'r) option" where
  "first_problem P i [] = None"
| "first_problem P i (x # xs) = (case P i x of Some r \<Rightarrow> Some (i, r) | None \<Rightarrow> first_problem P (Suc i) xs)"

lemma first_problem_None:
  "first_problem P i xs = None \<longleftrightarrow> (\<forall>j < length xs. P (i + j) (xs ! j) = None)"
proof (induction xs arbitrary: i)
  case (Cons x xs)
  have "(\<forall>j < length (x # xs). P (i + j) ((x # xs) ! j) = None)
      \<longleftrightarrow> P i x = None \<and> (\<forall>j < length xs. P (Suc i + j) (xs ! j) = None)"
    by (auto simp: nth_Cons less_Suc_eq_0_disj split: nat.splits)
  with Cons show ?case by (simp split: option.splits)
qed simp

lemma first_problem_Some:
  "first_problem P i xs = Some (n, r) \<Longrightarrow>
     i \<le> n \<and> n - i < length xs \<and> P n (xs ! (n - i)) = Some r \<and> (\<forall>j < n - i. P (i + j) (xs ! j) = None)"
proof (induction xs arbitrary: i)
  case (Cons x xs)
  show ?case
  proof (cases "P i x")
    case (Some s)
    with Cons.prems show ?thesis by auto
  next
    case None
    with Cons.prems Cons.IH [of "Suc i"] have h: "Suc i \<le> n" "n - Suc i < length xs"
      "P n (xs ! (n - Suc i)) = Some r" "\<forall>j < n - Suc i. P (Suc i + j) (xs ! j) = None"
      by auto
    have "P (i + j) ((x # xs) ! j) = None" if "j < n - i" for j
      using that h(4) None by (cases j) (auto simp: less_diff_conv)
    moreover have "(x # xs) ! (n - i) = xs ! (n - Suc i)" using h(1) by (simp add: nth_Cons' Suc_diff_Suc)
    ultimately show ?thesis using h by auto
  qed
qed simp

lemma first_problem_cong:
  "(\<And>j. j < length xs \<Longrightarrow> P (i + j) (xs ! j) = Q (i + j) (xs ! j)) \<Longrightarrow>
     first_problem P i xs = first_problem Q i xs"
proof (induction xs arbitrary: i)
  case (Cons x xs)
  have "P i x = Q i x" using Cons.prems [of 0] by simp
  moreover have "first_problem P (Suc i) xs = first_problem Q (Suc i) xs"
    using Cons.prems [of "Suc _"] by (intro Cons.IH) simp
  ultimately show ?case by (simp split: option.splits)
qed simp

section \<open>Powers of two\<close>

lemma pow2_mono_Suc: "(a::nat) < b \<Longrightarrow> 2 * 2 ^ a \<le> (2::nat) ^ b"
  using power_increasing [of "Suc a" b "2::nat"] by simp

lemma pow2_squeeze:
  fixes a b :: nat
  assumes "2 ^ a < (2::nat) * 2 ^ b" and "2 ^ b < (2::nat) * 2 ^ a"
  shows "a = b"
proof (rule ccontr)
  assume "a \<noteq> b"
  then consider "a < b" | "b < a" by linarith
  then show False
  proof cases
    case 1
    then have "(2::nat) * 2 ^ a \<le> 2 ^ b" by (rule pow2_mono_Suc)
    with assms(2) show False by simp
  next
    case 2
    then have "(2::nat) * 2 ^ b \<le> 2 ^ a" by (rule pow2_mono_Suc)
    with assms(1) show False by simp
  qed
qed

lemma div_pow2_Suc: "(n::nat) div 2 ^ Suc p = (n div 2 ^ p) div 2"
  by (simp add: div_mult2_eq [symmetric] mult.commute)

lemma div_less_of_div_div_less: "(a::nat) div 2 < b div 2 \<Longrightarrow> a < b"
  by arith

end
