(* ===== verification/PyBytes.thy ===== *)
theory PyBytes
  imports Prelude
begin

text \<open>
  The byte-level operations of the Python standard library the program uses: strict UTF-8
  (\<^verbatim>\<open>str.encode\<close>, \<^verbatim>\<open>bytes.decode\<close>), \<^verbatim>\<open>bytes.hex\<close> and \<^verbatim>\<open>bytes.fromhex\<close> (which skips ASCII white space
  between pairs and takes both letter cases), \<^verbatim>\<open>struct.pack(">Q", n)\<close> and the fixed-width big-endian
  encodings behind it, and \<^verbatim>\<open>str(n)\<close> of an integer. The lemmas are the round trips and the
  injectivity the frames of the program rest on.
\<close>

section \<open>UTF-8\<close>

definition surrogate :: "nat \<Rightarrow> bool" where
  "surrogate n \<longleftrightarrow> 0xD800 \<le> n \<and> n < 0xE000"

definition utf8_cp :: "nat \<Rightarrow> bytes option" where
  "utf8_cp n =
     (if n < 0x80 then Some [of_nat n]
      else if n < 0x800 then Some [of_nat (0xC0 + n div 64), of_nat (0x80 + n mod 64)]
      else if surrogate n then None
      else if n < 0x10000 then
        Some [of_nat (0xE0 + n div 4096), of_nat (0x80 + (n div 64) mod 64), of_nat (0x80 + n mod 64)]
      else if n < 0x110000 then
        Some [of_nat (0xF0 + n div 262144), of_nat (0x80 + (n div 4096) mod 64),
              of_nat (0x80 + (n div 64) mod 64), of_nat (0x80 + n mod 64)]
      else None)"

fun utf8_encode :: "pystr \<Rightarrow> bytes option" where
  "utf8_encode [] = Some []"
| "utf8_encode (n # s) =
     (case utf8_cp n of None \<Rightarrow> None
      | Some b \<Rightarrow> (case utf8_encode s of None \<Rightarrow> None | Some bs \<Rightarrow> Some (b @ bs)))"

definition cont_byte :: "byte \<Rightarrow> bool" where
  "cont_byte b \<longleftrightarrow> 0x80 \<le> unat b \<and> unat b < 0xC0"

fun utf8_decode :: "bytes \<Rightarrow> pystr option" where
  "utf8_decode [] = Some []"
| "utf8_decode (b # bs) =
     (if unat b < 0x80 then map_option (Cons (unat b)) (utf8_decode bs)
      else if unat b < 0xC2 then None
      else if unat b < 0xE0 then
        (case bs of
           c # cs \<Rightarrow>
             (if cont_byte c
              then map_option (Cons ((unat b - 0xC0) * 64 + (unat c - 0x80))) (utf8_decode cs)
              else None)
         | _ \<Rightarrow> None)
      else if unat b < 0xF0 then
        (case bs of
           c # d # ds \<Rightarrow>
             (let n = (unat b - 0xE0) * 4096 + (unat c - 0x80) * 64 + (unat d - 0x80)
              in if cont_byte c \<and> cont_byte d \<and> 0x800 \<le> n \<and> \<not> surrogate n
                 then map_option (Cons n) (utf8_decode ds) else None)
         | _ \<Rightarrow> None)
      else if unat b < 0xF5 then
        (case bs of
           c # d # e # es \<Rightarrow>
             (let n = (unat b - 0xF0) * 262144 + (unat c - 0x80) * 4096
                      + (unat d - 0x80) * 64 + (unat e - 0x80)
              in if cont_byte c \<and> cont_byte d \<and> cont_byte e \<and> 0x10000 \<le> n \<and> n < 0x110000
                 then map_option (Cons n) (utf8_decode es) else None)
         | _ \<Rightarrow> None)
      else None)"

lemma unat_of_nat_byte: "n < 256 \<Longrightarrow> unat (of_nat n :: byte) = n"
  by (simp add: unat_of_nat take_bit_eq_mod)

lemma unat_byte_less: "unat (b :: byte) < 256"
  using unsigned_less [of b, where ?'a = nat] by simp

lemma base64_digits3: "n div 4096 * 4096 + n div 64 mod 64 * 64 + n mod 64 = (n::nat)"
proof -
  have "n div 4096 = n div 64 div 64" by (simp add: div_mult2_eq [symmetric])
  then show ?thesis
    using div_mult_mod_eq [of n 64] div_mult_mod_eq [of "n div 64" 64] by linarith
qed

lemma base64_digits4:
  "n div 262144 * 262144 + n div 4096 mod 64 * 4096 + n div 64 mod 64 * 64 + n mod 64 = (n::nat)"
proof -
  have "n div 262144 = n div 4096 div 64" by (simp add: div_mult2_eq [symmetric])
  then show ?thesis
    using base64_digits3 [of n] div_mult_mod_eq [of "n div 4096" 64] by linarith
qed

lemma utf8_decode_cp:
  assumes "utf8_cp n = Some b"
  shows "utf8_decode (b @ bs) = map_option (Cons n) (utf8_decode bs)"
proof -
  consider (one) "n < 0x80" | (two) "0x80 \<le> n" "n < 0x800"
    | (three) "0x800 \<le> n" "n < 0x10000" "\<not> surrogate n"
    | (four) "0x10000 \<le> n" "n < 0x110000"
    using assms by (fastforce simp: utf8_cp_def split: if_splits)
  then show ?thesis
  proof cases
    case one
    with assms have "b = [of_nat n]" by (simp add: utf8_cp_def)
    with one show ?thesis by (simp add: unat_of_nat_byte)
  next
    case two
    with assms have b: "b = [of_nat (0xC0 + n div 64), of_nat (0x80 + n mod 64)]"
      by (simp add: utf8_cp_def)
    have u: "unat (of_nat (0xC0 + n div 64) :: byte) = 0xC0 + n div 64"
      "unat (of_nat (0x80 + n mod 64) :: byte) = 0x80 + n mod 64"
      by (rule unat_of_nat_byte, use two in linarith)+
    have "2 \<le> n div 64" "n div 64 < 32" using two by linarith+
    then show ?thesis unfolding b append_Cons append_Nil utf8_decode.simps(2) u
      by (simp add: cont_byte_def u del: of_nat_add)
  next
    case three
    with assms have b: "b = [of_nat (0xE0 + n div 4096), of_nat (0x80 + (n div 64) mod 64),
        of_nat (0x80 + n mod 64)]"
      by (simp add: utf8_cp_def)
    have u: "unat (of_nat (0xE0 + n div 4096) :: byte) = 0xE0 + n div 4096"
      "unat (of_nat (0x80 + (n div 64) mod 64) :: byte) = 0x80 + (n div 64) mod 64"
      "unat (of_nat (0x80 + n mod 64) :: byte) = 0x80 + n mod 64"
      by (rule unat_of_nat_byte, use three in linarith)+
    have n: "n div 4096 * 4096 + n div 64 mod 64 * 64 + n mod 64 = n" by (rule base64_digits3)
    have "n div 4096 < 16" using three by linarith
    with n three show ?thesis unfolding b append_Cons append_Nil utf8_decode.simps(2) u
      by (simp add: cont_byte_def u Let_def del: of_nat_add)
  next
    case four
    with assms have b: "b = [of_nat (0xF0 + n div 262144), of_nat (0x80 + (n div 4096) mod 64),
        of_nat (0x80 + (n div 64) mod 64), of_nat (0x80 + n mod 64)]"
      by (auto simp: utf8_cp_def surrogate_def split: if_splits)
    have u: "unat (of_nat (0xF0 + n div 262144) :: byte) = 0xF0 + n div 262144"
      "unat (of_nat (0x80 + (n div 4096) mod 64) :: byte) = 0x80 + (n div 4096) mod 64"
      "unat (of_nat (0x80 + (n div 64) mod 64) :: byte) = 0x80 + (n div 64) mod 64"
      "unat (of_nat (0x80 + n mod 64) :: byte) = 0x80 + n mod 64"
      by (rule unat_of_nat_byte, use four in linarith)+
    have n: "n div 262144 * 262144 + n div 4096 mod 64 * 4096 + n div 64 mod 64 * 64 + n mod 64 = n"
      by (rule base64_digits4)
    have "n div 262144 < 5" using four by linarith
    with n four show ?thesis unfolding b append_Cons append_Nil utf8_decode.simps(2) u
      by (simp add: cont_byte_def u Let_def del: of_nat_add)
  qed
qed

lemma utf8_decode_encode: "utf8_encode s = Some b \<Longrightarrow> utf8_decode b = Some s"
  by (induction s arbitrary: b) (auto split: option.splits simp: utf8_decode_cp)

lemma utf8_encode_inj: "utf8_encode s = Some b \<Longrightarrow> utf8_encode t = Some b \<Longrightarrow> s = t"
  by (drule utf8_decode_encode)+ simp


text \<open>The strict decoder accepts the encodings and nothing else.\<close>

lemma byte_eq_of_nat: "unat (b::byte) = n \<Longrightarrow> of_nat n = b"
  by auto

lemma digit64: "r < 64 \<Longrightarrow> (q * 64 + r) div 64 = q" "r < 64 \<Longrightarrow> (q * 64 + r) mod 64 = (r::nat)"
  by simp_all

lemma cont_byteD: "cont_byte c \<Longrightarrow> unat c - 0x80 < 64" "cont_byte c \<Longrightarrow> 0x80 \<le> unat c"
  by (auto simp: cont_byte_def)

lemma utf8_cp_two:
  assumes "0xC2 \<le> unat b" "unat b < 0xE0" "cont_byte c"
  shows "utf8_cp ((unat b - 0xC0) * 64 + (unat c - 0x80)) = Some [b, c]"
proof -
  let ?n = "(unat b - 0xC0) * 64 + (unat c - 0x80)"
  have c: "unat c - 0x80 < 64" "0x80 \<le> unat c" using cont_byteD [OF assms(3)] .
  have d: "?n div 64 = unat b - 0xC0" "?n mod 64 = unat c - 0x80" using c(1) by simp_all
  have "128 \<le> ?n" "?n < 0x800" using assms(1,2) c by linarith+
  moreover have "of_nat (0xC0 + ?n div 64) = b" "of_nat (0x80 + ?n mod 64) = c"
    by (rule byte_eq_of_nat, use d assms(1) c(2) in linarith)+
  ultimately show ?thesis by (simp add: utf8_cp_def del: of_nat_add)
qed

lemma utf8_cp_three:
  fixes n :: nat
  assumes n: "n = (unat b - 0xE0) * 4096 + (unat c - 0x80) * 64 + (unat d - 0x80)"
    and "0xE0 \<le> unat b" "unat b < 0xF0" "cont_byte c" "cont_byte d" "0x800 \<le> n" "\<not> surrogate n"
  shows "utf8_cp n = Some [b, c, d]"
proof -
  have c: "unat c - 0x80 < 64" "0x80 \<le> unat c" "unat d - 0x80 < 64" "0x80 \<le> unat d"
    using cont_byteD [OF assms(4)] cont_byteD [OF assms(5)] by auto
  have n': "n = ((unat b - 0xE0) * 64 + (unat c - 0x80)) * 64 + (unat d - 0x80)"
    using n by simp
  have d1: "n div 64 = (unat b - 0xE0) * 64 + (unat c - 0x80)" "n mod 64 = unat d - 0x80"
    unfolding n' by (rule digit64 [OF c(3)])+
  have d2: "n div 4096 = unat b - 0xE0"
    using d1(1) c(1) by (simp add: div_mult2_eq [of n 64 64, simplified])
  have d3: "n div 64 mod 64 = unat c - 0x80" using d1(1) c(1) by simp
  have lt: "n < 0x10000" using n c assms(3) by linarith
  have "of_nat (0xE0 + n div 4096) = b" "of_nat (0x80 + n div 64 mod 64) = c"
    "of_nat (0x80 + n mod 64) = d"
    by (rule byte_eq_of_nat, simp only: d1(2) d2 d3, use assms(2) c in simp)+
  with lt assms(6,7) show ?thesis by (simp add: utf8_cp_def del: of_nat_add)
qed

lemma utf8_cp_four:
  fixes n :: nat
  assumes n: "n = (unat b - 0xF0) * 262144 + (unat c - 0x80) * 4096
                   + (unat d - 0x80) * 64 + (unat e - 0x80)"
    and "0xF0 \<le> unat b" "cont_byte c" "cont_byte d" "cont_byte e" "0x10000 \<le> n" "n < 0x110000"
  shows "utf8_cp n = Some [b, c, d, e]"
proof -
  have c: "unat c - 0x80 < 64" "0x80 \<le> unat c" "unat d - 0x80 < 64" "0x80 \<le> unat d"
    "unat e - 0x80 < 64" "0x80 \<le> unat e"
    using cont_byteD [OF assms(3)] cont_byteD [OF assms(4)] cont_byteD [OF assms(5)] by auto
  have n': "n = (((unat b - 0xF0) * 64 + (unat c - 0x80)) * 64 + (unat d - 0x80)) * 64
                + (unat e - 0x80)"
    using n by simp
  have d1: "n div 64 = ((unat b - 0xF0) * 64 + (unat c - 0x80)) * 64 + (unat d - 0x80)"
    "n mod 64 = unat e - 0x80"
    unfolding n' by (rule digit64 [OF c(5)])+
  have d2: "n div 4096 = (unat b - 0xF0) * 64 + (unat c - 0x80)"
    using digit64(1) [OF c(3)] by (simp only: div_mult2_eq [of n 64 64, simplified] d1(1))
  have d3: "n div 262144 = unat b - 0xF0"
    using d2 c(1) by (simp add: div_mult2_eq [of n 4096 64, simplified])
  have d4: "n div 64 mod 64 = unat d - 0x80" "n div 4096 mod 64 = unat c - 0x80"
    unfolding d1(1) d2 by (rule digit64 [OF c(3)], rule digit64 [OF c(1)])
  have "\<not> surrogate n" using assms(6) by (simp add: surrogate_def)
  moreover have "of_nat (0xF0 + n div 262144) = b" "of_nat (0x80 + n div 4096 mod 64) = c"
    "of_nat (0x80 + n div 64 mod 64) = d" "of_nat (0x80 + n mod 64) = e"
    by (rule byte_eq_of_nat, simp only: d1(2) d3 d4, use assms(2) c in simp)+
  ultimately show ?thesis using assms(6,7) by (simp add: utf8_cp_def del: of_nat_add)
qed

lemma utf8_encode_decode: "utf8_decode b = Some s \<Longrightarrow> utf8_encode s = Some b"
proof (induction b arbitrary: s rule: utf8_decode.induct)
  case 1
  then show ?case by simp
next
  case (2 b bs)
  consider (one) "unat b < 0x80" | (two) "0xC2 \<le> unat b" "unat b < 0xE0"
    | (three) "0xE0 \<le> unat b" "unat b < 0xF0" | (four) "0xF0 \<le> unat b" "unat b < 0xF5"
    using "2.prems" by (fastforce split: if_splits)
  then show ?case
  proof cases
    case one
    with "2.prems" obtain t where t: "utf8_decode bs = Some t" "s = unat b # t" by auto
    moreover have "utf8_cp (unat b) = Some [b]" using one by (simp add: utf8_cp_def)
    ultimately show ?thesis using "2.IH"(1) [OF one t(1)] by simp
  next
    case two
    with "2.prems" obtain c cs t where t: "bs = c # cs" "cont_byte c" "utf8_decode cs = Some t"
      "s = ((unat b - 0xC0) * 64 + (unat c - 0x80)) # t"
      by (auto split: list.splits if_splits)
    have "utf8_encode t = Some cs" using "2.IH"(2) [of c cs t] two t by simp
    with utf8_cp_two [OF two t(2)] t show ?thesis by simp
  next
    case three
    with "2.prems" obtain c d ds t where t: "bs = c # d # ds" "utf8_decode ds = Some t"
      "s = ((unat b - 0xE0) * 4096 + (unat c - 0x80) * 64 + (unat d - 0x80)) # t"
      and ok: "cont_byte c" "cont_byte d" "0x800 \<le> hd s" "\<not> surrogate (hd s)"
      by (auto split: list.splits if_splits simp: Let_def)
    have "utf8_encode t = Some ds" using "2.IH"(3) [of c "d # ds" d ds _ t] three t ok by simp
    with utf8_cp_three [OF _ three ok(1,2), of "hd s"] t ok show ?thesis by simp
  next
    case four
    with "2.prems" obtain c d e es t where t: "bs = c # d # e # es" "utf8_decode es = Some t"
      "s = ((unat b - 0xF0) * 262144 + (unat c - 0x80) * 4096
             + (unat d - 0x80) * 64 + (unat e - 0x80)) # t"
      and ok: "cont_byte c" "cont_byte d" "cont_byte e" "0x10000 \<le> hd s" "hd s < 0x110000"
      by (auto split: list.splits if_splits simp: Let_def)
    have "utf8_encode t = Some es"
      using "2.IH"(4) [of c "d # e # es" d "e # es" e es _ t] four t ok by simp
    with utf8_cp_four [OF _ four(1) ok(1,2,3), of "hd s"] t ok show ?thesis by simp
  qed
qed


section \<open>ASCII\<close>

definition ascii_encode :: "pystr \<Rightarrow> bytes res" where
  "ascii_encode s = (if \<forall>c \<in> set s. c < 128 then Inr (map of_nat s) else Inl UnicodeEncodeError)"

lemma map_unat_of_nat_ascii:
  "\<forall>c \<in> set u. c < 128 \<Longrightarrow> map unat (map (of_nat :: nat \<Rightarrow> byte) u) = u"
  by (induction u) (auto simp: unat_of_nat_byte)

lemma ascii_encode_SomeD: "ascii_encode s = Inr b \<Longrightarrow> map unat b = s"
  using map_unat_of_nat_ascii [of s] by (auto simp: ascii_encode_def split: if_splits)

lemma ascii_encode_inj: "ascii_encode s = Inr b \<Longrightarrow> ascii_encode t = Inr b \<Longrightarrow> s = t"
  by (drule ascii_encode_SomeD)+ simp

section \<open>Hexadecimal text\<close>

definition hexdigit :: "nat \<Rightarrow> nat" where
  "hexdigit n = (if n < 10 then 48 + n else 87 + n)"

fun hex :: "bytes \<Rightarrow> pystr" where
  "hex [] = []"
| "hex (b # bs) = hexdigit (unat b div 16) # hexdigit (unat b mod 16) # hex bs"

definition hexval :: "nat \<Rightarrow> nat option" where
  "hexval c =
     (if 48 \<le> c \<and> c \<le> 57 then Some (c - 48)
      else if 97 \<le> c \<and> c \<le> 102 then Some (c - 87)
      else if 65 \<le> c \<and> c \<le> 70 then Some (c - 55)
      else None)"

definition ascii_space :: "nat \<Rightarrow> bool" where
  "ascii_space c \<longleftrightarrow> c = 32 \<or> (9 \<le> c \<and> c \<le> 13)"

fun fromhex :: "pystr \<Rightarrow> bytes res" where
  "fromhex [] = Inr []"
| "fromhex (c # cs) =
     (if ascii_space c then fromhex cs
      else (case hexval c of None \<Rightarrow> Inl ValueError
            | Some h \<Rightarrow>
                (case cs of [] \<Rightarrow> Inl ValueError
                 | d # ds \<Rightarrow>
                     (case hexval d of None \<Rightarrow> Inl ValueError
                      | Some l \<Rightarrow> res_bind (fromhex ds) (\<lambda>bs. Inr (of_nat (16 * h + l) # bs))))))"

definition hex_lower :: "nat \<Rightarrow> bool" where
  "hex_lower c \<longleftrightarrow> (48 \<le> c \<and> c \<le> 57) \<or> (97 \<le> c \<and> c \<le> 102)"

lemma hexval_hexdigit: "n < 16 \<Longrightarrow> hexval (hexdigit n) = Some n"
  by (auto simp: hexval_def hexdigit_def)

lemma hex_lower_hexdigit: "n < 16 \<Longrightarrow> hex_lower (hexdigit n)"
  by (auto simp: hex_lower_def hexdigit_def)

lemma hexdigit_not_space: "n < 16 \<Longrightarrow> \<not> ascii_space (hexdigit n)"
  by (auto simp: ascii_space_def hexdigit_def)

lemma byte_nibbles: "unat (b::byte) div 16 < 16" "unat b mod 16 < 16"
  using unat_byte_less [of b] by auto

lemma hex_append [simp]: "hex (xs @ ys) = hex xs @ hex ys"
  by (induction xs) auto

lemma length_hex [simp, code_lengths]: "length (hex bs) = 2 * length bs"
  by (induction bs) auto

lemma set_hex: "c \<in> set (hex bs) \<Longrightarrow> hex_lower c"
  by (induction bs) (auto simp: hex_lower_hexdigit byte_nibbles)

lemma fromhex_hex [simp]: "fromhex (hex bs) = Inr bs"
proof (induction bs)
  case Nil
  then show ?case by simp
next
  case (Cons b bs)
  have "of_nat (16 * (unat b div 16) + unat b mod 16) = b" by simp
  with Cons show ?case
    by (simp add: hexval_hexdigit byte_nibbles hexdigit_not_space del: of_nat_add)
qed

lemma res_mapM_fromhex_hex [simp]: "res_mapM fromhex (map hex xs) = Inr xs"
  by (induction xs) simp_all

lemma hex_inj [simp]: "hex xs = hex ys \<longleftrightarrow> xs = ys"
  by (metis fromhex_hex sum.inject(2))

lemma fromhex_errors: "fromhex s = Inl e \<Longrightarrow> e = ValueError"
  by (induction s rule: fromhex.induct)
     (auto split: if_splits option.splits list.splits simp: res_elims)

lemma hexval_hex_lower:
  "hex_lower c \<Longrightarrow> \<exists>n < 16. hexval c = Some n \<and> hexdigit n = c"
  by (auto simp: hex_lower_def hexval_def hexdigit_def)

lemma hex_lower_not_space: "hex_lower c \<Longrightarrow> \<not> ascii_space c"
  by (auto simp: hex_lower_def ascii_space_def)

text \<open>Text of lower-case digits is the canonical spelling of the bytes it decodes to.\<close>

lemma hex_fromhex:
  "fromhex s = Inr bs \<Longrightarrow> (\<And>c. c \<in> set s \<Longrightarrow> hex_lower c) \<Longrightarrow> hex bs = s"
proof (induction s arbitrary: bs rule: fromhex.induct)
  case 1
  then show ?case by simp
next
  case (2 c cs)
  have sp: "\<not> ascii_space c" using "2.prems"(2) by (simp add: hex_lower_not_space)
  obtain h where h: "h < 16" "hexval c = Some h" "hexdigit h = c"
    using hexval_hex_lower "2.prems"(2) by fastforce
  with "2.prems"(1) sp obtain d ds l bs' where d: "cs = d # ds" "hexval d = Some l"
    "fromhex ds = Inr bs'" "bs = of_nat (16 * h + l) # bs'"
    by (auto split: list.splits option.splits simp: res_elims)
  with "2.prems"(2) hexval_hex_lower [of d] have l: "l < 16" "hexdigit l = d" by auto
  have "hex bs' = ds" using "2.IH"(2) [OF sp h(2) d(1) d(2) d(3)] "2.prems"(2) d(1) by simp
  moreover have "unat (of_nat (16 * h + l) :: byte) = 16 * h + l"
    by (rule unat_of_nat_byte) (use h(1) l(1) in linarith)
  ultimately show ?case using d h(1,3) l by (simp del: of_nat_add)
qed

lemma fromhex_hex_lower:
  "(\<And>c. c \<in> set s \<Longrightarrow> hex_lower c) \<Longrightarrow> even (length s) \<Longrightarrow> \<exists>bs. fromhex s = Inr bs"
proof (induction s rule: fromhex.induct)
  case 1
  then show ?case by simp
next
  case (2 c cs)
  have sp: "\<not> ascii_space c" using "2.prems"(1) by (simp add: hex_lower_not_space)
  obtain h where h: "hexval c = Some h" using hexval_hex_lower "2.prems"(1) by fastforce
  obtain d ds where d: "cs = d # ds" using "2.prems"(2) by (cases cs) auto
  obtain l where l: "hexval d = Some l" using hexval_hex_lower "2.prems"(1) d by fastforce
  have "\<exists>bs. fromhex ds = Inr bs"
    using "2.IH"(2) [OF sp h d l] "2.prems" d by auto
  with sp h d l show ?case by auto
qed

section \<open>Fixed-width big-endian integers\<close>

fun be_bytes :: "nat \<Rightarrow> nat \<Rightarrow> bytes" where
  "be_bytes 0 n = []"
| "be_bytes (Suc k) n = be_bytes k (n div 256) @ [of_nat n]"

definition be_val :: "bytes \<Rightarrow> nat" where
  "be_val bs = foldl (\<lambda>a b. a * 256 + unat b) 0 bs"

definition pack_Q :: "nat \<Rightarrow> bytes res" where
  "pack_Q n = (if n < 2 ^ 64 then Inr (be_bytes 8 n) else Inl StructError)"

lemma length_be_bytes [simp, code_lengths]: "length (be_bytes k n) = k"
  by (induction k arbitrary: n) auto

lemma be_val_simps [simp]: "be_val [] = 0" "be_val (bs @ [b]) = be_val bs * 256 + unat b"
  by (simp_all add: be_val_def)

lemma be_val_be_bytes: "be_val (be_bytes k n) = n mod 256 ^ k"
proof (induction k arbitrary: n)
  case 0
  then show ?case by simp
next
  case (Suc k)
  have "n div 256 mod 256 ^ k * 256 + n mod 256 = n mod (256 * 256 ^ k)"
    by (simp add: mod_mult2_eq)
  with Suc show ?case by (simp add: unat_of_nat take_bit_eq_mod)
qed

lemma be_val_less: "be_val bs < 256 ^ length bs"
proof (induction bs rule: rev_induct)
  case Nil
  then show ?case by simp
next
  case (snoc b bs)
  then show ?case using unat_byte_less [of b] by simp
qed

lemma be_bytes_be_val: "be_bytes (length bs) (be_val bs) = bs"
proof (induction bs rule: rev_induct)
  case Nil
  then show ?case by simp
next
  case (snoc b bs)
  have "(be_val bs * 256 + unat b) div 256 = be_val bs" using unat_byte_less [of b] by simp
  moreover have "of_nat (be_val bs * 256 + unat b) = b"
    by (rule unsigned_word_eqI [where ?'a = nat]) (use unat_byte_less [of b] in \<open>simp only: unat_of_nat\<close>, simp add: take_bit_eq_mod)
  ultimately show ?case using snoc by (simp del: of_nat_add)
qed

lemma be_bytes_inj:
  "be_bytes k m = be_bytes k n \<Longrightarrow> m < 256 ^ k \<Longrightarrow> n < 256 ^ k \<Longrightarrow> m = n"
  by (metis be_val_be_bytes mod_less)

lemma pack_Q_inj: "pack_Q m = Inr b \<Longrightarrow> pack_Q n = Inr b \<Longrightarrow> m = n"
  using be_bytes_inj [of 8 m n] by (auto simp: pack_Q_def split: if_splits)

lemma length_pack_Q [code_lengths]: "pack_Q n = Inr b \<Longrightarrow> length b = 8"
  by (auto simp: pack_Q_def split: if_splits)

lemma be_val_pack_Q: "pack_Q n = Inr b \<Longrightarrow> be_val b = n"
  by (auto simp: pack_Q_def be_val_be_bytes split: if_splits)

section \<open>Decimal text of an integer\<close>

fun digits :: "nat \<Rightarrow> pystr" where
  "digits n = (if n < 10 then [48 + n] else digits (n div 10) @ [48 + n mod 10])"

declare digits.simps [simp del]

definition str_int :: "int \<Rightarrow> pystr" where
  "str_int n = (if n < 0 then 45 # digits (nat (- n)) else digits (nat n))"

definition digits_val :: "pystr \<Rightarrow> nat" where
  "digits_val ds = foldl (\<lambda>a d. a * 10 + (d - 48)) 0 ds"

lemma digits_val_digits: "digits_val (digits n) = n"
proof (induction n rule: digits.induct)
  case (1 n)
  then show ?case
    by (cases "n < 10") (subst digits.simps, simp add: digits_val_def)+
qed

lemma digits_inj: "digits m = digits n \<Longrightarrow> m = n"
  by (metis digits_val_digits)

lemma digits_range: "c \<in> set (digits n) \<Longrightarrow> 48 \<le> c \<and> c \<le> 57"
proof (induction n rule: digits.induct)
  case (1 n)
  show ?case
  proof (cases "n < 10")
    case True
    then show ?thesis using "1.prems" by (subst (asm) digits.simps) simp
  next
    case False
    then have "c \<in> set (digits (n div 10)) \<or> c = 48 + n mod 10"
      using "1.prems" by (subst (asm) digits.simps) auto
    then show ?thesis using "1.IH" [OF False] by auto
  qed
qed

lemma str_int_inj: "str_int m = str_int n \<Longrightarrow> m = n"
proof -
  have no45: "45 \<notin> set (digits k)" for k using digits_range [of 45 k] by auto
  have ne: "digits a \<noteq> 45 # xs" for a xs using no45 [of a] by (metis list.set_intros(1))
  assume "str_int m = str_int n"
  then show "m = n"
    using ne ne [symmetric] by (auto simp: str_int_def split: if_splits dest: digits_inj)
qed

lemma ascii_utf8: "(\<And>c. c \<in> set s \<Longrightarrow> c < 128) \<Longrightarrow> utf8_encode s = Some (map of_nat s)"
  by (induction s) (auto simp: utf8_cp_def)

lemma str_int_ascii: "c \<in> set (str_int n) \<Longrightarrow> c < 128"
  using digits_range by (fastforce simp: str_int_def split: if_splits)

lemma hex_ascii: "c \<in> set (hex b) \<Longrightarrow> c < 128"
  using set_hex by (fastforce simp: hex_lower_def)

text \<open>A SHA-256 digest as the readers insist on it: 64 lowercase hex digits. Such a spelling is unique.\<close>

definition hex64 :: "pystr \<Rightarrow> bool" where
  "hex64 v \<longleftrightarrow> length v = 64 \<and> (\<forall>c \<in> set v. hex_lower c)"

lemma hex64_hex: "length d = 32 \<Longrightarrow> hex64 (hex d)"
  using set_hex by (auto simp: hex64_def)

lemma hex64_inj:
  assumes "hex64 a" "hex64 b" "fromhex a = fromhex b"
  shows "a = b"
proof -
  obtain d where "fromhex a = Inr d"
    using fromhex_hex_lower [of a] assms(1) by (auto simp: hex64_def)
  then show ?thesis
    using hex_fromhex [of a d] hex_fromhex [of b d] assms by (auto simp: hex64_def)
qed

end
