(* ===== verification/Sha256.thy ===== *)
theory Sha256
  imports PyBytes
begin

unbundle bit_operations_syntax

text \<open>
  The digests of the Python standard library the program uses: \<^verbatim>\<open>hashlib.sha256\<close> (FIPS 180-4) on
  byte lists and \<^verbatim>\<open>hmac.new(key, msg, hashlib.sha256)\<close> (RFC 2104, block size 64) over any hash
  function. Every definition of the program that hashes takes the hash function as its first
  argument \<open>sha\<close>, so its theorems hold for every function the locale \<open>digest32\<close> admits; \<open>sha256\<close>
  is the instance the program runs with.
\<close>

section \<open>SHA-256\<close>

type_synonym w32 = "32 word"
type_synonym sha_state = "w32 \<times> w32 \<times> w32 \<times> w32 \<times> w32 \<times> w32 \<times> w32 \<times> w32"

definition rotr32 :: "nat \<Rightarrow> w32 \<Rightarrow> w32" where
  "rotr32 n x = drop_bit n x OR push_bit (32 - n) x"

text \<open>The standard's constants, eight big-endian 32-bit words to the numeral.\<close>

definition split_words :: "int \<Rightarrow> w32 list" where
  "split_words n = map (\<lambda>i. word_of_int (drop_bit (32 * (7 - i)) n)) [0..<8]"

definition sha_K :: "w32 list" where
  "sha_K = concat (map split_words
    [0x428a2f9871374491b5c0fbcfe9b5dba53956c25b59f111f1923f82a4ab1c5ed5,
     0xd807aa9812835b01243185be550c7dc372be5d7480deb1fe9bdc06a7c19bf174,
     0xe49b69c1efbe47860fc19dc6240ca1cc2de92c6f4a7484aa5cb0a9dc76f988da,
     0x983e5152a831c66db00327c8bf597fc7c6e00bf3d5a7914706ca635114292967,
     0x27b70a852e1b21384d2c6dfc53380d13650a7354766a0abb81c2c92e92722c85,
     0xa2bfe8a1a81a664bc24b8b70c76c51a3d192e819d6990624f40e3585106aa070,
     0x19a4c1161e376c082748774c34b0bcb5391c0cb34ed8aa4a5b9cca4f682e6ff3,
     0x748f82ee78a5636f84c878148cc7020890befffaa4506cebbef9a3f7c67178f2])"

definition sha_H0 :: sha_state where
  "sha_H0 = (case split_words 0x6a09e667bb67ae853c6ef372a54ff53a510e527f9b05688c1f83d9ab5be0cd19 of
     [a, b, c, d, e, f, g, h] \<Rightarrow> (a, b, c, d, e, f, g, h))"

definition sha_sig0 :: "w32 \<Rightarrow> w32" where
  "sha_sig0 x = rotr32 7 x XOR rotr32 18 x XOR drop_bit 3 x"

definition sha_sig1 :: "w32 \<Rightarrow> w32" where
  "sha_sig1 x = rotr32 17 x XOR rotr32 19 x XOR drop_bit 10 x"

definition sha_Sig0 :: "w32 \<Rightarrow> w32" where
  "sha_Sig0 x = rotr32 2 x XOR rotr32 13 x XOR rotr32 22 x"

definition sha_Sig1 :: "w32 \<Rightarrow> w32" where
  "sha_Sig1 x = rotr32 6 x XOR rotr32 11 x XOR rotr32 25 x"

text \<open>The message schedule, produced from a sliding window of sixteen words.\<close>

fun sha_schedule :: "nat \<Rightarrow> w32 list \<Rightarrow> w32 list" where
  "sha_schedule 0 ws = []"
| "sha_schedule (Suc n) ws =
     hd ws # sha_schedule n (tl ws @ [sha_sig1 (ws ! 14) + ws ! 9 + sha_sig0 (ws ! 1) + ws ! 0])"

fun sha_round :: "w32 \<times> w32 \<Rightarrow> sha_state \<Rightarrow> sha_state" where
  "sha_round (k, w) (a, b, c, d, e, f, g, h) =
     (let t1 = h + sha_Sig1 e + ((e AND f) XOR (NOT e AND g)) + k + w;
          t2 = sha_Sig0 a + ((a AND b) XOR (a AND c) XOR (b AND c))
      in (t1 + t2, a, b, c, d + t1, e, f, g))"

fun sha_add :: "sha_state \<Rightarrow> sha_state \<Rightarrow> sha_state" where
  "sha_add (a, b, c, d, e, f, g, h) (a', b', c', d', e', f', g', h') =
     (a + a', b + b', c + c', d + d', e + e', f + f', g + g', h + h')"

fun words_of :: "bytes \<Rightarrow> w32 list" where
  "words_of (a # b # c # d # bs) =
     (push_bit 24 (ucast a) OR push_bit 16 (ucast b) OR push_bit 8 (ucast c) OR ucast d) # words_of bs"
| "words_of _ = []"

definition sha_block :: "sha_state \<Rightarrow> bytes \<Rightarrow> sha_state" where
  "sha_block st blk = sha_add (fold sha_round (zip sha_K (sha_schedule 64 (words_of blk))) st) st"

function sha_blocks :: "sha_state \<Rightarrow> bytes \<Rightarrow> sha_state" where
  "sha_blocks st bs = (if bs = [] then st else sha_blocks (sha_block st (take 64 bs)) (drop 64 bs))"
  by pat_completeness auto
termination
  by (relation "measure (\<lambda>(st, bs). length bs)") auto

declare sha_blocks.simps [simp del]

definition sha_pad :: "bytes \<Rightarrow> bytes" where
  "sha_pad m = m @ [0x80] @ replicate ((119 - length m mod 64) mod 64) 0 @ be_bytes 8 (8 * length m)"

definition bytes_of :: "w32 \<Rightarrow> bytes" where
  "bytes_of w = [ucast (drop_bit 24 w), ucast (drop_bit 16 w), ucast (drop_bit 8 w), ucast w]"

fun sha_out :: "sha_state \<Rightarrow> bytes" where
  "sha_out (a, b, c, d, e, f, g, h) = concat (map bytes_of [a, b, c, d, e, f, g, h])"

definition sha256 :: "bytes \<Rightarrow> bytes" where
  "sha256 m = sha_out (sha_blocks sha_H0 (sha_pad m))"

lemma length_sha_out [code_lengths]: "length (sha_out st) = 32"
  by (cases st rule: sha_out.cases) (simp add: bytes_of_def)

lemma length_sha256 [simp, code_lengths]: "length (sha256 m) = 32"
  by (simp add: sha256_def length_sha_out)

lemma length_sha_pad: "length (sha_pad m) mod 64 = 0"
proof -
  define r where "r = length m mod 64"
  have n: "length m = 64 * (length m div 64) + r" by (simp add: r_def)
  have "r < 64" by (simp add: r_def)
  have "r + 1 + (119 - r) mod 64 + 8 = 64 \<or> r + 1 + (119 - r) mod 64 + 8 = 128"
  proof (cases "r \<le> 55")
    case True
    then have "119 - r = 55 - r + 64" by simp
    then have "(119 - r) mod 64 = 55 - r" by (simp only: mod_add_self2) simp
    with True show ?thesis by simp
  next
    case False
    then have "(119 - r) mod 64 = 119 - r" by simp
    with False \<open>r < 64\<close> show ?thesis by simp
  qed
  then have "64 dvd r + 1 + (119 - r) mod 64 + 8"
    by (elim disjE) (simp_all only: dvd_refl, simp)
  then obtain q where "r + 1 + (119 - r) mod 64 + 8 = 64 * q" by (rule dvdE)
  moreover have "length (sha_pad m) = length m + 1 + (119 - r) mod 64 + 8"
    by (simp add: sha_pad_def r_def)
  ultimately have "length (sha_pad m) = 64 * (length m div 64 + q)"
    using n by (simp add: algebra_simps)
  then show ?thesis by simp
qed

section \<open>The contract of a 32-byte digest\<close>

locale digest32 =
  fixes sha :: "bytes \<Rightarrow> bytes"
  assumes digest_length: "length (sha m) = 32"
begin

lemma length_hexdigest: "length (hex (sha m)) = 64"
  by (simp add: digest_length)

lemma digest_prefix: "sha a @ x = sha b @ y \<longleftrightarrow> sha a = sha b \<and> x = y"
  by (rule append_eq_prefix_length) (simp add: digest_length)

lemma hexdigest_inj_on: "inj_on sha A \<Longrightarrow> a \<in> A \<Longrightarrow> b \<in> A \<Longrightarrow> hex (sha a) = hex (sha b) \<longleftrightarrow> a = b"
  by (auto dest: inj_onD)

end

interpretation sha256: digest32 sha256
  by unfold_locales simp

section \<open>HMAC\<close>

definition hmac_key :: "(bytes \<Rightarrow> bytes) \<Rightarrow> bytes \<Rightarrow> bytes" where
  "hmac_key sha k = (let k0 = (if 64 < length k then sha k else k) in k0 @ replicate (64 - length k0) 0)"

definition hmac :: "(bytes \<Rightarrow> bytes) \<Rightarrow> bytes \<Rightarrow> bytes \<Rightarrow> bytes" where
  "hmac sha k m =
     sha (map (\<lambda>b. b XOR 0x5c) (hmac_key sha k) @ sha (map (\<lambda>b. b XOR 0x36) (hmac_key sha k) @ m))"

text \<open>
  What one HMAC applies the hash function to; two messages with the same MAC under one key are
  equal, or the function collides on these inputs.
\<close>

definition hmac_inputs :: "(bytes \<Rightarrow> bytes) \<Rightarrow> bytes \<Rightarrow> bytes \<Rightarrow> bytes set" where
  "hmac_inputs sha k m =
     (let i = map (\<lambda>b. b XOR 0x36) (hmac_key sha k) @ m
      in {i, map (\<lambda>b. b XOR 0x5c) (hmac_key sha k) @ sha i})"

lemma hmac_inj:
  assumes "inj_on sha (hmac_inputs sha k m \<union> hmac_inputs sha k m')" and "hmac sha k m = hmac sha k m'"
  shows "m = m'"
proof -
  let ?i = "\<lambda>m. map (\<lambda>b. b XOR 0x36) (hmac_key sha k) @ m"
  let ?o = "\<lambda>m. map (\<lambda>b. b XOR 0x5c) (hmac_key sha k) @ sha (?i m)"
  have "?o m = ?o m'"
    by (rule inj_onD [OF assms(1) assms(2) [unfolded hmac_def]]) (simp_all add: hmac_inputs_def Let_def)
  then have "sha (?i m) = sha (?i m')" by simp
  then have "?i m = ?i m'"
    by (rule inj_onD [OF assms(1)]) (simp_all add: hmac_inputs_def Let_def)
  then show ?thesis by simp
qed

end
