(* ===== verification/Merkle.thy ===== *)
theory Merkle
  imports PyBytes Sha256
begin

text \<open>
  Batch roots (\<^verbatim>\<open>domain/anchoring.py\<close>): the RFC 6962 tree hash, the incremental forest that keeps
  the same root without rehashing, and the definitions of membership and consistency proofs and of
  their verifiers. This theory proves the incremental forest equal to the tree hash at every size and
  that a root commits to the list of leaves, its length included; the proofs about the two verifiers
  are in the theories that follow.
\<close>

section \<open>Hashes\<close>

definition LEAF_PREFIX :: byte where "LEAF_PREFIX = 0"
definition NODE_PREFIX :: byte where "NODE_PREFIX = 1"

definition leaf_hash :: "(bytes \<Rightarrow> bytes) \<Rightarrow> bytes \<Rightarrow> bytes" where
  "leaf_hash sha leaf = sha (LEAF_PREFIX # leaf)"

definition pair_hash :: "(bytes \<Rightarrow> bytes) \<Rightarrow> bytes \<Rightarrow> bytes \<Rightarrow> bytes" where
  "pair_hash sha left right = sha (NODE_PREFIX # left @ right)"

text \<open>The loop of \<open>_split_point\<close>; the guard \<open>0 < k\<close> always holds, the loop starts at 1.\<close>

function split_loop :: "nat \<Rightarrow> nat \<Rightarrow> nat" where
  "split_loop k n = (if 0 < k \<and> k * 2 < n then split_loop (k * 2) n else k)"
  by pat_completeness auto
termination by (relation "measure (\<lambda>(k, n). n - k)") auto

declare split_loop.simps [simp del]

definition split_point :: "nat \<Rightarrow> nat" where
  "split_point n = split_loop 1 n"

lemma split_loop_pow2:
  "2 ^ j < n \<Longrightarrow> \<exists>h. split_loop (2 ^ j) n = 2 ^ h \<and> 2 ^ h < n \<and> n \<le> 2 * 2 ^ h"
proof (induction "2 ^ j :: nat" n arbitrary: j rule: split_loop.induct)
  case (1 n)
  show ?case
  proof (cases "2 ^ j * 2 < n")
    case True
    then have "\<exists>h. split_loop (2 ^ Suc j) n = 2 ^ h \<and> 2 ^ h < n \<and> n \<le> 2 * 2 ^ h"
      using 1(1) [of "Suc j"] by (simp add: mult.commute)
    with True show ?thesis by (simp add: split_loop.simps [of "2 ^ j"] mult.commute)
  next
    case False
    with 1(2) show ?thesis by (auto simp: split_loop.simps [of "2 ^ j"] mult.commute intro!: exI [of _ j])
  qed
qed

lemma split_point_pow2: "2 \<le> n \<Longrightarrow> \<exists>h. split_point n = 2 ^ h \<and> 2 ^ h < n \<and> n \<le> 2 * 2 ^ h"
  using split_loop_pow2 [of 0 n] by (simp add: split_point_def)

lemma split_point_unique: "2 ^ h < n \<Longrightarrow> n \<le> 2 * 2 ^ h \<Longrightarrow> split_point n = 2 ^ h"
proof -
  assume n: "2 ^ h < n" "n \<le> 2 * 2 ^ h"
  have "(1::nat) \<le> 2 ^ h" by simp
  with n(1) have "2 \<le> n" by linarith
  then obtain g where g: "split_point n = 2 ^ g" "2 ^ g < n" "n \<le> 2 * 2 ^ g"
    using split_point_pow2 by blast
  have "h = g" using n g by (intro pow2_squeeze) linarith+
  with g show ?thesis by simp
qed

lemma split_point_bounds: "n \<noteq> 0 \<Longrightarrow> n \<noteq> Suc 0 \<Longrightarrow> 0 < split_point n \<and> split_point n < n"
  using split_point_pow2 [of n] by fastforce

lemma split_point_bounds_gt:
  "\<not> n \<le> Suc 0 \<Longrightarrow> 0 < split_point n" "\<not> n \<le> Suc 0 \<Longrightarrow> split_point n < n"
  using split_point_bounds [of n] by (cases n; force)+

function tree_hash :: "(bytes \<Rightarrow> bytes) \<Rightarrow> bytes list \<Rightarrow> bytes" where
  "tree_hash sha leaves =
     (let n = length leaves in
      if n = 0 then sha []
      else if n = 1 then leaf_hash sha (leaves ! 0)
      else let k = split_point n in
        pair_hash sha (tree_hash sha (take k leaves)) (tree_hash sha (drop k leaves)))"
  by pat_completeness auto
termination
proof (relation "measure (\<lambda>(sha, leaves). length leaves)", goal_cases)
  case (2 sha leaves n k)
  then show ?case using split_point_bounds [of n] by simp
next
  case (3 sha leaves n k)
  then show ?case using split_point_bounds [of n] by simp
qed simp

declare tree_hash.simps [simp del]

section \<open>The incremental forest\<close>

record incremental_merkle =
  peaks :: "(nat \<times> bytes) list"
  im_size :: nat
  last_leaf :: "pystr option"

definition new_merkle :: incremental_merkle where
  "new_merkle = \<lparr>peaks = [], im_size = 0, last_leaf = None\<rparr>"

text \<open>The carry loop of \<open>push\<close>: the last peak is popped while its height equals the new node's.\<close>

function push_loop ::
  "(bytes \<Rightarrow> bytes) \<Rightarrow> (nat \<times> bytes) list \<Rightarrow> nat \<Rightarrow> bytes \<Rightarrow> (nat \<times> bytes) list" where
  "push_loop sha ps height node =
     (if ps \<noteq> [] \<and> fst (last ps) = height
      then push_loop sha (butlast ps) (height + 1) (pair_hash sha (snd (last ps)) node)
      else ps @ [(height, node)])"
  by pat_completeness auto
termination by (relation "measure (\<lambda>(sha, ps, h, nd). length ps)") auto

declare push_loop.simps [simp del]

definition push :: "(bytes \<Rightarrow> bytes) \<Rightarrow> incremental_merkle \<Rightarrow> pystr \<Rightarrow> incremental_merkle res" where
  "push sha t eh =
     res_map (\<lambda>leaf. \<lparr>peaks = push_loop sha (peaks t) 0 (leaf_hash sha leaf),
                      im_size = im_size t + 1, last_leaf = Some eh\<rparr>) (fromhex eh)"

definition im_root :: "(bytes \<Rightarrow> bytes) \<Rightarrow> incremental_merkle \<Rightarrow> pystr" where
  "im_root sha t =
     (if im_size t = 0 then hex (sha [])
      else let hashes = map snd (peaks t) in
        hex (fold (pair_hash sha) (rev (butlast hashes)) (last hashes)))"

fun from_hashes_loop ::
  "(bytes \<Rightarrow> bytes) \<Rightarrow> incremental_merkle \<Rightarrow> pystr list \<Rightarrow> incremental_merkle res" where
  "from_hashes_loop sha t [] = Inr t"
| "from_hashes_loop sha t (h # hs) = res_bind (push sha t h) (\<lambda>t'. from_hashes_loop sha t' hs)"

definition from_hashes :: "(bytes \<Rightarrow> bytes) \<Rightarrow> pystr list \<Rightarrow> incremental_merkle res" where
  "from_hashes sha hs = from_hashes_loop sha new_merkle hs"

section \<open>Batch roots and membership proofs\<close>

definition batch_root :: "(bytes \<Rightarrow> bytes) \<Rightarrow> pystr list \<Rightarrow> pystr res" where
  "batch_root sha hs = res_map (\<lambda>ls. hex (tree_hash sha ls)) (res_mapM fromhex hs)"

text \<open>
  \<open>_audit_path\<close>. The code recurses on a non-empty batch only, \<open>membership_proof\<close> has refused every other
  index; the first branch covers the empty list too, where the code would not return.
\<close>

function audit_path :: "(bytes \<Rightarrow> bytes) \<Rightarrow> nat \<Rightarrow> bytes list \<Rightarrow> bytes list" where
  "audit_path sha m leaves =
     (if length leaves \<le> 1 then []
      else let k = split_point (length leaves) in
        if m < k then audit_path sha m (take k leaves) @ [tree_hash sha (drop k leaves)]
        else audit_path sha (m - k) (drop k leaves) @ [tree_hash sha (take k leaves)])"
  by pat_completeness auto
termination
proof (relation "measure (\<lambda>(sha, m, leaves). length leaves)", goal_cases)
  case (2 sha m leaves k)
  then show ?case using split_point_bounds_gt [of "length leaves"] by auto
next
  case (3 sha m leaves k)
  then show ?case using split_point_bounds_gt [of "length leaves"] by auto
qed simp

declare audit_path.simps [simp del]

definition membership_proof :: "(bytes \<Rightarrow> bytes) \<Rightarrow> pystr list \<Rightarrow> int \<Rightarrow> pystr list res" where
  "membership_proof sha hs index =
     (if \<not> (0 \<le> index \<and> index < int (length hs)) then Inl IndexError
      else res_map (\<lambda>ls. map hex (audit_path sha (nat index) ls)) (res_mapM fromhex hs))"

text \<open>
  The inner \<^verbatim>\<open>while True\<close> of \<open>verify_membership\<close>: halve both numbers at least once, until the first is
  odd or zero.
\<close>

function halve_do :: "nat \<Rightarrow> nat \<Rightarrow> nat \<times> nat" where
  "halve_do fn sn =
     (let fn' = fn div 2; sn' = sn div 2 in
      if odd fn' \<or> fn' = 0 then (fn', sn') else halve_do fn' sn')"
  by pat_completeness auto
termination by (relation "measure fst") auto

declare halve_do.simps [simp del]

definition membership_step ::
  "(bytes \<Rightarrow> bytes) \<Rightarrow> nat \<times> nat \<times> bytes \<Rightarrow> bytes \<Rightarrow> nat \<times> nat \<times> bytes" where
  "membership_step sha st sibling = (case st of (fn, sn, node) \<Rightarrow>
     if odd fn \<or> fn = sn then
       let node' = pair_hash sha sibling node;
           (fn', sn') = (if even fn then halve_do fn sn else (fn, sn))
       in (fn' div 2, sn' div 2, node')
     else (fn div 2, sn div 2, pair_hash sha node sibling))"

fun membership_loop ::
  "(bytes \<Rightarrow> bytes) \<Rightarrow> nat \<times> nat \<times> bytes \<Rightarrow> bytes list \<Rightarrow> (nat \<times> nat \<times> bytes) option" where
  "membership_loop sha st [] = Some st"
| "membership_loop sha st (s # ss) =
     (if fst (snd st) = 0 then None else membership_loop sha (membership_step sha st s) ss)"

definition verify_membership ::
  "(bytes \<Rightarrow> bytes) \<Rightarrow> pystr \<Rightarrow> int \<Rightarrow> int \<Rightarrow> pystr list \<Rightarrow> pystr \<Rightarrow> bool" where
  "verify_membership sha eh index batch_size pf root =
     (if index < 0 \<or> batch_size < 1 \<or> index \<ge> batch_size then False
      else (case res_bind (fromhex eh) (\<lambda>leaf. res_map (Pair leaf) (res_mapM fromhex pf)) of
              Inl _ \<Rightarrow> False
            | Inr (leaf, siblings) \<Rightarrow>
                (case membership_loop sha (nat index, nat (batch_size - 1), leaf_hash sha leaf) siblings of
                   None \<Rightarrow> False
                 | Some (fn, sn, node) \<Rightarrow> sn = 0 \<and> hex node = root)))"

section \<open>Consistency proofs\<close>

text \<open>
  \<open>_consistency_subproof\<close>. \<open>consistency_proof\<close> calls it with \<open>1 \<le> m \<le> n\<close>, which every recursive call
  keeps; the guard on the length covers the calls the code never makes, where it would not return.
\<close>

function consistency_subproof :: "(bytes \<Rightarrow> bytes) \<Rightarrow> nat \<Rightarrow> bytes list \<Rightarrow> bool \<Rightarrow> bytes list" where
  "consistency_subproof sha m leaves complete =
     (let n = length leaves in
      if m = n then (if complete then [] else [tree_hash sha leaves])
      else if n \<le> 1 then []
      else let k = split_point n in
        if m \<le> k then consistency_subproof sha m (take k leaves) complete @ [tree_hash sha (drop k leaves)]
        else consistency_subproof sha (m - k) (drop k leaves) False @ [tree_hash sha (take k leaves)])"
  by pat_completeness auto
termination
proof (relation "measure (\<lambda>(sha, m, leaves, c). length leaves)", goal_cases)
  case (2 sha m leaves c n k)
  then show ?case using split_point_bounds_gt [of n] by auto
next
  case (3 sha m leaves c n k)
  then show ?case using split_point_bounds_gt [of n] by auto
qed simp

declare consistency_subproof.simps [simp del]

definition consistency_proof :: "(bytes \<Rightarrow> bytes) \<Rightarrow> pystr list \<Rightarrow> int \<Rightarrow> pystr list res" where
  "consistency_proof sha hs old_size =
     (if \<not> (1 \<le> old_size \<and> old_size \<le> int (length hs)) then Inl IndexError
      else res_map (\<lambda>ls. map hex (consistency_subproof sha (nat old_size) ls True)) (res_mapM fromhex hs))"

text \<open>\<^verbatim>\<open>while fn & 1\<close>: both numbers lose the trailing ones of the first.\<close>

function strip_ones :: "nat \<Rightarrow> nat \<Rightarrow> nat \<times> nat" where
  "strip_ones fn sn = (if odd fn then strip_ones (fn div 2) (sn div 2) else (fn, sn))"
  by pat_completeness auto
termination by (relation "measure fst") (auto elim!: oddE)

declare strip_ones.simps [simp del]

text \<open>\<^verbatim>\<open>while not (fn & 1) and fn != 0\<close>: both numbers lose the trailing zeros of the first.\<close>

function halve_while :: "nat \<Rightarrow> nat \<Rightarrow> nat \<times> nat" where
  "halve_while fn sn = (if even fn \<and> fn \<noteq> 0 then halve_while (fn div 2) (sn div 2) else (fn, sn))"
  by pat_completeness auto
termination by (relation "measure fst") auto

declare halve_while.simps [simp del]

definition consistency_step ::
  "(bytes \<Rightarrow> bytes) \<Rightarrow> nat \<times> nat \<times> bytes \<times> bytes \<Rightarrow> bytes \<Rightarrow> nat \<times> nat \<times> bytes \<times> bytes" where
  "consistency_step sha st sibling = (case st of (fn, sn, fr, sr) \<Rightarrow>
     if odd fn \<or> fn = sn then
       let (fn', sn') = halve_while fn sn
       in (fn' div 2, sn' div 2, pair_hash sha sibling fr, pair_hash sha sibling sr)
     else (fn div 2, sn div 2, fr, pair_hash sha sr sibling))"

fun consistency_loop ::
  "(bytes \<Rightarrow> bytes) \<Rightarrow> nat \<times> nat \<times> bytes \<times> bytes \<Rightarrow> bytes list \<Rightarrow> (nat \<times> nat \<times> bytes \<times> bytes) option" where
  "consistency_loop sha st [] = Some st"
| "consistency_loop sha st (s # ss) =
     (if fst (snd st) = 0 then None else consistency_loop sha (consistency_step sha st s) ss)"

text \<open>\<^verbatim>\<open>old_size & (old_size - 1) == 0\<close>\<close>

definition is_pow2_size :: "int \<Rightarrow> bool" where
  "is_pow2_size n \<longleftrightarrow> and n (n - 1) = 0"

definition verify_consistency ::
  "(bytes \<Rightarrow> bytes) \<Rightarrow> pystr \<Rightarrow> int \<Rightarrow> pystr \<Rightarrow> int \<Rightarrow> pystr list \<Rightarrow> bool" where
  "verify_consistency sha old_root old_size new_root new_size pf =
     (if old_size < 1 \<or> new_size < old_size then False
      else (case res_bind (fromhex old_root) (\<lambda>ob. res_bind (fromhex new_root) (\<lambda>nb.
                   res_map (\<lambda>ps. (ob, nb, ps)) (res_mapM fromhex pf))) of
              Inl _ \<Rightarrow> False
            | Inr (old_hash, new_hash, path) \<Rightarrow>
                if old_size = new_size then path = [] \<and> old_hash = new_hash
                else if path = [] then False
                else
                  let path' = (if is_pow2_size old_size then old_hash # path else path);
                      (fn, sn) = strip_ones (nat (old_size - 1)) (nat (new_size - 1))
                  in (case consistency_loop sha (fn, sn, hd path', hd path') (tl path') of
                        None \<Rightarrow> False
                      | Some (fn', sn', fr, sr) \<Rightarrow> fr = old_hash \<and> sr = new_hash \<and> sn' = 0)))"

section \<open>The tree hash\<close>

lemma tree_hash_Nil: "tree_hash sha [] = sha []"
  by (simp add: tree_hash.simps)

lemma tree_hash_single: "tree_hash sha [x] = leaf_hash sha x"
  by (simp add: tree_hash.simps)

lemma tree_hash_append:
  assumes "length xs = 2 ^ h" and "0 < length ys" and "length ys \<le> 2 ^ h"
  shows "tree_hash sha (xs @ ys) = pair_hash sha (tree_hash sha xs) (tree_hash sha ys)"
proof -
  have "split_point (length (xs @ ys)) = 2 ^ h"
    using assms by (intro split_point_unique) simp_all
  moreover have "length (xs @ ys) \<ge> 2"
    using assms(1,2) by (cases xs; cases ys) auto
  ultimately show ?thesis using assms(1) by (simp add: tree_hash.simps [of sha "xs @ ys"] Let_def)
qed

text \<open>Every list of two or more leaves is such a concatenation: the induction the proofs use.\<close>

lemma split_leaves:
  assumes "2 \<le> length leaves"
  obtains xs ys h where "leaves = xs @ ys" "length xs = 2 ^ h" "0 < length ys" "length ys \<le> 2 ^ h"
    "split_point (length leaves) = 2 ^ h"
proof -
  obtain h where h: "split_point (length leaves) = 2 ^ h" "2 ^ h < length leaves"
      "length leaves \<le> 2 * 2 ^ h"
    using split_point_pow2 [OF assms] by blast
  show ?thesis
    by (rule that [of "take (2 ^ h) leaves" "drop (2 ^ h) leaves" h]) (use h in auto)
qed

lemma leaves_induct [case_names Nil single append]:
  assumes "P []" and "\<And>x. P [x]"
    and "\<And>xs ys h. length xs = 2 ^ h \<Longrightarrow> 0 < length ys \<Longrightarrow> length ys \<le> 2 ^ h \<Longrightarrow> P xs \<Longrightarrow> P ys
           \<Longrightarrow> P (xs @ ys)"
  shows "P leaves"
proof (induction leaves rule: length_induct)
  case (1 leaves)
  show ?case
  proof (cases "2 \<le> length leaves")
    case True
    then obtain xs ys h where s: "leaves = xs @ ys" "length xs = 2 ^ h" "0 < length ys"
      "length ys \<le> 2 ^ h" by (rule split_leaves)
    then have "length xs < length leaves" "length ys < length leaves" by simp_all
    then have "P xs" "P ys" using 1 by simp_all
    with s assms(3) show ?thesis by blast
  next
    case False
    then have "leaves = [] \<or> (\<exists>x. leaves = [x])" by (cases leaves) (auto simp: not_less_eq_eq)
    with assms(1,2) show ?thesis by blast
  qed
qed

section \<open>The forest keeps the root\<close>

text \<open>
  The peaks of a forest over \<open>leaves\<close>, from the left: complete subtrees of strictly decreasing
  height.
\<close>

fun forest :: "(bytes \<Rightarrow> bytes) \<Rightarrow> (nat \<times> bytes) list \<Rightarrow> bytes list \<Rightarrow> bool" where
  "forest sha [] leaves \<longleftrightarrow> leaves = []"
| "forest sha (p # ps) leaves \<longleftrightarrow>
     2 ^ fst p \<le> length leaves \<and> snd p = tree_hash sha (take (2 ^ fst p) leaves)
     \<and> (\<forall>q \<in> set ps. fst q < fst p) \<and> forest sha ps (drop (2 ^ fst p) leaves)"

lemma forest_snoc:
  "forest sha (ps @ [p]) leaves \<longleftrightarrow>
     (\<exists>front rear. leaves = front @ rear \<and> forest sha ps front \<and> (\<forall>q \<in> set ps. fst p < fst q)
        \<and> length rear = 2 ^ fst p \<and> snd p = tree_hash sha rear)"
proof (induction ps arbitrary: leaves)
  case Nil
  show ?case by auto
next
  case (Cons q ps)
  let ?k = "2 ^ fst q"
  show ?case
  proof
    assume l: "forest sha ((q # ps) @ [p]) leaves"
    then have "forest sha (ps @ [p]) (drop ?k leaves)" by simp
    then obtain front rear where fb: "drop ?k leaves = front @ rear" "forest sha ps front"
      "\<forall>q \<in> set ps. fst p < fst q" "length rear = 2 ^ fst p" "snd p = tree_hash sha rear"
      using Cons.IH by blast
    have "leaves = (take ?k leaves @ front) @ rear" using fb(1) by (metis append.assoc append_take_drop_id)
    moreover have "forest sha (q # ps) (take ?k leaves @ front)" using l fb(2) by simp
    moreover have "\<forall>q \<in> set (q # ps). fst p < fst q" using l fb(3) by simp
    ultimately show "\<exists>front rear. leaves = front @ rear \<and> forest sha (q # ps) front
        \<and> (\<forall>q \<in> set (q # ps). fst p < fst q) \<and> length rear = 2 ^ fst p \<and> snd p = tree_hash sha rear"
      using fb(4,5) by blast
  next
    assume "\<exists>front rear. leaves = front @ rear \<and> forest sha (q # ps) front
        \<and> (\<forall>q \<in> set (q # ps). fst p < fst q) \<and> length rear = 2 ^ fst p \<and> snd p = tree_hash sha rear"
    then obtain front rear where fb: "leaves = front @ rear" "forest sha (q # ps) front"
      "\<forall>q \<in> set (q # ps). fst p < fst q" "length rear = 2 ^ fst p" "snd p = tree_hash sha rear"
      by blast
    then have "forest sha (ps @ [p]) (drop ?k front @ rear)"
      using Cons.IH [of "drop ?k front @ rear"] by auto
    with fb show "forest sha ((q # ps) @ [p]) leaves" by auto
  qed
qed

lemma forest_length: "forest sha ps leaves \<Longrightarrow> (\<forall>q \<in> set ps. fst q < h) \<Longrightarrow> length leaves < 2 ^ h"
proof (induction ps arbitrary: leaves h)
  case Nil
  then show ?case by simp
next
  case (Cons p ps)
  then have "length (drop (2 ^ fst p) leaves) < 2 ^ fst p" by (intro Cons.IH) auto
  moreover have "2 * 2 ^ fst p \<le> (2::nat) ^ h" using Cons.prems(2) by (intro pow2_mono_Suc) simp
  ultimately show ?case by simp
qed

lemma push_loop_forest:
  "forest sha ps front \<Longrightarrow> (\<forall>q \<in> set ps. height \<le> fst q) \<Longrightarrow> length rear = 2 ^ height
    \<Longrightarrow> node = tree_hash sha rear \<Longrightarrow> forest sha (push_loop sha ps height node) (front @ rear)"
proof (induction sha ps height node arbitrary: front rear rule: push_loop.induct)
  case (1 sha ps height node)
  show ?case
  proof (cases "ps \<noteq> [] \<and> fst (last ps) = height")
    case True
    then have ps: "ps = butlast ps @ [last ps]" by simp
    from "1.prems"(1) obtain f b where fb: "front = f @ b" "forest sha (butlast ps) f"
      "\<forall>q \<in> set (butlast ps). height < fst q" "length b = 2 ^ height" "snd (last ps) = tree_hash sha b"
      using forest_snoc [of sha "butlast ps" "last ps" front] True ps by auto
    have "pair_hash sha (snd (last ps)) node = tree_hash sha (b @ rear)"
      using tree_hash_append [of b height rear] fb(4,5) "1.prems"(3,4) by simp
    then have "forest sha (push_loop sha (butlast ps) (height + 1) (pair_hash sha (snd (last ps)) node))
                 (f @ b @ rear)"
      using fb "1.prems"(3) by (intro "1.IH" [OF True]) auto
    then show ?thesis using True fb(1) by (simp add: push_loop.simps [of sha ps])
  next
    case False
    have "\<forall>q \<in> set ps. height < fst q"
    proof (cases "ps = []")
      case False
      with \<open>\<not> (ps \<noteq> [] \<and> fst (last ps) = height)\<close> "1.prems"(2) have l: "height < fst (last ps)"
        by (metis last_in_set order_le_neq_trans)
      have "\<forall>q \<in> set (butlast ps). fst (last ps) < fst q"
        using forest_snoc [of sha "butlast ps" "last ps" front] "1.prems"(1) False by auto
      then have "\<forall>q \<in> set (butlast ps @ [last ps]). height < fst q" using l by auto
      then show ?thesis using False by simp
    qed simp
    then show ?thesis
      using False "1.prems" by (auto simp: push_loop.simps [of sha ps] forest_snoc)
  qed
qed

lemma forest_root:
  "forest sha ps leaves \<Longrightarrow> ps \<noteq> [] \<Longrightarrow>
     fold (pair_hash sha) (rev (butlast (map snd ps))) (last (map snd ps)) = tree_hash sha leaves"
proof (induction ps arbitrary: leaves)
  case (Cons p ps)
  let ?k = "2 ^ fst p"
  show ?case
  proof (cases "ps = []")
    case True
    with Cons.prems show ?thesis by simp
  next
    case False
    have f: "forest sha ps (drop ?k leaves)" using Cons.prems by simp
    have "length (drop ?k leaves) < ?k" using forest_length [OF f] Cons.prems(1) by simp
    moreover have "0 < length (drop ?k leaves)" using f False by (cases ps; cases "drop ?k leaves") auto
    moreover have "length (take ?k leaves) = ?k" using Cons.prems by simp
    ultimately have "tree_hash sha (take ?k leaves @ drop ?k leaves)
        = pair_hash sha (tree_hash sha (take ?k leaves)) (tree_hash sha (drop ?k leaves))"
      by (intro tree_hash_append [of _ "fst p"]) linarith+
    then show ?thesis using Cons.IH [OF f False] Cons.prems(1) False by simp
  qed
qed simp

definition merkle_ok :: "(bytes \<Rightarrow> bytes) \<Rightarrow> pystr list \<Rightarrow> incremental_merkle \<Rightarrow> bool" where
  "merkle_ok sha hs t \<longleftrightarrow>
     (\<exists>ls. res_mapM fromhex hs = Inr ls \<and> forest sha (peaks t) ls)
     \<and> im_size t = length hs \<and> last_leaf t = (if hs = [] then None else Some (last hs))"

lemma new_merkle_ok: "merkle_ok sha [] new_merkle"
  by (simp add: merkle_ok_def new_merkle_def)

lemma push_ok:
  assumes "merkle_ok sha hs t" and "push sha t h = Inr t'"
  shows "merkle_ok sha (hs @ [h]) t'"
proof -
  obtain ls where ls: "res_mapM fromhex hs = Inr ls" "forest sha (peaks t) ls"
    using assms(1) by (auto simp: merkle_ok_def)
  obtain leaf where leaf: "fromhex h = Inr leaf"
    and t': "t' = \<lparr>peaks = push_loop sha (peaks t) 0 (leaf_hash sha leaf),
                   im_size = im_size t + 1, last_leaf = Some h\<rparr>"
    using assms(2) by (auto simp: push_def res_elims)
  have "forest sha (push_loop sha (peaks t) 0 (leaf_hash sha leaf)) (ls @ [leaf])"
    using ls(2) by (intro push_loop_forest) (auto simp: tree_hash_single)
  then show ?thesis using assms(1) ls leaf t' by (auto simp: merkle_ok_def res_mapM_append)
qed

lemma from_hashes_loop_ok:
  "merkle_ok sha done t \<Longrightarrow> from_hashes_loop sha t hs = Inr t' \<Longrightarrow> merkle_ok sha (done @ hs) t'"
proof (induction hs arbitrary: "done" t)
  case (Cons h hs)
  then obtain u where "push sha t h = Inr u" "from_hashes_loop sha u hs = Inr t'"
    by (auto simp: res_elims)
  with Cons show ?case using push_ok [of sha "done" t h u] Cons.IH [of "done @ [h]" u] by simp
qed simp

lemma from_hashes_ok: "from_hashes sha hs = Inr t \<Longrightarrow> merkle_ok sha hs t"
  using from_hashes_loop_ok [OF new_merkle_ok] by (simp add: from_hashes_def)

lemma merkle_ok_root: "merkle_ok sha hs t \<Longrightarrow> batch_root sha hs = Inr (im_root sha t)"
proof -
  assume ok: "merkle_ok sha hs t"
  then obtain ls where ls: "res_mapM fromhex hs = Inr ls" "forest sha (peaks t) ls"
    by (auto simp: merkle_ok_def)
  have len: "length ls = im_size t" using ok res_mapM_length [OF ls(1)] by (simp add: merkle_ok_def)
  show ?thesis
  proof (cases "im_size t = 0")
    case True
    then show ?thesis using ls len by (simp add: batch_root_def im_root_def tree_hash_Nil)
  next
    case False
    then have "peaks t \<noteq> []" using ls(2) len by (cases "peaks t") auto
    then show ?thesis using False forest_root [OF ls(2)] ls(1) by (simp add: batch_root_def im_root_def)
  qed
qed

lemma from_hashes_loop_Inl:
  "from_hashes_loop sha t hs = Inl e \<longleftrightarrow> res_mapM fromhex hs = Inl e"
  by (induction hs arbitrary: t) (auto simp: push_def res_elims)

section \<open>A root commits to its leaves\<close>

text \<open>What the tree hash of a list of leaves applies the hash function to.\<close>

function tree_inputs :: "(bytes \<Rightarrow> bytes) \<Rightarrow> bytes list \<Rightarrow> bytes set" where
  "tree_inputs sha leaves =
     (let n = length leaves in
      if n = 0 then {[]}
      else if n = 1 then {LEAF_PREFIX # leaves ! 0}
      else let k = split_point n; l = take k leaves; r = drop k leaves in
        {NODE_PREFIX # tree_hash sha l @ tree_hash sha r} \<union> tree_inputs sha l \<union> tree_inputs sha r)"
  by pat_completeness auto
termination
proof (relation "measure (\<lambda>(sha, leaves). length leaves)", goal_cases)
  case (2 sha leaves n k l r)
  then show ?case using split_point_bounds [of n] by simp
next
  case (3 sha leaves n k l r)
  then show ?case using split_point_bounds [of n] by simp
qed simp

declare tree_inputs.simps [simp del]

lemma tree_inputs_single: "tree_inputs sha [x] = {LEAF_PREFIX # x}"
  by (simp add: tree_inputs.simps)

lemma tree_inputs_append:
  assumes "length xs = 2 ^ h" and "0 < length ys" and "length ys \<le> 2 ^ h"
  shows "tree_inputs sha (xs @ ys) =
    {NODE_PREFIX # tree_hash sha xs @ tree_hash sha ys} \<union> tree_inputs sha xs \<union> tree_inputs sha ys"
proof -
  have "split_point (length (xs @ ys)) = 2 ^ h"
    using assms by (intro split_point_unique) simp_all
  moreover have "length (xs @ ys) \<ge> 2"
    using assms(1,2) by (cases xs; cases ys) auto
  ultimately show ?thesis using assms(1) by (simp add: tree_inputs.simps [of sha "xs @ ys"] Let_def)
qed

context digest32
begin

lemma length_tree_hash [simp]: "length (tree_hash sha leaves) = 32"
  by (simp add: tree_hash.simps [of sha leaves] leaf_hash_def pair_hash_def digest_length Let_def)

lemma tree_hash_as_digest:
  "\<exists>x \<in> tree_inputs sha leaves. tree_hash sha leaves = sha x
     \<and> (length leaves = 0 \<longleftrightarrow> x = [])
     \<and> (length leaves = 1 \<longleftrightarrow> x \<noteq> [] \<and> hd x = LEAF_PREFIX)"
  by (auto simp: tree_hash.simps [of sha leaves] tree_inputs.simps [of sha leaves] Let_def
        leaf_hash_def pair_hash_def LEAF_PREFIX_def NODE_PREFIX_def)

lemma tree_hash_inj:
  "inj_on sha (tree_inputs sha xs \<union> tree_inputs sha ys) \<Longrightarrow> tree_hash sha xs = tree_hash sha ys
    \<Longrightarrow> xs = ys"
proof (induction xs arbitrary: ys rule: leaves_induct)
  case Nil
  obtain y where y: "y \<in> tree_inputs sha ys" "tree_hash sha ys = sha y" "length ys = 0 \<longleftrightarrow> y = []"
    using tree_hash_as_digest [of ys] by blast
  moreover have "[] \<in> tree_inputs sha []" by (simp add: tree_inputs.simps)
  ultimately have "[] = y" using Nil by (auto simp: tree_hash_Nil dest: inj_onD)
  with y show ?case by simp
next
  case (single x)
  obtain y where y: "y \<in> tree_inputs sha ys" "tree_hash sha ys = sha y"
    "length ys = 1 \<longleftrightarrow> y \<noteq> [] \<and> hd y = LEAF_PREFIX"
    using tree_hash_as_digest [of ys] by blast
  then have e: "LEAF_PREFIX # x = y"
    using single by (auto simp: tree_hash_single tree_inputs_single leaf_hash_def dest: inj_onD)
  with y(3) have "length ys = 1" by auto
  then obtain z where z: "ys = [z]" by (cases ys) auto
  then have "y = LEAF_PREFIX # z" using y(1) by (simp add: tree_inputs_single)
  with e z show ?case by simp
next
  case (append l r h)
  obtain y where y: "y \<in> tree_inputs sha ys" "tree_hash sha ys = sha y" "length ys = 0 \<longleftrightarrow> y = []"
    "length ys = 1 \<longleftrightarrow> y \<noteq> [] \<and> hd y = LEAF_PREFIX"
    using tree_hash_as_digest [of ys] by blast
  have th: "tree_hash sha (l @ r) = sha (NODE_PREFIX # tree_hash sha l @ tree_hash sha r)"
    using tree_hash_append [OF append.hyps(1-3)] by (simp add: pair_hash_def)
  have ti: "tree_inputs sha (l @ r) = {NODE_PREFIX # tree_hash sha l @ tree_hash sha r}
              \<union> tree_inputs sha l \<union> tree_inputs sha r"
    by (rule tree_inputs_append [OF append.hyps(1-3)])
  have "NODE_PREFIX # tree_hash sha l @ tree_hash sha r = y"
    by (rule inj_onD [OF append.prems(1) trans [OF th [symmetric] trans [OF append.prems(2) y(2)]]])
      (simp_all add: ti y(1))
  with y(3,4) have "length ys \<noteq> 0" "length ys \<noteq> 1" by (auto simp: LEAF_PREFIX_def NODE_PREFIX_def)
  then have "2 \<le> length ys" by linarith
  then obtain l' r' h' where s: "ys = l' @ r'" "length l' = 2 ^ h'" "0 < length r'" "length r' \<le> 2 ^ h'"
    by (rule split_leaves)
  have ti': "tree_inputs sha ys = {NODE_PREFIX # tree_hash sha l' @ tree_hash sha r'}
              \<union> tree_inputs sha l' \<union> tree_inputs sha r'"
    using tree_inputs_append [OF s(2-4)] s(1) by simp
  have th': "tree_hash sha ys = sha (NODE_PREFIX # tree_hash sha l' @ tree_hash sha r')"
    using tree_hash_append [OF s(2-4)] s(1) by (simp add: pair_hash_def)
  have "NODE_PREFIX # tree_hash sha l @ tree_hash sha r = NODE_PREFIX # tree_hash sha l' @ tree_hash sha r'"
    by (rule inj_onD [OF append.prems(1) trans [OF th [symmetric] trans [OF append.prems(2) th']]])
      (simp_all add: ti ti')
  then have "tree_hash sha l @ tree_hash sha r = tree_hash sha l' @ tree_hash sha r'" by simp
  then have "tree_hash sha l = tree_hash sha l'" "tree_hash sha r = tree_hash sha r'" by simp_all
  moreover have "inj_on sha (tree_inputs sha l \<union> tree_inputs sha l')"
    "inj_on sha (tree_inputs sha r \<union> tree_inputs sha r')"
    using append.prems(1) by (auto simp: ti ti' intro: inj_on_subset)
  ultimately have "l = l'" "r = r'" using append.IH by blast+
  with s(1) show ?case by simp
qed

end

section \<open>Properties\<close>

text \<open>C4. The incremental forest is the tree hash: building it from any list of entry hashes and reading
  its root gives the batch root of that list, and raises exactly when computing the batch root
  raises.\<close>

theorem incremental_root_agrees: "res_map (im_root sha) (from_hashes sha hs) = batch_root sha hs"
proof (cases "from_hashes sha hs")
  case (Inl e)
  moreover from Inl have "res_mapM fromhex hs = Inl e" by (simp add: from_hashes_def from_hashes_loop_Inl)
  ultimately show ?thesis by (simp add: batch_root_def)
next
  case (Inr t)
  then show ?thesis using merkle_ok_root [OF from_hashes_ok] by simp
qed

text \<open>A batch root commits to the batch: two lists of entry hashes with the same root decode to the
  same leaves in the same order, so also have the same length, unless the hash function collides on an
  input of one of the two trees. The sizes need not be known to agree: the leaf and node prefixes
  separate them.\<close>

theorem batch_root_commits:
  assumes "digest32 sha"
    and "res_mapM fromhex hs = Inr ls" "res_mapM fromhex hs' = Inr ls'"
    and "batch_root sha hs = batch_root sha hs'"
    and "inj_on sha (tree_inputs sha ls \<union> tree_inputs sha ls')"
  shows "ls = ls'"
  using digest32.tree_hash_inj [OF assms(1,5)] assms(2-4) by (simp add: batch_root_def)

text \<open>A stand-in for the hash in concrete examples: the first 32 bytes, zero-padded.\<close>

definition first32 :: "bytes \<Rightarrow> bytes" where
  "first32 b = take 32 (b @ replicate 32 0)"

lemma digest32_first32: "digest32 first32"
  by unfold_locales (simp add: first32_def)

lemma tree_inputs_pair:
  "tree_inputs sha [x, y] = {LEAF_PREFIX # x, LEAF_PREFIX # y, NODE_PREFIX # leaf_hash sha x @ leaf_hash sha y}"
  using tree_inputs_append [of "[x]" 0 "[y]" sha] by (auto simp: tree_inputs_single tree_hash_single)

theorem batch_root_commits_witness:
  "res_mapM fromhex [str ''01'', str ''02''] = Inr [[1], [2]]
   \<and> res_mapM fromhex [str '' 01'', str ''02''] = Inr [[1], [2]] \<and> [[1], [2]] = [[1], [2 :: byte]]"
proof -
  have r: "res_mapM fromhex [str ''01'', str ''02''] = Inr [[1], [2]]"
    and r': "res_mapM fromhex [str '' 01'', str ''02''] = Inr [[1], [2]]"
    by (simp_all add: str_def ascii_space_def hexval_def)
  have "inj_on first32 (tree_inputs first32 [[1], [2]])"
    by (simp add: tree_inputs_pair inj_on_def first32_def leaf_hash_def LEAF_PREFIX_def NODE_PREFIX_def)
  then show ?thesis
    using batch_root_commits [OF digest32_first32 r r'] r r' by (simp add: batch_root_def)
qed

end
