(* ===== verification/Membership.thy ===== *)
theory Membership
  imports Merkle
begin

text \<open>
  Membership proofs (\<^verbatim>\<open>domain/anchoring.py\<close>): the verifier accepts the proof \<open>membership_proof\<close> makes
  for every index of every batch, and under a hash function with no collision on what the two
  runs hash, no other entry has a proof for the same index, size and root. The loop is followed on its
  index pair: inside a complete subtree the pair is divided by two at each sibling, and adding the
  same higher power of two to both numbers changes nothing the loop looks at.
\<close>

section \<open>The index pair\<close>

lemma halve_do_while: "even fn \<Longrightarrow> fn \<noteq> 0 \<Longrightarrow> halve_do fn sn = halve_while fn sn"
proof (induction fn sn rule: halve_do.induct)
  case (1 fn sn)
  show ?case
  proof (cases "odd (fn div 2) \<or> fn div 2 = 0")
    case True
    then show ?thesis
      using 1(2,3) by (auto simp: halve_do.simps [of fn] halve_while.simps [of fn] halve_while.simps [of "fn div 2"])
  next
    case False
    then show ?thesis
      using 1 by (simp add: halve_do.simps [of fn] halve_while.simps [of fn])
  qed
qed

text \<open>What the loop does to the pair when it meets the right edge or an odd index.\<close>

definition pair_next :: "nat \<Rightarrow> nat \<Rightarrow> nat \<times> nat" where
  "pair_next fn sn =
     (if odd fn \<or> fn = sn then (case halve_while fn sn of (f, s) \<Rightarrow> (f div 2, s div 2))
      else (fn div 2, sn div 2))"

lemma halve_while_odd: "odd fn \<Longrightarrow> halve_while fn sn = (fn, sn)"
  by (simp add: halve_while.simps)

lemma membership_step_eq:
  assumes "sn \<noteq> 0"
  shows "membership_step sha (fn, sn, node) s =
    (fst (pair_next fn sn), snd (pair_next fn sn),
     if odd fn \<or> fn = sn then pair_hash sha s node else pair_hash sha node s)"
  using assms halve_do_while [of fn sn]
  by (auto simp: membership_step_def pair_next_def halve_while_odd Let_def split: prod.splits)

lemma consistency_step_eq:
  "consistency_step sha (fn, sn, fr, sr) s =
    (fst (pair_next fn sn), snd (pair_next fn sn),
     if odd fn \<or> fn = sn then pair_hash sha s fr else fr,
     if odd fn \<or> fn = sn then pair_hash sha s sr else pair_hash sha sr s)"
  by (auto simp: consistency_step_def pair_next_def Let_def split: prod.splits)

lemma pair_next_left: "fn < sn \<Longrightarrow> pair_next fn sn = (fn div 2, sn div 2)"
  by (simp add: pair_next_def halve_while_odd)

lemma halve_while_pow2: "halve_while (2 ^ q) (2 ^ q) = (1, 1)"
  by (induction q) (simp_all add: halve_while.simps [of "Suc 0"] halve_while.simps [of "2 * 2 ^ _"])

lemma pair_next_pow2: "pair_next (2 ^ q) (2 ^ q) = (0, 0)"
  by (simp add: pair_next_def halve_while_pow2)

lemma halve_while_same: "halve_while n n = (fst (halve_while n n), fst (halve_while n n))"
proof (induction n rule: less_induct)
  case (less n)
  show ?case
  proof (cases "even n \<and> n \<noteq> 0")
    case True
    then have "n div 2 < n" by simp
    from less.IH [OF this] True show ?thesis by (simp add: halve_while.simps [of n])
  next
    case False
    then have "halve_while n n = (n, n)" by (subst halve_while.simps) auto
    then show ?thesis by simp
  qed
qed

text \<open>The loop keeps the first number at most the second.\<close>

lemma pair_next_le: "fn \<le> sn \<Longrightarrow> fst (pair_next fn sn) \<le> snd (pair_next fn sn)"
proof (cases "fn = sn")
  case True
  obtain f where "halve_while sn sn = (f, f)" using halve_while_same by (metis surj_pair)
  with True show ?thesis by (simp add: pair_next_def)
next
  case False
  assume "fn \<le> sn"
  with False show ?thesis using pair_next_left [of fn sn] by (simp add: div_le_mono)
qed

lemma add_pow2_div2: "0 < q \<Longrightarrow> (n + 2 ^ q) div 2 = n div 2 + (2::nat) ^ (q - 1)"
  by (cases q) simp_all

text \<open>
  A number with lowest set bit below \<open>2 ^ q\<close> loses the same trailing zeros with \<open>2 ^ q\<close> added.
\<close>

lemma halve_while_shift:
  "0 < n \<Longrightarrow> n < 2 ^ q \<Longrightarrow> \<exists>f q'. halve_while n n = (f, f) \<and> odd f \<and> f < 2 ^ q'
     \<and> halve_while (n + 2 ^ q) (n + 2 ^ q) = (f + 2 ^ q', f + 2 ^ q')"
proof (induction n arbitrary: q rule: less_induct)
  case (less n)
  have q: "0 < q" using less.prems by (cases q) auto
  show ?case
  proof (cases "even n")
    case True
    then have lt: "n div 2 < n" "0 < n div 2" using less.prems(1) by (auto elim!: evenE)
    have "n div 2 < 2 ^ (q - 1)" using less.prems(2) q by (cases q) auto
    from less.IH [OF lt this] obtain f q' where
      f: "halve_while (n div 2) (n div 2) = (f, f)" "odd f" "f < 2 ^ q'"
        "halve_while (n div 2 + 2 ^ (q - 1)) (n div 2 + 2 ^ (q - 1)) = (f + 2 ^ q', f + 2 ^ q')"
      by blast
    have "halve_while n n = (f, f)" using True less.prems(1) f(1) by (simp add: halve_while.simps [of n])
    moreover have "halve_while (n + 2 ^ q) (n + 2 ^ q) = (f + 2 ^ q', f + 2 ^ q')"
      using True q f(4) less.prems(1)
      by (subst halve_while.simps) (simp only: add_pow2_div2, simp)
    ultimately show ?thesis using f(2,3) by blast
  next
    case False
    then have "odd (n + 2 ^ q)" using q by simp
    with False show ?thesis
      using less.prems(2) by (auto simp: halve_while_odd intro!: exI [of _ n] exI [of _ q])
  qed
qed

lemma odd_less_pow2: "odd f \<Longrightarrow> f < (2::nat) ^ q \<Longrightarrow> 0 < q"
  by (cases q) auto

lemma div2_less_pow2: "0 < q \<Longrightarrow> n < (2::nat) ^ q \<Longrightarrow> n div 2 < 2 ^ (q - 1)"
  by (cases q) auto

lemma pair_next_shift:
  assumes "fn \<le> sn" "sn < 2 ^ q" "sn \<noteq> 0"
  shows "\<exists>q'. pair_next (fn + 2 ^ q) (sn + 2 ^ q)
               = (fst (pair_next fn sn) + 2 ^ q', snd (pair_next fn sn) + 2 ^ q')
           \<and> snd (pair_next fn sn) < 2 ^ q'"
    and "odd (fn + 2 ^ q) \<longleftrightarrow> odd fn"
proof -
  have q: "0 < q" using assms by (cases q) auto
  then show "odd (fn + 2 ^ q) \<longleftrightarrow> odd fn" by simp
  show "\<exists>q'. pair_next (fn + 2 ^ q) (sn + 2 ^ q)
               = (fst (pair_next fn sn) + 2 ^ q', snd (pair_next fn sn) + 2 ^ q')
           \<and> snd (pair_next fn sn) < 2 ^ q'"
  proof (cases "fn = sn")
    case True
    then obtain f q' where f: "halve_while sn sn = (f, f)" "odd f" "f < 2 ^ q'"
        "halve_while (sn + 2 ^ q) (sn + 2 ^ q) = (f + 2 ^ q', f + 2 ^ q')"
      using halve_while_shift [of sn q] assms by auto
    with True show ?thesis
      using odd_less_pow2 [OF f(2,3)] div2_less_pow2 [of q' f]
      by (auto simp: pair_next_def add_pow2_div2 intro!: exI [of _ "q' - 1"])
  next
    case False
    with assms(1) have "fn < sn" by simp
    then show ?thesis
      using q assms(2) pair_next_left [of fn sn] pair_next_left [of "fn + 2 ^ q" "sn + 2 ^ q"]
        div2_less_pow2 [of q sn]
      by (auto simp: add_pow2_div2 intro!: exI [of _ "q - 1"])
  qed
qed

section \<open>The honest proof is accepted\<close>

lemma membership_loop_append:
  "membership_loop sha st (xs @ ys) = Option.bind (membership_loop sha st xs) (\<lambda>st'. membership_loop sha st' ys)"
  by (induction xs arbitrary: st) auto

lemma audit_path_single: "length leaves = 1 \<Longrightarrow> audit_path sha m leaves = []"
  by (simp add: audit_path.simps)

lemma audit_path_append:
  assumes "length xs = 2 ^ h" and "0 < length ys" and "length ys \<le> 2 ^ h"
  shows "audit_path sha m (xs @ ys) =
    (if m < 2 ^ h then audit_path sha m xs @ [tree_hash sha ys]
     else audit_path sha (m - 2 ^ h) ys @ [tree_hash sha xs])"
proof -
  have "split_point (length (xs @ ys)) = 2 ^ h"
    using assms by (intro split_point_unique) simp_all
  moreover have "\<not> length (xs @ ys) \<le> 1" using assms(1,2) by (cases xs; cases ys) auto
  ultimately show ?thesis using assms(1) by (simp add: audit_path.simps [of sha m "xs @ ys"] Let_def)
qed

text \<open>Inside a complete subtree left of the edge, \<open>fn\<close> stays below \<open>sn\<close>.\<close>

lemma div_pow2_less: "fn div 2 ^ Suc h < sn div 2 ^ Suc h \<Longrightarrow> (fn::nat) div 2 ^ h < sn div 2 ^ h"
  unfolding div_pow2_Suc by (rule div_less_of_div_div_less)

lemma mod_pow2_halves:
  fixes fn h :: nat
  shows "fn mod 2 ^ Suc h < 2 ^ h \<Longrightarrow> even (fn div 2 ^ h) \<and> fn mod 2 ^ h = fn mod 2 ^ Suc h"
    and "\<not> fn mod 2 ^ Suc h < 2 ^ h \<Longrightarrow> odd (fn div 2 ^ h) \<and> fn mod 2 ^ h = fn mod 2 ^ Suc h - 2 ^ h"
proof -
  have m: "fn mod 2 ^ Suc h = 2 ^ h * (fn div 2 ^ h mod 2) + fn mod 2 ^ h"
    using mod_mult2_eq [of fn "2 ^ h" 2] by (simp add: mult.commute)
  have r: "fn mod 2 ^ h < 2 ^ h" by simp
  show "fn mod 2 ^ Suc h < 2 ^ h \<Longrightarrow> even (fn div 2 ^ h) \<and> fn mod 2 ^ h = fn mod 2 ^ Suc h"
    unfolding m by (cases "even (fn div 2 ^ h)") (simp_all add: mod_2_eq_odd)
  show "\<not> fn mod 2 ^ Suc h < 2 ^ h \<Longrightarrow> odd (fn div 2 ^ h) \<and> fn mod 2 ^ h = fn mod 2 ^ Suc h - 2 ^ h"
    unfolding m using r by (cases "even (fn div 2 ^ h)") (simp_all add: mod_2_eq_odd)
qed

lemma right_edge_div: "0 < (a::nat) \<Longrightarrow> a \<le> k \<Longrightarrow> (k + a - 1) div k = 1"
  by (intro div_nat_eqI) auto

lemma membership_perfect:
  assumes "length leaves = 2 ^ h" and "m < 2 ^ h" and "fn mod 2 ^ h = m"
    and "fn div 2 ^ h < sn div 2 ^ h"
  shows "membership_loop sha (fn, sn, leaf_hash sha (leaves ! m)) (audit_path sha m leaves)
           = Some (fn div 2 ^ h, sn div 2 ^ h, tree_hash sha leaves)"
  using assms
proof (induction h arbitrary: leaves m)
  case 0
  then show ?case by (cases leaves) (auto simp: audit_path_single tree_hash_single)
next
  case (Suc h)
  let ?l = "take (2 ^ h) leaves" and ?r = "drop (2 ^ h) leaves"
  have len: "length ?l = 2 ^ h" "length ?r = 2 ^ h" using Suc.prems(1) by auto
  have lt: "fn div 2 ^ h < sn div 2 ^ h" by (rule div_pow2_less [OF Suc.prems(4)])
  have ok: "0 < length ?r" "length ?r \<le> 2 ^ h" using len(2) by simp_all
  have path: "audit_path sha m leaves = (if m < 2 ^ h then audit_path sha m ?l @ [tree_hash sha ?r]
                else audit_path sha (m - 2 ^ h) ?r @ [tree_hash sha ?l])"
    using audit_path_append [OF len(1) ok, of sha m] by (simp only: append_take_drop_id)
  have th: "tree_hash sha leaves = pair_hash sha (tree_hash sha ?l) (tree_hash sha ?r)"
    using tree_hash_append [OF len(1) ok, of sha] by (simp only: append_take_drop_id)
  have next_pair: "pair_next (fn div 2 ^ h) (sn div 2 ^ h) = (fn div 2 ^ Suc h, sn div 2 ^ Suc h)"
    using pair_next_left [OF lt] by (simp add: div_pow2_Suc del: power_Suc)
  show ?case
  proof (cases "m < 2 ^ h")
    case True
    then have e: "even (fn div 2 ^ h)" and f: "fn mod 2 ^ h = m"
      using mod_pow2_halves(1) [of fn h] Suc.prems(3) by (simp_all del: power_Suc)
    have "membership_loop sha (fn, sn, leaf_hash sha (?l ! m)) (audit_path sha m ?l)
           = Some (fn div 2 ^ h, sn div 2 ^ h, tree_hash sha ?l)"
      by (rule Suc.IH [OF len(1) True f lt])
    with True e lt show ?thesis
      by (simp add: path th membership_loop_append membership_step_eq next_pair del: power_Suc)
  next
    case False
    from False have o: "odd (fn div 2 ^ h)" and f: "fn mod 2 ^ h = m - 2 ^ h"
      using mod_pow2_halves(2) [of fn h] Suc.prems(3) by (simp_all del: power_Suc)
    have mr: "m - 2 ^ h < 2 ^ h" using Suc.prems(2) by simp
    have "membership_loop sha (fn, sn, leaf_hash sha (?r ! (m - 2 ^ h))) (audit_path sha (m - 2 ^ h) ?r)
           = Some (fn div 2 ^ h, sn div 2 ^ h, tree_hash sha ?r)"
      by (rule Suc.IH [OF len(2) mr f lt])
    with False o lt Suc.prems(1) show ?thesis
      by (simp add: path th membership_loop_append membership_step_eq next_pair del: power_Suc)
  qed
qed

lemma membership_shift:
  "membership_loop sha (fn, sn, node) ss = Some (0, 0, x) \<Longrightarrow> fn \<le> sn \<Longrightarrow> sn < 2 ^ q
    \<Longrightarrow> \<exists>q'. membership_loop sha (fn + 2 ^ q, sn + 2 ^ q, node) ss = Some (2 ^ q', 2 ^ q', x)"
proof (induction ss arbitrary: fn sn node q)
  case (Cons s ss)
  have sn: "sn \<noteq> 0" using Cons.prems(1) by (cases "sn = 0") simp_all
  let ?n = "pair_next fn sn"
  let ?node = "if odd fn \<or> fn = sn then pair_hash sha s node else pair_hash sha node s"
  obtain q' where q': "pair_next (fn + 2 ^ q) (sn + 2 ^ q) = (fst ?n + 2 ^ q', snd ?n + 2 ^ q')"
    "snd ?n < 2 ^ q'"
    using pair_next_shift(1) [OF Cons.prems(2,3) sn] by blast
  have "membership_loop sha (fst ?n, snd ?n, ?node) ss = Some (0, 0, x)"
    using Cons.prems(1) sn by (simp add: membership_step_eq)
  from Cons.IH [OF this pair_next_le [OF Cons.prems(2)] q'(2)] show ?case
    using sn q' pair_next_shift(2) [OF Cons.prems(2,3) sn] by (simp add: membership_step_eq)
qed simp

lemma membership_complete:
  "m < length leaves \<Longrightarrow>
     membership_loop sha (m, length leaves - 1, leaf_hash sha (leaves ! m)) (audit_path sha m leaves)
       = Some (0, 0, tree_hash sha leaves)"
proof (induction leaves arbitrary: m rule: leaves_induct)
  case Nil
  then show ?case by simp
next
  case (single x)
  then show ?case by (simp add: audit_path_single tree_hash_single)
next
  case (append xs ys h)
  let ?n = "length (xs @ ys)"
  note path = audit_path_append [OF append.hyps(1-3)]
  note th = tree_hash_append [OF append.hyps(1-3)]
  show ?case
  proof (cases "m < 2 ^ h")
    case True
    have sn: "(?n - 1) div 2 ^ h = 1"
      using right_edge_div [OF append.hyps(2,3)] append.hyps(1) by simp
    have "membership_loop sha (m, ?n - 1, leaf_hash sha (xs ! m)) (audit_path sha m xs)
            = Some (0, 1, tree_hash sha xs)"
      using membership_perfect [OF append.hyps(1) True, of m "?n - 1" sha] True sn by simp
    with True show ?thesis
      using append.hyps(1) by (simp add: path th nth_append membership_loop_append membership_step_eq pair_next_left)
  next
    case False
    let ?m = "m - 2 ^ h"
    have m: "?m < length ys" using append.prems append.hyps(1) False by simp
    have le: "?m \<le> length ys - 1" "length ys - 1 < 2 ^ h" using m append.hyps(3) by auto
    obtain q where "membership_loop sha (?m + 2 ^ h, length ys - 1 + 2 ^ h, leaf_hash sha (ys ! ?m))
        (audit_path sha ?m ys) = Some (2 ^ q, 2 ^ q, tree_hash sha ys)"
      using membership_shift [OF append.IH(2) [OF m] le] by blast
    moreover have "?m + 2 ^ h = m" "length ys - 1 + 2 ^ h = ?n - 1"
      using False append.hyps(1,2) by (simp, cases ys) simp_all
    ultimately have run: "membership_loop sha (m, ?n - 1, leaf_hash sha (ys ! ?m))
        (audit_path sha ?m ys) = Some (2 ^ q, 2 ^ q, tree_hash sha ys)"
      by (simp only:)
    have step: "membership_step sha (2 ^ q, 2 ^ q, tree_hash sha ys) (tree_hash sha xs)
        = (0, 0, pair_hash sha (tree_hash sha xs) (tree_hash sha ys))"
      by (simp add: membership_step_eq pair_next_pow2)
    have "(xs @ ys) ! m = ys ! ?m" using False append.hyps(1) by (simp add: nth_append)
    with False run step show ?thesis by (simp add: path th membership_loop_append)
  qed
qed

section \<open>Only one entry has a proof\<close>

text \<open>What a run of the loop, and of the whole verifier, applies the hash function to.\<close>

fun loop_inputs :: "(bytes \<Rightarrow> bytes) \<Rightarrow> nat \<times> nat \<times> bytes \<Rightarrow> bytes list \<Rightarrow> bytes set" where
  "loop_inputs sha st [] = {}"
| "loop_inputs sha (fn, sn, node) (s # ss) =
     insert (NODE_PREFIX # (if odd fn \<or> fn = sn then s @ node else node @ s))
       (loop_inputs sha (membership_step sha (fn, sn, node) s) ss)"

definition membership_inputs :: "(bytes \<Rightarrow> bytes) \<Rightarrow> pystr \<Rightarrow> int \<Rightarrow> int \<Rightarrow> pystr list \<Rightarrow> bytes set" where
  "membership_inputs sha eh index n pf =
     {x. \<exists>leaf ss. fromhex eh = Inr leaf \<and> res_mapM fromhex pf = Inr ss
        \<and> x \<in> insert (LEAF_PREFIX # leaf)
               (loop_inputs sha (nat index, nat (n - 1), leaf_hash sha leaf) ss)}"

context digest32
begin

lemma length_pair_hash [simp]: "length (pair_hash sha a b) = 32"
  by (simp add: pair_hash_def digest_length)

lemma length_leaf_hash [simp]: "length (leaf_hash sha a) = 32"
  by (simp add: leaf_hash_def digest_length)

lemma membership_loop_binding:
  "membership_loop sha (fn, sn, x) ss = Some (f, 0, z) \<Longrightarrow>
   membership_loop sha (fn, sn, y) ts = Some (f', 0, z) \<Longrightarrow> length x = 32 \<Longrightarrow> length y = 32 \<Longrightarrow>
   inj_on sha (loop_inputs sha (fn, sn, x) ss \<union> loop_inputs sha (fn, sn, y) ts) \<Longrightarrow> x = y \<and> ss = ts"
proof (induction ss arbitrary: fn sn x y ts)
  case Nil
  then show ?case by (cases ts) auto
next
  case (Cons s ss)
  have sn: "sn \<noteq> 0" using Cons.prems(1) by (cases "sn = 0") simp_all
  then obtain t ts' where ts: "ts = t # ts'" using Cons.prems(2) by (cases ts) auto
  let ?c = "odd fn \<or> fn = sn"
  let ?in = "\<lambda>s x. NODE_PREFIX # (if ?c then s @ x else x @ s)"
  let ?st = "\<lambda>s x. (fst (pair_next fn sn), snd (pair_next fn sn), sha (?in s x))"
  have st: "membership_step sha (fn, sn, x) s = ?st s x" for x s
    using sn by (simp add: membership_step_eq pair_hash_def)
  have "sha (?in s x) = sha (?in t y) \<and> ss = ts'"
  proof (rule Cons.IH)
    show "membership_loop sha (?st s x) ss = Some (f, 0, z)" using Cons.prems(1) sn st by simp
    show "membership_loop sha (?st t y) ts' = Some (f', 0, z)" using Cons.prems(2) sn st ts by simp
    show "length (sha (?in s x)) = 32" "length (sha (?in t y)) = 32" by (simp_all add: digest_length)
    show "inj_on sha (loop_inputs sha (?st s x) ss \<union> loop_inputs sha (?st t y) ts')"
      using Cons.prems(5) unfolding ts by (rule inj_on_subset) (auto simp: st)
  qed
  then have e: "sha (?in s x) = sha (?in t y)" "ss = ts'" by simp_all
  have "?in s x = ?in t y"
    by (rule inj_onD [OF Cons.prems(5) e(1)]) (simp_all add: ts)
  then have "s = t \<and> x = y" using Cons.prems(3,4) by (cases ?c) auto
  with e(2) ts show ?case by simp
qed

lemma verify_membership_binding:
  assumes "verify_membership sha eh i n pf root" "verify_membership sha eh' i n pf' root"
    and "inj_on sha (membership_inputs sha eh i n pf \<union> membership_inputs sha eh' i n pf')"
  shows "fromhex eh = fromhex eh' \<and> res_mapM fromhex pf = res_mapM fromhex pf'"
proof -
  obtain l ss f x where a: "fromhex eh = Inr l" "res_mapM fromhex pf = Inr ss"
    "membership_loop sha (nat i, nat (n - 1), leaf_hash sha l) ss = Some (f, 0, x)" "hex x = root"
    using assms(1) by (auto simp: verify_membership_def res_elims split: sum.splits option.splits if_splits)
  obtain l' ss' f' x' where b: "fromhex eh' = Inr l'" "res_mapM fromhex pf' = Inr ss'"
    "membership_loop sha (nat i, nat (n - 1), leaf_hash sha l') ss' = Some (f', 0, x')" "hex x' = root"
    using assms(2) by (auto simp: verify_membership_def res_elims split: sum.splits option.splits if_splits)
  have x: "x' = x" using a(4) b(4) hex_inj [of x' x] by simp
  have sub: "insert (LEAF_PREFIX # l) (loop_inputs sha (nat i, nat (n - 1), leaf_hash sha l) ss)
      \<subseteq> membership_inputs sha eh i n pf"
    "insert (LEAF_PREFIX # l') (loop_inputs sha (nat i, nat (n - 1), leaf_hash sha l') ss')
      \<subseteq> membership_inputs sha eh' i n pf'"
    using a b by (auto simp: membership_inputs_def)
  have "leaf_hash sha l = leaf_hash sha l' \<and> ss = ss'"
  proof (rule membership_loop_binding [OF a(3) b(3) [unfolded x]])
    show "inj_on sha (loop_inputs sha (nat i, nat (n - 1), leaf_hash sha l) ss
        \<union> loop_inputs sha (nat i, nat (n - 1), leaf_hash sha l') ss')"
      by (rule inj_on_subset [OF assms(3)]) (use sub in blast)
  qed simp_all
  moreover have "LEAF_PREFIX # l = LEAF_PREFIX # l'" if "leaf_hash sha l = leaf_hash sha l'"
    by (rule inj_onD [OF assms(3) that [unfolded leaf_hash_def]]) (use sub in blast)+
  ultimately show ?thesis using a b by simp
qed

end

text \<open>The verifier accepts the honest proof of every index.\<close>

lemma verify_membership_complete:
  assumes "batch_root sha hs = Inr root" and "membership_proof sha hs i = Inr pf"
  shows "verify_membership sha (hs ! nat i) i (int (length hs)) pf root"
proof -
  obtain ls where ls: "res_mapM fromhex hs = Inr ls" "root = hex (tree_hash sha ls)"
    using assms(1) by (auto simp: batch_root_def res_elims)
  have i: "0 \<le> i" "nat i < length hs" "pf = map hex (audit_path sha (nat i) ls)"
    using assms(2) ls by (auto simp: membership_proof_def res_elims split: if_splits)
  have len: "length ls = length hs" using res_mapM_length [OF ls(1)] .
  have "res_mapM fromhex pf = Inr (audit_path sha (nat i) ls)"
    unfolding i(3) by (rule res_mapM_fromhex_hex)
  moreover have "fromhex (hs ! nat i) = Inr (ls ! nat i)" using res_mapM_nth [OF ls(1) i(2)] .
  moreover have "nat (int (length hs) - 1) = length ls - 1" using len by simp
  moreover have "\<not> (i < 0 \<or> int (length hs) < 1 \<or> i \<ge> int (length hs))" using i(1,2) by linarith
  ultimately show ?thesis
    using membership_complete [of "nat i" ls sha] i len ls(2) by (simp add: verify_membership_def)
qed

section \<open>Properties\<close>

text \<open>Membership proofs are complete: for every batch and every index in it, the verifier accepts the
  proof the prover makes against the batch root, whatever the hash function.\<close>

theorem membership_proof_accepted:
  assumes "batch_root sha hs = Inr root" and "membership_proof sha hs i = Inr pf"
  shows "verify_membership sha (hs ! nat i) i (int (length hs)) pf root"
  using assms by (rule verify_membership_complete)

lemma membership_proof_total:
  "batch_root sha hs = Inr root \<Longrightarrow> 0 \<le> i \<Longrightarrow> i < int (length hs) \<Longrightarrow>
     \<exists>pf. membership_proof sha hs i = Inr pf"
  by (auto simp: batch_root_def membership_proof_def res_elims)

lemma sample_batch: "\<exists>root. batch_root sha256 [str ''01'', str ''02'', str ''03''] = Inr root"
  by (simp add: batch_root_def str_def ascii_space_def hexval_def)

theorem membership_proof_accepted_witness:
  "\<exists>pf root. verify_membership sha256 ([str ''01'', str ''02'', str ''03''] ! nat 1) 1
     (int (length [str ''01'', str ''02'', str ''03''])) pf root"
proof -
  obtain root where root: "batch_root sha256 [str ''01'', str ''02'', str ''03''] = Inr root"
    using sample_batch by blast
  obtain pf where "membership_proof sha256 [str ''01'', str ''02'', str ''03''] 1 = Inr pf"
    using membership_proof_total [OF root, of 1] by auto
  from membership_proof_accepted [OF root this] show ?thesis by blast
qed

text \<open>C3. Membership proofs are sound: against the root of a batch, with that batch's size, a proof the
  verifier accepts for an index proves the entry hash at that index and no other, unless the hash
  collides on what the two proofs hash. Siblings of the wrong length, extra or missing siblings
  are all refused.\<close>

theorem membership_proof_sound:
  assumes "digest32 sha" and "batch_root sha hs = Inr root" and "membership_proof sha hs i = Inr honest"
    and "verify_membership sha eh i (int (length hs)) pf root"
    and "inj_on sha (membership_inputs sha eh i (int (length hs)) pf
           \<union> membership_inputs sha (hs ! nat i) i (int (length hs)) honest)"
  shows "fromhex eh = fromhex (hs ! nat i) \<and> res_mapM fromhex pf = res_mapM fromhex honest"
  by (rule digest32.verify_membership_binding [OF assms(1,4) verify_membership_complete [OF assms(2,3)] assms(5)])

theorem membership_proof_sound_witness:
  "fromhex (str ''01'') = fromhex ([str ''01''] ! nat 0)"
proof -
  have root: "batch_root sha256 [str ''01''] = Inr (hex (leaf_hash sha256 [1]))"
    by (simp add: batch_root_def str_def ascii_space_def hexval_def tree_hash_single)
  have pf: "membership_proof sha256 [str ''01''] 0 = Inr []"
    by (simp add: membership_proof_def audit_path_single str_def ascii_space_def hexval_def)
  have i: "inj_on sha256 (membership_inputs sha256 (str ''01'') 0 1 [])"
    by (auto simp: membership_inputs_def intro!: inj_onI)
  have n: "int (length [str ''01'']) = 1" "[str ''01''] ! nat 0 = str ''01''" by simp_all
  show ?thesis
    using membership_proof_sound [OF sha256.digest32_axioms root pf, unfolded n, of "str ''01''" "[]"]
      verify_membership_complete [OF root pf, unfolded n] i unfolding n by (simp only: Un_absorb)
qed

end
