(* ===== verification/Consistency.thy ===== *)
theory Consistency
  imports Membership
begin

text \<open>
  Consistency proofs (\<^verbatim>\<open>domain/anchoring.py\<close>): the verifier accepts the proof \<open>consistency_proof\<close> makes
  for every pair of sizes of one trail. The proof follows the two running hashes: \<open>fr\<close> rebuilds the
  root of the first \<open>m\<close> leaves while \<open>sr\<close> rebuilds the root of all of them.
\<close>

section \<open>Powers of two and trailing zeros\<close>

definition trailing_zeros :: "nat \<Rightarrow> nat \<Rightarrow> bool" where
  "trailing_zeros m j \<longleftrightarrow> 2 ^ j dvd m \<and> \<not> 2 ^ Suc j dvd m"

lemma trailing_zeros_exist: "0 < m \<Longrightarrow> \<exists>j. trailing_zeros m j"
proof (induction m rule: less_induct)
  case (less m)
  show ?case
  proof (cases "even m")
    case True
    then obtain k where k: "m = 2 * k" by (auto elim: evenE)
    with less.prems have "k < m" "0 < k" by simp_all
    then obtain j where "trailing_zeros k j" using less.IH by blast
    then have "trailing_zeros m (Suc j)" by (simp add: trailing_zeros_def k)
    then show ?thesis by blast
  next
    case False
    then have "trailing_zeros m 0" by (simp add: trailing_zeros_def)
    then show ?thesis by blast
  qed
qed

lemma trailing_zeros_pow2: "trailing_zeros (2 ^ h) j \<Longrightarrow> j = h"
proof -
  assume t: "trailing_zeros (2 ^ h) j"
  then have "j \<le> h" by (simp add: trailing_zeros_def dvd_power_iff_le)
  moreover have "\<not> Suc j \<le> h"
    using t le_imp_power_dvd [of "Suc j" h "2::nat"] by (auto simp: trailing_zeros_def simp del: power_Suc)
  ultimately show "j = h" by simp
qed

lemma trailing_zeros_right:
  assumes "trailing_zeros m j" "2 ^ h < m" "m < 2 * 2 ^ h"
  shows "trailing_zeros (m - 2 ^ h) j \<and> j < h"
proof -
  have "j < h"
  proof (rule ccontr)
    assume "\<not> j < h"
    then have "2 ^ h dvd (2::nat) ^ j" by (simp add: le_imp_power_dvd)
    with assms(1) have "2 ^ h dvd m" by (auto simp: trailing_zeros_def intro: dvd_trans)
    then obtain k where "m = 2 ^ h * k" by (auto elim: dvdE)
    with assms(2,3) have "1 < k" "k < 2" by simp_all
    then show False by simp
  qed
  have "2 ^ j dvd (2::nat) ^ h" "2 ^ Suc j dvd (2::nat) ^ h"
    using \<open>j < h\<close> by (auto intro!: le_imp_power_dvd simp del: power_Suc)
  moreover have "2 ^ j dvd m" "\<not> 2 ^ Suc j dvd m" using assms(1) by (simp_all add: trailing_zeros_def)
  ultimately have "2 ^ j dvd m - 2 ^ h" "\<not> 2 ^ Suc j dvd m - 2 ^ h"
    using assms(2) dvd_diff_nat [of "2 ^ j" m "2 ^ h"] dvd_diffD [of "2 ^ Suc j" m "2 ^ h"]
    by (blast, meson less_imp_le)
  with \<open>j < h\<close> show ?thesis by (simp add: trailing_zeros_def)
qed

lemma strip_ones_eq:
  "trailing_zeros m j \<Longrightarrow> 0 < m \<Longrightarrow> strip_ones (m - 1) sn = ((m - 1) div 2 ^ j, sn div 2 ^ j)"
proof (induction j arbitrary: m sn)
  case 0
  then show ?case by (simp add: trailing_zeros_def strip_ones.simps)
next
  case (Suc j)
  then have "even m" by (auto simp: trailing_zeros_def elim!: dvd_trans [rotated])
  then obtain k where k: "m = 2 * k" by (auto elim: evenE)
  then have "trailing_zeros k j" "0 < k" using Suc.prems by (simp_all add: trailing_zeros_def)
  moreover have o: "odd (m - 1)" "(m - 1) div 2 = k - 1" using k \<open>0 < k\<close> by auto
  moreover have "strip_ones (m - 1) sn = strip_ones ((m - 1) div 2) (sn div 2)"
    by (subst strip_ones.simps) (simp only: o(1) simp_thms if_True)
  ultimately show ?case
    using Suc.IH [of k "sn div 2"] by (simp add: div_mult2_eq)
qed

lemma is_pow2_size_iff: "0 < m \<Longrightarrow> is_pow2_size (int m) \<longleftrightarrow> (\<exists>q. m = 2 ^ q)"
proof (induction m rule: less_induct)
  case (less m)
  show ?case
  proof (cases "even m")
    case True
    then obtain k where k: "m = 2 * k" "0 < k" using less.prems by (auto elim!: evenE)
    have "(2 * int k - 1) div 2 = int k - 1" by linarith
    then have "and (int m) (int m - 1) = 2 * and (int k) (int k - 1)"
      by (subst and_int_unfold) (use k in auto)
    then have "is_pow2_size (int m) \<longleftrightarrow> is_pow2_size (int k)" by (simp add: is_pow2_size_def)
    also have "\<dots> \<longleftrightarrow> (\<exists>q. k = 2 ^ q)" using less.IH [of k] k by simp
    also have "\<dots> \<longleftrightarrow> (\<exists>q. m = 2 ^ q)"
    proof
      assume "\<exists>q. k = 2 ^ q"
      then show "\<exists>q. m = 2 ^ q" using k(1) by (metis power_Suc)
    next
      assume "\<exists>q. m = 2 ^ q"
      then obtain q where q: "m = 2 ^ q" by blast
      with True obtain r where "q = Suc r" by (cases q) auto
      with q k(1) show "\<exists>q. k = 2 ^ q" by auto
    qed
    finally show ?thesis .
  next
    case False
    then obtain k where k: "m = 2 * k + 1" by (auto elim: oddE)
    have "and (int m) (int m - 1) = 2 * int k"
      by (subst and_int_unfold) (use k in auto)
    then have "is_pow2_size (int m) \<longleftrightarrow> k = 0" by (simp add: is_pow2_size_def)
    also have "\<dots> \<longleftrightarrow> (\<exists>q. m = 2 ^ q)"
    proof
      assume "k = 0"
      then have "m = 2 ^ 0" using k by simp
      then show "\<exists>q. m = 2 ^ q" by blast
    next
      assume "\<exists>q. m = 2 ^ q"
      then obtain q where q: "m = 2 ^ q" by blast
      with False have "q = 0" by (cases q) auto
      with q k show "k = 0" by simp
    qed
    finally show ?thesis .
  qed
qed

section \<open>The subproof\<close>

lemma subproof_append:
  assumes "length xs = 2 ^ h" and "0 < length ys" and "length ys \<le> 2 ^ h"
    and "m < length (xs @ ys)"
  shows "consistency_subproof sha m (xs @ ys) c =
    (if m \<le> 2 ^ h then consistency_subproof sha m xs c @ [tree_hash sha ys]
     else consistency_subproof sha (m - 2 ^ h) ys False @ [tree_hash sha xs])"
proof -
  have "split_point (length (xs @ ys)) = 2 ^ h"
    using assms by (intro split_point_unique) simp_all
  moreover have "\<not> length (xs @ ys) \<le> 1" using assms(1,2) by (cases xs; cases ys) auto
  ultimately show ?thesis
    using assms(1,4) by (simp add: consistency_subproof.simps [of sha m "xs @ ys"] Let_def)
qed

lemma subproof_all: "consistency_subproof sha (length leaves) leaves False = [tree_hash sha leaves]"
  by (simp add: consistency_subproof.simps)

lemma consistency_loop_append:
  "consistency_loop sha st (xs @ ys) = Option.bind (consistency_loop sha st xs) (\<lambda>st'. consistency_loop sha st' ys)"
  by (induction xs arbitrary: st) auto

text \<open>\<open>rebuilds sha m leaves fn sn f s\<close>: from the pair the proof's first hash starts at, the loop ends
  at the pair \<open>(f, s)\<close> with both roots rebuilt.\<close>

definition rebuilds ::
  "(bytes \<Rightarrow> bytes) \<Rightarrow> nat \<Rightarrow> bytes list \<Rightarrow> nat \<Rightarrow> nat \<Rightarrow> nat \<Rightarrow> nat \<Rightarrow> bool" where
  "rebuilds sha m leaves fn sn f s \<longleftrightarrow>
     (\<exists>b rest. consistency_subproof sha m leaves False = b # rest
        \<and> consistency_loop sha (fn, sn, b, b) rest
            = Some (f, s, tree_hash sha (take m leaves), tree_hash sha leaves))"

lemma consistency_perfect:
  assumes "length leaves = 2 ^ h" and "0 < m" "m \<le> 2 ^ h" and "fn mod 2 ^ h = m - 1"
    and "fn div 2 ^ h < sn div 2 ^ h" and "trailing_zeros m j"
  shows "rebuilds sha m leaves (fn div 2 ^ j) (sn div 2 ^ j) (fn div 2 ^ h) (sn div 2 ^ h)"
  using assms
proof (induction h arbitrary: leaves m)
  case 0
  then have "m = 1" by simp
  then have "j = 0" using 0(6) trailing_zeros_pow2 [of 0 j] by simp
  with 0 \<open>m = 1\<close> show ?case using subproof_all [of sha leaves] by (simp add: rebuilds_def)
next
  case (Suc h)
  let ?l = "take (2 ^ h) leaves" and ?r = "drop (2 ^ h) leaves"
  have len: "length ?l = 2 ^ h" "length ?r = 2 ^ h" using Suc.prems(1) by auto
  have ok: "0 < length ?r" "length ?r \<le> 2 ^ h" using len(2) by simp_all
  have lt: "fn div 2 ^ h < sn div 2 ^ h" by (rule div_pow2_less [OF Suc.prems(5)])
  have th: "tree_hash sha leaves = pair_hash sha (tree_hash sha ?l) (tree_hash sha ?r)"
    using tree_hash_append [OF len(1) ok, of sha] by (simp only: append_take_drop_id)
  have next_pair: "pair_next (fn div 2 ^ h) (sn div 2 ^ h) = (fn div 2 ^ Suc h, sn div 2 ^ Suc h)"
    using pair_next_left [OF lt] by (simp add: div_pow2_Suc del: power_Suc)
  show ?case
  proof (cases "m = 2 ^ Suc h")
    case True
    then have "j = Suc h" using Suc.prems(6) trailing_zeros_pow2 by simp
    with True Suc.prems(1) show ?thesis using subproof_all [of sha leaves] by (simp add: rebuilds_def)
  next
    case False
    then have m: "m < length (?l @ ?r)" using Suc.prems(1,3) by simp
    note sp = subproof_append [OF len(1) ok m, of sha False, unfolded append_take_drop_id]
    show ?thesis
    proof (cases "m \<le> 2 ^ h")
      case True
      then have "m - 1 < 2 ^ h" using Suc.prems(2) by simp
      then have e: "even (fn div 2 ^ h)" "fn mod 2 ^ h = m - 1"
        using mod_pow2_halves(1) [of fn h] Suc.prems(4) by (simp_all del: power_Suc)
      have "rebuilds sha m ?l (fn div 2 ^ j) (sn div 2 ^ j) (fn div 2 ^ h) (sn div 2 ^ h)"
        by (rule Suc.IH [OF len(1) Suc.prems(2) True e(2) lt Suc.prems(6)])
      with True e(1) lt show ?thesis
        by (auto simp: rebuilds_def sp th consistency_loop_append consistency_step_eq next_pair
            min_absorb1 simp del: power_Suc)
    next
      case 2: False
      then have "\<not> m - 1 < 2 ^ h" by simp
      then have e: "odd (fn div 2 ^ h)" "fn mod 2 ^ h = m - 2 ^ h - 1"
        using mod_pow2_halves(2) [of fn h] Suc.prems(4) by (simp_all del: power_Suc)
      have j: "trailing_zeros (m - 2 ^ h) j"
        using trailing_zeros_right [OF Suc.prems(6)] 2 False Suc.prems(3) by simp
      have mr: "0 < m - 2 ^ h" "m - 2 ^ h \<le> 2 ^ h" using 2 Suc.prems(3) by simp_all
      have "rebuilds sha (m - 2 ^ h) ?r (fn div 2 ^ j) (sn div 2 ^ j) (fn div 2 ^ h) (sn div 2 ^ h)"
        by (rule Suc.IH [OF len(2) mr e(2) lt j])
      moreover have "tree_hash sha (take m leaves)
          = pair_hash sha (tree_hash sha ?l) (tree_hash sha (take (m - 2 ^ h) ?r))"
      proof -
        have "take m leaves = ?l @ take (m - 2 ^ h) ?r"
          using 2 by (metis le_add_diff_inverse linorder_not_le nat_less_le take_add)
        moreover have "0 < length (take (m - 2 ^ h) ?r)" "length (take (m - 2 ^ h) ?r) \<le> 2 ^ h"
          using mr len(2) by auto
        ultimately show ?thesis using tree_hash_append [OF len(1)] by simp
      qed
      ultimately show ?thesis using 2 e(1) lt
        by (auto simp: rebuilds_def sp th consistency_loop_append consistency_step_eq next_pair
            simp del: power_Suc)
    qed
  qed
qed

lemma consistency_shift:
  "consistency_loop sha (fn, sn, x, y) ss = Some (0, 0, u, v) \<Longrightarrow> fn \<le> sn \<Longrightarrow> sn < 2 ^ q
    \<Longrightarrow> \<exists>q'. consistency_loop sha (fn + 2 ^ q, sn + 2 ^ q, x, y) ss = Some (2 ^ q', 2 ^ q', u, v)"
proof (induction ss arbitrary: fn sn x y q)
  case (Cons s ss)
  have sn: "sn \<noteq> 0" using Cons.prems(1) by (cases "sn = 0") simp_all
  let ?n = "pair_next fn sn" and ?c = "odd fn \<or> fn = sn"
  obtain q' where q': "pair_next (fn + 2 ^ q) (sn + 2 ^ q) = (fst ?n + 2 ^ q', snd ?n + 2 ^ q')"
    "snd ?n < 2 ^ q'"
    using pair_next_shift(1) [OF Cons.prems(2,3) sn] by blast
  have "consistency_loop sha (fst ?n, snd ?n, if ?c then pair_hash sha s x else x,
          if ?c then pair_hash sha s y else pair_hash sha y s) ss = Some (0, 0, u, v)"
    using Cons.prems(1) sn by (simp add: consistency_step_eq)
  from Cons.IH [OF this pair_next_le [OF Cons.prems(2)] q'(2)] show ?case
    using sn q' pair_next_shift(2) [OF Cons.prems(2,3) sn] by (simp add: consistency_step_eq)
qed simp

lemma add_pow2_div_pow2: "j \<le> h \<Longrightarrow> (a + 2 ^ h) div 2 ^ j = a div 2 ^ j + (2::nat) ^ (h - j)"
proof -
  assume "j \<le> h"
  then have "(2::nat) ^ h = 2 ^ (h - j) * 2 ^ j" by (simp flip: power_add)
  then show ?thesis by simp
qed

lemma div_pow2_less_pow2: "j \<le> h \<Longrightarrow> a < 2 ^ h \<Longrightarrow> a div 2 ^ j < (2::nat) ^ (h - j)"
  by (rule less_mult_imp_div_less) (simp flip: power_add)

lemma consistency_rebuilds:
  "0 < m \<Longrightarrow> m < length leaves \<Longrightarrow> trailing_zeros m j \<Longrightarrow>
     rebuilds sha m leaves ((m - 1) div 2 ^ j) ((length leaves - 1) div 2 ^ j) 0 0"
proof (induction leaves arbitrary: m rule: leaves_induct)
  case (append xs ys h)
  let ?n = "length (xs @ ys)"
  note sp = subproof_append [OF append.hyps(1-3) append.prems(2), of sha False]
  note th = tree_hash_append [OF append.hyps(1-3), of sha]
  show ?case
  proof (cases "m \<le> 2 ^ h")
    case True
    have sn: "(?n - 1) div 2 ^ h = 1"
      using right_edge_div [OF append.hyps(2,3)] append.hyps(1) by simp
    have fn: "(m - 1) div 2 ^ h = 0" "(m - 1) mod 2 ^ h = m - 1" using True append.prems(1) by auto
    have "rebuilds sha m xs ((m - 1) div 2 ^ j) ((?n - 1) div 2 ^ j) 0 1"
      using consistency_perfect [OF append.hyps(1) append.prems(1) True fn(2) _ append.prems(3), of "?n - 1" sha]
        fn(1) sn by simp
    with True show ?thesis
      using append.hyps(1)
      by (auto simp: rebuilds_def sp th consistency_loop_append consistency_step_eq pair_next_left)
  next
    case False
    let ?m = "m - 2 ^ h"
    have j: "trailing_zeros ?m j" "j < h"
      using trailing_zeros_right [OF append.prems(3)] False append.prems(2) append.hyps(1,3) by auto
    have m: "0 < ?m" "?m < length ys" using False append.prems(2) append.hyps(1) by auto
    from append.IH(2) [OF m j(1)] obtain b rest where b:
      "consistency_subproof sha ?m ys False = b # rest"
      "consistency_loop sha ((?m - 1) div 2 ^ j, (length ys - 1) div 2 ^ j, b, b) rest
         = Some (0, 0, tree_hash sha (take ?m ys), tree_hash sha ys)"
      by (auto simp: rebuilds_def)
    have le: "(?m - 1) div 2 ^ j \<le> (length ys - 1) div 2 ^ j" using m(2) by (intro div_le_mono) simp
    have lt: "(length ys - 1) div 2 ^ j < 2 ^ (h - j)"
      using append.hyps(2,3) j(2) by (intro div_pow2_less_pow2) linarith+
    have pair: "(m - 1) div 2 ^ j = (?m - 1) div 2 ^ j + 2 ^ (h - j)"
      "(?n - 1) div 2 ^ j = (length ys - 1) div 2 ^ j + 2 ^ (h - j)"
    proof -
      have "m - 1 = (?m - 1) + 2 ^ h" "?n - 1 = (length ys - 1) + 2 ^ h"
        using m append.hyps(1,2) by (simp, cases ys) simp_all
      then show "(m - 1) div 2 ^ j = (?m - 1) div 2 ^ j + 2 ^ (h - j)"
        "(?n - 1) div 2 ^ j = (length ys - 1) div 2 ^ j + 2 ^ (h - j)"
        using j(2) by (simp_all only: add_pow2_div_pow2 less_imp_le)
    qed
    obtain q where "consistency_loop sha ((m - 1) div 2 ^ j, (?n - 1) div 2 ^ j, b, b) rest
        = Some (2 ^ q, 2 ^ q, tree_hash sha (take ?m ys), tree_hash sha ys)"
      using consistency_shift [OF b(2) le lt] unfolding pair by blast
    moreover have "tree_hash sha (take m (xs @ ys)) = pair_hash sha (tree_hash sha xs) (tree_hash sha (take ?m ys))"
    proof -
      have "take m (xs @ ys) = xs @ take ?m ys" using False append.hyps(1) by simp
      moreover have "0 < length (take ?m ys)" "length (take ?m ys) \<le> 2 ^ h"
        using m append.hyps(3) by auto
      ultimately show ?thesis using tree_hash_append [OF append.hyps(1)] by simp
    qed
    ultimately show ?thesis
      using False b(1)
      by (auto simp: rebuilds_def sp th consistency_loop_append consistency_step_eq pair_next_pow2)
  qed
qed simp_all

text \<open>The flag only drops a first hash the verifier has already: the root of a complete subtree.\<close>

lemma subproof_flag_pow2:
  "m = 2 ^ q \<Longrightarrow> m \<le> length leaves \<Longrightarrow>
     tree_hash sha (take m leaves) # consistency_subproof sha m leaves True
       = consistency_subproof sha m leaves False"
proof (induction leaves rule: leaves_induct)
  case (append xs ys h)
  show ?case
  proof (cases "m = length (xs @ ys)")
    case True
    then show ?thesis by (simp add: consistency_subproof.simps)
  next
    case False
    with append.prems(2) have m: "m < length (xs @ ys)" by simp
    then have "m < 2 * 2 ^ h" using append.hyps(1,3) by simp
    then have "m \<le> 2 ^ h"
      using append.prems(1) pow2_mono_Suc [of h q] by (cases "h < q") (auto simp: not_less)
    with append.IH(1) append.prems(1) append.hyps(1) show ?thesis
      using subproof_append [OF append.hyps(1-3) m, of sha] by auto
  qed
next
  case (single x)
  moreover have "(1::nat) \<le> 2 ^ q" by simp
  ultimately have "m = 1" by (simp only: list.size)
  then show ?case by (simp add: consistency_subproof.simps tree_hash_single)
qed simp

lemma subproof_flag_other:
  "\<nexists>q. m = 2 ^ q \<Longrightarrow> m < length leaves \<Longrightarrow>
     consistency_subproof sha m leaves True = consistency_subproof sha m leaves False"
proof (induction leaves rule: leaves_induct)
  case (append xs ys h)
  show ?case
  proof (cases "m \<le> 2 ^ h")
    case True
    moreover have "m \<noteq> 2 ^ h" using append.prems(1) by blast
    ultimately have "m < length xs" using append.hyps(1) by linarith
    with append.IH(1) append.prems(1) True show ?thesis
      using subproof_append [OF append.hyps(1-3) append.prems(2), of sha] by auto
  next
    case False
    then show ?thesis using subproof_append [OF append.hyps(1-3) append.prems(2), of sha] by auto
  qed
qed (auto simp: consistency_subproof.simps)

lemma subproof_nonempty:
  assumes "m < length leaves" "0 < m"
  shows "consistency_subproof sha m leaves c \<noteq> []"
proof -
  have "\<not> length leaves \<le> 1" using assms by simp
  then show ?thesis using assms by (simp add: consistency_subproof.simps [of sha m leaves] Let_def)
qed

section \<open>The honest proof is accepted\<close>

lemma verify_consistency_complete:
  assumes "batch_root sha (take (nat m) hs) = Inr old_root" and "batch_root sha hs = Inr new_root"
    and "consistency_proof sha hs m = Inr pf"
  shows "verify_consistency sha old_root m new_root (int (length hs)) pf"
proof -
  obtain ls where ls: "res_mapM fromhex hs = Inr ls" "new_root = hex (tree_hash sha ls)"
    using assms(2) by (auto simp: batch_root_def res_elims)
  have old: "old_root = hex (tree_hash sha (take (nat m) ls))"
    using assms(1) res_mapM_take [OF ls(1), of "nat m"] by (auto simp: batch_root_def)
  have m: "1 \<le> m" "m \<le> int (length hs)" "pf = map hex (consistency_subproof sha (nat m) ls True)"
    using assms(3) ls by (auto simp: consistency_proof_def res_elims split: if_splits)
  have len: "length ls = length hs" using res_mapM_length [OF ls(1)] .
  show ?thesis
  proof (cases "m = int (length hs)")
    case True
    then have "pf = []" "take (nat m) ls = ls" using m(3) len by (simp_all add: consistency_subproof.simps)
    moreover have "\<not> (m < 1 \<or> int (length hs) < m)" using m(1,2) by linarith
    ultimately show ?thesis using True ls(2) old by (simp add: verify_consistency_def)
  next
    case False
    let ?m = "nat m" and ?S = "consistency_subproof sha (nat m) ls"
    have lt: "0 < ?m" "?m < length ls" using False m(1,2) len by auto
    obtain j where j: "trailing_zeros ?m j" using trailing_zeros_exist [OF lt(1)] by blast
    obtain b rest where b: "?S False = b # rest"
      "consistency_loop sha ((?m - 1) div 2 ^ j, (length ls - 1) div 2 ^ j, b, b) rest
         = Some (0, 0, tree_hash sha (take ?m ls), tree_hash sha ls)"
      using consistency_rebuilds [OF lt j, of sha] unfolding rebuilds_def by blast
    have path: "(if is_pow2_size m then tree_hash sha (take ?m ls) # ?S True else ?S True) = ?S False"
      using is_pow2_size_iff [OF lt(1)] m(1) lt(2)
        subproof_flag_pow2 [of ?m _ ls sha] subproof_flag_other [of ?m ls sha] by auto
    have sizes: "nat (m - 1) = ?m - 1" "nat (int (length hs) - 1) = length ls - 1"
      using m(1) len by auto
    have "verify_consistency sha old_root m new_root (int (length hs)) pf =
      (let path' = ?S False; (fn, sn) = strip_ones (?m - 1) (length ls - 1) in
       case consistency_loop sha (fn, sn, hd path', hd path') (tl path') of
         None \<Rightarrow> False
       | Some (fn', sn', fr, sr) \<Rightarrow> fr = tree_hash sha (take ?m ls) \<and> sr = tree_hash sha ls \<and> sn' = 0)"
      unfolding path [symmetric]
      using False m subproof_nonempty [OF lt(2,1)] ls(2) old sizes
      by (simp add: verify_consistency_def Let_def)
    then show ?thesis using b strip_ones_eq [OF j lt(1)] by simp
  qed
qed

section \<open>Properties\<close>

text \<open>Consistency proofs are complete: for every trail and every earlier size of it, the verifier
  accepts the proof the prover makes between the two roots.\<close>

theorem consistency_proof_accepted:
  assumes "batch_root sha (take (nat m) hs) = Inr old_root" and "batch_root sha hs = Inr new_root"
    and "consistency_proof sha hs m = Inr pf"
  shows "verify_consistency sha old_root m new_root (int (length hs)) pf"
  using assms by (rule verify_consistency_complete)

theorem consistency_proof_accepted_witness:
  "\<exists>old_root new_root pf. verify_consistency sha256 old_root 2 new_root
     (int (length [str ''01'', str ''02'', str ''03''])) pf"
proof -
  obtain new where new: "batch_root sha256 [str ''01'', str ''02'', str ''03''] = Inr new"
    using sample_batch by blast
  obtain old where old: "batch_root sha256 (take (nat 2) [str ''01'', str ''02'', str ''03'']) = Inr old"
    by (simp add: batch_root_def str_def ascii_space_def hexval_def)
  obtain pf where "consistency_proof sha256 [str ''01'', str ''02'', str ''03''] 2 = Inr pf"
    by (simp add: consistency_proof_def str_def ascii_space_def hexval_def)
  from consistency_proof_accepted [OF old new this] show ?thesis by blast
qed

end
