(* ===== verification/Hashing.thy ===== *)
theory Hashing
  imports Sha256
begin

text \<open>
  Entries and their canonical encoding (\<^verbatim>\<open>domain/header.py\<close>, \<^verbatim>\<open>domain/hashing.py\<close>): the header record,
  the length-prefixed field encoding \<open>lp\<close>, the header frame and the two hashes built on it. Frames are
  concatenations of self-delimiting fields; that contract is the locale \<open>prefix_code\<close>, interpreted at
  \<open>lp\<close>, and the injectivity of every frame of the program is one of its consequences.
\<close>

section \<open>The entry envelope\<close>

record entry_header =
  seq :: int
  ts :: pystr
  hash_version :: pystr
  payload_type :: pystr
  payload_hash :: pystr
  prev_hash :: pystr

record entry =
  header :: entry_header
  entry_hash :: pystr
  payload :: "bytes option"

definition GENESIS_PREV_HASH :: pystr where
  "GENESIS_PREV_HASH = replicate 64 48"

section \<open>Length-prefixed fields\<close>

definition FRAME_PREFIX :: bytes where
  "FRAME_PREFIX = asc ''waxseal-lp64'' @ [10]"

definition ENCODING :: pystr where
  "ENCODING = str ''lp64''"

text \<open>A field value: a string, or the marker for an absent one.\<close>

datatype lpval = NULL | Str pystr

definition lp_framed :: "bytes \<Rightarrow> bytes res" where
  "lp_framed enc = res_map (\<lambda>n. n @ enc) (pack_Q (length enc))"

definition lp :: "lpval \<Rightarrow> bytes res" where
  "lp v = (case v of
             NULL \<Rightarrow> lp_framed [0]
           | Str s \<Rightarrow> (case utf8_encode s of
                        None \<Rightarrow> Inl LpEncodingError
                      | Some e \<Rightarrow> lp_framed (1 # e)))"

text \<open>The concatenated encodings of a list of fields; the first field that fails decides the error.\<close>

definition enc_all :: "('a \<Rightarrow> bytes res) \<Rightarrow> 'a list \<Rightarrow> bytes res" where
  "enc_all enc xs = res_map concat (res_mapM enc xs)"

definition header_frame :: "entry_header \<Rightarrow> bytes res" where
  "header_frame h =
     res_bind (pack_Q 6) (\<lambda>n.
     res_bind (enc_all lp [Str (str_int (seq h)), Str (ts h), Str (hash_version h),
                           Str (payload_type h), Str (payload_hash h), Str (prev_hash h)]) (\<lambda>fs.
     Inr (FRAME_PREFIX @ n @ fs)))"

definition compute_entry_hash ::
  "(bytes \<Rightarrow> bytes) \<Rightarrow> (entry_header \<Rightarrow> bytes res) \<Rightarrow> entry_header \<Rightarrow> pystr res" where
  "compute_entry_hash sha frame h = res_map (\<lambda>f. hex (sha f)) (frame h)"

definition compute_payload_hash :: "(bytes \<Rightarrow> bytes) \<Rightarrow> bytes \<Rightarrow> pystr" where
  "compute_payload_hash sha p = hex (sha p)"

section \<open>Self-delimiting codes\<close>

locale prefix_code =
  fixes enc :: "'a \<Rightarrow> bytes res"
  assumes self_delimiting:
    "enc x = Inr a \<Longrightarrow> enc y = Inr b \<Longrightarrow> a @ u = b @ v \<Longrightarrow> x = y \<and> u = v"
begin

lemma enc_inj: "enc x = Inr a \<Longrightarrow> enc y = Inr a \<Longrightarrow> x = y"
  using self_delimiting [of x a y a "[]" "[]"] by simp

lemma enc_all_self_delimiting:
  assumes "length xs = length ys"
    and "enc_all enc xs = Inr a" and "enc_all enc ys = Inr b" and "a @ u = b @ v"
  shows "xs = ys \<and> u = v"
  using assms
proof (induction xs ys arbitrary: a b u v rule: list_induct2)
  case Nil
  then show ?case by (simp add: enc_all_def)
next
  case (Cons x xs y ys)
  from Cons.prems obtain c cs where c: "enc x = Inr c" "enc_all enc xs = Inr cs" "a = c @ cs"
    by (auto simp: enc_all_def res_elims)
  from Cons.prems obtain d ds where d: "enc y = Inr d" "enc_all enc ys = Inr ds" "b = d @ ds"
    by (auto simp: enc_all_def res_elims)
  have "x = y \<and> cs @ u = ds @ v"
    using self_delimiting [OF c(1) d(1)] Cons.prems(3) c(3) d(3) by simp
  with Cons.IH [OF c(2) d(2), of u v] show ?case by auto
qed

lemma enc_all_inj:
  "length xs = length ys \<Longrightarrow> enc_all enc xs = Inr a \<Longrightarrow> enc_all enc ys = Inr a \<Longrightarrow> xs = ys"
  using enc_all_self_delimiting [of xs ys a a "[]" "[]"] by simp

text \<open>A frame whose first field counts the others is self-delimiting whatever their number.\<close>

lemma counted_self_delimiting:
  assumes "pack_Q (length xs) = Inr m" "pack_Q (length ys) = Inr n"
    and "enc_all enc xs = Inr a" "enc_all enc ys = Inr b"
    and "m @ a @ u = n @ b @ v"
  shows "xs = ys \<and> u = v"
proof -
  have "length m = length n" using assms(1,2) by (simp add: length_pack_Q)
  with assms(5) have "m = n" "a @ u = b @ v" by simp_all
  with assms(1,2) have "length xs = length ys" using pack_Q_inj by blast
  then show ?thesis using assms(3,4) \<open>a @ u = b @ v\<close> by (rule enc_all_self_delimiting)
qed

end

lemma lp_framed_self_delimiting:
  assumes "lp_framed x = Inr a" "lp_framed y = Inr b" "a @ u = b @ v"
  shows "x = y \<and> u = v"
proof -
  obtain m where m: "pack_Q (length x) = Inr m" "a = m @ x"
    using assms(1) by (auto simp: lp_framed_def res_elims)
  obtain n where n: "pack_Q (length y) = Inr n" "b = n @ y"
    using assms(2) by (auto simp: lp_framed_def res_elims)
  have "length m = length n" using m n by (simp add: length_pack_Q)
  with assms(3) m n have "m = n" "x @ u = y @ v" by simp_all
  moreover have "length x = length y" using m n \<open>m = n\<close> pack_Q_inj by blast
  ultimately show ?thesis by simp
qed

text \<open>The tagged bytes determine the value: absent and every string differ in their first byte.\<close>

fun lp_body :: "lpval \<Rightarrow> bytes option" where
  "lp_body NULL = Some [0]"
| "lp_body (Str s) = map_option (Cons 1) (utf8_encode s)"

lemma lp_body_inj: "lp_body x = Some b \<Longrightarrow> lp_body y = Some b \<Longrightarrow> x = y"
  by (cases x; cases y) (auto dest: utf8_encode_inj)

lemma lp_eq_body:
  "lp v = (case lp_body v of None \<Rightarrow> Inl LpEncodingError | Some b \<Rightarrow> lp_framed b)"
  by (cases v) (auto simp: lp_def split: option.splits)

lemma lp_self_delimiting:
  assumes "lp x = Inr a" "lp y = Inr b" "a @ u = b @ v"
  shows "x = y \<and> u = v"
proof -
  obtain p where p: "lp_body x = Some p" "lp_framed p = Inr a"
    using assms(1) by (auto simp: lp_eq_body split: option.splits)
  obtain q where q: "lp_body y = Some q" "lp_framed q = Inr b"
    using assms(2) by (auto simp: lp_eq_body split: option.splits)
  have "p = q \<and> u = v" by (rule lp_framed_self_delimiting [OF p(2) q(2) assms(3)])
  with p(1) q(1) show ?thesis using lp_body_inj by blast
qed

interpretation lp: prefix_code lp
  by unfold_locales (rule lp_self_delimiting)

lemma pack_Q_small: "n < 2 ^ 64 \<Longrightarrow> pack_Q n = Inr (be_bytes 8 n)"
  by (simp add: pack_Q_def)

lemma header_frame_inj:
  assumes "header_frame h = Inr a" and "header_frame h' = Inr a"
  shows "h = h'"
proof -
  let ?f = "\<lambda>h. [Str (str_int (seq h)), Str (ts h), Str (hash_version h),
                           Str (payload_type h), Str (payload_hash h), Str (prev_hash h)]"
  obtain b where b: "enc_all lp (?f h) = Inr b" "a = FRAME_PREFIX @ be_bytes 8 6 @ b"
    using assms(1) by (auto simp: header_frame_def res_elims pack_Q_small)
  obtain c where c: "enc_all lp (?f h') = Inr c" "a = FRAME_PREFIX @ be_bytes 8 6 @ c"
    using assms(2) by (auto simp: header_frame_def res_elims pack_Q_small)
  have "?f h = ?f h'"
    by (rule lp.enc_all_inj [OF _ b(1)]) (use b c in auto)
  then show ?thesis by (auto dest: str_int_inj)
qed

section \<open>Which strings and headers can be encoded\<close>

definition encodable :: "pystr \<Rightarrow> bool" where
  "encodable s \<longleftrightarrow> (case utf8_encode s of None \<Rightarrow> False | Some e \<Rightarrow> length e + 1 < 2 ^ 64)"

lemma lp_encodable: "encodable s \<Longrightarrow> \<exists>b. lp (Str s) = Inr b"
  by (auto simp: encodable_def lp_def lp_framed_def pack_Q_def split: option.splits)

lemma lp_Inr_encodable: "lp (Str s) = Inr b \<Longrightarrow> encodable s"
  by (auto simp: encodable_def lp_def lp_framed_def pack_Q_def res_elims
           split: option.splits if_splits)

lemma utf8_cp_length: "utf8_cp n = Some b \<Longrightarrow> length b \<le> 4"
  by (auto simp: utf8_cp_def split: if_splits)

lemma utf8_encode_length: "utf8_encode s = Some b \<Longrightarrow> length b \<le> 4 * length s"
  by (induction s arbitrary: b) (fastforce split: option.splits dest: utf8_cp_length)+

text \<open>
  The lengths Python can hold fit the 64-bit prefix, so the only way \<open>lp\<close> fails on a string shorter
  than \<open>2 ^ 61\<close> code points is a code point UTF-8 cannot represent.
\<close>

definition short :: "pystr \<Rightarrow> bool" where
  "short s \<longleftrightarrow> length s < 2 ^ 61"

lemma lp_short_errors: "short s \<Longrightarrow> lp (Str s) = Inl e \<Longrightarrow> e = LpEncodingError"
  using utf8_encode_length [of s]
  by (fastforce simp: short_def lp_def lp_framed_def pack_Q_def res_elims
           split: option.splits if_splits)

definition short_header :: "entry_header \<Rightarrow> bool" where
  "short_header h \<longleftrightarrow> short (str_int (seq h)) \<and> short (ts h) \<and> short (hash_version h)
     \<and> short (payload_type h) \<and> short (payload_hash h) \<and> short (prev_hash h)"

lemma enc_all_errors: "enc_all enc xs = Inl e \<Longrightarrow> \<exists>x \<in> set xs. enc x = Inl e"
  by (auto simp: enc_all_def res_elims dest: res_mapM_Inl)

lemma header_frame_errors:
  "short_header h \<Longrightarrow> header_frame h = Inl e \<Longrightarrow> e = LpEncodingError"
  by (auto simp: header_frame_def short_header_def res_elims pack_Q_small
           dest!: enc_all_errors lp_short_errors)

lemma enc_all_total: "(\<And>x. x \<in> set xs \<Longrightarrow> \<exists>b. enc x = Inr b) \<Longrightarrow> \<exists>b. enc_all enc xs = Inr b"
proof (cases "enc_all enc xs")
  case (Inl e)
  then obtain x where "x \<in> set xs" "enc x = Inl e" using enc_all_errors by blast
  moreover assume "\<And>x. x \<in> set xs \<Longrightarrow> \<exists>b. enc x = Inr b"
  ultimately show ?thesis by (metis sum.distinct(1))
qed simp

lemma str_ascii: "c \<in> set (str s) \<Longrightarrow> (\<And>x. x \<in> set s \<Longrightarrow> of_char x < (128::nat)) \<Longrightarrow> c < 128"
  by (auto simp: str_def)

definition encodable_header :: "entry_header \<Rightarrow> bool" where
  "encodable_header h \<longleftrightarrow> encodable (str_int (seq h)) \<and> encodable (ts h)
     \<and> encodable (hash_version h) \<and> encodable (payload_type h)
     \<and> encodable (payload_hash h) \<and> encodable (prev_hash h)"

lemma header_frame_encodable: "encodable_header h \<Longrightarrow> \<exists>b. header_frame h = Inr b"
proof -
  let ?f = "[Str (str_int (seq h)), Str (ts h), Str (hash_version h),
             Str (payload_type h), Str (payload_hash h), Str (prev_hash h)]"
  assume "encodable_header h"
  then have "\<exists>b. enc_all lp ?f = Inr b"
    by (intro enc_all_total) (auto simp: encodable_header_def lp_encodable)
  then show ?thesis by (auto simp: header_frame_def pack_Q_small)
qed

lemma encodable_ascii:
  "(\<And>c. c \<in> set s \<Longrightarrow> c < 128) \<Longrightarrow> length s < 2 ^ 61 \<Longrightarrow> encodable s"
  by (simp add: encodable_def ascii_utf8)

lemma str_append [simp]: "str (a @ b) = str a @ str b"
  by (simp add: str_def)

text \<open>C25. Two headers with the same canonical frame are the same header, field by field: the length
  prefixes leave no way to move bytes from one field into its neighbour.\<close>

theorem header_frame_injective:
  assumes "header_frame h = Inr f" and "header_frame h' = Inr f"
  shows "h = h'"
  using assms by (rule header_frame_inj)

definition sample_header :: "int \<Rightarrow> pystr \<Rightarrow> entry_header" where
  "sample_header i prev = \<lparr>seq = i, ts = [], hash_version = [], payload_type = [], payload_hash = [],
     prev_hash = prev\<rparr>"

lemma encodable_str_int: "length (str_int i) < 2 ^ 61 \<Longrightarrow> encodable (str_int i)"
  by (rule encodable_ascii) (rule str_int_ascii)

lemma encodable_Nil [simp]: "encodable []"
  by (simp add: encodable_def)

lemma length_str_int_digit: "0 \<le> i \<Longrightarrow> i < 10 \<Longrightarrow> length (str_int i) = 1"
  by (simp add: str_int_def digits.simps [of "nat i"] nat_less_iff)

lemma sample_header_frame:
  assumes "0 \<le> i" "i < 10" "encodable prev"
  shows "\<exists>f. header_frame (sample_header i prev) = Inr f"
  using assms encodable_str_int [of i] length_str_int_digit [of i]
  by (intro header_frame_encodable) (simp add: sample_header_def encodable_header_def)

theorem header_frame_injective_witness:
  "\<exists>f. header_frame (sample_header 0 []) = Inr f
     \<and> header_frame \<lparr>seq = 0, ts = [], hash_version = [], payload_type = [], payload_hash = [],
          prev_hash = []\<rparr> = Inr f
     \<and> sample_header 0 [] = \<lparr>seq = 0, ts = [], hash_version = [], payload_type = [],
          payload_hash = [], prev_hash = []\<rparr>"
proof -
  let ?h = "\<lparr>seq = 0, ts = [], hash_version = [], payload_type = [], payload_hash = [], prev_hash = []\<rparr>"
  obtain f where f: "header_frame (sample_header 0 []) = Inr f" using sample_header_frame by force
  moreover from f have "header_frame ?h = Inr f" by (simp add: sample_header_def)
  ultimately show ?thesis using header_frame_injective [of "sample_header 0 []" f ?h] by blast
qed

end
