(* ===== verification/Sealing.thy ===== *)
theory Sealing
  imports Hashing Merkle
begin

text \<open>
  Forward-secure sealing (\<^verbatim>\<open>domain/sealing.py\<close>): the evolving epoch key, one seal per entry, the check of
  a list of attestations, and the running aggregate with its publishable commitment. The lemmas give the
  verifier's result in closed form, show that a seal determines the entry hash it was made for, and that
  an aggregate determines every row folded into it.
\<close>

definition FS_HMAC_SCHEME :: pystr where "FS_HMAC_SCHEME = str ''fs-hmac-sha256-v1''"
definition SEAL_FRAME_PREFIX :: bytes where "SEAL_FRAME_PREFIX = asc ''waxseal-seal-v1'' @ [10]"
definition FS_HMAC_AGG_SCHEME :: pystr where "FS_HMAC_AGG_SCHEME = str ''fs-hmac-agg-sha256-v1''"
definition AGG_FRAME_PREFIX :: bytes where "AGG_FRAME_PREFIX = asc ''waxseal-agg-v1'' @ [10]"
definition AGG_GENESIS :: pystr where "AGG_GENESIS = replicate 64 48"
definition AGG_COMMIT_FRAME_PREFIX :: bytes where
  "AGG_COMMIT_FRAME_PREFIX = asc ''waxseal-aggcommit-v1'' @ [10]"

record attestation =
  att_seq :: int
  att_entry_hash :: pystr
  att_scheme :: pystr
  att_value :: pystr
  att_key_id :: "pystr option"

record attest_result =
  ar_ok :: bool
  ar_checked :: nat
  ar_broken_seq :: "int option"
  ar_reason :: "string option"
  ar_unverifiable :: "int list"

definition evolve_key :: "(bytes \<Rightarrow> bytes) \<Rightarrow> bytes \<Rightarrow> bytes" where
  "evolve_key sha key = sha key"

definition seal_entry :: "(bytes \<Rightarrow> bytes) \<Rightarrow> bytes \<Rightarrow> pystr \<Rightarrow> pystr res" where
  "seal_entry sha epoch_key eh =
     res_map (\<lambda>b. hex (hmac sha epoch_key (SEAL_FRAME_PREFIX @ b))) (ascii_encode eh)"

text \<open>\<^verbatim>\<open>hmac.compare_digest\<close> of two strings: a non-ASCII one is a \<open>TypeError\<close>.\<close>

definition compare_digest :: "pystr \<Rightarrow> pystr \<Rightarrow> bool res" where
  "compare_digest a b = (if \<forall>c \<in> set a \<union> set b. c < 128 then Inr (a = b) else Inl TypeError)"

definition sealed_scheme :: "pystr \<Rightarrow> bool" where
  "sealed_scheme s \<longleftrightarrow> s = FS_HMAC_SCHEME \<or> s = FS_HMAC_AGG_SCHEME"

definition seal_broken :: "nat \<Rightarrow> int list \<Rightarrow> int \<Rightarrow> string \<Rightarrow> attest_result" where
  "seal_broken checked unv sq rsn =
     \<lparr>ar_ok = False, ar_checked = checked, ar_broken_seq = Some sq, ar_reason = Some rsn, ar_unverifiable = unv\<rparr>"

fun verify_seals_from ::
  "(bytes \<Rightarrow> bytes) \<Rightarrow> nat \<Rightarrow> nat \<Rightarrow> int list \<Rightarrow> bytes \<Rightarrow> attestation list \<Rightarrow> attest_result res" where
  "verify_seals_from sha position checked unv key [] =
     Inr \<lparr>ar_ok = True, ar_checked = checked, ar_broken_seq = None, ar_reason = None, ar_unverifiable = unv\<rparr>"
| "verify_seals_from sha position checked unv key (att # atts) =
     (if att_seq att \<noteq> int position then Inr (seal_broken checked unv (att_seq att) ''seal_sequence_mismatch'')
      else if sealed_scheme (att_scheme att) then
        (case res_bind (seal_entry sha key (att_entry_hash att)) (\<lambda>expected. compare_digest expected (att_value att)) of
           Inl e \<Rightarrow> if e = UnicodeEncodeError \<or> e = TypeError
                    then Inr (seal_broken checked unv (att_seq att) ''malformed_attestation'') else Inl e
         | Inr matches \<Rightarrow>
             if \<not> matches then Inr (seal_broken checked unv (att_seq att) ''seal_mismatch'')
             else verify_seals_from sha (position + 1) (checked + 1) unv (evolve_key sha key) atts)
      else verify_seals_from sha (position + 1) checked (unv @ [att_seq att]) (evolve_key sha key) atts)"

definition verify_seals :: "(bytes \<Rightarrow> bytes) \<Rightarrow> attestation list \<Rightarrow> bytes \<Rightarrow> attest_result res" where
  "verify_seals sha atts initial_key = verify_seals_from sha 0 0 [] initial_key atts"

section \<open>The running aggregate\<close>

definition agg_frame :: "pystr \<Rightarrow> pystr \<Rightarrow> bytes res" where
  "agg_frame prev_agg v =
     res_bind (fromhex prev_agg) (\<lambda>p. res_bind (lp (Str v)) (\<lambda>b. Inr (AGG_FRAME_PREFIX @ p @ b)))"

definition aggregate_step :: "(bytes \<Rightarrow> bytes) \<Rightarrow> bytes \<Rightarrow> pystr \<Rightarrow> pystr \<Rightarrow> pystr res" where
  "aggregate_step sha epoch_key prev_agg v =
     res_map (\<lambda>frame. hex (hmac sha epoch_key frame)) (agg_frame prev_agg v)"

text \<open>The fold both aggregate checks run: rows before \<open>agg_start\<close> and of other schemes only advance the key.\<close>

fun agg_fold ::
  "(bytes \<Rightarrow> bytes) \<Rightarrow> int \<Rightarrow> int \<Rightarrow> nat \<Rightarrow> bytes \<Rightarrow> pystr \<Rightarrow> attestation list \<Rightarrow> pystr res" where
  "agg_fold sha agg_start epoch position key running [] = Inr running"
| "agg_fold sha agg_start epoch position key running (att # atts) =
     (if int position \<ge> epoch then Inr running
      else if int position \<ge> agg_start \<and> att_scheme att = FS_HMAC_AGG_SCHEME
      then res_bind (aggregate_step sha key running (att_value att)) (\<lambda>r.
             agg_fold sha agg_start epoch (position + 1) (evolve_key sha key) r atts)
      else agg_fold sha agg_start epoch (position + 1) (evolve_key sha key) running atts)"

definition verify_aggregate ::
  "(bytes \<Rightarrow> bytes) \<Rightarrow> attestation list \<Rightarrow> bytes \<Rightarrow> int \<Rightarrow> int \<Rightarrow> pystr \<Rightarrow> string option res" where
  "verify_aggregate sha atts initial_key agg_start epoch agg =
     (if \<not> (0 \<le> agg_start \<and> agg_start \<le> epoch) then Inr (Some ''malformed_aggregate'')
      else if epoch > int (length atts) then Inr (Some ''aggregate_epoch_mismatch'')
      else (case fromhex agg of
        Inl _ \<Rightarrow> Inr (Some ''malformed_aggregate'')
      | Inr _ \<Rightarrow>
          if \<exists>att \<in> set (drop (nat epoch) atts). att_scheme att = FS_HMAC_AGG_SCHEME
          then Inr (Some ''aggregate_epoch_mismatch'')
          else (case agg_fold sha agg_start epoch 0 initial_key AGG_GENESIS atts of
                  Inl e \<Rightarrow> if is_ValueError e then Inr (Some ''malformed_aggregate'') else Inl e
                | Inr running \<Rightarrow> Inr (if running \<noteq> agg then Some ''aggregate_mismatch'' else None))))"

definition aggregate_commit :: "(bytes \<Rightarrow> bytes) \<Rightarrow> int \<Rightarrow> pystr \<Rightarrow> pystr res" where
  "aggregate_commit sha epoch agg =
     res_bind (fromhex agg) (\<lambda>_. res_bind (pack_Q 2) (\<lambda>n.
       res_bind (enc_all lp [Str (str_int epoch), Str agg]) (\<lambda>b.
         Inr (hex (sha (AGG_COMMIT_FRAME_PREFIX @ n @ b))))))"

definition verify_anchored_aggregate ::
  "(bytes \<Rightarrow> bytes) \<Rightarrow> attestation list \<Rightarrow> bytes \<Rightarrow> int \<Rightarrow> int \<Rightarrow> pystr \<Rightarrow> string option res" where
  "verify_anchored_aggregate sha atts initial_key agg_start anchored_epoch anchored_commit =
     (if \<not> (0 \<le> agg_start \<and> agg_start \<le> anchored_epoch) then Inr (Some ''malformed_anchored_aggregate'')
      else (case fromhex anchored_commit of
        Inl _ \<Rightarrow> Inr (Some ''malformed_anchored_aggregate'')
      | Inr _ \<Rightarrow>
          if anchored_epoch > int (length atts) then Inr (Some ''anchored_aggregate_epoch_mismatch'')
          else (case agg_fold sha agg_start anchored_epoch 0 initial_key AGG_GENESIS atts of
                  Inl e \<Rightarrow> if is_ValueError e then Inr (Some ''malformed_anchored_aggregate'') else Inl e
                | Inr running \<Rightarrow>
                    res_bind (aggregate_commit sha anchored_epoch running) (\<lambda>c.
                    res_bind (compare_digest c anchored_commit) (\<lambda>same.
                      Inr (if \<not> same then Some ''anchored_aggregate_mismatch'' else None))))))"

section \<open>The check in closed form\<close>

text \<open>The key of an epoch, whatever rows came before it.\<close>

definition key_at :: "(bytes \<Rightarrow> bytes) \<Rightarrow> bytes \<Rightarrow> nat \<Rightarrow> bytes" where
  "key_at sha key i = (evolve_key sha ^^ i) key"

lemma key_at_Suc: "evolve_key sha (key_at sha key i) = key_at sha key (Suc i)"
  by (simp add: key_at_def)

lemma key_at_0 [simp]: "key_at sha key 0 = key"
  by (simp add: key_at_def)

definition seal_problem :: "(bytes \<Rightarrow> bytes) \<Rightarrow> bytes \<Rightarrow> nat \<Rightarrow> attestation \<Rightarrow> string option" where
  "seal_problem sha key i att =
     (if att_seq att \<noteq> int i then Some ''seal_sequence_mismatch''
      else if \<not> sealed_scheme (att_scheme att) then None
      else if \<not> (\<forall>c \<in> set (att_entry_hash att) \<union> set (att_value att). c < 128) then Some ''malformed_attestation''
      else if seal_entry sha (key_at sha key i) (att_entry_hash att) \<noteq> Inr (att_value att) then Some ''seal_mismatch''
      else None)"

definition seals_report :: "attestation list \<Rightarrow> (nat \<times> string) option \<Rightarrow> attest_result" where
  "seals_report atts prob =
     (let upto = (case prob of None \<Rightarrow> atts | Some (n, r) \<Rightarrow> take n atts) in
      \<lparr>ar_ok = (prob = None),
       ar_checked = length (filter (\<lambda>a. sealed_scheme (att_scheme a)) upto),
       ar_broken_seq = map_option (\<lambda>(n, r). att_seq (atts ! n)) prob,
       ar_reason = map_option snd prob,
       ar_unverifiable = map att_seq (filter (\<lambda>a. \<not> sealed_scheme (att_scheme a)) upto)\<rparr>)"

lemma hex_hmac_ascii: "seal_entry sha key eh = Inr x \<Longrightarrow> c \<in> set x \<Longrightarrow> c < 128"
  by (auto simp: seal_entry_def res_elims dest: hex_ascii)

lemma verify_seals_step:
  "verify_seals_from sha i checked unv (key_at sha key i) (att # atts) =
     (case seal_problem sha key i att of
        Some r \<Rightarrow> Inr (seal_broken checked unv (att_seq att) r)
      | None \<Rightarrow> if sealed_scheme (att_scheme att)
          then verify_seals_from sha (Suc i) (checked + 1) unv (key_at sha key (Suc i)) atts
          else verify_seals_from sha (Suc i) checked (unv @ [att_seq att]) (key_at sha key (Suc i)) atts)"
proof (cases "ascii_encode (att_entry_hash att)")
  case (Inl e)
  then have "e = UnicodeEncodeError" "\<not> (\<forall>c \<in> set (att_entry_hash att). c < 128)"
    by (auto simp: ascii_encode_def split: if_splits)
  with Inl show ?thesis by (auto simp: seal_problem_def key_at_Suc seal_entry_def)
next
  case (Inr b)
  then have a: "\<forall>c \<in> set (att_entry_hash att). c < 128" by (auto simp: ascii_encode_def split: if_splits)
  obtain x where x: "seal_entry sha (key_at sha key i) (att_entry_hash att) = Inr x"
    using Inr by (simp add: seal_entry_def)
  have "\<forall>c \<in> set x. c < 128" using hex_hmac_ascii [OF x] by blast
  with a x show ?thesis
    by (auto simp: seal_problem_def key_at_Suc compare_digest_def)
qed

declare verify_seals_from.simps(2) [simp del]

lemma verify_seals_from_report:
  "verify_seals_from sha (length pre) (length (filter (\<lambda>a. sealed_scheme (att_scheme a)) pre))
     (map att_seq (filter (\<lambda>a. \<not> sealed_scheme (att_scheme a)) pre)) (key_at sha key (length pre)) atts
   = Inr (seals_report (pre @ atts) (first_problem (seal_problem sha key) (length pre) atts))"
proof (induction atts arbitrary: pre)
  case Nil
  show ?case by (simp add: seals_report_def)
next
  case (Cons att atts)
  show ?case
  proof (cases "seal_problem sha key (length pre) att")
    case (Some r)
    then show ?thesis
      by (simp add: verify_seals_step seals_report_def seal_broken_def)
  next
    case None
    then show ?thesis using Cons.IH [of "pre @ [att]"]
      by (cases "sealed_scheme (att_scheme att)") (simp_all add: verify_seals_step)
  qed
qed

lemma verify_seals_report:
  "verify_seals sha atts key = Inr (seals_report atts (first_problem (seal_problem sha key) 0 atts))"
  using verify_seals_from_report [of sha "[]" key atts] by (simp add: verify_seals_def)

lemma verified_seal:
  assumes "verify_seals sha atts key = Inr r" "ar_ok r" and "i < length atts" "sealed_scheme (att_scheme (atts ! i))"
  shows "seal_entry sha (key_at sha key i) (att_entry_hash (atts ! i)) = Inr (att_value (atts ! i))"
proof -
  have "first_problem (seal_problem sha key) 0 atts = None"
    using assms(1,2) by (auto simp: verify_seals_report seals_report_def Let_def)
  then have "seal_problem sha key i (atts ! i) = None" using assms(3) by (simp add: first_problem_None)
  with assms(4) show ?thesis by (auto simp: seal_problem_def split: if_splits)
qed

text \<open>What the seal of an entry hash applies the hash function to.\<close>

definition seal_inputs :: "(bytes \<Rightarrow> bytes) \<Rightarrow> bytes \<Rightarrow> pystr \<Rightarrow> bytes set" where
  "seal_inputs sha key eh =
     {x. \<exists>b. ascii_encode eh = Inr b \<and> x \<in> hmac_inputs sha key (SEAL_FRAME_PREFIX @ b)}"

lemma seal_entry_inj:
  assumes "seal_entry sha key a = Inr x" "seal_entry sha key b = Inr x"
    and "inj_on sha (seal_inputs sha key a \<union> seal_inputs sha key b)"
  shows "a = b"
proof -
  obtain p where p: "ascii_encode a = Inr p" "x = hex (hmac sha key (SEAL_FRAME_PREFIX @ p))"
    using assms(1) by (auto simp: seal_entry_def res_elims)
  obtain q where q: "ascii_encode b = Inr q" "x = hex (hmac sha key (SEAL_FRAME_PREFIX @ q))"
    using assms(2) by (auto simp: seal_entry_def res_elims)
  have "inj_on sha (hmac_inputs sha key (SEAL_FRAME_PREFIX @ p) \<union> hmac_inputs sha key (SEAL_FRAME_PREFIX @ q))"
    by (rule inj_on_subset [OF assms(3)]) (use p q in \<open>auto simp: seal_inputs_def\<close>)
  from hmac_inj [OF this] p(2) q(2) have "p = q" by simp
  with p q ascii_encode_inj show ?thesis by blast
qed

section \<open>The aggregate binds its rows\<close>

text \<open>The rows folded into an aggregate, with their epochs, newest first, and the fold over them.\<close>

definition agg_rows :: "int \<Rightarrow> int \<Rightarrow> nat \<Rightarrow> attestation list \<Rightarrow> (nat \<times> pystr) list" where
  "agg_rows agg_start epoch p atts =
     rev (map (\<lambda>(i, a). (i, att_value a))
       (filter (\<lambda>(i, a). agg_start \<le> int i \<and> int i < epoch \<and> att_scheme a = FS_HMAC_AGG_SCHEME)
         (zip [p..<p + length atts] atts)))"

fun agg_run :: "(bytes \<Rightarrow> bytes) \<Rightarrow> bytes \<Rightarrow> (nat \<times> pystr) list \<Rightarrow> pystr res" where
  "agg_run sha key [] = Inr AGG_GENESIS"
| "agg_run sha key ((i, v) # older) =
     res_bind (agg_run sha key older) (\<lambda>r. aggregate_step sha (key_at sha key i) r v)"

lemma agg_rows_Nil [simp]: "agg_rows s e p [] = []"
  by (simp add: agg_rows_def)

lemma agg_rows_Cons:
  "agg_rows s e p (a # atts) = agg_rows s e (Suc p) atts @
     (if s \<le> int p \<and> int p < e \<and> att_scheme a = FS_HMAC_AGG_SCHEME then [(p, att_value a)] else [])"
  by (simp add: agg_rows_def upt_conv_Cons del: upt_Suc)

lemma agg_rows_beyond: "e \<le> int p \<Longrightarrow> agg_rows s e p atts = []"
  by (induction atts arbitrary: p) (simp_all add: agg_rows_Cons)

lemma agg_run_Inl: "agg_run sha key older = Inl e \<Longrightarrow> agg_run sha key (newer @ older) = Inl e"
  by (induction newer) auto

lemma agg_fold_run:
  "agg_run sha key older = Inr running \<Longrightarrow>
     agg_fold sha s e p (key_at sha key p) running atts = agg_run sha key (agg_rows s e p atts @ older)"
proof (induction atts arbitrary: p running older)
  case Nil
  then show ?case by simp
next
  case (Cons a atts)
  show ?case
  proof (cases "e \<le> int p")
    case True
    then show ?thesis using Cons.prems by (simp add: agg_rows_beyond)
  next
    case e: False
    show ?thesis
    proof (cases "s \<le> int p \<and> att_scheme a = FS_HMAC_AGG_SCHEME")
      case True
      show ?thesis
      proof (cases "aggregate_step sha (key_at sha key p) running (att_value a)")
        case (Inl x)
        then have "agg_run sha key ((p, att_value a) # older) = Inl x" using Cons.prems by simp
        from agg_run_Inl [OF this] True e Inl show ?thesis by (simp add: agg_rows_Cons)
      next
        case (Inr r)
        then have "agg_run sha key ((p, att_value a) # older) = Inr r" using Cons.prems by simp
        from Cons.IH [OF this, of "Suc p"] True e Inr show ?thesis by (simp add: agg_rows_Cons key_at_Suc)
      qed
    next
      case False
      then have "agg_rows s e p (a # atts) = agg_rows s e (Suc p) atts" by (simp add: agg_rows_Cons)
      with False e Cons.IH [OF Cons.prems, of "Suc p"] show ?thesis by (auto simp: key_at_Suc)
    qed
  qed
qed

lemma agg_fold_rows:
  "agg_fold sha s e 0 key AGG_GENESIS atts = agg_run sha key (agg_rows s e 0 atts)"
  using agg_fold_run [of sha key "[]" AGG_GENESIS s e 0 atts] by simp

text \<open>What the fold applies the hash function to.\<close>

fun agg_inputs :: "(bytes \<Rightarrow> bytes) \<Rightarrow> bytes \<Rightarrow> (nat \<times> pystr) list \<Rightarrow> bytes set" where
  "agg_inputs sha key [] = {}"
| "agg_inputs sha key ((i, v) # older) =
     agg_inputs sha key older \<union>
     {x. \<exists>r f. agg_run sha key older = Inr r \<and> agg_frame r v = Inr f \<and> x \<in> hmac_inputs sha (key_at sha key i) f}"

lemma hex_zeros: "hex (replicate n 0) = replicate (2 * n) 48"
  by (induction n) (simp_all add: hexdigit_def)

lemma fromhex_genesis: "AGG_GENESIS = hex (replicate 32 0)"
  by (simp only: AGG_GENESIS_def hex_zeros) simp

context digest32
begin

lemma length_hmac_key: "length (hmac_key sha k) = 64"
  by (auto simp: hmac_key_def Let_def digest_length)

lemma xor_byte_inj: "(a :: byte) XOR c = b XOR c \<longleftrightarrow> a = b"
  by (metis xor.assoc xor_self_eq xor.right_neutral)

lemma map_xor_inj: "map (\<lambda>b. b XOR c) xs = map (\<lambda>b. b XOR (c :: byte)) ys \<longleftrightarrow> xs = ys"
  by (rule inj_map_eq_map) (simp add: inj_def xor_byte_inj)

lemma hmac_inj_key:
  assumes "inj_on sha (hmac_inputs sha k m \<union> hmac_inputs sha k' m')" and "hmac sha k m = hmac sha k' m'"
  shows "hmac_key sha k = hmac_key sha k' \<and> m = m'"
proof -
  let ?i = "\<lambda>k m. map (\<lambda>b. b XOR 0x36) (hmac_key sha k) @ m"
  let ?o = "\<lambda>k m. map (\<lambda>b. b XOR 0x5c) (hmac_key sha k) @ sha (?i k m)"
  have "?o k m = ?o k' m'"
    by (rule inj_onD [OF assms(1) assms(2) [unfolded hmac_def]]) (simp_all add: hmac_inputs_def Let_def)
  then have "map (\<lambda>b. b XOR 0x5c) (hmac_key sha k) = map (\<lambda>b. b XOR 0x5c) (hmac_key sha k')
      \<and> sha (?i k m) = sha (?i k' m')"
    by (subst (asm) append_eq_prefix_length) (simp_all only: length_map length_hmac_key simp_thms)
  then have e: "hmac_key sha k = hmac_key sha k'" "sha (?i k m) = sha (?i k' m')"
    unfolding map_xor_inj by blast+
  from e(2) have "?i k m = ?i k' m'"
    by (rule inj_onD [OF assms(1)]) (simp_all add: hmac_inputs_def Let_def)
  with e(1) show ?thesis by simp
qed

lemma agg_run_hex: "agg_run sha key rows = Inr r \<Longrightarrow> \<exists>d. r = hex d \<and> length d = 32"
proof (cases rows)
  case Nil
  moreover assume "agg_run sha key rows = Inr r"
  ultimately have "r = hex (replicate 32 0)" by (simp add: fromhex_genesis)
  then show ?thesis by (metis length_replicate)
next
  case (Cons x older)
  moreover assume "agg_run sha key rows = Inr r"
  ultimately show ?thesis
    by (cases x) (auto simp: res_elims aggregate_step_def hmac_def digest_length)
qed

lemma agg_frame_inj:
  assumes "agg_frame r v = Inr f" "agg_frame r' v' = Inr f"
    and "r = hex d" "length d = 32" "r' = hex d'" "length d' = 32"
  shows "r = r' \<and> v = v'"
proof -
  obtain b where b: "lp (Str v) = Inr b" "f = AGG_FRAME_PREFIX @ d @ b"
    using assms(1,3) by (auto simp: agg_frame_def res_elims)
  obtain c where c: "lp (Str v') = Inr c" "f = AGG_FRAME_PREFIX @ d' @ c"
    using assms(2,5) by (auto simp: agg_frame_def res_elims)
  have "d = d'" "b = c" using b(2) c(2) assms(4,6) by auto
  with b(1) c(1) assms(3,5) show ?thesis using lp.enc_inj [of "Str v" b "Str v'"] by simp
qed

lemma agg_run_binding:
  assumes "agg_run sha key rows = Inr r" "agg_run sha key rows' = Inr r"
    and "inj_on sha (agg_inputs sha key rows \<union> agg_inputs sha key rows')"
    and "\<forall>x \<in> agg_inputs sha key rows \<union> agg_inputs sha key rows'. sha x \<noteq> replicate 32 0"
    and "inj_on (\<lambda>i. hmac_key sha (key_at sha key i)) (fst ` (set rows \<union> set rows'))"
  shows "rows = rows'"
  using assms
proof (induction rows arbitrary: rows' r)
  case Nil
  show ?case
  proof (cases rows')
    case (Cons x older)
    obtain i v where x: "x = (i, v)" by force
    obtain q f where q: "agg_run sha key older = Inr q" "agg_frame q v = Inr f"
      "r = hex (hmac sha (key_at sha key i) f)"
      using Nil.prems(2) Cons x by (auto simp: res_elims aggregate_step_def)
    have "hmac sha (key_at sha key i) f = replicate 32 0"
      using Nil.prems(1) q(3) by (simp add: fromhex_genesis)
    moreover have "\<exists>y \<in> agg_inputs sha key rows'. hmac sha (key_at sha key i) f = sha y"
      using q(1,2) Cons x by (auto simp: hmac_def hmac_inputs_def Let_def)
    ultimately show ?thesis using Nil.prems(4) by auto
  qed simp
next
  case (Cons x older)
  obtain i v where x: "x = (i, v)" by force
  obtain q f where q: "agg_run sha key older = Inr q" "agg_frame q v = Inr f"
    "r = hex (hmac sha (key_at sha key i) f)"
    using Cons.prems(1) x by (auto simp: res_elims aggregate_step_def)
  have sub: "hmac_inputs sha (key_at sha key i) f \<subseteq> agg_inputs sha key (x # older)"
    using q x by auto
  show ?case
  proof (cases rows')
    case Nil
    then have "hmac sha (key_at sha key i) f = replicate 32 0"
      using Cons.prems(2) q(3) by (simp add: fromhex_genesis)
    moreover have "\<exists>y \<in> agg_inputs sha key (x # older). hmac sha (key_at sha key i) f = sha y"
      using sub by (auto simp: hmac_def hmac_inputs_def Let_def)
    ultimately show ?thesis using Cons.prems(4) by auto
  next
    case c: (Cons x' older')
    obtain i' v' where x': "x' = (i', v')" by force
    obtain q' f' where q': "agg_run sha key older' = Inr q'" "agg_frame q' v' = Inr f'"
      "r = hex (hmac sha (key_at sha key i') f')"
      using Cons.prems(2) x' c by (auto simp: res_elims aggregate_step_def)
    have sub': "hmac_inputs sha (key_at sha key i') f' \<subseteq> agg_inputs sha key rows'"
      using q' x' c by auto
    have "hmac_key sha (key_at sha key i) = hmac_key sha (key_at sha key i') \<and> f = f'"
    proof (rule hmac_inj_key)
      show "inj_on sha (hmac_inputs sha (key_at sha key i) f \<union> hmac_inputs sha (key_at sha key i') f')"
        by (rule inj_on_subset [OF Cons.prems(3)]) (use sub sub' in blast)
      show "hmac sha (key_at sha key i) f = hmac sha (key_at sha key i') f'"
        using q(3) q'(3) by simp
    qed
    then have f: "f = f'" and k: "hmac_key sha (key_at sha key i) = hmac_key sha (key_at sha key i')"
      by simp_all
    have "i = i'" by (rule inj_onD [OF Cons.prems(5) k]) (simp_all add: x x' c)
    moreover have e: "q = q' \<and> v = v'"
      using agg_frame_inj [OF q(2) q'(2) [folded f]] agg_run_hex [OF q(1)] agg_run_hex [OF q'(1)] by blast
    moreover have "older = older'"
    proof (rule Cons.IH [OF q(1)])
      show "agg_run sha key older' = Inr q" using q'(1) e by simp
      show "inj_on sha (agg_inputs sha key older \<union> agg_inputs sha key older')"
        by (rule inj_on_subset [OF Cons.prems(3)]) (auto simp: x x' c)
      show "\<forall>x \<in> agg_inputs sha key older \<union> agg_inputs sha key older'. sha x \<noteq> replicate 32 0"
        using Cons.prems(4) by (auto simp: x x' c)
      show "inj_on (\<lambda>i. hmac_key sha (key_at sha key i)) (fst ` (set older \<union> set older'))"
        by (rule inj_on_subset [OF Cons.prems(5)]) (auto simp: x x' c)
    qed
    ultimately show ?thesis using x x' c by simp
  qed
qed

end

section \<open>Commitments\<close>

definition commit_inputs :: "int \<Rightarrow> pystr \<Rightarrow> bytes set" where
  "commit_inputs epoch agg =
     {x. \<exists>b. enc_all lp [Str (str_int epoch), Str agg] = Inr b \<and> x = AGG_COMMIT_FRAME_PREFIX @ be_bytes 8 2 @ b}"

lemma aggregate_commit_inj:
  assumes "aggregate_commit sha epoch a = Inr c" "aggregate_commit sha epoch' b = Inr c"
    and "inj_on sha (commit_inputs epoch a \<union> commit_inputs epoch' b)"
  shows "epoch = epoch' \<and> a = b"
proof -
  obtain p where p: "enc_all lp [Str (str_int epoch), Str a] = Inr p"
    "c = hex (sha (AGG_COMMIT_FRAME_PREFIX @ be_bytes 8 2 @ p))"
    using assms(1) by (auto simp: aggregate_commit_def res_elims pack_Q_small)
  obtain q where q: "enc_all lp [Str (str_int epoch'), Str b] = Inr q"
    "c = hex (sha (AGG_COMMIT_FRAME_PREFIX @ be_bytes 8 2 @ q))"
    using assms(2) by (auto simp: aggregate_commit_def res_elims pack_Q_small)
  have "sha (AGG_COMMIT_FRAME_PREFIX @ be_bytes 8 2 @ p) = sha (AGG_COMMIT_FRAME_PREFIX @ be_bytes 8 2 @ q)"
    using p(2) q(2) by simp
  then have "AGG_COMMIT_FRAME_PREFIX @ be_bytes 8 2 @ p = AGG_COMMIT_FRAME_PREFIX @ be_bytes 8 2 @ q"
    by (rule inj_onD [OF assms(3)]) (use p(1) q(1) in \<open>auto simp: commit_inputs_def\<close>)
  then have "p = q" by simp
  then have "[Str (str_int epoch), Str a] = [Str (str_int epoch'), Str b]"
    using q(1) by (intro lp.enc_all_inj [OF _ p(1)]) simp_all
  then show ?thesis by (auto dest: str_int_inj)
qed

section \<open>Properties\<close>

text \<open>Seal verification never raises and reports exactly the first problem: a seal at the wrong
  position, one that cannot be encoded, or one that is not the MAC of its entry hash under the key of
  its epoch. The key of an epoch is the initial key evolved once per row, rows of unknown schemes
  included, which are listed as unverifiable.\<close>

theorem verify_seals_exact:
  "verify_seals sha atts key = Inr (seals_report atts (first_problem (seal_problem sha key) 0 atts))"
  by (rule verify_seals_report)

text \<open>A verified seal determines its entry: two attestation lists that verify under one initial key
  and carry the same seal at the same position carry the same entry hash there, unless the hash
  function collides on what the two seals hash.\<close>

theorem seal_binds_entry:
  assumes "verify_seals sha atts key = Inr r" "ar_ok r" "verify_seals sha atts' key = Inr r'" "ar_ok r'"
    and "i < length atts" "i < length atts'"
    and "sealed_scheme (att_scheme (atts ! i))" "sealed_scheme (att_scheme (atts' ! i))"
    and "att_value (atts ! i) = att_value (atts' ! i)"
    and "inj_on sha (seal_inputs sha (key_at sha key i) (att_entry_hash (atts ! i))
           \<union> seal_inputs sha (key_at sha key i) (att_entry_hash (atts' ! i)))"
  shows "att_entry_hash (atts ! i) = att_entry_hash (atts' ! i)"
  using seal_entry_inj [OF verified_seal [OF assms(1,2,5,7)] _ assms(10)]
    verified_seal [OF assms(3,4,6,8)] assms(9) by simp

definition sample_seal :: "(bytes \<Rightarrow> bytes) \<Rightarrow> attestation" where
  "sample_seal sha = \<lparr>att_seq = 0, att_entry_hash = [], att_scheme = FS_HMAC_SCHEME,
     att_value = hex (hmac sha [] SEAL_FRAME_PREFIX), att_key_id = None\<rparr>"

lemma hmac_inputs_zero_key:
  "inj_on first32 (hmac_inputs first32 [] f)" "x \<in> hmac_inputs first32 [] f \<Longrightarrow> first32 x \<noteq> replicate 32 0"
proof -
  have k: "hmac_key first32 [] = replicate 64 0" by (simp add: hmac_key_def)
  have i: "map (\<lambda>b. b XOR 0x36) (hmac_key first32 []) = replicate 64 (0x36 :: byte)"
    and o: "map (\<lambda>b. b XOR 0x5c) (hmac_key first32 []) = replicate 64 (0x5c :: byte)"
    unfolding k by simp_all
  have f: "first32 (replicate 64 c @ y) = replicate 32 c" for c y
    by (simp add: first32_def)
  have ne: "replicate 32 c \<noteq> replicate 32 (d :: byte)" if "c \<noteq> d" for c d
    using that by (simp add: replicate_eq_replicate)
  show "inj_on first32 (hmac_inputs first32 [] f)"
    unfolding hmac_inputs_def Let_def i o by (auto simp: f ne intro!: inj_onI)
  show "x \<in> hmac_inputs first32 [] f \<Longrightarrow> first32 x \<noteq> replicate 32 0"
    unfolding hmac_inputs_def Let_def i o by (auto simp: f ne)
qed

theorem seal_binds_entry_witness:
  "verify_seals first32 [sample_seal first32] []
     = Inr \<lparr>ar_ok = True, ar_checked = 1, ar_broken_seq = None, ar_reason = None, ar_unverifiable = []\<rparr>
   \<and> att_entry_hash ([sample_seal first32] ! 0) = att_entry_hash ([sample_seal first32] ! 0)"
proof -
  let ?r = "\<lparr>ar_ok = True, ar_checked = 1, ar_broken_seq = None, ar_reason = None, ar_unverifiable = []\<rparr>"
  have s: "sealed_scheme (att_scheme ([sample_seal first32] ! 0))"
    by (simp add: sample_seal_def sealed_scheme_def)
  have "seal_problem first32 [] 0 (sample_seal first32) = None"
    using hex_ascii by (auto simp: seal_problem_def sample_seal_def seal_entry_def ascii_encode_def)
  then have v: "verify_seals first32 [sample_seal first32] [] = Inr ?r"
    using s by (simp add: verify_seals_report seals_report_def)
  have "inj_on first32 (seal_inputs first32 [] [])"
    by (rule inj_on_subset [OF hmac_inputs_zero_key(1) [of SEAL_FRAME_PREFIX]])
       (auto simp: seal_inputs_def ascii_encode_def)
  then show ?thesis
    using seal_binds_entry [OF v _ v _ _ _ s s refl] v by (simp add: sample_seal_def)
qed

text \<open>C10. An anchored aggregate commitment pins the sealed rows: a trail accepted against the commitment
  of another has at least the anchored number of rows, and every row folded into the commitment sits at
  the same epoch with the same seal value, so that truncation, replacement and re-labelling of the anchored
  rows are all detected. The hypotheses exclude collisions of the hash, a digest of all zeros and a
  repetition in the key sequence.\<close>

theorem anchored_aggregate_binds:
  assumes "digest32 sha"
    and "agg_fold sha agg_start epoch 0 key AGG_GENESIS atts = Inr agg"
    and "aggregate_commit sha epoch agg = Inr commit"
    and "verify_anchored_aggregate sha atts' key agg_start epoch commit = Inr None"
    and "agg_fold sha agg_start epoch 0 key AGG_GENESIS atts' = Inr agg'"
    and "inj_on sha (commit_inputs epoch agg \<union> commit_inputs epoch agg')"
    and "inj_on sha (agg_inputs sha key (agg_rows agg_start epoch 0 atts)
           \<union> agg_inputs sha key (agg_rows agg_start epoch 0 atts'))"
    and "\<forall>x \<in> agg_inputs sha key (agg_rows agg_start epoch 0 atts)
           \<union> agg_inputs sha key (agg_rows agg_start epoch 0 atts'). sha x \<noteq> replicate 32 0"
    and "inj_on (\<lambda>i. hmac_key sha (key_at sha key i))
           (fst ` (set (agg_rows agg_start epoch 0 atts) \<union> set (agg_rows agg_start epoch 0 atts')))"
  shows "epoch \<le> int (length atts') \<and> agg_rows agg_start epoch 0 atts' = agg_rows agg_start epoch 0 atts"
proof -
  have len: "epoch \<le> int (length atts')" and c: "aggregate_commit sha epoch agg' = Inr commit"
    using assms(4,5) by (auto simp: verify_anchored_aggregate_def compare_digest_def res_elims
        split: if_splits sum.splits)
  have "agg' = agg"
    using aggregate_commit_inj [OF c assms(3)] assms(6) by (simp add: Un_commute)
  then have "agg_rows agg_start epoch 0 atts = agg_rows agg_start epoch 0 atts'"
    using digest32.agg_run_binding [OF assms(1) _ _ assms(7-9)] assms(2,5) by (simp add: agg_fold_rows)
  with len show ?thesis by simp
qed

definition sample_agg :: attestation where
  "sample_agg = \<lparr>att_seq = 0, att_entry_hash = [], att_scheme = FS_HMAC_AGG_SCHEME, att_value = [],
     att_key_id = None\<rparr>"

theorem anchored_aggregate_binds_witness:
  "\<exists>agg commit. agg_fold first32 0 1 0 [] AGG_GENESIS [sample_agg] = Inr agg
     \<and> aggregate_commit first32 1 agg = Inr commit
     \<and> verify_anchored_aggregate first32 [sample_agg] [] 0 1 commit = Inr None
     \<and> agg_rows 0 1 0 [sample_agg] = agg_rows 0 1 0 [sample_agg]"
proof -
  have rows: "agg_rows 0 1 0 [sample_agg] = [(0, [])]" by (simp add: agg_rows_Cons sample_agg_def)
  obtain b where b: "lp (Str []) = Inr b" using lp_encodable by fastforce
  define f where "f = AGG_FRAME_PREFIX @ replicate 32 0 @ b"
  have f: "agg_frame AGG_GENESIS [] = Inr f" by (simp add: agg_frame_def fromhex_genesis b f_def)
  define agg where "agg = hex (hmac first32 [] f)"
  have a: "agg_fold first32 0 1 0 [] AGG_GENESIS [sample_agg] = Inr agg"
    by (simp add: sample_agg_def aggregate_step_def f agg_def)
  have "encodable agg" using hex_ascii unfolding agg_def
    by (intro encodable_ascii) (auto simp: hmac_def digest32.digest_length [OF digest32_first32])
  then have "\<exists>b. enc_all lp [Str (str_int 1), Str agg] = Inr b"
    using encodable_str_int [of 1] length_str_int_digit [of 1] by (intro enc_all_total) (auto simp: lp_encodable)
  then obtain c where c: "aggregate_commit first32 1 agg = Inr c"
    by (auto simp: aggregate_commit_def agg_def pack_Q_small)
  obtain d where d: "c = hex d" using c by (auto simp: aggregate_commit_def res_elims)
  have v: "verify_anchored_aggregate first32 [sample_agg] [] 0 1 c = Inr None"
    using a c hex_ascii [of _ d] by (auto simp: verify_anchored_aggregate_def compare_digest_def d)
  have inputs: "agg_inputs first32 [] [(0, [])] = hmac_inputs first32 [] f"
    by (simp add: f)
  have "inj_on first32 (commit_inputs 1 agg)" by (auto simp: commit_inputs_def intro!: inj_onI)
  then have "agg_rows 0 1 0 [sample_agg] = agg_rows 0 1 0 [sample_agg]"
    using anchored_aggregate_binds [OF digest32_first32 a c v a] hmac_inputs_zero_key by (simp add: rows inputs)
  with a c v show ?thesis by blast
qed

end
