(* ===== verification/Verdict.thy ===== *)
theory Verdict
  imports Prelude
begin

text \<open>
  The verdict of one check (\<^verbatim>\<open>domain/verdict.py\<close>) and the composition of exit codes at the command
  line (\<^verbatim>\<open>cli/_common.py\<close>). Severity is the order \<open>OK < UNVERIFIABLE < BROKEN\<close>; the exit codes are not
  monotone in it. The order, with \<open>join\<close> as its supremum and \<open>OK\<close> as its least element, is
  declared to the library's classes, so the laws of a bounded semilattice apply to verdicts.
\<close>

datatype verdict = OK | UNVERIFIABLE | BROKEN

fun SEVERITY :: "verdict \<Rightarrow> int" where
  "SEVERITY OK = 0"
| "SEVERITY UNVERIFIABLE = 1"
| "SEVERITY BROKEN = 2"

definition join :: "verdict \<Rightarrow> verdict \<Rightarrow> verdict" where
  "join a b = (if SEVERITY a \<ge> SEVERITY b then a else b)"

fun to_exit_code :: "verdict \<Rightarrow> int" where
  "to_exit_code OK = 0"
| "to_exit_code BROKEN = 1"
| "to_exit_code UNVERIFIABLE = 2"

definition from_exit_code :: "int \<Rightarrow> verdict res" where
  "from_exit_code c =
     (if c = 0 then Inr OK else if c = 1 then Inr BROKEN else if c = 2 then Inr UNVERIFIABLE
      else Inl ValueError)"

text \<open>\<^verbatim>\<open>_combine\<close>: read every code back, join from \<open>OK\<close>, convert to a code again.\<close>

definition combine :: "int list \<Rightarrow> int res" where
  "combine codes =
     res_bind (res_mapM from_exit_code codes) (\<lambda>vs. Inr (to_exit_code (fold (\<lambda>v acc. join acc v) vs OK)))"

text \<open>\<^verbatim>\<open>_Check.verdict\<close>: one dimension's summary as a verdict.\<close>

definition check_verdict :: "bool \<Rightarrow> bool \<Rightarrow> verdict" where
  "check_verdict ok unverifiable =
     (if \<not> ok then BROKEN else if unverifiable then UNVERIFIABLE else OK)"

text \<open>\<^verbatim>\<open>CheckSummary\<close> without its notes, and the verdict of a \<^verbatim>\<open>_Check\<close> that carries it.\<close>

record check_summary =
  su_ok :: bool
  su_checked :: int
  su_reason :: "string option"
  su_unverifiable :: bool

definition summary_verdict :: "check_summary \<Rightarrow> verdict" where
  "summary_verdict su = check_verdict (su_ok su) (su_unverifiable su)"

definition check_exit_code :: "check_summary \<Rightarrow> int" where
  "check_exit_code su = to_exit_code (summary_verdict su)"

section \<open>The severity order\<close>

lemma SEVERITY_inj: "SEVERITY a = SEVERITY b \<Longrightarrow> a = b"
  by (cases a; cases b) auto

lemma SEVERITY_nonneg [simp]: "0 \<le> SEVERITY a"
  by (cases a) auto

instantiation verdict :: linorder
begin

definition less_eq_verdict :: "verdict \<Rightarrow> verdict \<Rightarrow> bool" where
  "a \<le> b \<longleftrightarrow> SEVERITY a \<le> SEVERITY b"

definition less_verdict :: "verdict \<Rightarrow> verdict \<Rightarrow> bool" where
  "a < b \<longleftrightarrow> SEVERITY a < SEVERITY b"

instance
  by standard (auto simp: less_eq_verdict_def less_verdict_def dest: SEVERITY_inj)

end

instantiation verdict :: bounded_semilattice_sup_bot
begin

definition sup_verdict :: "verdict \<Rightarrow> verdict \<Rightarrow> verdict" where
  "sup_verdict = join"

definition bot_verdict :: verdict where
  "bot_verdict = OK"

instance
  by standard (auto simp: sup_verdict_def bot_verdict_def join_def less_eq_verdict_def)

end

lemma join_eq_max: "join a b = max a b"
  by (auto simp: join_def max_def less_eq_verdict_def dest: SEVERITY_inj)

lemma verdict_le_iff [simp]:
  "OK \<le> v" "v \<le> BROKEN" "v \<le> OK \<longleftrightarrow> v = OK" "BROKEN \<le> v \<longleftrightarrow> v = BROKEN"
  "UNVERIFIABLE \<le> v \<longleftrightarrow> v \<noteq> OK"
  by (cases v; simp add: less_eq_verdict_def)+

lemma join_assoc: "join (join a b) c = join a (join b c)"
  by (simp add: join_eq_max max.assoc)

lemma join_commute: "join a b = join b a"
  by (simp add: join_eq_max max.commute)

lemma join_idem [simp]: "join a a = a"
  by (simp add: join_eq_max)

lemma join_OK [simp]: "join OK a = a" "join a OK = a"
  by (simp_all add: join_eq_max max_def)

lemma join_BROKEN [simp]: "join BROKEN a = BROKEN" "join a BROKEN = BROKEN"
  by (simp_all add: join_eq_max max_def)

lemma join_eq_OK [simp]: "join a b = OK \<longleftrightarrow> a = OK \<and> b = OK"
  by (cases a; cases b; simp add: join_def)

lemma join_eq_BROKEN [simp]: "join a b = BROKEN \<longleftrightarrow> a = BROKEN \<or> b = BROKEN"
  by (cases a; cases b; simp add: join_def)

lemma fold_join_BROKEN:
  "fold (\<lambda>v acc. join acc v) vs a = BROKEN \<longleftrightarrow> a = BROKEN \<or> BROKEN \<in> set vs"
  by (induction vs arbitrary: a) auto

lemma fold_join_OK: "fold (\<lambda>v acc. join acc v) vs a = OK \<longleftrightarrow> a = OK \<and> set vs \<subseteq> {OK}"
  by (induction vs arbitrary: a) auto

lemma fold_join_upper: "v \<in> set vs \<Longrightarrow> v \<le> fold (\<lambda>v acc. join acc v) vs a"
proof (induction vs arbitrary: a)
  case Nil
  then show ?case by simp
next
  case (Cons w vs)
  have grow: "x \<le> fold (\<lambda>v acc. join acc v) us x" for us x
    by (induction us arbitrary: x) (auto simp: join_eq_max intro: order_trans [OF max.cobounded1])
  from Cons show ?case
    using grow [of "join a w" vs] by (auto simp: join_eq_max)
qed

section \<open>Exit codes\<close>

lemma from_to_exit_code [simp]: "from_exit_code (to_exit_code v) = Inr v"
  by (cases v) (simp_all add: from_exit_code_def)

lemma from_exit_code_iff: "from_exit_code c = Inr v \<longleftrightarrow> c = to_exit_code v"
  by (cases v) (auto simp: from_exit_code_def)

lemma to_exit_code_inj: "to_exit_code a = to_exit_code b \<longleftrightarrow> a = b"
  by (cases a; cases b) auto

lemma from_exit_codes_to_exit_codes: "res_mapM from_exit_code (map to_exit_code vs) = Inr vs"
  by (induction vs) auto

lemma combine_codes: "combine (map to_exit_code vs) = Inr (to_exit_code (fold (\<lambda>v acc. join acc v) vs OK))"
  by (simp add: combine_def from_exit_codes_to_exit_codes)

lemma fold_join_Max: "fold (\<lambda>v acc. join acc v) vs a = Max (insert a (set vs))"
proof (induction vs arbitrary: a)
  case (Cons v vs)
  have "fold (\<lambda>v acc. join acc v) (v # vs) a = Max (insert (max a v) (set vs))"
    using Cons.IH [of "max a v"] by (simp add: join_eq_max)
  also have "\<dots> = Max (insert a (set (v # vs)))"
    by (cases "vs = []") (simp_all add: max.assoc)
  finally show ?case .
qed simp

text \<open>The exit code of a run over several checks is the code of its worst verdict, the maximum in
  the order of severity with OK for a run without checks. It does not depend on the order of the
  checks, although the codes themselves are not ordered by severity.\<close>

theorem combine_is_worst: "combine (map to_exit_code vs) = Inr (to_exit_code (Max (insert OK (set vs))))"
  by (simp add: combine_codes fold_join_Max)

end
