(* ===== verification/Registry.thy ===== *)
theory Registry
  imports Hashing Verdict
begin

text \<open>
  Version identities (\<^verbatim>\<open>domain/fingerprint.py\<close>, \<^verbatim>\<open>domain/receipt_fingerprint.py\<close>) and the append-only
  registries that resolve them (\<^verbatim>\<open>domain/registry.py\<close>): the descriptor frame and its fingerprint, the
  version registry with its encoder table, the on-chain cross-check, the descriptor decoder and the
  receipt-frame registry. The lemmas show that registering never changes what a known fingerprint
  means, that no reachable registry can raise on a lookup, and that the decoder accepts exactly the
  descriptor frames.
\<close>

section \<open>Fingerprints\<close>

definition DESCRIPTOR_PREFIX :: bytes where
  "DESCRIPTOR_PREFIX = asc ''waxseal-descriptor-v1'' @ [10]"

definition ALGORITHM :: pystr where
  "ALGORITHM = str ''sha256''"

definition HEADER_FIELDS :: "pystr list" where
  "HEADER_FIELDS = [str ''seq'', str ''ts'', str ''hash_version'', str ''payload_type'',
                    str ''payload_hash'', str ''prev_hash'']"

text \<open>\<^verbatim>\<open>fingerprint._lp\<close>: the descriptor's own length prefix, without the type tag of \<open>lp\<close>.\<close>

definition desc_lp :: "pystr \<Rightarrow> bytes res" where
  "desc_lp s = (case utf8_encode s of None \<Rightarrow> Inl UnicodeEncodeError | Some e \<Rightarrow> lp_framed e)"

definition component_frame :: "bytes \<Rightarrow> pystr list \<Rightarrow> bytes res" where
  "component_frame pre comps =
     res_bind (pack_Q (length comps)) (\<lambda>n. res_bind (enc_all desc_lp comps) (\<lambda>fs. Inr (pre @ n @ fs)))"

definition fingerprint_for :: "(bytes \<Rightarrow> bytes) \<Rightarrow> pystr list \<Rightarrow> pystr res" where
  "fingerprint_for sha fs =
     res_map (\<lambda>f. hex (sha f)) (component_frame DESCRIPTOR_PREFIX (ALGORITHM # ENCODING # fs))"

definition fingerprint :: "(bytes \<Rightarrow> bytes) \<Rightarrow> pystr res" where
  "fingerprint sha = fingerprint_for sha HEADER_FIELDS"

definition RECEIPT_DESCRIPTOR_PREFIX :: bytes where
  "RECEIPT_DESCRIPTOR_PREFIX = asc ''waxseal-receipt-descriptor-v1'' @ [10]"

definition RECEIPT_FRAME_FIELDS :: "pystr list" where
  "RECEIPT_FRAME_FIELDS = [str ''receipt_seq'', str ''prev_receipt_head'', str ''entry_hash'']"

definition receipt_fingerprint_for :: "(bytes \<Rightarrow> bytes) \<Rightarrow> pystr list \<Rightarrow> pystr res" where
  "receipt_fingerprint_for sha fs =
     res_map (\<lambda>f. hex (sha f))
       (component_frame RECEIPT_DESCRIPTOR_PREFIX (ALGORITHM # ENCODING # fs))"

definition receipt_fingerprint :: "(bytes \<Rightarrow> bytes) \<Rightarrow> pystr res" where
  "receipt_fingerprint sha = receipt_fingerprint_for sha RECEIPT_FRAME_FIELDS"

section \<open>The version registry\<close>

record version_registry =
  schemas :: "pystr \<rightharpoonup> pystr list"
  encoding :: "pystr \<rightharpoonup> pystr"

type_synonym encoder = "entry_header \<Rightarrow> bytes res"

definition ENCODERS :: "pystr \<rightharpoonup> encoder" where
  "ENCODERS = [ENCODING \<mapsto> header_frame]"

definition new_registry :: "(bytes \<Rightarrow> bytes) \<Rightarrow> version_registry res" where
  "new_registry sha =
     res_map (\<lambda>fp. \<lparr>schemas = [fp \<mapsto> HEADER_FIELDS], encoding = [fp \<mapsto> ENCODING]\<rparr>) (fingerprint sha)"

definition knows :: "version_registry \<Rightarrow> pystr \<Rightarrow> bool" where
  "knows reg fp \<longleftrightarrow> schemas reg fp \<noteq> None"

definition registry_fields :: "version_registry \<Rightarrow> pystr \<Rightarrow> pystr list res" where
  "registry_fields reg fp = (case schemas reg fp of None \<Rightarrow> Inl KeyError | Some fs \<Rightarrow> Inr fs)"

definition encoder_for :: "version_registry \<Rightarrow> pystr \<Rightarrow> encoder option res" where
  "encoder_for reg fp =
     (if schemas reg fp \<noteq> Some HEADER_FIELDS then Inr None
      else (case encoding reg fp of None \<Rightarrow> Inl KeyError
            | Some e \<Rightarrow> (case ENCODERS e of None \<Rightarrow> Inl KeyError | Some f \<Rightarrow> Inr (Some f))))"

definition recomputable :: "version_registry \<Rightarrow> pystr \<Rightarrow> bool res" where
  "recomputable reg fp = res_map (\<lambda>e. e \<noteq> None) (encoder_for reg fp)"

definition register ::
  "(bytes \<Rightarrow> bytes) \<Rightarrow> version_registry \<Rightarrow> pystr list \<Rightarrow> (pystr \<times> version_registry) res" where
  "register sha reg fs =
     res_map (\<lambda>fp. (fp, if schemas reg fp = None then reg\<lparr>schemas := (schemas reg)(fp \<mapsto> fs)\<rparr> else reg))
       (fingerprint_for sha fs)"

text \<open>The registries a program can hold: a new one, and what registering makes of it.\<close>

inductive reachable_registry :: "(bytes \<Rightarrow> bytes) \<Rightarrow> version_registry \<Rightarrow> bool" for sha where
  new: "new_registry sha = Inr reg \<Longrightarrow> reachable_registry sha reg"
| step: "reachable_registry sha reg \<Longrightarrow> register sha reg fs = Inr (fp, reg')
    \<Longrightarrow> reachable_registry sha reg'"

section \<open>The on-chain cross-check\<close>

definition descriptor_frame :: "pystr list \<Rightarrow> bytes res" where
  "descriptor_frame fs = component_frame DESCRIPTOR_PREFIX (ALGORITHM # ENCODING # fs)"

fun decode_components :: "nat \<Rightarrow> bytes \<Rightarrow> pystr list option" where
  "decode_components 0 raw = (if raw = [] then Some [] else None)"
| "decode_components (Suc n) raw =
     (if length raw < 8 then None
      else let size = be_val (take 8 raw); rest = drop 8 raw in
        if length rest < size then None
        else (case utf8_decode (take size rest) of None \<Rightarrow> None
              | Some c \<Rightarrow> map_option (Cons c) (decode_components n (drop size rest))))"

definition decode_descriptor :: "bytes \<Rightarrow> pystr list option" where
  "decode_descriptor raw =
     (if take (length DESCRIPTOR_PREFIX) raw \<noteq> DESCRIPTOR_PREFIX then None
      else let rest = drop (length DESCRIPTOR_PREFIX) raw in
        if length rest < 8 then None
        else decode_components (be_val (take 8 rest)) (drop 8 rest))"

record registry_finding =
  rf_fingerprint :: pystr
  rf_status :: string
  rf_reason :: "string option"
  locally_known :: bool
  locally_recomputable :: bool
  onchain_descriptor :: "pystr list option"
  onchain_descriptor_hex :: "pystr option"

definition REGISTRY_AGREES :: string where "REGISTRY_AGREES = ''agrees''"
definition REGISTRY_DISAGREES :: string where "REGISTRY_DISAGREES = ''disagrees''"
definition REGISTRY_ABSENT :: string where "REGISTRY_ABSENT = ''absent''"
definition REGISTRY_UNREACHABLE :: string where "REGISTRY_UNREACHABLE = ''unreachable''"

lemmas registry_status_defs =
  REGISTRY_AGREES_def REGISTRY_DISAGREES_def REGISTRY_ABSENT_def REGISTRY_UNREACHABLE_def

definition REGISTRY_STATUS :: "string \<rightharpoonup> verdict" where
  "REGISTRY_STATUS = [REGISTRY_AGREES \<mapsto> OK, REGISTRY_DISAGREES \<mapsto> UNVERIFIABLE,
                      REGISTRY_ABSENT \<mapsto> UNVERIFIABLE, REGISTRY_UNREACHABLE \<mapsto> UNVERIFIABLE]"

definition registry_to_verdict :: "registry_finding \<Rightarrow> verdict res" where
  "registry_to_verdict f =
     (case REGISTRY_STATUS (rf_status f) of None \<Rightarrow> Inl ValueError | Some v \<Rightarrow> Inr v)"

definition cross_check ::
  "(bytes \<Rightarrow> bytes) \<Rightarrow> version_registry \<Rightarrow> pystr \<Rightarrow> bytes option \<Rightarrow> bool \<Rightarrow> registry_finding res" where
  "cross_check sha reg fp desc reachable =
     res_bind (recomputable reg fp) (\<lambda>recomp.
       let known = knows reg fp in
       if \<not> reachable then
         Inr \<lparr>rf_fingerprint = fp, rf_status = REGISTRY_UNREACHABLE,
              rf_reason = Some ''registry_could_not_be_read'',
              locally_known = known, locally_recomputable = recomp,
              onchain_descriptor = None, onchain_descriptor_hex = None\<rparr>
       else (case desc of
         None \<Rightarrow>
           Inr \<lparr>rf_fingerprint = fp, rf_status = REGISTRY_ABSENT,
                rf_reason = Some ''registry_fingerprint_not_registered'',
                locally_known = known, locally_recomputable = recomp,
                onchain_descriptor = None, onchain_descriptor_hex = None\<rparr>
       | Some d \<Rightarrow>
           (let agrees = (hex (sha d) = fp) in
            Inr \<lparr>rf_fingerprint = fp,
                 rf_status = (if agrees then REGISTRY_AGREES else REGISTRY_DISAGREES),
                 rf_reason = (if agrees then None else Some ''registry_disagreement''),
                 locally_known = known, locally_recomputable = recomp,
                 onchain_descriptor = decode_descriptor d,
                 onchain_descriptor_hex = Some (hex d)\<rparr>)))"

section \<open>The receipt-frame registry\<close>

type_synonym receipt_registry = "pystr \<rightharpoonup> pystr list"

definition new_receipt_registry :: "(bytes \<Rightarrow> bytes) \<Rightarrow> receipt_registry res" where
  "new_receipt_registry sha =
     res_map (\<lambda>fp. [fp \<mapsto> RECEIPT_FRAME_FIELDS]) (receipt_fingerprint sha)"

definition receipt_knows :: "receipt_registry \<Rightarrow> pystr \<Rightarrow> bool" where
  "receipt_knows reg fp \<longleftrightarrow> reg fp \<noteq> None"

definition receipt_register ::
  "(bytes \<Rightarrow> bytes) \<Rightarrow> receipt_registry \<Rightarrow> pystr list \<Rightarrow> (pystr \<times> receipt_registry) res" where
  "receipt_register sha reg fs =
     res_map (\<lambda>fp. (fp, if reg fp = None then reg(fp \<mapsto> fs) else reg)) (receipt_fingerprint_for sha fs)"

section \<open>Descriptors are self-delimiting\<close>

lemma desc_lp_self_delimiting:
  assumes "desc_lp x = Inr a" "desc_lp y = Inr b" "a @ u = b @ v"
  shows "x = y \<and> u = v"
proof -
  obtain p where p: "utf8_encode x = Some p" "lp_framed p = Inr a"
    using assms(1) by (auto simp: desc_lp_def split: option.splits)
  obtain q where q: "utf8_encode y = Some q" "lp_framed q = Inr b"
    using assms(2) by (auto simp: desc_lp_def split: option.splits)
  have "p = q \<and> u = v" by (rule lp_framed_self_delimiting [OF p(2) q(2) assms(3)])
  with p(1) q(1) show ?thesis using utf8_encode_inj by blast
qed

interpretation dlp: prefix_code desc_lp
  by unfold_locales (rule desc_lp_self_delimiting)

lemma component_frame_inj:
  assumes "component_frame pre xs = Inr a" and "component_frame pre ys = Inr a"
  shows "xs = ys"
proof -
  obtain m b where m: "pack_Q (length xs) = Inr m" "enc_all desc_lp xs = Inr b" "a = pre @ m @ b"
    using assms(1) by (auto simp: component_frame_def res_elims)
  obtain n c where n: "pack_Q (length ys) = Inr n" "enc_all desc_lp ys = Inr c" "a = pre @ n @ c"
    using assms(2) by (auto simp: component_frame_def res_elims)
  show ?thesis
    using dlp.counted_self_delimiting [OF m(1) n(1) m(2) n(2), of "[]" "[]"] m(3) n(3) by simp
qed

lemma descriptor_frame_inj:
  "descriptor_frame fs = Inr a \<Longrightarrow> descriptor_frame gs = Inr a \<Longrightarrow> fs = gs"
  unfolding descriptor_frame_def by (drule (1) component_frame_inj) simp

lemma fingerprint_for_eq: "fingerprint_for sha fs = res_map (\<lambda>d. hex (sha d)) (descriptor_frame fs)"
  by (simp add: fingerprint_for_def descriptor_frame_def)

section \<open>The decoder accepts exactly the frames\<close>

lemma desc_lp_Inr:
  "desc_lp c = Inr b \<longleftrightarrow>
     (\<exists>e. utf8_encode c = Some e \<and> length e < 2 ^ 64 \<and> b = be_bytes 8 (length e) @ e)"
  by (auto simp: desc_lp_def lp_framed_def pack_Q_def split: option.splits)

lemma decode_components_encode:
  "enc_all desc_lp comps = Inr raw \<Longrightarrow> decode_components (length comps) raw = Some comps"
proof (induction comps arbitrary: raw)
  case Nil
  then show ?case by (simp add: enc_all_def)
next
  case (Cons c comps)
  then obtain b raw' where b: "desc_lp c = Inr b" "enc_all desc_lp comps = Inr raw'" "raw = b @ raw'"
    by (auto simp: enc_all_def res_elims)
  then obtain e where e: "utf8_encode c = Some e" "length e < 2 ^ 64"
    "raw = be_bytes 8 (length e) @ e @ raw'"
    by (auto simp: desc_lp_Inr)
  have "be_val (be_bytes 8 (length e)) = length e" using e(2) by (simp add: be_val_be_bytes)
  then show ?case
    using Cons.IH [OF b(2)] utf8_decode_encode [OF e(1)] by (simp add: e(3) Let_def)
qed

lemma decode_components_sound:
  "decode_components n raw = Some comps \<Longrightarrow> length comps = n \<and> enc_all desc_lp comps = Inr raw"
proof (induction n arbitrary: raw comps)
  case 0
  then show ?case by (auto simp: enc_all_def split: if_splits)
next
  case (Suc n)
  let ?size = "be_val (take 8 raw)" and ?rest = "drop 8 raw"
  from Suc.prems obtain c cs where c: "8 \<le> length raw" "?size \<le> length ?rest"
    "utf8_decode (take ?size ?rest) = Some c" "decode_components n (drop ?size ?rest) = Some cs"
    "comps = c # cs"
    by (auto simp: Let_def split: if_splits option.splits)
  have enc: "utf8_encode c = Some (take ?size ?rest)" by (rule utf8_encode_decode [OF c(3)])
  have len: "length (take 8 raw) = 8" "length (take ?size ?rest) = ?size" using c(1,2) by auto
  have "?size < 256 ^ 8" using be_val_less [of "take 8 raw"] len(1) by simp
  then have small: "?size < 2 ^ 64" by simp
  have "be_bytes 8 ?size = take 8 raw" using be_bytes_be_val [of "take 8 raw"] len(1) by simp
  then have "desc_lp c = Inr (take 8 raw @ take ?size ?rest)"
    using enc len(2) small by (simp add: desc_lp_def lp_framed_def pack_Q_def)
  moreover have "length cs = n \<and> enc_all desc_lp cs = Inr (drop ?size ?rest)"
    by (rule Suc.IH [OF c(4)])
  moreover have "take 8 raw @ take ?size ?rest @ drop ?size ?rest = raw"
    by (simp only: append_take_drop_id)
  ultimately show ?case using c(5) by (auto simp: enc_all_def res_elims)
qed

lemma decode_descriptor_frame:
  "component_frame DESCRIPTOR_PREFIX comps = Inr raw \<longleftrightarrow> decode_descriptor raw = Some comps"
proof
  assume "component_frame DESCRIPTOR_PREFIX comps = Inr raw"
  then obtain n fs where n: "pack_Q (length comps) = Inr n" "enc_all desc_lp comps = Inr fs"
    "raw = DESCRIPTOR_PREFIX @ n @ fs"
    by (auto simp: component_frame_def res_elims)
  then show "decode_descriptor raw = Some comps"
    using decode_components_encode [OF n(2)] be_val_pack_Q [OF n(1)] length_pack_Q [OF n(1)]
    by (simp add: decode_descriptor_def)
next
  let ?k = "length DESCRIPTOR_PREFIX"
  let ?rest = "drop ?k raw"
  assume "decode_descriptor raw = Some comps"
  then have d: "take ?k raw = DESCRIPTOR_PREFIX" "8 \<le> length ?rest"
    "decode_components (be_val (take 8 ?rest)) (drop 8 ?rest) = Some comps"
    by (auto simp: decode_descriptor_def Let_def split: if_splits)
  have len: "length (take 8 ?rest) = 8" using d(2) by simp
  have c: "length comps = be_val (take 8 ?rest)" "enc_all desc_lp comps = Inr (drop 8 ?rest)"
    using decode_components_sound [OF d(3)] by auto
  have "be_val (take 8 ?rest) < 2 ^ 64" using be_val_less [of "take 8 ?rest"] len by simp
  moreover have "be_bytes 8 (be_val (take 8 ?rest)) = take 8 ?rest"
    using be_bytes_be_val [of "take 8 ?rest"] len by simp
  ultimately have "pack_Q (length comps) = Inr (take 8 ?rest)" using c(1) by (simp add: pack_Q_def)
  moreover have "DESCRIPTOR_PREFIX @ take 8 ?rest @ drop 8 ?rest = raw"
    using d(1) by (metis append_take_drop_id)
  ultimately show "component_frame DESCRIPTOR_PREFIX comps = Inr raw"
    using c(2) by (simp add: component_frame_def)
qed

section \<open>What a registry can and cannot do\<close>

lemma register_frame:
  assumes "register sha reg fs = Inr (fp, reg')"
  shows "encoding reg' = encoding reg" and "schemas reg \<subseteq>\<^sub>m schemas reg'"
    and "schemas reg' fp \<noteq> None" and "fingerprint_for sha fs = Inr fp"
    and "schemas reg' q = Some gs \<Longrightarrow> schemas reg q = Some gs \<or> q = fp \<and> gs = fs"
  using assms by (auto simp: register_def res_elims map_le_def split: if_splits)

text \<open>Every known fingerprint of the build's own field tuple has its encoding recorded.\<close>

definition registry_ok :: "(bytes \<Rightarrow> bytes) \<Rightarrow> version_registry \<Rightarrow> bool" where
  "registry_ok sha reg \<longleftrightarrow>
     (\<exists>own. fingerprint sha = Inr own \<and> encoding reg = [own \<mapsto> ENCODING] \<and> schemas reg own \<noteq> None
       \<and> (\<forall>fp fs. schemas reg fp = Some fs \<longrightarrow> fingerprint_for sha fs = Inr fp))"

lemma new_registry_ok: "new_registry sha = Inr reg \<Longrightarrow> registry_ok sha reg"
  by (auto simp: new_registry_def registry_ok_def res_elims fingerprint_def split: if_splits)

lemma register_ok:
  assumes "registry_ok sha reg" and "register sha reg fs = Inr (fp, reg')"
  shows "registry_ok sha reg'"
proof -
  note f = register_frame [OF assms(2)]
  from assms(1) obtain own where own: "fingerprint sha = Inr own" "encoding reg = [own \<mapsto> ENCODING]"
    "schemas reg own \<noteq> None" "\<And>fp fs. schemas reg fp = Some fs \<Longrightarrow> fingerprint_for sha fs = Inr fp"
    by (auto simp: registry_ok_def)
  have "schemas reg' own \<noteq> None" using f(2) own(3) by (force simp: map_le_def)
  moreover have "fingerprint_for sha gs = Inr q" if "schemas reg' q = Some gs" for q gs
    using f(5) [OF that] own(4) f(4) by auto
  ultimately show ?thesis using own(1,2) f(1) by (auto simp: registry_ok_def)
qed

lemma reachable_registry_ok: "reachable_registry sha reg \<Longrightarrow> registry_ok sha reg"
  by (induction rule: reachable_registry.induct) (auto intro: new_registry_ok register_ok)

lemma encoder_for_ok:
  assumes "registry_ok sha reg"
  shows "encoder_for reg fp =
           Inr (if schemas reg fp = Some HEADER_FIELDS then Some header_frame else None)"
proof (cases "schemas reg fp = Some HEADER_FIELDS")
  case True
  then have "fingerprint_for sha HEADER_FIELDS = Inr fp" using assms by (auto simp: registry_ok_def)
  then have "encoding reg fp = Some ENCODING"
    using assms by (auto simp: registry_ok_def fingerprint_def)
  with True show ?thesis by (simp add: encoder_for_def ENCODERS_def)
qed (simp add: encoder_for_def)

lemma recomputable_ok:
  "registry_ok sha reg \<Longrightarrow> recomputable reg fp = Inr (schemas reg fp = Some HEADER_FIELDS)"
  by (simp add: recomputable_def encoder_for_ok)

section \<open>Encodable descriptors\<close>

lemma desc_lp_encodable: "encodable c \<Longrightarrow> \<exists>b. desc_lp c = Inr b"
  by (auto simp: encodable_def desc_lp_Inr split: option.splits)

lemma component_frame_total:
  assumes "length comps < 2 ^ 64" and "\<forall>c \<in> set comps. encodable c"
  shows "\<exists>f. component_frame pre comps = Inr f"
  using assms enc_all_total [of comps desc_lp] desc_lp_encodable
  by (auto simp: component_frame_def pack_Q_small)

lemma encodable_str:
  "list_all (\<lambda>c. (of_char c :: nat) < 128) s \<Longrightarrow> length s < 2 ^ 61 \<Longrightarrow> encodable (str s)"
  by (rule encodable_ascii) (auto simp: str_def list_all_iff)

lemma header_fields_encodable: "\<forall>c \<in> set (ALGORITHM # ENCODING # HEADER_FIELDS). encodable c"
  by (auto simp: ALGORITHM_def ENCODING_def HEADER_FIELDS_def intro!: encodable_str)

lemma fingerprint_total: "\<exists>fp. fingerprint sha = Inr fp"
  using component_frame_total [OF _ header_fields_encodable, of DESCRIPTOR_PREFIX]
  by (auto simp: fingerprint_def fingerprint_for_def HEADER_FIELDS_def)

definition sample_fingerprint :: "(bytes \<Rightarrow> bytes) \<Rightarrow> pystr" where
  "sample_fingerprint sha = (case fingerprint sha of Inl _ \<Rightarrow> [] | Inr fp \<Rightarrow> fp)"

definition sample_registry :: "(bytes \<Rightarrow> bytes) \<Rightarrow> version_registry" where
  "sample_registry sha = \<lparr>schemas = [sample_fingerprint sha \<mapsto> HEADER_FIELDS],
                          encoding = [sample_fingerprint sha \<mapsto> ENCODING]\<rparr>"

lemma sample_registry_new: "new_registry sha = Inr (sample_registry sha)"
  using fingerprint_total [of sha] by (auto simp: new_registry_def sample_registry_def sample_fingerprint_def)

lemma sample_registry_reachable: "reachable_registry sha (sample_registry sha)"
  by (rule reachable_registry.new) (rule sample_registry_new)

lemma sample_fingerprint: "fingerprint sha = Inr (sample_fingerprint sha)"
  using fingerprint_total [of sha] by (auto simp: sample_fingerprint_def)

section \<open>Properties\<close>

text \<open>The registry is append-only. Registering a field tuple in any registry the program can build
  keeps every fingerprint already known, with the same field tuple and the same encoder, and the new
  fingerprint resolves to the registered tuple, unless the hash collides on one of the
  descriptors.\<close>

theorem registry_append_only:
  assumes "reachable_registry sha reg" and "register sha reg fs = Inr (fp, reg')"
    and "inj_on sha {d. \<exists>gs. descriptor_frame gs = Inr d \<and> (gs = fs \<or> gs \<in> ran (schemas reg))}"
  shows "schemas reg \<subseteq>\<^sub>m schemas reg' \<and> registry_fields reg' fp = Inr fs
    \<and> (\<forall>v. knows reg v \<longrightarrow> encoder_for reg' v = encoder_for reg v)"
proof (intro conjI allI impI)
  note f = register_frame [OF assms(2)]
  note ok = reachable_registry_ok [OF assms(1)]
  show le: "schemas reg \<subseteq>\<^sub>m schemas reg'" by (rule f(2))
  obtain gs where gs: "schemas reg' fp = Some gs" using f(3) by auto
  have "gs = fs"
  proof (cases "schemas reg fp = Some gs")
    case True
    then have "fingerprint_for sha gs = Inr fp" using ok by (auto simp: registry_ok_def)
    then obtain d e where d: "descriptor_frame gs = Inr d" "descriptor_frame fs = Inr e" "hex (sha d) = hex (sha e)"
      using f(4) by (auto simp: fingerprint_for_eq res_elims)
    then have "sha d = sha e" by simp
    then have "d = e" using d True assms(3) by (auto dest!: inj_onD intro: ranI)
    with d descriptor_frame_inj show ?thesis by blast
  qed (use f(5) [OF gs] in auto)
  with gs show "registry_fields reg' fp = Inr fs" by (simp add: registry_fields_def)
  fix v assume "knows reg v"
  then obtain hs where "schemas reg v = Some hs" by (auto simp: knows_def)
  moreover from this have "schemas reg' v = Some hs" using le by (auto simp: map_le_def dom_def)
  ultimately show "encoder_for reg' v = encoder_for reg v"
    using encoder_for_ok [OF ok] encoder_for_ok [OF register_ok [OF ok assms(2)]] by simp
qed

text \<open>Registering the build's own tuple again: it is known, and stays what it was.\<close>

theorem registry_append_only_witness:
  "schemas (sample_registry sha256) \<subseteq>\<^sub>m schemas (sample_registry sha256)
   \<and> registry_fields (sample_registry sha256) (sample_fingerprint sha256) = Inr HEADER_FIELDS"
proof -
  let ?reg = "sample_registry sha256" and ?fp = "sample_fingerprint sha256"
  have r: "register sha256 ?reg HEADER_FIELDS = Inr (?fp, ?reg)"
    using sample_fingerprint [of sha256] by (simp add: register_def fingerprint_def sample_registry_def)
  have "{d. \<exists>gs. descriptor_frame gs = Inr d \<and> (gs = HEADER_FIELDS \<or> gs \<in> ran (schemas ?reg))}
          = {d. descriptor_frame HEADER_FIELDS = Inr d}"
    by (auto simp: sample_registry_def)
  moreover have "inj_on sha256 {d. descriptor_frame HEADER_FIELDS = Inr d}" by (auto intro: inj_onI)
  ultimately show ?thesis
    using registry_append_only [OF sample_registry_reachable r] by simp
qed

text \<open>The descriptor decoder inverts the descriptor encoder: a byte string decodes to a list of
  components exactly when it is the frame of those components, so every truncated, padded or
  re-ordered frame is reported as undecodable.\<close>

theorem decode_descriptor_exact:
  "decode_descriptor raw = Some comps \<longleftrightarrow> component_frame DESCRIPTOR_PREFIX comps = Inr raw"
  using decode_descriptor_frame by blast

text \<open>The on-chain cross-check never breaks a run: whatever the chain reports, and whether or not it
  could be read, it returns a finding, whose verdict is OK exactly when the registry could be read and
  the published descriptor hashes to the fingerprint, and UNVERIFIABLE otherwise.\<close>

theorem cross_check_never_breaks:
  assumes "reachable_registry sha reg"
  shows "res_bind (cross_check sha reg fp desc reachable) registry_to_verdict =
    Inr (if reachable \<and> (case desc of None \<Rightarrow> False | Some d \<Rightarrow> hex (sha d) = fp) then OK else UNVERIFIABLE)"
  using recomputable_ok [OF reachable_registry_ok [OF assms], of fp]
  by (simp add: cross_check_def registry_to_verdict_def REGISTRY_STATUS_def registry_status_defs Let_def
        split: option.splits)

theorem cross_check_never_breaks_witness:
  "res_bind (cross_check sha256 (sample_registry sha256) (hex (sha256 [7])) (Some [7]) True) registry_to_verdict
     = Inr OK"
  using cross_check_never_breaks [OF sample_registry_reachable [of sha256], of "hex (sha256 [7])" "Some [7]" True]
  by simp

end
