(* ===== verification/Chain.thy ===== *)
theory Chain
  imports Registry
begin

text \<open>
  Chain verification (\<^verbatim>\<open>domain/verify.py\<close>). \<open>verify_chain\<close> is the single pass of the code; \<open>row_break\<close>
  is the specification of one row's check, and the lemmas relate the two: the pass reports exactly
  the first failing row, it never raises on a registry the program can build, a verifier that knows
  fewer fingerprints never finds a break a better informed one does not, and two verified trails with
  the same head are the same trail unless the hash function collides on one of their frames.
\<close>

record verify_result =
  vr_ok :: bool
  vr_checked :: nat
  vr_broken_seq :: "int option"
  vr_reason :: "string option"
  vr_unverifiable :: "int list"
  dropped_writes :: "nat option"
  drops_source :: "string option"

definition broken :: "nat \<Rightarrow> int list \<Rightarrow> int \<Rightarrow> string \<Rightarrow> verify_result" where
  "broken checked unv sq rsn =
     \<lparr>vr_ok = False, vr_checked = checked, vr_broken_seq = Some sq, vr_reason = Some rsn,
      vr_unverifiable = unv, dropped_writes = None, drops_source = None\<rparr>"

fun verify_from ::
  "(bytes \<Rightarrow> bytes) \<Rightarrow> version_registry \<Rightarrow> int \<Rightarrow> nat \<Rightarrow> int list \<Rightarrow> pystr \<Rightarrow> entry list
    \<Rightarrow> verify_result res" where
  "verify_from sha reg i checked unv prev [] =
     Inr \<lparr>vr_ok = True, vr_checked = checked, vr_broken_seq = None, vr_reason = None,
          vr_unverifiable = unv, dropped_writes = None, drops_source = None\<rparr>"
| "verify_from sha reg i checked unv prev (e # es) =
     (let h = header e in
      if seq h \<noteq> i then Inr (broken checked unv (seq h) ''seq_gap'')
      else if prev_hash h \<noteq> prev then Inr (broken checked unv (seq h) ''prev_hash_mismatch'')
      else res_bind (recomputable reg (hash_version h)) (\<lambda>known.
        if \<not> known then verify_from sha reg (i + 1) checked (unv @ [seq h]) (entry_hash e) es
        else res_bind (encoder_for reg (hash_version h)) (\<lambda>encoder.
          case encoder of None \<Rightarrow> Inl AssertionError
          | Some frame \<Rightarrow>
              (case compute_entry_hash sha frame h of
                 Inl x \<Rightarrow> (if x = LpEncodingError
                           then Inr (broken checked unv (seq h) ''entry_hash_mismatch'') else Inl x)
               | Inr recomputed \<Rightarrow>
                   if recomputed \<noteq> entry_hash e
                   then Inr (broken checked unv (seq h) ''entry_hash_mismatch'')
                   else if (case payload e of None \<Rightarrow> False
                            | Some p \<Rightarrow> compute_payload_hash sha p \<noteq> payload_hash h)
                   then Inr (broken checked unv (seq h) ''payload_hash_mismatch'')
                   else verify_from sha reg (i + 1) (checked + 1) unv (entry_hash e) es))))"

definition verify_chain ::
  "(bytes \<Rightarrow> bytes) \<Rightarrow> version_registry \<Rightarrow> entry list \<Rightarrow> verify_result res" where
  "verify_chain sha reg es = verify_from sha reg 0 0 [] GENESIS_PREV_HASH es"

section \<open>The specification of one row\<close>

definition known_row :: "version_registry \<Rightarrow> entry \<Rightarrow> bool" where
  "known_row reg e \<longleftrightarrow> schemas reg (hash_version (header e)) = Some HEADER_FIELDS"

definition row_break ::
  "(bytes \<Rightarrow> bytes) \<Rightarrow> version_registry \<Rightarrow> int \<Rightarrow> pystr \<Rightarrow> entry \<Rightarrow> string option" where
  "row_break sha reg i prev e =
     (let h = header e in
      if seq h \<noteq> i then Some ''seq_gap''
      else if prev_hash h \<noteq> prev then Some ''prev_hash_mismatch''
      else if \<not> known_row reg e then None
      else if compute_entry_hash sha header_frame h \<noteq> Inr (entry_hash e)
      then Some ''entry_hash_mismatch''
      else if (case payload e of None \<Rightarrow> False
               | Some p \<Rightarrow> compute_payload_hash sha p \<noteq> payload_hash h)
      then Some ''payload_hash_mismatch'' else None)"

text \<open>The hash row \<open>i\<close> must name as its predecessor.\<close>

definition prev_at :: "entry list \<Rightarrow> nat \<Rightarrow> pystr" where
  "prev_at es i = (if i = 0 then GENESIS_PREV_HASH else entry_hash (es ! (i - 1)))"

text \<open>The pass over the rows stops at position \<open>n\<close> with result \<open>r\<close>.\<close>

definition stops_at ::
  "(bytes \<Rightarrow> bytes) \<Rightarrow> version_registry \<Rightarrow> entry list \<Rightarrow> nat \<Rightarrow> verify_result \<Rightarrow> bool" where
  "stops_at sha reg es n r \<longleftrightarrow>
     n \<le> length es
     \<and> (\<forall>i < n. row_break sha reg (int i) (prev_at es i) (es ! i) = None)
     \<and> vr_checked r = length (filter (known_row reg) (take n es))
     \<and> vr_unverifiable r = map (seq \<circ> header) (filter (Not \<circ> known_row reg) (take n es))
     \<and> dropped_writes r = None
     \<and> (if vr_ok r then n = length es \<and> vr_broken_seq r = None \<and> vr_reason r = None
        else n < length es \<and> vr_broken_seq r = Some (seq (header (es ! n)))
             \<and> vr_reason r = row_break sha reg (int n) (prev_at es n) (es ! n) \<and> vr_reason r \<noteq> None)"

section \<open>One step of the pass\<close>

lemma verify_from_Cons:
  assumes "registry_ok sha reg" and "short_header (header e)"
  shows "verify_from sha reg i checked unv prev (e # es) =
           (case row_break sha reg i prev e of
              Some rsn \<Rightarrow> Inr (broken checked unv (seq (header e)) rsn)
            | None \<Rightarrow> if known_row reg e
                then verify_from sha reg (i + 1) (checked + 1) unv (entry_hash e) es
                else verify_from sha reg (i + 1) checked (unv @ [seq (header e)]) (entry_hash e) es)"
proof (cases "compute_entry_hash sha header_frame (header e)")
  case (Inl x)
  then have "x = LpEncodingError"
    using header_frame_errors [OF assms(2)] by (auto simp: compute_entry_hash_def res_elims)
  with Inl show ?thesis
    using recomputable_ok [OF assms(1)] encoder_for_ok [OF assms(1)]
    by (auto simp: row_break_def known_row_def Let_def)
next
  case (Inr r)
  then show ?thesis
    using recomputable_ok [OF assms(1)] encoder_for_ok [OF assms(1)]
    by (auto simp: row_break_def known_row_def Let_def)
qed

declare verify_from.simps(2) [simp del]

lemma row_break_None_seq: "row_break sha reg i prev e = None \<Longrightarrow> seq (header e) = i"
  by (auto simp: row_break_def Let_def split: if_splits)

text \<open>The pass from the middle of a trail: \<open>done\<close> is what it has already read.\<close>

lemma verify_from_stops_at:
  assumes "registry_ok sha reg" and "\<forall>e \<in> set es. short_header (header e)"
    and "\<forall>i < length done. row_break sha reg (int i) (prev_at done i) (done ! i) = None"
  shows "\<exists>r n. verify_from sha reg (int (length done)) (length (filter (known_row reg) done))
             (map (seq \<circ> header) (filter (Not \<circ> known_row reg) done))
             (if done = [] then GENESIS_PREV_HASH else entry_hash (last done)) es = Inr r
           \<and> stops_at sha reg (done @ es) n r"
  using assms(2,3)
proof (induction es arbitrary: "done")
  case Nil
  then show ?case
    by (auto simp: stops_at_def prev_at_def nth_append comp_def intro!: exI [of _ "length done"])
next
  case (Cons e es)
  let ?i = "length done"
  have prev: "prev_at (done @ e # es) ?i = (if done = [] then GENESIS_PREV_HASH else entry_hash (last done))"
    by (auto simp: prev_at_def nth_append last_conv_nth)
  have pre: "prev_at (done @ e # es) i = prev_at done i" if "i < ?i" for i
    using that by (auto simp: prev_at_def nth_append)
  show ?case
  proof (cases "row_break sha reg (int ?i) (prev_at (done @ e # es) ?i) e")
    case (Some rsn)
    let ?r = "broken (length (filter (known_row reg) done))
                (map (seq \<circ> header) (filter (Not \<circ> known_row reg) done)) (seq (header e)) rsn"
    have "stops_at sha reg (done @ e # es) ?i ?r"
      using Some Cons.prems(2) pre by (simp add: stops_at_def broken_def nth_append)
    moreover have "verify_from sha reg (int ?i) (length (filter (known_row reg) done))
        (map (seq \<circ> header) (filter (Not \<circ> known_row reg) done))
        (if done = [] then GENESIS_PREV_HASH else entry_hash (last done)) (e # es) = Inr ?r"
      using Some Cons.prems(1) unfolding prev by (simp add: verify_from_Cons [OF assms(1)])
    ultimately show ?thesis by blast
  next
    case None
    have "\<forall>i < length (done @ [e]). row_break sha reg (int i) (prev_at (done @ [e]) i) ((done @ [e]) ! i) = None"
    proof (intro allI impI)
      fix i assume "i < length (done @ [e])"
      then consider "i < ?i" | "i = ?i" by (auto simp: less_Suc_eq)
      then show "row_break sha reg (int i) (prev_at (done @ [e]) i) ((done @ [e]) ! i) = None"
        using Cons.prems(2) None by cases (auto simp: prev_at_def nth_append)
    qed
    from Cons.IH [OF _ this] Cons.prems(1) None show ?thesis
      unfolding prev by (auto simp: verify_from_Cons [OF assms(1)] add.commute)
  qed
qed

lemma verify_chain_stops_at:
  assumes "registry_ok sha reg" and "\<forall>e \<in> set es. short_header (header e)"
  shows "\<exists>r n. verify_chain sha reg es = Inr r \<and> stops_at sha reg es n r"
  using verify_from_stops_at [OF assms, of "[]"] by (simp add: verify_chain_def)

section \<open>Accepted trails\<close>

definition accepted :: "(bytes \<Rightarrow> bytes) \<Rightarrow> version_registry \<Rightarrow> entry list \<Rightarrow> bool" where
  "accepted sha reg es \<longleftrightarrow>
     (\<forall>i < length es. row_break sha reg (int i) (prev_at es i) (es ! i) = None)"

lemma verify_chain_ok_iff:
  assumes "registry_ok sha reg" and "\<forall>e \<in> set es. short_header (header e)"
    and "verify_chain sha reg es = Inr r"
  shows "vr_ok r \<longleftrightarrow> accepted sha reg es"
proof -
  obtain n where n: "stops_at sha reg es n r"
    using verify_chain_stops_at [OF assms(1,2)] assms(3) by auto
  show ?thesis
  proof
    assume "vr_ok r"
    with n show "accepted sha reg es" by (auto simp: stops_at_def accepted_def)
  next
    assume "accepted sha reg es"
    with n show "vr_ok r" by (auto simp: stops_at_def accepted_def split: if_splits)
  qed
qed

lemma accepted_row:
  assumes "accepted sha reg es" and "i < length es"
  shows "seq (header (es ! i)) = int i" and "prev_hash (header (es ! i)) = prev_at es i"
    and "known_row reg (es ! i) \<Longrightarrow>
           compute_entry_hash sha header_frame (header (es ! i)) = Inr (entry_hash (es ! i))"
    and "known_row reg (es ! i) \<Longrightarrow> payload (es ! i) = Some p \<Longrightarrow>
           payload_hash (header (es ! i)) = compute_payload_hash sha p"
proof -
  have "row_break sha reg (int i) (prev_at es i) (es ! i) = None"
    using assms by (simp add: accepted_def)
  then show "seq (header (es ! i)) = int i" and "prev_hash (header (es ! i)) = prev_at es i"
    and "known_row reg (es ! i) \<Longrightarrow>
           compute_entry_hash sha header_frame (header (es ! i)) = Inr (entry_hash (es ! i))"
    and "known_row reg (es ! i) \<Longrightarrow> payload (es ! i) = Some p \<Longrightarrow>
           payload_hash (header (es ! i)) = compute_payload_hash sha p"
    by (auto simp: row_break_def Let_def split: if_splits)
qed

lemma verified_all_known:
  assumes "reachable_registry sha reg" "\<forall>e \<in> set es. short_header (header e)"
    and "verify_chain sha reg es = Inr r" "vr_ok r" "vr_checked r = length es"
  shows "accepted sha reg es" and "\<forall>e \<in> set es. known_row reg e"
proof -
  note ok = reachable_registry_ok [OF assms(1)]
  show "accepted sha reg es" using verify_chain_ok_iff [OF ok assms(2,3)] assms(4) by simp
  obtain n where "stops_at sha reg es n r"
    using verify_chain_stops_at [OF ok assms(2)] assms(3) by auto
  with assms(4) have "vr_checked r = length (filter (known_row reg) es)" by (auto simp: stops_at_def)
  with assms(5) have "length (filter (known_row reg) es) = length es" by linarith
  then show "\<forall>e \<in> set es. known_row reg e"
    using length_filter_less [of _ es "known_row reg"] by fastforce
qed

section \<open>Knowing less never breaks a trail\<close>

lemma row_break_mono:
  "schemas small \<subseteq>\<^sub>m schemas big \<Longrightarrow> row_break sha big i prev e = None
    \<Longrightarrow> row_break sha small i prev e = None"
  by (auto simp: row_break_def known_row_def Let_def map_le_def dom_def split: if_splits)

lemma accepted_mono:
  "schemas small \<subseteq>\<^sub>m schemas big \<Longrightarrow> accepted sha big es \<Longrightarrow> accepted sha small es"
  by (auto simp: accepted_def intro: row_break_mono)

section \<open>The head commits to the history\<close>

text \<open>The header frames of a trail and the payloads it retains: what its hashes are taken of.\<close>

definition chain_frames :: "entry list \<Rightarrow> bytes set" where
  "chain_frames es = {f. \<exists>e \<in> set es. header_frame (header e) = Inr f}"

definition chain_payloads :: "entry list \<Rightarrow> bytes set" where
  "chain_payloads es = {p. \<exists>e \<in> set es. payload e = Some p}"

lemma entry_hash_inj:
  assumes "accepted sha reg es" "accepted sha reg' fs"
    and "i < length es" "known_row reg (es ! i)" and "j < length fs" "known_row reg' (fs ! j)"
    and "inj_on sha (chain_frames es \<union> chain_frames fs)"
    and "entry_hash (es ! i) = entry_hash (fs ! j)"
  shows "header (es ! i) = header (fs ! j)"
proof -
  from accepted_row(3) [OF assms(1,3,4)] obtain f where
    f: "header_frame (header (es ! i)) = Inr f" "entry_hash (es ! i) = hex (sha f)"
    by (auto simp: compute_entry_hash_def res_elims)
  from accepted_row(3) [OF assms(2,5,6)] obtain g where
    g: "header_frame (header (fs ! j)) = Inr g" "entry_hash (fs ! j) = hex (sha g)"
    by (auto simp: compute_entry_hash_def res_elims)
  have "sha f = sha g" using assms(8) f(2) g(2) hex_inj by simp
  moreover have "f \<in> chain_frames es" "g \<in> chain_frames fs"
    using f(1) g(1) assms(3,5) by (auto simp: chain_frames_def)
  ultimately have "f = g" using assms(7) by (auto dest: inj_onD)
  with f(1) g(1) show ?thesis using header_frame_inj by blast
qed

lemma same_hash_same_history:
  assumes acc: "accepted sha reg es" "accepted sha reg' fs"
    and known: "\<forall>e \<in> set es. known_row reg e" "\<forall>e \<in> set fs. known_row reg' e"
    and inj: "inj_on sha (chain_frames es \<union> chain_frames fs)"
  shows "i < length es \<Longrightarrow> j < length fs \<Longrightarrow> entry_hash (es ! i) = entry_hash (fs ! j) \<Longrightarrow>
    i = j \<and> (\<forall>k \<le> i. header (es ! k) = header (fs ! k))"
proof (induction i arbitrary: j)
  case (0 j)
  have h: "header (es ! 0) = header (fs ! j)"
    using entry_hash_inj [OF acc 0(1) _ 0(2) _ inj 0(3)] known 0(1,2) by simp
  then have "(0::int) = int j"
    using accepted_row(1) [OF acc(1) 0(1)] accepted_row(1) [OF acc(2) 0(2)] by simp
  with h show ?case by simp
next
  case (Suc i j)
  have h: "header (es ! Suc i) = header (fs ! j)"
    using entry_hash_inj [OF acc Suc.prems(1) _ Suc.prems(2) _ inj Suc.prems(3)] known Suc.prems(1,2)
    by simp
  then have "int (Suc i) = int j"
    using accepted_row(1) [OF acc(1) Suc.prems(1)] accepted_row(1) [OF acc(2) Suc.prems(2)] by simp
  then have j: "j = Suc i" by linarith
  have "prev_at es (Suc i) = prev_at fs j"
    using h accepted_row(2) [OF acc(1) Suc.prems(1)] accepted_row(2) [OF acc(2) Suc.prems(2)] by simp
  then have "entry_hash (es ! i) = entry_hash (fs ! i)" by (simp add: prev_at_def j)
  then have "\<forall>k \<le> i. header (es ! k) = header (fs ! k)"
    using Suc.IH [of i] Suc.prems(1,2) j by simp
  with h j show ?case by (auto simp: le_Suc_eq)
qed

lemma same_head_same_headers:
  assumes "accepted sha reg es" "accepted sha reg' fs"
    and "\<forall>e \<in> set es. known_row reg e" "\<forall>e \<in> set fs. known_row reg' e"
    and "inj_on sha (chain_frames es \<union> chain_frames fs)"
    and "es \<noteq> []" "fs \<noteq> []" "entry_hash (last es) = entry_hash (last fs)"
  shows "map header es = map header fs"
proof -
  have "length es - 1 = length fs - 1 \<and> (\<forall>k \<le> length es - 1. header (es ! k) = header (fs ! k))"
    using same_hash_same_history [OF assms(1-5), of "length es - 1" "length fs - 1"] assms(6-8)
    by (simp add: last_conv_nth)
  moreover have "length es > 0" "length fs > 0" using assms(6,7) by auto
  ultimately have "length es = length fs" "\<forall>k < length es. header (es ! k) = header (fs ! k)"
    by (linarith, fastforce)
  then show ?thesis by (intro nth_equalityI) simp_all
qed

lemma same_headers_same_payload:
  assumes "accepted sha reg es" "accepted sha reg' fs"
    and "map header es = map header fs" "i < length es"
    and "known_row reg (es ! i)" "known_row reg' (fs ! i)"
    and "inj_on sha (chain_payloads es \<union> chain_payloads fs)"
    and "payload (es ! i) = Some p" "payload (fs ! i) = Some q"
  shows "p = q"
proof -
  have len: "i < length fs" using assms(3,4) by (metis length_map)
  have h: "header (es ! i) = header (fs ! i)" using assms(3,4) len by (metis nth_map)
  have "hex (sha p) = hex (sha q)"
    using accepted_row(4) [OF assms(1,4,5,8)] accepted_row(4) [OF assms(2) len assms(6,9)] h
    by (simp add: compute_payload_hash_def)
  then have "sha p = sha q" using hex_inj by simp
  moreover have "p \<in> chain_payloads es" "q \<in> chain_payloads fs"
    using assms(4,8,9) len by (auto simp: chain_payloads_def)
  ultimately show ?thesis using assms(7) by (auto dest: inj_onD)
qed

section \<open>Properties\<close>

text \<open>C6. Verification of a trail never raises and reports exactly the first row that fails: the rows
  before it satisfy their check, the counts are those of the rows before it, and the reason is that
  row's first failing check; a result without a break means every row passed. This holds for every registry
  the program can build and for headers with any code points, lone surrogates included.\<close>

theorem verify_chain_first_break:
  assumes "reachable_registry sha reg" and "\<forall>e \<in> set es. short_header (header e)"
  shows "\<exists>r n. verify_chain sha reg es = Inr r \<and> stops_at sha reg es n r"
  using verify_chain_stops_at [OF reachable_registry_ok [OF assms(1)] assms(2)] .

definition sample_row :: "(bytes \<Rightarrow> bytes) \<Rightarrow> int \<Rightarrow> pystr \<Rightarrow> entry" where
  "sample_row sha i prev =
     (let h = (sample_header i prev)\<lparr>hash_version := sample_fingerprint sha\<rparr>
      in \<lparr>header = h,
          entry_hash = (case compute_entry_hash sha header_frame h of Inl _ \<Rightarrow> [] | Inr x \<Rightarrow> x),
          payload = None\<rparr>)"

lemma sample_row_known: "known_row (sample_registry sha) (sample_row sha i prev)"
  by (simp add: known_row_def sample_registry_def sample_row_def Let_def)

lemma short_genesis: "short GENESIS_PREV_HASH"
  by (simp add: short_def GENESIS_PREV_HASH_def)

lemma encodable_genesis: "encodable GENESIS_PREV_HASH"
  by (rule encodable_ascii) (auto simp: GENESIS_PREV_HASH_def)

context digest32
begin

lemma sample_fingerprint_hex: "\<exists>d. sample_fingerprint sha = hex (sha d)"
  using fingerprint_total [of sha]
  by (auto simp: sample_fingerprint_def fingerprint_def fingerprint_for_def res_elims)

lemma sample_fingerprint_encodable: "encodable (sample_fingerprint sha)" "short (sample_fingerprint sha)"
  using sample_fingerprint_hex hex_ascii
  by (auto intro!: encodable_ascii simp: digest_length short_def)

lemma sample_row_hash:
  assumes "0 \<le> i" "i < 10" "encodable prev"
  shows "compute_entry_hash sha header_frame (header (sample_row sha i prev))
           = Inr (entry_hash (sample_row sha i prev))"
proof -
  have "encodable_header (header (sample_row sha i prev))"
    using assms encodable_str_int [of i] length_str_int_digit [of i] sample_fingerprint_encodable(1)
    by (simp add: encodable_header_def sample_row_def sample_header_def Let_def)
  then obtain f where "header_frame (header (sample_row sha i prev)) = Inr f"
    using header_frame_encodable by blast
  then show ?thesis by (simp add: sample_row_def Let_def compute_entry_hash_def)
qed

lemma sample_row_accepted: "accepted sha (sample_registry sha) [sample_row sha 0 GENESIS_PREV_HASH]"
  using sample_row_hash [of 0 GENESIS_PREV_HASH] encodable_genesis
  by (simp add: accepted_def row_break_def prev_at_def sample_row_known Let_def)
     (simp add: sample_row_def sample_header_def Let_def)

lemma sample_row_short: "short_header (header (sample_row sha 0 GENESIS_PREV_HASH))"
  using sample_fingerprint_encodable(2) short_genesis length_str_int_digit [of 0]
  by (simp add: short_header_def sample_row_def sample_header_def Let_def short_def)

lemma sample_row_verifies:
  obtains r where "verify_chain sha (sample_registry sha) [sample_row sha 0 GENESIS_PREV_HASH] = Inr r"
    and "vr_ok r" "vr_checked r = 1"
proof -
  let ?es = "[sample_row sha 0 GENESIS_PREV_HASH]" and ?reg = "sample_registry sha"
  note ok = reachable_registry_ok [OF sample_registry_reachable [of sha]]
  have s: "\<forall>e \<in> set ?es. short_header (header e)" by (simp add: sample_row_short)
  obtain r n where r: "verify_chain sha ?reg ?es = Inr r" "stops_at sha ?reg ?es n r"
    using verify_chain_stops_at [OF ok s] by blast
  have v: "vr_ok r" using verify_chain_ok_iff [OF ok s r(1)] sample_row_accepted by simp
  then have "vr_checked r = 1" using r(2) by (simp add: stops_at_def sample_row_known)
  with r(1) v show thesis by (rule that)
qed

end

theorem verify_chain_first_break_witness:
  "\<exists>r n. verify_chain sha256 (sample_registry sha256) [sample_row sha256 0 GENESIS_PREV_HASH] = Inr r
     \<and> stops_at sha256 (sample_registry sha256) [sample_row sha256 0 GENESIS_PREV_HASH] n r"
  by (rule verify_chain_first_break [OF sample_registry_reachable])
     (simp add: sha256.sample_row_short)

text \<open>C1. A verified trail is tamper-evident: two trails whose rows all verify, under any two registries
  of the program, and whose last entry hashes agree have the same headers in the same order, hence
  the same length, and the same payload wherever both retain one, unless the hash function collides on
  one of their frames or payloads.\<close>

theorem verify_chain_tamper_evident:
  assumes "reachable_registry sha reg" "reachable_registry sha reg'"
    and "\<forall>e \<in> set es \<union> set fs. short_header (header e)"
    and "verify_chain sha reg es = Inr r" "vr_ok r" "vr_checked r = length es" "es \<noteq> []"
    and "verify_chain sha reg' fs = Inr r'" "vr_ok r'" "vr_checked r' = length fs" "fs \<noteq> []"
    and "entry_hash (last es) = entry_hash (last fs)"
    and "inj_on sha (chain_frames es \<union> chain_frames fs)"
    and "inj_on sha (chain_payloads es \<union> chain_payloads fs)"
  shows "map header es = map header fs
    \<and> (\<forall>i < length es. \<forall>p q. payload (es ! i) = Some p \<and> payload (fs ! i) = Some q \<longrightarrow> p = q)"
proof (intro conjI allI impI)
  have s: "\<forall>e \<in> set es. short_header (header e)" "\<forall>e \<in> set fs. short_header (header e)"
    using assms(3) by auto
  note e = verified_all_known [OF assms(1) s(1) assms(4,5,6)]
  note f = verified_all_known [OF assms(2) s(2) assms(8,9,10)]
  show h: "map header es = map header fs"
    by (rule same_head_same_headers [OF e(1) f(1) e(2) f(2) assms(13,7,11,12)])
  fix i p q assume "i < length es" "payload (es ! i) = Some p \<and> payload (fs ! i) = Some q"
  then have i: "i < length es" "payload (es ! i) = Some p" "payload (fs ! i) = Some q" by simp_all
  have "length fs = length es" using h by (metis length_map)
  then show "p = q"
    using same_headers_same_payload [OF e(1) f(1) h i(1) _ _ assms(14) i(2,3)] e(2) f(2) i(1) by simp
qed

theorem verify_chain_tamper_evident_witness:
  "map header [sample_row sha256 0 GENESIS_PREV_HASH] = map header [sample_row sha256 0 GENESIS_PREV_HASH]"
proof -
  let ?es = "[sample_row sha256 0 GENESIS_PREV_HASH]" and ?reg = "sample_registry sha256"
  have s: "\<forall>e \<in> set ?es. short_header (header e)" by (simp add: sha256.sample_row_short)
  obtain r where r: "verify_chain sha256 ?reg ?es = Inr r" and o: "vr_ok r" and "vr_checked r = 1"
    by (rule sha256.sample_row_verifies)
  then have c: "vr_checked r = length ?es" by simp
  have "inj_on sha256 (chain_frames ?es)" "inj_on sha256 (chain_payloads ?es)"
    by (auto simp: chain_frames_def chain_payloads_def intro!: inj_onI)
  then show ?thesis
    using verify_chain_tamper_evident [OF sample_registry_reachable sample_registry_reachable _
        r o c _ r o c] s by simp
qed

text \<open>A verifier that knows fewer fingerprints never reports a break a better informed one does not:
  what it cannot recompute it lists as unverifiable and the chain stays linked through it.\<close>

theorem verify_chain_knowledge_monotone:
  assumes "reachable_registry sha small" "reachable_registry sha big" "schemas small \<subseteq>\<^sub>m schemas big"
    and "\<forall>e \<in> set es. short_header (header e)"
    and "verify_chain sha big es = Inr r" "vr_ok r"
  shows "\<exists>r'. verify_chain sha small es = Inr r' \<and> vr_ok r'
           \<and> vr_checked r' + length (vr_unverifiable r') = length es
           \<and> vr_checked r' \<le> vr_checked r"
proof -
  note small = reachable_registry_ok [OF assms(1)] and big = reachable_registry_ok [OF assms(2)]
  obtain n where n: "stops_at sha big es n r"
    using verify_chain_stops_at [OF big assms(4)] assms(5) by auto
  obtain r' n' where r': "verify_chain sha small es = Inr r'" "stops_at sha small es n' r'"
    using verify_chain_stops_at [OF small assms(4)] by blast
  have "accepted sha small es"
    using verify_chain_ok_iff [OF big assms(4,5)] assms(3,6) accepted_mono by blast
  then have o: "vr_ok r'" using verify_chain_ok_iff [OF small assms(4) r'(1)] by simp
  have "vr_checked r' + length (vr_unverifiable r') = length es"
    using o r'(2) sum_length_filter_compl [of "known_row small" es] by (simp add: stops_at_def comp_def)
  moreover have "vr_checked r' \<le> vr_checked r"
  proof -
    have "filter (known_row small) es = filter (known_row small) (filter (known_row big) es)"
      using assms(3) by (auto simp: known_row_def map_le_def dom_def intro!: filter_cong)
    then have "length (filter (known_row small) es) \<le> length (filter (known_row big) es)"
      by (metis length_filter_le)
    then show ?thesis using o r'(2) n assms(6) by (simp add: stops_at_def)
  qed
  ultimately show ?thesis using r'(1) o by blast
qed

theorem verify_chain_knowledge_monotone_witness:
  "\<exists>r. verify_chain sha256 (sample_registry sha256) [sample_row sha256 0 GENESIS_PREV_HASH] = Inr r \<and> vr_ok r"
proof -
  let ?es = "[sample_row sha256 0 GENESIS_PREV_HASH]" and ?reg = "sample_registry sha256"
  note ok = reachable_registry_ok [OF sample_registry_reachable [of sha256]]
  have s: "\<forall>e \<in> set ?es. short_header (header e)" by (simp add: sha256.sample_row_short)
  obtain r where r: "verify_chain sha256 ?reg ?es = Inr r"
    using verify_chain_stops_at [OF ok s] by blast
  have "vr_ok r" using verify_chain_ok_iff [OF ok s r] sha256.sample_row_accepted by simp
  then show ?thesis
    using verify_chain_knowledge_monotone [OF sample_registry_reachable sample_registry_reachable _ s r] by auto
qed

end
