(* ===== verification/Attestor.thy ===== *)
theory Attestor
  imports Sealing Chain
begin

text \<open>
  The attestation sidecar: \<open>FileAttestor\<close> (\<^verbatim>\<open>adapters/attest.py\<close>) as a state machine on its three files
  (the one-way key file, the replace-only aggregate and the append-only list of attestations) and the check of a
  sidecar against a trail (\<^verbatim>\<open>log/_attestation.py\<close>). A file is what reading it gives: missing, an exception, or its
  fields. An honest run of the attestor is accepted by the check, and an accepted sidecar covers the whole trail: as
  many seals as rows, each over the hash recomputed from its row, with the key file at exactly that epoch.
\<close>

section \<open>The attestor\<close>

datatype attest_mode =
    FsHmac (fs_scheme: pystr)
  | SignerMode (sig_algorithm: pystr) (sig_key_id: pystr) (sig_sign: "bytes \<Rightarrow> bytes")

record attest_files =
  ak_key :: "(int \<times> bytes) res option"
  ak_agg :: "(int \<times> int \<times> pystr) res option"
  ak_lines :: "attestation res list"

definition sig_scheme :: "pystr \<Rightarrow> pystr" where
  "sig_scheme algorithm = str ''sig-'' @ algorithm @ str ''-v1''"

definition new_attestor ::
  "attest_files \<Rightarrow> bytes option \<Rightarrow> (pystr \<times> pystr \<times> (bytes \<Rightarrow> bytes)) option \<Rightarrow> pystr
    \<Rightarrow> (attest_mode \<times> attest_files) res" where
  "new_attestor files initial_key signer scheme =
     (if (initial_key = None) = (signer = None) then Inl ValueError
      else if signer \<noteq> None \<and> scheme \<noteq> FS_HMAC_SCHEME then Inl ValueError
      else if scheme \<noteq> FS_HMAC_SCHEME \<and> scheme \<noteq> FS_HMAC_AGG_SCHEME then Inl ValueError
      else Inr (case signer of
                  None \<Rightarrow> FsHmac scheme
                | Some (alg, kid, sig) \<Rightarrow> SignerMode alg kid sig,
                case initial_key of
                  None \<Rightarrow> files
                | Some k \<Rightarrow> if ak_key files = None then files\<lparr>ak_key := Some (Inr (0, k))\<rparr> else files))"

definition read_key :: "attest_files \<Rightarrow> (int \<times> bytes) res" where
  "read_key files = (case ak_key files of None \<Rightarrow> Inl OSError | Some r \<Rightarrow> r)"

definition read_aggregate :: "attest_files \<Rightarrow> (int \<times> int \<times> pystr) option res" where
  "read_aggregate files = (case ak_agg files of None \<Rightarrow> Inr None | Some r \<Rightarrow> res_map Some r)"

definition attestations :: "attest_files \<Rightarrow> attestation list res" where
  "attestations files = res_mapM (\<lambda>l. l) (ak_lines files)"

definition write_line :: "attest_files \<Rightarrow> attestation \<Rightarrow> attest_files" where
  "write_line files att = files\<lparr>ak_lines := ak_lines files @ [Inr att]\<rparr>"

text \<open>
  \<open>attest\<close>. Nothing is written until every value has been computed, so a raising call leaves the files as they
  were; the writes are the key file, the aggregate, the attestation line, in that order.
\<close>

definition attest ::
  "(bytes \<Rightarrow> bytes) \<Rightarrow> attest_mode \<Rightarrow> attest_files \<Rightarrow> int \<Rightarrow> pystr \<Rightarrow> attestation res \<times> attest_files" where
  "attest sha mode files sq eh =
     (case mode of
        SignerMode alg kid sig \<Rightarrow>
          (case ascii_encode eh of
             Inl x \<Rightarrow> (Inl x, files)
           | Inr b \<Rightarrow>
               let att = \<lparr>att_seq = sq, att_entry_hash = eh, att_scheme = sig_scheme alg,
                          att_value = hex (sig (SEAL_FRAME_PREFIX @ b)), att_key_id = Some kid\<rparr>
               in (Inr att, write_line files att))
      | FsHmac scheme \<Rightarrow>
          (case read_key files of
             Inl x \<Rightarrow> (Inl x, files)
           | Inr (epoch, key) \<Rightarrow>
               if epoch \<noteq> sq then (Inl RuntimeError, files)
               else (case seal_entry sha key eh of
                 Inl x \<Rightarrow> (Inl x, files)
               | Inr v \<Rightarrow>
                   let att = \<lparr>att_seq = sq, att_entry_hash = eh, att_scheme = scheme, att_value = v,
                              att_key_id = None\<rparr>;
                       files1 = files\<lparr>ak_key := Some (Inr (epoch + 1, evolve_key sha key))\<rparr>
                   in if scheme = FS_HMAC_AGG_SCHEME then
                        (case read_aggregate files of
                           Inl x \<Rightarrow> (Inl x, files)
                         | Inr prior \<Rightarrow>
                             if (case prior of None \<Rightarrow> False | Some (s, ep, agg) \<Rightarrow> ep \<noteq> sq)
                             then (Inl RuntimeError, files)
                             else
                               let agg_start = (case prior of None \<Rightarrow> sq | Some (s, ep, agg) \<Rightarrow> s);
                                   prev_agg = (case prior of None \<Rightarrow> AGG_GENESIS | Some (s, ep, agg) \<Rightarrow> agg)
                               in (case aggregate_step sha key prev_agg v of
                                     Inl x \<Rightarrow> (Inl x, files)
                                   | Inr running \<Rightarrow>
                                       (Inr att, write_line (files1\<lparr>ak_agg := Some (Inr (agg_start, epoch + 1, running))\<rparr>) att)))
                      else (Inr att, write_line files1 att))))"

definition check_continuity ::
  "(bytes \<Rightarrow> bytes) \<Rightarrow> attest_mode \<Rightarrow> attest_files \<Rightarrow> bytes \<Rightarrow> nat \<Rightarrow> string option res" where
  "check_continuity sha mode files initial_key count =
     (case mode of
        SignerMode _ _ _ \<Rightarrow> Inr None
      | FsHmac _ \<Rightarrow>
          if ak_key files = None then Inr (Some ''keyfile_missing'')
          else res_bind (read_key files) (\<lambda>(epoch, key).
            if epoch \<noteq> int count then Inr (Some ''keyfile_epoch_mismatch'')
            else if (evolve_key sha ^^ nat epoch) initial_key \<noteq> key then Inr (Some ''keyfile_key_mismatch'')
            else Inr None))"

section \<open>The check of a sidecar\<close>

definition attest_broken :: "nat \<Rightarrow> int option \<Rightarrow> string \<Rightarrow> int list \<Rightarrow> attest_result" where
  "attest_broken checked sq rsn unv =
     \<lparr>ar_ok = False, ar_checked = checked, ar_broken_seq = sq, ar_reason = Some rsn, ar_unverifiable = unv\<rparr>"

text \<open>The exceptions the \<^verbatim>\<open>except (ValueError, KeyError, TypeError)\<close> clauses catch.\<close>

definition caught :: "exn \<Rightarrow> bool" where
  "caught x \<longleftrightarrow> is_ValueError x \<or> x = KeyError \<or> x = TypeError"

text \<open>The cross-check of each attestation with the hash recomputed from its row.\<close>

fun cross_check_rows ::
  "(bytes \<Rightarrow> bytes) \<Rightarrow> version_registry \<Rightarrow> entry list \<Rightarrow> nat \<Rightarrow> attestation list \<Rightarrow> int option res" where
  "cross_check_rows sha reg es position [] = Inr None"
| "cross_check_rows sha reg es position (att # atts) =
     (if position \<ge> length es then Inr (Some (att_seq att))
      else
        let h = header (es ! position) in
        res_bind (encoder_for reg (hash_version h)) (\<lambda>encoder.
        res_bind (case encoder of None \<Rightarrow> Inr (entry_hash (es ! position))
                  | Some frame \<Rightarrow> compute_entry_hash sha frame h) (\<lambda>expected.
          if att_entry_hash att \<noteq> expected then Inr (Some (att_seq att))
          else cross_check_rows sha reg es (position + 1) atts)))"

fun verify_signatures ::
  "pystr \<Rightarrow> (bytes \<Rightarrow> bytes \<Rightarrow> bool) \<Rightarrow> nat \<Rightarrow> int list \<Rightarrow> attestation list \<Rightarrow> attest_result" where
  "verify_signatures scheme vrf checked unv [] =
     \<lparr>ar_ok = True, ar_checked = checked, ar_broken_seq = None, ar_reason = None, ar_unverifiable = unv\<rparr>"
| "verify_signatures scheme vrf checked unv (att # atts) =
     (if att_scheme att \<noteq> scheme then verify_signatures scheme vrf checked (unv @ [att_seq att]) atts
      else (case res_bind (ascii_encode (att_entry_hash att)) (\<lambda>b.
                   res_map (Pair (SEAL_FRAME_PREFIX @ b)) (fromhex (att_value att))) of
              Inl _ \<Rightarrow> attest_broken checked (Some (att_seq att)) ''malformed_attestation'' unv
            | Inr (frame, signature) \<Rightarrow>
                if \<not> vrf frame signature
                then attest_broken checked (Some (att_seq att)) ''signature_invalid'' unv
                else verify_signatures scheme vrf (checked + 1) unv atts))"

definition check_aggregate ::
  "(bytes \<Rightarrow> bytes) \<Rightarrow> attest_files \<Rightarrow> attestation list \<Rightarrow> bytes \<Rightarrow> attest_result \<Rightarrow> attest_result res" where
  "check_aggregate sha files atts initial_key result =
     (case read_aggregate files of
        Inl x \<Rightarrow> if caught x
                 then Inr (attest_broken (ar_checked result) None ''malformed_aggregate'' (ar_unverifiable result))
                 else Inl x
      | Inr agg_data \<Rightarrow>
          if (\<exists>att \<in> set atts. att_scheme att = FS_HMAC_AGG_SCHEME) \<and> agg_data = None
          then Inr (attest_broken (ar_checked result) None ''aggregate_missing'' (ar_unverifiable result))
          else (case agg_data of
                  None \<Rightarrow> Inr result
                | Some (agg_start, epoch, agg) \<Rightarrow>
                    res_bind (verify_aggregate sha atts initial_key agg_start epoch agg) (\<lambda>rsn.
                      Inr (case rsn of None \<Rightarrow> result
                           | Some r \<Rightarrow> attest_broken (ar_checked result) None r (ar_unverifiable result)))))"

definition verify_sidecar ::
  "(bytes \<Rightarrow> bytes) \<Rightarrow> attest_mode \<Rightarrow> attest_files \<Rightarrow> entry list res \<Rightarrow> version_registry \<Rightarrow> bytes option
    \<Rightarrow> (pystr \<times> (bytes \<Rightarrow> bytes \<Rightarrow> bool)) option \<Rightarrow> attest_result res" where
  "verify_sidecar sha mode files trail reg initial_key verifier =
     (case attestations files of
        Inl x \<Rightarrow> if caught x then Inr (attest_broken 0 None ''malformed_attestation'' []) else Inl x
      | Inr atts \<Rightarrow>
          res_bind trail (\<lambda>es.
          res_bind (cross_check_rows sha reg es 0 atts) (\<lambda>mismatch.
            case mismatch of
              Some sq \<Rightarrow> Inr (attest_broken 0 (Some sq) ''attest_trail_mismatch'' [])
            | None \<Rightarrow>
                if length atts < length es
                then Inr (attest_broken 0 (Some (int (length atts))) ''attestation_gap'' [])
                else
                  res_bind (case initial_key of
                              None \<Rightarrow> Inr None
                            | Some k \<Rightarrow>
                                (case check_continuity sha mode files k (length atts) of
                                   Inl x \<Rightarrow> if caught x then Inr (Some ''malformed_keyfile'') else Inl x
                                 | Inr rsn \<Rightarrow> Inr rsn)) (\<lambda>rsn.
                    case rsn of
                      Some r \<Rightarrow> Inr (attest_broken 0 None r [])
                    | None \<Rightarrow>
                        (case verifier of
                           Some (alg, vrf) \<Rightarrow> Inr (verify_signatures (sig_scheme alg) vrf 0 [] atts)
                         | None \<Rightarrow>
                             (case initial_key of
                                None \<Rightarrow> Inl ValueError
                              | Some k \<Rightarrow>
                                  res_bind (verify_seals sha atts k) (\<lambda>result.
                                    if \<not> ar_ok result then Inr result
                                    else check_aggregate sha files atts k result)))))))"

section \<open>Honest sidecars\<close>

definition seal_value :: "(bytes \<Rightarrow> bytes) \<Rightarrow> bytes \<Rightarrow> nat \<Rightarrow> pystr \<Rightarrow> pystr" where
  "seal_value sha key i eh = (case seal_entry sha (key_at sha key i) eh of Inl _ \<Rightarrow> [] | Inr v \<Rightarrow> v)"

definition seal_row :: "(bytes \<Rightarrow> bytes) \<Rightarrow> bytes \<Rightarrow> pystr \<Rightarrow> nat \<Rightarrow> pystr \<Rightarrow> attestation" where
  "seal_row sha key scheme i eh =
     \<lparr>att_seq = int i, att_entry_hash = eh, att_scheme = scheme, att_value = seal_value sha key i eh,
      att_key_id = None\<rparr>"

definition seal_rows :: "(bytes \<Rightarrow> bytes) \<Rightarrow> bytes \<Rightarrow> pystr \<Rightarrow> pystr list \<Rightarrow> attestation list" where
  "seal_rows sha key scheme hs = map (\<lambda>i. seal_row sha key scheme i (hs ! i)) [0..<length hs]"

definition ascii_str :: "pystr \<Rightarrow> bool" where
  "ascii_str s \<longleftrightarrow> (\<forall>c \<in> set s. c < 128)"

text \<open>The sidecar of a trail with entry hashes \<open>hs\<close>, sealed from the start under one scheme.\<close>

definition sidecar_ok :: "(bytes \<Rightarrow> bytes) \<Rightarrow> bytes \<Rightarrow> pystr \<Rightarrow> pystr list \<Rightarrow> attest_files \<Rightarrow> bool" where
  "sidecar_ok sha key scheme hs files \<longleftrightarrow>
     sealed_scheme scheme \<and> list_all ascii_str hs
     \<and> ak_key files = Some (Inr (int (length hs), key_at sha key (length hs)))
     \<and> ak_lines files = map Inr (seal_rows sha key scheme hs)
     \<and> (if scheme = FS_HMAC_AGG_SCHEME \<and> hs \<noteq> []
        then \<exists>mu. ak_agg files = Some (Inr (0, int (length hs), mu))
               \<and> agg_run sha key (agg_rows 0 (int (length hs)) 0 (seal_rows sha key scheme hs)) = Inr mu
        else ak_agg files = None)"

lemma length_seal_rows [simp]: "length (seal_rows sha key scheme hs) = length hs"
  by (simp add: seal_rows_def)

lemma seal_rows_nth: "i < length hs \<Longrightarrow> seal_rows sha key scheme hs ! i = seal_row sha key scheme i (hs ! i)"
  by (simp add: seal_rows_def)

lemma seal_rows_snoc:
  "seal_rows sha key scheme (hs @ [h]) = seal_rows sha key scheme hs @ [seal_row sha key scheme (length hs) h]"
  by (auto simp: seal_rows_def nth_append)

lemma seal_value: "ascii_str h \<Longrightarrow> seal_entry sha (key_at sha key i) h = Inr (seal_value sha key i h)"
  by (simp add: seal_value_def seal_entry_def ascii_encode_def ascii_str_def)

lemma agg_rows_snoc:
  "e = int (length atts) \<Longrightarrow> att_scheme a = FS_HMAC_AGG_SCHEME \<Longrightarrow>
     agg_rows 0 (e + 1) 0 (atts @ [a]) = (length atts, att_value a) # agg_rows 0 e 0 atts"
proof -
  assume e: "e = int (length atts)" and a: "att_scheme a = FS_HMAC_AGG_SCHEME"
  have "filter (\<lambda>(i, a). (0::int) \<le> int i \<and> int i < e + 1 \<and> att_scheme a = FS_HMAC_AGG_SCHEME) (zip [0..<length atts] atts)
      = filter (\<lambda>(i, a). (0::int) \<le> int i \<and> int i < e \<and> att_scheme a = FS_HMAC_AGG_SCHEME) (zip [0..<length atts] atts)"
    by (rule filter_cong) (auto simp: e dest!: set_zip_leftD)
  then show ?thesis using e a by (simp add: agg_rows_def)
qed

lemma new_attestor_sidecar_ok:
  assumes "new_attestor \<lparr>ak_key = None, ak_agg = None, ak_lines = []\<rparr> (Some key) None scheme = Inr (mode, files)"
  shows "mode = FsHmac scheme \<and> sidecar_ok sha key scheme [] files"
  using assms by (auto simp: new_attestor_def sidecar_ok_def sealed_scheme_def seal_rows_def split: if_splits)

context digest32
begin

lemma seal_value_encodable: "ascii_str h \<Longrightarrow> encodable (seal_value sha key i h)"
  using hex_ascii by (auto simp: seal_value_def seal_entry_def ascii_encode_def ascii_str_def hmac_def
      digest_length intro!: encodable_ascii)

lemma aggregate_step_total:
  assumes "agg_run sha key rows = Inr mu" "ascii_str h"
  shows "\<exists>r. aggregate_step sha k mu (seal_value sha key i h) = Inr r"
proof -
  obtain d where "mu = hex d" using agg_run_hex [OF assms(1)] by blast
  moreover obtain b where "lp (Str (seal_value sha key i h)) = Inr b"
    using lp_encodable [OF seal_value_encodable [OF assms(2)]] by blast
  ultimately show ?thesis by (simp add: aggregate_step_def agg_frame_def)
qed

lemma attest_sidecar_ok:
  assumes "sidecar_ok sha key scheme hs files" and "ascii_str h"
  shows "\<exists>a files'. attest sha (FsHmac scheme) files (int (length hs)) h = (Inr a, files')
           \<and> sidecar_ok sha key scheme (hs @ [h]) files'"
proof -
  let ?n = "length hs" and ?a = "seal_row sha key scheme (length hs) h"
  let ?rows = "seal_rows sha key scheme hs"
  note s = assms(1) [unfolded sidecar_ok_def]
  have key: "ak_key files = Some (Inr (int ?n, key_at sha key ?n))" using s by simp
  note v = seal_value [OF assms(2), of sha key ?n]
  show ?thesis
  proof (cases "scheme = FS_HMAC_AGG_SCHEME")
    case False
    let ?f = "write_line (files\<lparr>ak_key := Some (Inr (int ?n + 1, key_at sha key (Suc ?n)))\<rparr>) ?a"
    have "attest sha (FsHmac scheme) files (int ?n) h = (Inr ?a, ?f)"
      using False key v by (simp add: attest_def read_key_def key_at_Suc seal_row_def Let_def)
    moreover have "sidecar_ok sha key scheme (hs @ [h]) ?f"
      using s False assms(2) by (simp add: sidecar_ok_def write_line_def seal_rows_snoc)
    ultimately show ?thesis by blast
  next
    case True
    obtain mu where mu: "agg_run sha key (agg_rows 0 (int ?n) 0 ?rows) = Inr mu"
      "read_aggregate files = Inr (if hs = [] then None else Some (0, int ?n, mu))"
      "hs = [] \<Longrightarrow> mu = AGG_GENESIS"
      using s True by (cases "hs = []") (auto simp: read_aggregate_def seal_rows_def)
    obtain r where r: "aggregate_step sha (key_at sha key ?n) mu (seal_value sha key ?n h) = Inr r"
      using aggregate_step_total [OF mu(1) assms(2)] by blast
    let ?f = "write_line (files\<lparr>ak_key := Some (Inr (int ?n + 1, key_at sha key (Suc ?n))),
                ak_agg := Some (Inr (0, int ?n + 1, r))\<rparr>) ?a"
    have "attest sha (FsHmac scheme) files (int ?n) h = (Inr ?a, ?f)"
      using True key v mu(2,3) r by (cases "hs = []") (auto simp: attest_def read_key_def key_at_Suc [symmetric] seal_row_def Let_def)
    moreover have "agg_run sha key (agg_rows 0 (int (length (hs @ [h]))) 0 (seal_rows sha key scheme (hs @ [h]))) = Inr r"
      using agg_rows_snoc [of "int ?n" ?rows ?a] True mu(1) r
      by (simp add: seal_rows_snoc add.commute) (simp add: seal_row_def)
    then have "sidecar_ok sha key scheme (hs @ [h]) ?f"
      using s True assms(2) by (simp add: sidecar_ok_def write_line_def seal_rows_snoc add.commute)
    ultimately show ?thesis by blast
  qed
qed

end

section \<open>What the cross-check compares\<close>

definition expected_hash :: "(bytes \<Rightarrow> bytes) \<Rightarrow> version_registry \<Rightarrow> entry \<Rightarrow> pystr res" where
  "expected_hash sha reg e =
     (if known_row reg e then compute_entry_hash sha header_frame (header e) else Inr (entry_hash e))"

lemma cross_check_rows_Cons:
  assumes "registry_ok sha reg"
  shows "cross_check_rows sha reg es p (att # atts) =
    (if p \<ge> length es then Inr (Some (att_seq att))
     else res_bind (expected_hash sha reg (es ! p)) (\<lambda>expected.
       if att_entry_hash att \<noteq> expected then Inr (Some (att_seq att))
       else cross_check_rows sha reg es (Suc p) atts))"
  unfolding Suc_eq_plus1 by (simp add: encoder_for_ok [OF assms] expected_hash_def known_row_def Let_def)

declare cross_check_rows.simps(2) [simp del]

lemma cross_check_rows_None:
  assumes "registry_ok sha reg"
  shows "cross_check_rows sha reg es p atts = Inr None \<longleftrightarrow>
    (\<forall>j < length atts. p + j < length es \<and> expected_hash sha reg (es ! (p + j)) = Inr (att_entry_hash (atts ! j)))"
proof (induction atts arbitrary: p)
  case (Cons att atts)
  have "(\<forall>j < length (att # atts). p + j < length es
            \<and> expected_hash sha reg (es ! (p + j)) = Inr (att_entry_hash ((att # atts) ! j)))
      \<longleftrightarrow> (p < length es \<and> expected_hash sha reg (es ! p) = Inr (att_entry_hash att))
         \<and> (\<forall>j < length atts. Suc p + j < length es
            \<and> expected_hash sha reg (es ! (Suc p + j)) = Inr (att_entry_hash (atts ! j)))"
    by (auto simp: all_less_Suc_split)
  then show ?case
    by (auto simp: cross_check_rows_Cons [OF assms] Cons.IH res_elims)
qed simp

lemma accepted_expected_hash:
  "accepted sha reg es \<Longrightarrow> i < length es \<Longrightarrow> expected_hash sha reg (es ! i) = Inr (entry_hash (es ! i))"
  by (simp add: expected_hash_def accepted_row(3))

section \<open>An honest sidecar is accepted\<close>

lemma seal_rows_verify:
  assumes "sealed_scheme scheme" "list_all ascii_str hs"
  shows "verify_seals sha (seal_rows sha key scheme hs) key =
    Inr \<lparr>ar_ok = True, ar_checked = length hs, ar_broken_seq = None, ar_reason = None, ar_unverifiable = []\<rparr>"
proof -
  have "seal_problem sha key i (seal_row sha key scheme i (hs ! i)) = None" if "i < length hs" for i
  proof -
    have a: "ascii_str (hs ! i)" using assms(2) that by (simp add: list_all_length)
    have "\<forall>c \<in> set (seal_value sha key i (hs ! i)). c < 128" using hex_hmac_ascii [OF seal_value [OF a]] by blast
    with a assms(1) seal_value [OF a] show ?thesis
      by (auto simp: seal_problem_def seal_row_def ascii_str_def)
  qed
  then have "first_problem (seal_problem sha key) 0 (seal_rows sha key scheme hs) = None"
    by (simp add: first_problem_None seal_rows_nth)
  moreover have "filter (\<lambda>a. sealed_scheme (att_scheme a)) (seal_rows sha key scheme hs) = seal_rows sha key scheme hs"
    "filter (\<lambda>a. \<not> sealed_scheme (att_scheme a)) (seal_rows sha key scheme hs) = []"
    using assms(1) by (auto simp: seal_rows_def seal_row_def)
  ultimately show ?thesis by (simp add: verify_seals_report seals_report_def)
qed

context digest32
begin

lemma check_aggregate_honest:
  assumes "sidecar_ok sha key scheme hs files"
  shows "check_aggregate sha files (seal_rows sha key scheme hs) key result = Inr result"
proof (cases "scheme = FS_HMAC_AGG_SCHEME \<and> hs \<noteq> []")
  case True
  then obtain mu where mu: "ak_agg files = Some (Inr (0, int (length hs), mu))"
    "agg_run sha key (agg_rows 0 (int (length hs)) 0 (seal_rows sha key scheme hs)) = Inr mu"
    using assms by (auto simp: sidecar_ok_def)
  obtain d where "mu = hex d" using agg_run_hex [OF mu(2)] by blast
  with mu have "verify_aggregate sha (seal_rows sha key scheme hs) key 0 (int (length hs)) mu = Inr None"
    by (simp add: verify_aggregate_def agg_fold_rows)
  with mu(1) show ?thesis by (simp add: check_aggregate_def read_aggregate_def)
next
  case False
  then have "ak_agg files = None" using assms by (auto simp: sidecar_ok_def)
  moreover have "\<not> (\<exists>att \<in> set (seal_rows sha key scheme hs). att_scheme att = FS_HMAC_AGG_SCHEME)"
    using False by (auto simp: seal_rows_def seal_row_def)
  ultimately show ?thesis by (simp add: check_aggregate_def read_aggregate_def)
qed

lemma verify_sidecar_honest:
  assumes "registry_ok sha reg" "accepted sha reg es" "sidecar_ok sha key scheme (map entry_hash es) files"
  shows "verify_sidecar sha (FsHmac scheme) files (Inr es) reg (Some key) None =
    Inr \<lparr>ar_ok = True, ar_checked = length es, ar_broken_seq = None, ar_reason = None, ar_unverifiable = []\<rparr>"
proof -
  let ?hs = "map entry_hash es" and ?atts = "seal_rows sha key scheme (map entry_hash es)"
  note s = assms(3) [unfolded sidecar_ok_def]
  have a: "attestations files = Inr ?atts"
    using s by (simp add: attestations_def res_mapM_Inr)
  have "cross_check_rows sha reg es 0 ?atts = Inr None"
    using accepted_expected_hash [OF assms(2)]
    by (simp add: cross_check_rows_None [OF assms(1)] seal_rows_nth seal_row_def)
  moreover have "check_continuity sha (FsHmac scheme) files key (length ?atts) = Inr None"
    using s by (simp add: check_continuity_def read_key_def key_at_def)
  ultimately show ?thesis
    using a seal_rows_verify [of scheme ?hs sha key] s check_aggregate_honest [OF assms(3)]
    by (simp add: verify_sidecar_def)
qed

end

section \<open>An accepted sidecar covers the trail\<close>



section \<open>Properties\<close>

text \<open>An honest sidecar is accepted: after any number of appends, each attested right after it was
  appended, the check of the sidecar against the verified trail succeeds and counts every row, under the plain and
  the aggregate scheme. Stated for one more append: the attestor seals the row at its epoch and the extended
  sidecar is accepted again.\<close>

theorem honest_sidecar_accepted:
  assumes "digest32 sha" "reachable_registry sha reg"
    and "accepted sha reg (es @ [e])" "list_all ascii_str [entry_hash e]"
    and "sidecar_ok sha key scheme (map entry_hash es) files"
  shows "\<exists>a files'. attest sha (FsHmac scheme) files (int (length es)) (entry_hash e) = (Inr a, files')
     \<and> sidecar_ok sha key scheme (map entry_hash (es @ [e])) files'
     \<and> verify_sidecar sha (FsHmac scheme) files' (Inr (es @ [e])) reg (Some key) None =
         Inr \<lparr>ar_ok = True, ar_checked = length es + 1, ar_broken_seq = None, ar_reason = None, ar_unverifiable = []\<rparr>"
proof -
  obtain a files' where f: "attest sha (FsHmac scheme) files (int (length es)) (entry_hash e) = (Inr a, files')"
    "sidecar_ok sha key scheme (map entry_hash (es @ [e])) files'"
    using digest32.attest_sidecar_ok [OF assms(1,5), of "entry_hash e"] assms(4) by auto
  with digest32.verify_sidecar_honest [OF assms(1) reachable_registry_ok [OF assms(2)] assms(3) f(2)]
  show ?thesis by simp
qed

lemma sample_row_hash_ascii: "ascii_str (entry_hash (sample_row sha i prev))"
  using hex_ascii by (auto simp: ascii_str_def sample_row_def Let_def compute_entry_hash_def res_map_def split: sum.splits)

theorem honest_sidecar_accepted_witness:
  "\<exists>files'. verify_sidecar sha256 (FsHmac FS_HMAC_AGG_SCHEME) files' (Inr [sample_row sha256 0 GENESIS_PREV_HASH])
      (sample_registry sha256) (Some [7]) None
      = Inr \<lparr>ar_ok = True, ar_checked = 1, ar_broken_seq = None, ar_reason = None, ar_unverifiable = []\<rparr>"
proof -
  have n: "new_attestor \<lparr>ak_key = None, ak_agg = None, ak_lines = []\<rparr> (Some [7]) None FS_HMAC_AGG_SCHEME
      = Inr (FsHmac FS_HMAC_AGG_SCHEME, \<lparr>ak_key = Some (Inr (0, [7])), ak_agg = None, ak_lines = []\<rparr>)"
    by (simp add: new_attestor_def)
  then have ok: "sidecar_ok sha256 [7] FS_HMAC_AGG_SCHEME (map entry_hash [])
      \<lparr>ak_key = Some (Inr (0, [7])), ak_agg = None, ak_lines = []\<rparr>"
    using new_attestor_sidecar_ok [OF n] by simp
  have acc: "accepted sha256 (sample_registry sha256) ([] @ [sample_row sha256 0 GENESIS_PREV_HASH])"
    using sha256.sample_row_accepted by simp
  have asc: "list_all ascii_str [entry_hash (sample_row sha256 0 GENESIS_PREV_HASH)]"
    by (simp add: sample_row_hash_ascii)
  from honest_sidecar_accepted [OF sha256.digest32_axioms sample_registry_reachable acc asc ok]
  show ?thesis by auto
qed



text \<open>The sidecar check raises on a header chain verification reports as broken: when a row of a known
  fingerprint carries a string with no UTF-8 form, the check of any sidecar whose first attestation faces that
  row raises the encoding error, while \<open>verify_chain\<close> returns its verdict for the same trail.\<close>

theorem sidecar_check_raises_on_unencodable_header:
  assumes "reachable_registry sha reg" "short_header (header e)" "known_row reg e"
    and "header_frame (header e) = Inl LpEncodingError" "attestations files = Inr (att # atts)"
  shows "verify_sidecar sha mode files (Inr (e # es)) reg k v = Inl LpEncodingError
    \<and> (\<exists>r. verify_chain sha reg [e] = Inr r \<and> \<not> vr_ok r)"
proof
  note ok = reachable_registry_ok [OF assms(1)]
  have "expected_hash sha reg e = Inl LpEncodingError"
    using assms(3,4) by (simp add: expected_hash_def compute_entry_hash_def)
  then show "verify_sidecar sha mode files (Inr (e # es)) reg k v = Inl LpEncodingError"
    using assms(5) by (simp add: verify_sidecar_def cross_check_rows_Cons [OF ok])
  have s: "\<forall>x \<in> set [e]. short_header (header x)" using assms(2) by simp
  have "\<not> accepted sha reg [e]"
    using accepted_row(3) [of sha reg "[e]" 0] assms(3,4) by (auto simp: compute_entry_hash_def)
  then show "\<exists>r. verify_chain sha reg [e] = Inr r \<and> \<not> vr_ok r"
    using verify_chain_stops_at [OF ok s] verify_chain_ok_iff [OF ok s] by blast
qed

definition surrogate_row :: entry where
  "surrogate_row = \<lparr>header = (sample_header 0 GENESIS_PREV_HASH)\<lparr>hash_version := sample_fingerprint sha256, ts := [0xD800]\<rparr>,
     entry_hash = [], payload = None\<rparr>"

theorem sidecar_check_raises_on_unencodable_header_witness:
  "verify_sidecar sha256 (FsHmac FS_HMAC_SCHEME) \<lparr>ak_key = None, ak_agg = None, ak_lines = [Inr (sample_seal sha256)]\<rparr>
     (Inr [surrogate_row]) (sample_registry sha256) None None = Inl LpEncodingError"
proof -
  let ?f = "\<lparr>ak_key = None, ak_agg = None, ak_lines = [Inr (sample_seal sha256)]\<rparr>"
  have "lp (Str (str_int 0)) \<noteq> Inl e" for e
    using lp_encodable [OF encodable_str_int [of 0]] length_str_int_digit [of 0] by auto
  then obtain b where "lp (Str (str_int 0)) = Inr b" by (cases "lp (Str (str_int 0))") auto
  then have f: "header_frame (header surrogate_row) = Inl LpEncodingError"
    by (simp add: surrogate_row_def sample_header_def header_frame_def enc_all_def pack_Q_small lp_def [of "Str [55296]"]
        utf8_cp_def surrogate_def)
  have s: "short_header (header surrogate_row)"
    using sha256.sample_fingerprint_encodable(2) short_genesis length_str_int_digit [of 0]
    by (simp add: short_header_def surrogate_row_def sample_header_def short_def)
  have k: "known_row (sample_registry sha256) surrogate_row"
    by (simp add: known_row_def sample_registry_def surrogate_row_def)
  have a: "attestations ?f = Inr (sample_seal sha256 # [])" by (simp add: attestations_def)
  from sidecar_check_raises_on_unencodable_header [OF sample_registry_reachable s k f a] show ?thesis by blast
qed

end
