(* ===== verification/Json.thy ===== *)
theory Json
  imports Hashing
begin

text \<open>
  JSON values as \<^verbatim>\<open>json.loads\<close> returns them, the conversions \<^verbatim>\<open>int(x)\<close> and \<^verbatim>\<open>str(x)\<close> the readers apply to
  them, and base64. A stored line is modelled by what decoding it gives: a value, or the exception. A
  float is opaque: its text, what \<^verbatim>\<open>int\<close> makes of it and the integer it equals, if any. What Python prints for a list or an object, and how
  it reads a string as an integer, is the runtime \<open>rt\<close> the readers take as an argument; the
  laws they rely on are the locale \<open>py_runtime\<close>, interpreted at \<open>ascii_runtime\<close>.
\<close>

section \<open>Values\<close>

record pyfloat =
  f_repr :: pystr
  f_int :: "int res"
  f_integral :: "int option"

datatype json =
    JNull | JBool bool | JInt int | JFloat pyfloat | JStr pystr | JList "json list"
  | JObj "(pystr \<times> json) list"

type_synonym jobj = "(pystr \<times> json) list"

text \<open>\<^verbatim>\<open>obj[key]\<close> and \<^verbatim>\<open>obj.get(key)\<close> on an object, and indexing of a value that may not be one.\<close>

definition jget :: "jobj \<Rightarrow> string \<Rightarrow> json option" where
  "jget fs key = map_of fs (str key)"

definition jindex :: "jobj \<Rightarrow> string \<Rightarrow> json res" where
  "jindex fs key = (case jget fs key of None \<Rightarrow> Inl KeyError | Some v \<Rightarrow> Inr v)"

definition jget_null :: "jobj \<Rightarrow> string \<Rightarrow> json" where
  "jget_null fs key = (case jget fs key of None \<Rightarrow> JNull | Some v \<Rightarrow> v)"

record runtime =
  repr_container :: "json \<Rightarrow> pystr"
  int_of_str :: "pystr \<Rightarrow> int res"

fun py_int :: "runtime \<Rightarrow> json \<Rightarrow> int res" where
  "py_int rt (JInt n) = Inr n"
| "py_int rt (JBool b) = Inr (if b then 1 else 0)"
| "py_int rt (JFloat f) = f_int f"
| "py_int rt (JStr s) = int_of_str rt s"
| "py_int rt _ = Inl TypeError"

fun py_str :: "runtime \<Rightarrow> json \<Rightarrow> pystr" where
  "py_str rt (JStr s) = s"
| "py_str rt (JInt n) = str_int n"
| "py_str rt (JBool b) = (if b then str ''True'' else str ''False'')"
| "py_str rt (JFloat f) = f_repr f"
| "py_str rt JNull = str ''None''"
| "py_str rt v = repr_container rt v"

locale py_runtime =
  fixes rt :: runtime
  assumes int_of_str_str_int: "int_of_str rt (str_int n) = Inr n"
    and int_of_str_errors: "int_of_str rt s = Inl e \<Longrightarrow> e = ValueError"

text \<open>An instance: decimal digits with an optional sign.\<close>

definition ascii_int :: "pystr \<Rightarrow> int res" where
  "ascii_int s =
     (let neg = (s \<noteq> [] \<and> hd s = 45); ds = (if neg then tl s else s) in
      if ds = [] \<or> \<not> (\<forall>c \<in> set ds. 48 \<le> c \<and> c \<le> 57) then Inl ValueError
      else Inr ((if neg then - 1 else 1) * int (digits_val ds)))"

definition ascii_runtime :: runtime where
  "ascii_runtime = \<lparr>repr_container = (\<lambda>_. str ''[]''), int_of_str = ascii_int\<rparr>"

lemma digits_nonempty: "digits n \<noteq> []"
  by (subst digits.simps) simp

lemma ascii_int_str_int: "ascii_int (str_int n) = Inr n"
proof (cases "n < 0")
  case True
  then show ?thesis
    using digits_range [of _ "nat (- n)"]
    by (simp add: ascii_int_def str_int_def digits_val_digits digits_nonempty)
next
  case False
  obtain c cs where c: "digits (nat n) = c # cs" using digits_nonempty [of "nat n"] by (cases "digits (nat n)") auto
  have r: "\<forall>d \<in> set (c # cs). 48 \<le> d \<and> d \<le> 57" using digits_range [of _ "nat n"] c by auto
  have "digits_val (c # cs) = nat n" using digits_val_digits [of "nat n"] c by simp
  with False r show ?thesis by (auto simp: ascii_int_def str_int_def c Let_def)
qed

interpretation ascii: py_runtime ascii_runtime
proof
  show "int_of_str ascii_runtime (str_int n) = Inr n" for n
    by (simp add: ascii_runtime_def ascii_int_str_int)
  show "int_of_str ascii_runtime s = Inl e \<Longrightarrow> e = ValueError" for s e
    by (simp add: ascii_runtime_def ascii_int_def Let_def split: if_splits)
qed

section \<open>Base64\<close>

definition b64_char :: "nat \<Rightarrow> nat" where
  "b64_char n = (if n < 26 then 65 + n else if n < 52 then 97 + (n - 26)
                 else if n < 62 then 48 + (n - 52) else if n = 62 then 43 else 47)"

definition b64_val :: "nat \<Rightarrow> nat option" where
  "b64_val c = (if 65 \<le> c \<and> c \<le> 90 then Some (c - 65) else if 97 \<le> c \<and> c \<le> 122 then Some (c - 71)
                else if 48 \<le> c \<and> c \<le> 57 then Some (c + 4) else if c = 43 then Some 62
                else if c = 47 then Some 63 else None)"

fun b64encode :: "bytes \<Rightarrow> pystr" where
  "b64encode [] = []"
| "b64encode [a] = [b64_char (unat a div 4), b64_char (unat a mod 4 * 16), 61, 61]"
| "b64encode [a, b] = [b64_char (unat a div 4), b64_char (unat a mod 4 * 16 + unat b div 16),
                       b64_char (unat b mod 16 * 4), 61]"
| "b64encode (a # b # c # bs) =
     [b64_char (unat a div 4), b64_char (unat a mod 4 * 16 + unat b div 16),
      b64_char (unat b mod 16 * 4 + unat c div 64), b64_char (unat c mod 64)] @ b64encode bs"

text \<open>
  \<^verbatim>\<open>base64.b64decode(s)\<close> without validation: characters outside the alphabet are skipped, the padding
  must complete the last group, and what follows a complete padding is ignored.
\<close>

fun b64_groups :: "nat list \<Rightarrow> nat \<Rightarrow> pystr \<Rightarrow> bytes res" where
  "b64_groups q pads [] =
     (if q = [] then Inr [] else Inl ValueError)"
| "b64_groups q pads (c # cs) =
     (if c = 61 then
        (if length q \<ge> 2 \<and> length q + Suc pads \<ge> 4 then
           Inr (if length q = 2 then [of_nat (q ! 0 * 4 + q ! 1 div 16)]
                else [of_nat (q ! 0 * 4 + q ! 1 div 16), of_nat (q ! 1 mod 16 * 16 + q ! 2 div 4)])
         else b64_groups q (if length q \<ge> 2 then Suc pads else pads) cs)
      else (case b64_val c of
              None \<Rightarrow> b64_groups q pads cs
            | Some v \<Rightarrow>
                if length q = 3 then
                  res_map (\<lambda>bs. of_nat (q ! 0 * 4 + q ! 1 div 16) # of_nat (q ! 1 mod 16 * 16 + q ! 2 div 4)
                                # of_nat (q ! 2 mod 4 * 64 + v) # bs) (b64_groups [] 0 cs)
                else b64_groups (q @ [v]) 0 cs))"

definition b64decode :: "pystr \<Rightarrow> bytes res" where
  "b64decode s = (if \<forall>c \<in> set s. c < 128 then b64_groups [] 0 s else Inl ValueError)"

lemma b64_val_char: "n < 64 \<Longrightarrow> b64_val (b64_char n) = Some n"
  by (auto simp: b64_val_def b64_char_def)

lemma b64_char_not_pad: "n < 64 \<Longrightarrow> b64_char n \<noteq> 61"
  by (auto simp: b64_char_def)

lemma b64_char_ascii: "n < 64 \<Longrightarrow> b64_char n < 128"
  by (auto simp: b64_char_def)

lemma byte_sextets:
  "unat (a::byte) div 4 < 64" "unat a mod 4 * 16 < 64" "unat a mod 4 * 16 + unat (b::byte) div 16 < 64"
  "unat b mod 16 * 4 < 64" "unat b mod 16 * 4 + unat a div 64 < 64" "unat a mod 64 < 64"
  using unat_byte_less [of a] unat_byte_less [of b] by linarith+

lemma sextet_join:
  "(of_nat (unat (a::byte) div 4 * 4 + (unat a mod 4 * 16 + r) div 16) :: byte) = a" if "r < 16"
proof -
  have "(unat a mod 4 * 16 + r) div 16 = unat a mod 4" using that by simp
  then show ?thesis by simp
qed

lemma sextet_join2:
  "(of_nat ((x * 16 + unat (b::byte) div 16) mod 16 * 16 + (unat b mod 16 * 4 + r) div 4) :: byte) = b" if "r < 4"
proof -
  have "(unat b mod 16 * 4 + r) div 4 = unat b mod 16" using that by simp
  moreover have "(x * 16 + unat b div 16) mod 16 = unat b div 16" using unat_byte_less [of b] by simp
  ultimately have "(x * 16 + unat b div 16) mod 16 * 16 + (unat b mod 16 * 4 + r) div 4 = unat b" by simp
  then show ?thesis by simp
qed

lemma sextet_join3:
  "(of_nat ((x * 4 + unat (c::byte) div 64) mod 4 * 64 + unat c mod 64) :: byte) = c"
proof -
  have "(x * 4 + unat c div 64) mod 4 = unat c div 64" using unat_byte_less [of c] by simp
  then show ?thesis by simp
qed

lemma byte_div_small: "unat (b::byte) div 16 < 16" "unat b div 64 < 4"
  using unat_byte_less [of b] by linarith+

lemma b64_groups_encode: "b64_groups [] 0 (b64encode bs) = Inr bs"
proof (induction bs rule: b64encode.induct)
  case 1
  then show ?case by simp
next
  case (2 a)
  show ?case using sextet_join [of 0 a]
    by (simp add: b64_char_not_pad b64_val_char byte_sextets del: of_nat_add of_nat_mult)
next
  case (3 a b)
  show ?case using sextet_join [of "unat b div 16" a] sextet_join2 [of 0 "unat a mod 4" b] byte_div_small
    by (simp add: b64_char_not_pad b64_val_char byte_sextets del: of_nat_add of_nat_mult)
next
  case (4 a b c bs)
  show ?case
    using 4 sextet_join [of "unat b div 16" a] sextet_join2 [of "unat c div 64" "unat a mod 4" b]
      sextet_join3 [of "unat b mod 16" c] byte_div_small
    by (simp add: b64_char_not_pad b64_val_char byte_sextets del: of_nat_add of_nat_mult)
qed

lemma b64encode_ascii: "c \<in> set (b64encode bs) \<Longrightarrow> c < 128"
  by (induction bs rule: b64encode.induct) (auto simp: b64_char_ascii byte_sextets)

lemma b64_round_trip [simp]: "b64decode (b64encode bs) = Inr bs"
  using b64encode_ascii by (auto simp: b64decode_def b64_groups_encode)

section \<open>Headers as objects\<close>

definition header_to_obj :: "entry_header \<Rightarrow> jobj" where
  "header_to_obj h =
     [(str ''seq'', JInt (seq h)), (str ''ts'', JStr (ts h)), (str ''hash_version'', JStr (hash_version h)),
      (str ''payload_type'', JStr (payload_type h)), (str ''payload_hash'', JStr (payload_hash h)),
      (str ''prev_hash'', JStr (prev_hash h))]"

definition header_from_obj :: "runtime \<Rightarrow> json \<Rightarrow> entry_header res" where
  "header_from_obj rt v =
     (case v of
        JObj fs \<Rightarrow>
          (if \<exists>k \<in> {''seq'', ''ts'', ''hash_version'', ''payload_type'', ''payload_hash'', ''prev_hash''}.
                jget fs k = None then Inl ValueError
           else (case py_int rt (jget_null fs ''seq'') of
                   Inl e \<Rightarrow> if e = TypeError \<or> is_ValueError e then Inl ValueError else Inl e
                 | Inr n \<Rightarrow>
                     Inr \<lparr>seq = n, ts = py_str rt (jget_null fs ''ts''),
                          hash_version = py_str rt (jget_null fs ''hash_version''),
                          payload_type = py_str rt (jget_null fs ''payload_type''),
                          payload_hash = py_str rt (jget_null fs ''payload_hash''),
                          prev_hash = py_str rt (jget_null fs ''prev_hash'')\<rparr>))
      | _ \<Rightarrow> Inl ValueError)"

text \<open>Literal strings differ when their characters do, so lookups in literal objects compute.\<close>

lemma str_eq_iff [simp]: "str a = str b \<longleftrightarrow> a = b"
  by (auto simp: str_def inj_map_eq_map inj_def)

lemma jget_Cons: "jget ((str k, v) # fs) key = (if key = k then Some v else jget fs key)"
  by (auto simp: jget_def)

lemma jget_Nil [simp]: "jget [] key = None"
  by (simp add: jget_def)

lemmas jlookup = jget_Cons jindex_def jget_null_def

lemma header_obj_round_trip: "header_from_obj rt (JObj (header_to_obj h)) = Inr h"
  by (simp add: header_from_obj_def header_to_obj_def jlookup)

lemma header_obj_append:
  "jget fs' ''seq'' = None \<Longrightarrow> header_from_obj rt (JObj (header_to_obj h @ fs')) = Inr h"
  by (simp add: header_from_obj_def header_to_obj_def jlookup)

end
