(* ===== verification/Backend.thy ===== *)
theory Backend
  imports Json
begin

text \<open>
  Storage: the entry envelope (\<^verbatim>\<open>adapters/_envelope.py\<close>), the in-memory backend
  (\<^verbatim>\<open>adapters/memory.py\<close>) and the JSONL backend (\<^verbatim>\<open>adapters/jsonl.py\<close>). The contract of
  \<^verbatim>\<open>ports/backend.py\<close> is the locale \<open>backend\<close>, interpreted at both. A JSONL file is the list of its non-blank
  lines, each given by what \<^verbatim>\<open>json.loads\<close> returns or raises for it, and whether the last of them lacks its line
  end (a write cut short, an editor): the next line written then continues it. The backward tail read works on the
  file's bytes and is proved equal to the last line of the file for every chunk size.
\<close>

section \<open>The envelope\<close>

definition jsub :: "json \<Rightarrow> string \<Rightarrow> json res" where
  "jsub v key = (case v of JObj fs \<Rightarrow> jindex fs key | _ \<Rightarrow> Inl TypeError)"

definition to_obj :: "entry \<Rightarrow> json res" where
  "to_obj e =
     (case payload e of
        None \<Rightarrow> Inl ValueError
      | Some p \<Rightarrow> Inr (JObj [(str ''header'', JObj (header_to_obj (header e))),
                             (str ''entry_hash'', JStr (entry_hash e)),
                             (str ''payload_b64'', JStr (b64encode p))]))"

definition from_obj :: "runtime \<Rightarrow> json \<Rightarrow> entry res" where
  "from_obj rt v =
     res_bind (jsub v ''header'') (\<lambda>hv. res_bind (header_from_obj rt hv) (\<lambda>h.
     res_bind (jsub v ''entry_hash'') (\<lambda>eh.
     res_bind (jsub v ''payload_b64'') (\<lambda>pv. res_bind (b64decode (py_str rt pv)) (\<lambda>p.
       Inr \<lparr>header = h, entry_hash = py_str rt eh, payload = Some p\<rparr>)))))"

definition tail_fields :: "runtime \<Rightarrow> json \<Rightarrow> (int \<times> pystr) res" where
  "tail_fields rt v =
     res_bind (jsub v ''header'') (\<lambda>hv. res_bind (jsub hv ''seq'') (\<lambda>sv. res_bind (py_int rt sv) (\<lambda>n.
     res_bind (jsub v ''entry_hash'') (\<lambda>eh. Inr (n, py_str rt eh)))))"

section \<open>The contract\<close>

type_synonym builder = "int \<Rightarrow> pystr \<Rightarrow> entry res"

definition next_seq :: "entry list \<Rightarrow> int" where
  "next_seq es = (if es = [] then 0 else seq (header (last es)) + 1)"

definition next_prev :: "entry list \<Rightarrow> pystr" where
  "next_prev es = (if es = [] then GENESIS_PREV_HASH else entry_hash (last es))"

locale backend =
  fixes append :: "'b \<Rightarrow> builder \<Rightarrow> entry res \<times> 'b"
    and entries :: "'b \<Rightarrow> entry list res"
    and whole :: "'b \<Rightarrow> bool"
  assumes append_stores:
      "whole b \<Longrightarrow> entries b = Inr es \<Longrightarrow> append b build = (Inr e, b') \<Longrightarrow>
         whole b' \<and> entries b' = Inr (es @ [e]) \<and> build (next_seq es) (next_prev es) = Inr e \<and> payload e \<noteq> None"
    and append_refuses: "append b build = (Inl x, b') \<Longrightarrow> entries b' = entries b \<and> (whole b \<longrightarrow> whole b')"
    and append_accepts:
      "entries b = Inr es \<Longrightarrow> build (next_seq es) (next_prev es) = Inr e \<Longrightarrow> payload e \<noteq> None \<Longrightarrow>
         fst (append b build) = Inr e"
    and append_raises:
      "entries b = Inr es \<Longrightarrow> append b build = (Inl x, b') \<Longrightarrow>
         build (next_seq es) (next_prev es) = Inl x \<or> x = ValueError"

section \<open>The in-memory backend\<close>

definition memory_append :: "entry list \<Rightarrow> builder \<Rightarrow> entry res \<times> entry list" where
  "memory_append es build =
     (case (if es \<noteq> [] then build (seq (header (last es)) + 1) (entry_hash (last es))
            else build 0 GENESIS_PREV_HASH) of
        Inl x \<Rightarrow> (Inl x, es)
      | Inr e \<Rightarrow> if payload e = None then (Inl ValueError, es) else (Inr e, es @ [e]))"

definition memory_entries :: "entry list \<Rightarrow> entry list res" where
  "memory_entries es = Inr es"

section \<open>The JSONL backend\<close>

record jsonl =
  jl_lines :: "json res list"
  jl_open :: bool
  jl_scan_every :: "int option"
  jl_scanned :: nat
  jl_warnings :: nat

text \<open>
  \<open>_integrity_scan\<close>: the first line past the cleared ones that does not decode stops the scan with its error;
  the lines before it are cleared, except a last one without its line end. A file with fewer lines than were cleared is scanned from its start.
\<close>

fun scan_lines :: "json res list \<Rightarrow> nat \<times> exn option" where
  "scan_lines [] = (0, None)"
| "scan_lines (l # ls) =
     (case l of Inl x \<Rightarrow> (0, Some x) | Inr _ \<Rightarrow> (case scan_lines ls of (n, r) \<Rightarrow> (Suc n, r)))"

definition integrity_scan :: "jsonl \<Rightarrow> exn option \<times> jsonl" where
  "integrity_scan b =
     (let start = (if length (jl_lines b) < jl_scanned b then 0 else jl_scanned b);
          (n, r) = scan_lines (drop start (jl_lines b));
          cleared = (if jl_open b \<and> n > 0 \<and> start + n = length (jl_lines b) then n - 1 else n)
      in (r, b\<lparr>jl_scanned := start + cleared\<rparr>))"

definition tail_locked :: "runtime \<Rightarrow> jsonl \<Rightarrow> (int \<times> pystr) res" where
  "tail_locked rt b =
     (if jl_lines b = [] then Inr (0, GENESIS_PREV_HASH)
      else res_bind (last (jl_lines b)) (\<lambda>v. res_map (\<lambda>(n, h). (n + 1, h)) (tail_fields rt v)))"

definition scan_due :: "jsonl \<Rightarrow> int \<Rightarrow> bool" where
  "scan_due b n = (case jl_scan_every b of None \<Rightarrow> False | Some k \<Rightarrow> n > 0 \<and> (n + 1) mod k = 0)"

text \<open>
  The write of one line. After a line without its line end the two are one line, which is two JSON documents and does
  not decode.
\<close>

definition jsonl_write :: "jsonl \<Rightarrow> entry res \<Rightarrow> entry res \<times> jsonl" where
  "jsonl_write b built =
     (case res_bind built (\<lambda>e. res_map (Pair e) (to_obj e)) of
        Inl x \<Rightarrow> (Inl x, b)
      | Inr (e, v) \<Rightarrow>
          (Inr e, b\<lparr>jl_lines := (if jl_open b \<and> jl_lines b \<noteq> [] then butlast (jl_lines b) @ [Inl JSONDecodeError]
                                else jl_lines b @ [Inr v]), jl_open := False\<rparr>))"

definition jsonl_append :: "runtime \<Rightarrow> jsonl \<Rightarrow> builder \<Rightarrow> entry res \<times> jsonl" where
  "jsonl_append rt b build =
     (case tail_locked rt b of
        Inl x \<Rightarrow> (Inl x, b)
      | Inr (n, prev) \<Rightarrow>
          (let (problem, b1) = (if scan_due b n then integrity_scan b else (None, b)) in
           case problem of
             Some x \<Rightarrow>
               if x \<noteq> JSONDecodeError then (Inl x, b1)
               else jsonl_write (b1\<lparr>jl_warnings := jl_warnings b1 + 1\<rparr>) (build n prev)
           | None \<Rightarrow> jsonl_write b1 (build n prev)))"

definition jsonl_entries :: "runtime \<Rightarrow> jsonl \<Rightarrow> entry list res" where
  "jsonl_entries rt b = res_mapM (\<lambda>l. res_bind l (from_obj rt)) (jl_lines b)"

definition jsonl_entry_hashes :: "runtime \<Rightarrow> jsonl \<Rightarrow> pystr list res" where
  "jsonl_entry_hashes rt b =
     res_mapM (\<lambda>l. res_bind l (\<lambda>v. res_map (py_str rt) (jsub v ''entry_hash''))) (jl_lines b)"

section \<open>Envelope round trips\<close>

lemma from_obj_to_obj: "to_obj e = Inr v \<Longrightarrow> from_obj rt v = Inr e"
  by (auto simp: to_obj_def from_obj_def jsub_def jlookup header_obj_round_trip split: option.splits)

lemma to_obj_total: "payload e \<noteq> None \<Longrightarrow> \<exists>v. to_obj e = Inr v"
  by (auto simp: to_obj_def)

lemma to_obj_payload: "to_obj e = Inr v \<Longrightarrow> payload e \<noteq> None"
  by (auto simp: to_obj_def split: option.splits)

text \<open>The tail fields of a line are those of the entry it decodes to.\<close>

lemma tail_fields_from_obj:
  assumes "from_obj rt v = Inr e"
  shows "tail_fields rt v = Inr (seq (header e), entry_hash e)"
proof -
  obtain hv h eh where h: "jsub v ''header'' = Inr hv" "header_from_obj rt hv = Inr h"
    "jsub v ''entry_hash'' = Inr eh" "header e = h" "entry_hash e = py_str rt eh"
    using assms by (auto simp: from_obj_def res_elims)
  then obtain fs where fs: "hv = JObj fs" by (auto simp: header_from_obj_def split: json.splits)
  have s: "jget fs ''seq'' \<noteq> None" "py_int rt (jget_null fs ''seq'') = Inr (seq h)"
    using h(2) fs by (auto simp: header_from_obj_def split: if_splits sum.splits)
  then have "jsub hv ''seq'' = Inr (jget_null fs ''seq'')"
    by (auto simp: jsub_def jindex_def jget_null_def fs)
  with h s show ?thesis by (simp add: tail_fields_def)
qed

lemma scan_lines_clean: "\<forall>l \<in> set ls. \<exists>v. l = Inr v \<Longrightarrow> snd (scan_lines ls) = None"
  by (induction ls) (auto split: prod.splits)

definition terminated :: "jsonl \<Rightarrow> bool" where
  "terminated b \<longleftrightarrow> \<not> jl_open b"

lemma integrity_scan_lines [simp]:
  "jl_lines (snd (integrity_scan b)) = jl_lines b" "jl_open (snd (integrity_scan b)) = jl_open b"
  by (simp_all add: integrity_scan_def Let_def split: prod.splits)

lemma integrity_scan_fst:
  "fst (integrity_scan b) =
     snd (scan_lines (drop (if length (jl_lines b) < jl_scanned b then 0 else jl_scanned b) (jl_lines b)))"
  by (simp add: integrity_scan_def Let_def split: prod.splits)

lemma jsonl_entries_lines:
  assumes "jsonl_entries rt b = Inr es"
  shows "\<forall>l \<in> set (jl_lines b). \<exists>v. l = Inr v" and "length es = length (jl_lines b)"
    and "es \<noteq> [] \<Longrightarrow> \<exists>v. last (jl_lines b) = Inr v \<and> from_obj rt v = Inr (last es)"
proof -
  note m = assms [unfolded jsonl_entries_def]
  show len: "length es = length (jl_lines b)" by (rule res_mapM_length [OF m])
  have nth: "\<exists>v. jl_lines b ! i = Inr v \<and> from_obj rt v = Inr (es ! i)" if "i < length (jl_lines b)" for i
    using res_mapM_nth [OF m that] by (auto simp: res_elims)
  show "\<forall>l \<in> set (jl_lines b). \<exists>v. l = Inr v" using nth by (metis in_set_conv_nth)
  show "es \<noteq> [] \<Longrightarrow> \<exists>v. last (jl_lines b) = Inr v \<and> from_obj rt v = Inr (last es)"
    using nth [of "length es - 1"] len by (cases "jl_lines b = []") (auto simp: last_conv_nth)
qed

lemma tail_locked_entries:
  assumes "jsonl_entries rt b = Inr es"
  shows "tail_locked rt b = Inr (next_seq es, next_prev es)"
proof (cases "es = []")
  case True
  then show ?thesis using jsonl_entries_lines(2) [OF assms]
    by (simp add: tail_locked_def next_seq_def next_prev_def)
next
  case False
  obtain v where v: "last (jl_lines b) = Inr v" "from_obj rt v = Inr (last es)"
    using jsonl_entries_lines(3) [OF assms False] by blast
  have "jl_lines b \<noteq> []" using jsonl_entries_lines(2) [OF assms] False by auto
  with v tail_fields_from_obj [OF v(2)] False show ?thesis
    by (simp add: tail_locked_def next_seq_def next_prev_def)
qed

lemma jsonl_write_cases:
  "jsonl_write b built = (r, b') \<Longrightarrow>
     (\<exists>x. r = Inl x \<and> b' = b) \<or>
     (\<exists>e v. r = Inr e \<and> built = Inr e \<and> to_obj e = Inr v \<and> jl_open b' = False
        \<and> jl_lines b' = (if jl_open b \<and> jl_lines b \<noteq> [] then butlast (jl_lines b) @ [Inl JSONDecodeError]
                         else jl_lines b @ [Inr v]))"
  by (auto simp: jsonl_write_def res_elims split: sum.splits)

text \<open>Whatever the scan does, an append either leaves the lines alone or adds the one it built.\<close>

lemma jsonl_append_cases:
  assumes "jsonl_append rt b build = (r, b')"
  shows "(\<exists>x. r = Inl x \<and> jl_lines b' = jl_lines b \<and> jl_open b' = jl_open b) \<or>
     (\<exists>n prev e v. tail_locked rt b = Inr (n, prev) \<and> build n prev = Inr e \<and> r = Inr e \<and> to_obj e = Inr v
        \<and> jl_open b' = False
        \<and> jl_lines b' = (if jl_open b \<and> jl_lines b \<noteq> [] then butlast (jl_lines b) @ [Inl JSONDecodeError]
                         else jl_lines b @ [Inr v]))"
proof (cases "tail_locked rt b")
  case (Inl x)
  with assms show ?thesis by (auto simp: jsonl_append_def)
next
  case (Inr t)
  obtain n prev where t: "t = (n, prev)" by force
  let ?s = "if scan_due b n then integrity_scan b else (None, b)"
  have lines: "jl_lines (snd ?s) = jl_lines b" "jl_open (snd ?s) = jl_open b" by simp_all
  obtain p b1 where s: "?s = (p, b1)" by force
  have b1: "jl_lines b1 = jl_lines b" "jl_open b1 = jl_open b" using lines s by simp_all
  have app: "(case p of
      Some x \<Rightarrow> if x \<noteq> JSONDecodeError then (Inl x, b1)
                else jsonl_write (b1\<lparr>jl_warnings := jl_warnings b1 + 1\<rparr>) (build n prev)
    | None \<Rightarrow> jsonl_write b1 (build n prev)) = (r, b')"
    using assms Inr t s by (simp add: jsonl_append_def)
  have written: ?thesis if "jl_lines b2 = jl_lines b" "jl_open b2 = jl_open b" "jsonl_write b2 (build n prev) = (r, b')" for b2
    using jsonl_write_cases [OF that(3)] that(1,2) Inr t by fastforce
  show ?thesis
  proof (cases p)
    case None
    with app show ?thesis by (intro written [OF b1]) simp
  next
    case (Some x)
    show ?thesis
    proof (cases "x = JSONDecodeError")
      case True
      with Some app b1 show ?thesis by (intro written [of "b1\<lparr>jl_warnings := jl_warnings b1 + 1\<rparr>"]) simp_all
    next
      case False
      with Some app b1 show ?thesis by auto
    qed
  qed
qed

text \<open>On a readable trail the scan finds nothing and the append is the write of what was built.\<close>

lemma jsonl_append_readable:
  assumes "jsonl_entries rt b = Inr es"
  shows "\<exists>b1. jsonl_append rt b build = jsonl_write b1 (build (next_seq es) (next_prev es))"
proof -
  have "snd (scan_lines (drop k (jl_lines b))) = None" for k
    using jsonl_entries_lines(1) [OF assms(1)] by (intro scan_lines_clean) (auto dest: in_set_dropD)
  then have "fst (integrity_scan b) = None" by (simp add: integrity_scan_fst)
  then show ?thesis using tail_locked_entries [OF assms(1)]
    by (cases "integrity_scan b") (auto simp: jsonl_append_def Let_def)
qed

lemma jsonl_append_clean:
  assumes "jsonl_entries rt b = Inr es" "build (next_seq es) (next_prev es) = Inr e" "payload e \<noteq> None"
  shows "fst (jsonl_append rt b build) = Inr e"
proof -
  obtain b1 where "jsonl_append rt b build = jsonl_write b1 (Inr e)"
    using jsonl_append_readable [OF assms(1), of build] assms(2) by auto
  moreover obtain v where "to_obj e = Inr v" using to_obj_total [OF assms(3)] by blast
  ultimately show ?thesis by (simp add: jsonl_write_def)
qed

lemma jsonl_write_raises: "jsonl_write b built = (Inl x, b') \<Longrightarrow> built = Inl x \<or> x = ValueError"
  by (auto simp: jsonl_write_def to_obj_def res_elims split: sum.splits option.splits)

interpretation memory: backend memory_append memory_entries "\<lambda>_. True"
proof
  show "True \<Longrightarrow> memory_entries b = Inr es \<Longrightarrow> memory_append b build = (Inr e, b') \<Longrightarrow>
     True \<and> memory_entries b' = Inr (es @ [e]) \<and> build (next_seq es) (next_prev es) = Inr e \<and> payload e \<noteq> None"
    for b es build e b'
    by (auto simp: memory_entries_def memory_append_def next_seq_def next_prev_def split: sum.splits if_splits)
  show "memory_append b build = (Inl x, b') \<Longrightarrow> memory_entries b' = memory_entries b \<and> (True \<longrightarrow> True)" for b build x b'
    by (auto simp: memory_append_def split: sum.splits if_splits)
  show "memory_entries b = Inr es \<Longrightarrow> build (next_seq es) (next_prev es) = Inr e \<Longrightarrow> payload e \<noteq> None \<Longrightarrow>
     fst (memory_append b build) = Inr e" for b es build e
    by (auto simp: memory_entries_def memory_append_def next_seq_def next_prev_def)
  show "memory_entries b = Inr es \<Longrightarrow> memory_append b build = (Inl x, b') \<Longrightarrow>
     build (next_seq es) (next_prev es) = Inl x \<or> x = ValueError" for b es build x b'
    by (auto simp: memory_entries_def memory_append_def next_seq_def next_prev_def split: sum.splits if_splits)
qed

interpretation jsonl: backend "jsonl_append rt" "jsonl_entries rt" terminated for rt
proof
  show "terminated b' \<and> jsonl_entries rt b' = Inr (es @ [e]) \<and> build (next_seq es) (next_prev es) = Inr e \<and> payload e \<noteq> None"
    if t: "terminated b" and en: "jsonl_entries rt b = Inr es" and ap: "jsonl_append rt b build = (Inr e, b')" for b es build e b'
  proof -
    obtain v where v: "build (next_seq es) (next_prev es) = Inr e" "to_obj e = Inr v"
      "jl_lines b' = jl_lines b @ [Inr v]" "terminated b'"
      using jsonl_append_cases [OF ap] tail_locked_entries [OF en] t by (auto simp: terminated_def)
    then show ?thesis using en from_obj_to_obj [OF v(2)] to_obj_payload [OF v(2)]
      by (simp add: jsonl_entries_def res_mapM_append)
  qed
  show "jsonl_append rt b build = (Inl x, b') \<Longrightarrow> jsonl_entries rt b' = jsonl_entries rt b \<and> (terminated b \<longrightarrow> terminated b')" for b build x b'
    using jsonl_append_cases [of rt b build "Inl x" b'] by (auto simp: jsonl_entries_def terminated_def)
  show "jsonl_entries rt b = Inr es \<Longrightarrow> build (next_seq es) (next_prev es) = Inr e \<Longrightarrow> payload e \<noteq> None \<Longrightarrow>
     fst (jsonl_append rt b build) = Inr e" for b es build e
    by (rule jsonl_append_clean)
  show "jsonl_entries rt b = Inr es \<Longrightarrow> jsonl_append rt b build = (Inl x, b') \<Longrightarrow>
     build (next_seq es) (next_prev es) = Inl x \<or> x = ValueError" for b es build x b'
    using jsonl_append_readable [of rt b es build] jsonl_write_raises by fastforce
qed

section \<open>The backward tail read\<close>

definition TAIL_SEEK_CHUNK :: nat where "TAIL_SEEK_CHUNK = 4096"

definition rstrip_newlines :: "bytes \<Rightarrow> bytes" where
  "rstrip_newlines b = rev (dropWhile (\<lambda>c. c = 10 \<or> c = 13) (rev b))"

text \<open>\<^verbatim>\<open>b[b.rfind(b"\n") + 1:]\<close>\<close>

definition after_last_newline :: "bytes \<Rightarrow> bytes" where
  "after_last_newline b = rev (takeWhile (\<lambda>c. c \<noteq> 10) (rev b))"

function read_last_loop :: "nat \<Rightarrow> bytes \<Rightarrow> nat \<Rightarrow> bytes \<Rightarrow> bytes option" where
  "read_last_loop csize file remaining chunk =
     (let read_size = min csize remaining;
          remaining' = remaining - read_size;
          chunk' = take read_size (drop remaining' file) @ chunk;
          trimmed = rstrip_newlines chunk'
      in if 10 \<in> set trimmed then Some (after_last_newline trimmed)
         else if remaining' = 0 \<or> csize = 0 then (if trimmed = [] then None else Some trimmed)
         else read_last_loop csize file remaining' chunk')"
  by pat_completeness auto
termination
  by (relation "measure (\<lambda>(s, f, r, c). r)") (auto simp: min_def)

declare read_last_loop.simps [simp del]

definition read_last_line :: "nat \<Rightarrow> bytes option \<Rightarrow> bytes option" where
  "read_last_line csize file =
     (case file of
        None \<Rightarrow> None
      | Some b \<Rightarrow> if length b = 0 then None else read_last_loop csize b (length b) [])"

text \<open>The specification: what follows the last newline of the file without its trailing line ends.\<close>

definition last_line :: "bytes \<Rightarrow> bytes option" where
  "last_line b = (if rstrip_newlines b = [] then None else Some (after_last_newline (rstrip_newlines b)))"

lemma rstrip_append:
  "rstrip_newlines b \<noteq> [] \<Longrightarrow> rstrip_newlines (a @ b) = a @ rstrip_newlines b"
  by (auto simp: rstrip_newlines_def dropWhile_append)

lemma after_last_newline_append:
  "10 \<in> set b \<Longrightarrow> after_last_newline (a @ b) = after_last_newline b"
  by (auto simp: after_last_newline_def takeWhile_append)

lemma after_last_newline_none: "10 \<notin> set b \<Longrightarrow> after_last_newline b = b"
  unfolding after_last_newline_def by (subst takeWhile_all) auto

lemma read_last_loop_eq:
  "0 < csize \<Longrightarrow> remaining \<le> length file \<Longrightarrow>
     read_last_loop csize file remaining (drop remaining file) = last_line file"
proof (induction remaining rule: less_induct)
  case (less remaining)
  let ?r = "remaining - min csize remaining"
  have chunk: "take (min csize remaining) (drop ?r file) @ drop remaining file = drop ?r file"
  proof -
    have "drop remaining file = drop (min csize remaining) (drop ?r file)" by simp
    then show ?thesis by (metis append_take_drop_id)
  qed
  let ?t = "rstrip_newlines (drop ?r file)"
  have step: "read_last_loop csize file remaining (drop remaining file) =
    (if 10 \<in> set ?t then Some (after_last_newline ?t)
     else if ?r = 0 \<or> csize = 0 then (if ?t = [] then None else Some ?t)
     else read_last_loop csize file ?r (drop ?r file))"
    by (subst read_last_loop.simps) (simp only: chunk Let_def)
  have whole: "rstrip_newlines file = take ?r file @ ?t" if "?t \<noteq> []"
    using rstrip_append [OF that, of "take ?r file"] by (simp only: append_take_drop_id)
  show ?case
  proof (cases "10 \<in> set ?t")
    case True
    then have "?t \<noteq> []" by auto
    with True whole after_last_newline_append [OF True] show ?thesis by (simp add: step last_line_def)
  next
    case no: False
    show ?thesis
    proof (cases "?r = 0")
      case True
      then show ?thesis using no by (simp add: step last_line_def after_last_newline_none)
    next
      case False
      then have "?r < remaining" "?r \<le> length file" using less.prems by auto
      from less.IH [OF this(1) less.prems(1) this(2)] False no less.prems(1) show ?thesis
        by (simp add: step)
    qed
  qed
qed

section \<open>Properties\<close>

text \<open>The tail read that makes an append constant-time is right for every chunk size: seeking backward
  in chunks returns the last non-blank line of the file, and nothing for a file that is missing, empty
  or all line ends.\<close>

theorem read_last_line_exact:
  assumes "0 < csize"
  shows "read_last_line csize file = Option.bind file last_line"
proof (cases "file")
  case None
  then show ?thesis by (simp add: read_last_line_def)
next
  case (Some b)
  show ?thesis
  proof (cases "b = []")
    case True
    then show ?thesis by (simp add: Some read_last_line_def last_line_def rstrip_newlines_def)
  next
    case False
    then show ?thesis using read_last_loop_eq [OF assms, of "length b" b] by (simp add: Some read_last_line_def)
  qed
qed

theorem read_last_line_exact_witness:
  "read_last_line TAIL_SEEK_CHUNK (Some [49, 10, 50, 13, 10]) = Some [50]"
  using read_last_line_exact [of TAIL_SEEK_CHUNK "Some [49, 10, 50, 13, 10]"]
  by (simp add: TAIL_SEEK_CHUNK_def last_line_def rstrip_newlines_def after_last_newline_def)

text \<open>The stored envelope loses nothing: an entry read back from the line written for it is that entry,
  header, hash and payload bytes, and the tail fields the next append builds on are its sequence number and
  hash.\<close>

theorem envelope_round_trip:
  assumes "to_obj e = Inr v"
  shows "from_obj rt v = Inr e \<and> tail_fields rt v = Inr (seq (header e), entry_hash e)"
  using from_obj_to_obj [OF assms] tail_fields_from_obj by blast

theorem envelope_round_trip_witness:
  "\<exists>v. to_obj \<lparr>header = sample_header 0 [], entry_hash = str ''ab'', payload = Some [1, 2, 255]\<rparr> = Inr v
     \<and> from_obj ascii_runtime v = Inr \<lparr>header = sample_header 0 [], entry_hash = str ''ab'', payload = Some [1, 2, 255]\<rparr>"
  using to_obj_total [of "\<lparr>header = sample_header 0 [], entry_hash = str ''ab'', payload = Some [1, 2, 255]\<rparr>"]
    envelope_round_trip by force

text \<open>C36. An append onto a trail whose last line lost its line end is acknowledged and destroys that line: the entry is
  returned as written, but the trail can no longer be read, and every later append is refused.\<close>

theorem append_after_torn_line_end_corrupts:
  assumes "jsonl_entries rt b = Inr es" "es \<noteq> []" "jl_open b"
    and "build (next_seq es) (next_prev es) = Inr e" "payload e \<noteq> None"
  shows "\<exists>b'. jsonl_append rt b build = (Inr e, b') \<and> jsonl_entries rt b' = Inl JSONDecodeError
    \<and> fst (jsonl_append rt b' build') = Inl JSONDecodeError"
proof -
  obtain b' where a: "jsonl_append rt b build = (Inr e, b')"
    using jsonl_append_clean [OF assms(1), where build = build, OF assms(4,5)] by (metis prod.collapse)
  have ne: "jl_lines b \<noteq> []" using jsonl_entries_lines(2) [OF assms(1)] assms(2) by auto
  have l: "jl_lines b' = butlast (jl_lines b) @ [Inl JSONDecodeError]"
    using jsonl_append_cases [OF a] assms(3) ne by auto
  have "\<exists>us. res_mapM (\<lambda>l. res_bind l (from_obj rt)) (butlast (jl_lines b)) = Inr us"
    using res_mapM_take [OF assms(1) [unfolded jsonl_entries_def], of "length (jl_lines b) - 1"]
    by (simp add: butlast_conv_take)
  then have "jsonl_entries rt b' = Inl JSONDecodeError" by (auto simp: jsonl_entries_def l res_mapM_append)
  moreover have "fst (jsonl_append rt b' build') = Inl JSONDecodeError"
    by (simp add: jsonl_append_def tail_locked_def l)
  ultimately show ?thesis using a by blast
qed

theorem append_after_torn_line_end_corrupts_witness:
  "\<exists>b. jsonl_entries ascii_runtime b = Inr [\<lparr>header = sample_header 0 [], entry_hash = [], payload = Some []\<rparr>]
     \<and> (\<exists>b'. jsonl_append ascii_runtime b (\<lambda>_ _. Inr \<lparr>header = sample_header 1 [], entry_hash = [], payload = Some []\<rparr>)
              = (Inr \<lparr>header = sample_header 1 [], entry_hash = [], payload = Some []\<rparr>, b')
          \<and> jsonl_entries ascii_runtime b' = Inl JSONDecodeError)"
proof -
  let ?e = "\<lparr>header = sample_header 0 [], entry_hash = [], payload = Some []\<rparr>"
  obtain v where v: "to_obj ?e = Inr v" using to_obj_total [of ?e] by auto
  let ?b = "\<lparr>jl_lines = [Inr v], jl_open = True, jl_scan_every = None, jl_scanned = 0, jl_warnings = 0\<rparr>"
  have "jsonl_entries ascii_runtime ?b = Inr [?e]" by (simp add: jsonl_entries_def from_obj_to_obj [OF v])
  with append_after_torn_line_end_corrupts [OF this, of "\<lambda>_ _. Inr \<lparr>header = sample_header 1 [], entry_hash = [], payload = Some []\<rparr>"]
  show ?thesis by fastforce
qed

text \<open>The periodic scan forgives only text that is not JSON: with a stored line whose bytes are not UTF-8 the scan's exception
  leaves the append, which writes nothing, although the line is old and the last line is intact.\<close>

theorem undecodable_old_line_vetoes_append:
  assumes "tail_locked rt b = Inr (n, prev)" "scan_due b n"
    and "fst (integrity_scan b) = Some UnicodeDecodeError"
  shows "fst (jsonl_append rt b build) = Inl UnicodeDecodeError \<and> jl_lines (snd (jsonl_append rt b build)) = jl_lines b"
  using assms integrity_scan_lines(1) [of b] by (cases "integrity_scan b") (auto simp: jsonl_append_def)

theorem undecodable_old_line_vetoes_append_witness:
  "\<exists>v. fst (jsonl_append ascii_runtime
     \<lparr>jl_lines = [Inl UnicodeDecodeError, Inr v], jl_open = False, jl_scan_every = Some 3, jl_scanned = 0, jl_warnings = 0\<rparr>
     (\<lambda>_ _. Inl ValueError)) = Inl UnicodeDecodeError"
proof -
  let ?e = "\<lparr>header = sample_header 1 [], entry_hash = [], payload = Some []\<rparr>"
  obtain v where v: "to_obj ?e = Inr v" using to_obj_total [of ?e] by auto
  let ?b = "\<lparr>jl_lines = [Inl UnicodeDecodeError, Inr v], jl_open = False, jl_scan_every = Some 3, jl_scanned = 0, jl_warnings = 0\<rparr>"
  have "tail_locked ascii_runtime ?b = Inr (2, [])"
    using tail_fields_from_obj [OF from_obj_to_obj [OF v], of ascii_runtime] by (simp add: tail_locked_def sample_header_def)
  moreover have "scan_due ?b 2" by (simp add: scan_due_def)
  moreover have "fst (integrity_scan ?b) = Some UnicodeDecodeError" by (simp add: integrity_scan_fst)
  ultimately show ?thesis using undecodable_old_line_vetoes_append by blast
qed

end
