(* ===== verification/Checkpoint.thy ===== *)
theory Checkpoint
  imports Hashing Merkle
begin

text \<open>
  Checkpoints (\<^verbatim>\<open>domain/checkpoint.py\<close>) and the three checks built on them: the anchor's, the
  verifier's pinned head (\<^verbatim>\<open>domain/_pinning_checks.py\<close>) and a witness's observations
  (\<^verbatim>\<open>domain/witnessing.py\<close>). A checkpoint frame determines the checkpoint and its shape, a check
  succeeds exactly when the trail still has the recorded prefix, and a pin taken of one trail accepts another
  only if it extends the pinned one.
\<close>

section \<open>Checkpoints\<close>

record checkpoint =
  cp_seq :: int
  cp_entry_hash :: pystr
  cp_root :: pystr
  agg_commit :: "pystr option"
  agg_epoch :: "int option"

text \<open>\<^verbatim>\<open>Checkpoint(...)\<close> with its \<^verbatim>\<open>__post_init__\<close>: half an aggregate binding is refused.\<close>

definition make_checkpoint ::
  "int \<Rightarrow> pystr \<Rightarrow> pystr \<Rightarrow> pystr option \<Rightarrow> int option \<Rightarrow> checkpoint res" where
  "make_checkpoint sq eh root commit epoch =
     (if (commit = None) \<noteq> (epoch = None) then Inl ValueError
      else Inr \<lparr>cp_seq = sq, cp_entry_hash = eh, cp_root = root, agg_commit = commit, agg_epoch = epoch\<rparr>)"

definition CHECKPOINT_FRAME_PREFIX_BARE :: bytes where
  "CHECKPOINT_FRAME_PREFIX_BARE = asc ''waxseal-checkpoint-v1'' @ [10]"

definition CHECKPOINT_FRAME_PREFIX_AGG_BOUND :: bytes where
  "CHECKPOINT_FRAME_PREFIX_AGG_BOUND = asc ''waxseal-checkpoint-v2'' @ [10]"

text \<open>\<^verbatim>\<open>str(x)\<close> of an optional integer.\<close>

definition str_opt_int :: "int option \<Rightarrow> pystr" where
  "str_opt_int x = (case x of None \<Rightarrow> str ''None'' | Some n \<Rightarrow> str_int n)"

text \<open>A prefix, a field count and the length-prefixed fields.\<close>

definition pae_frame :: "bytes \<Rightarrow> pystr list \<Rightarrow> bytes res" where
  "pae_frame pre fs =
     res_bind (pack_Q (length fs)) (\<lambda>n. res_bind (enc_all lp (map Str fs)) (\<lambda>b. Inr (pre @ n @ b)))"

definition checkpoint_frame :: "checkpoint \<Rightarrow> bytes res" where
  "checkpoint_frame cp =
     (case agg_commit cp of
        None \<Rightarrow> pae_frame CHECKPOINT_FRAME_PREFIX_BARE
                 [str_int (cp_seq cp), cp_entry_hash cp, cp_root cp]
      | Some c \<Rightarrow> pae_frame CHECKPOINT_FRAME_PREFIX_AGG_BOUND
                   [str_int (cp_seq cp), cp_entry_hash cp, cp_root cp, str_opt_int (agg_epoch cp), c])"

definition checkpoint_for ::
  "(bytes \<Rightarrow> bytes) \<Rightarrow> pystr list \<Rightarrow> pystr option \<Rightarrow> int option \<Rightarrow> pystr option \<Rightarrow> checkpoint res" where
  "checkpoint_for sha hs commit epoch root =
     (if hs = [] then Inl ValueError
      else res_bind (case root of None \<Rightarrow> batch_root sha hs | Some r \<Rightarrow> Inr r) (\<lambda>r.
        make_checkpoint (int (length hs) - 1) (last hs) r commit epoch))"

definition verify_checkpoint :: "(bytes \<Rightarrow> bytes) \<Rightarrow> pystr list \<Rightarrow> checkpoint \<Rightarrow> string option" where
  "verify_checkpoint sha hs cp =
     (if cp_seq cp < 0 then Some ''malformed_checkpoint''
      else if cp_seq cp \<ge> int (length hs) then Some ''anchor_beyond_head''
      else if hs ! nat (cp_seq cp) \<noteq> cp_entry_hash cp then Some ''anchor_entry_hash_mismatch''
      else (case batch_root sha (take (nat (cp_seq cp + 1)) hs) of
              Inl _ \<Rightarrow> Some ''anchor_root_mismatch''
            | Inr root \<Rightarrow> if root \<noteq> cp_root cp then Some ''anchor_root_mismatch'' else None))"

section \<open>Pins\<close>

definition REASONS :: "string \<rightharpoonup> string" where
  "REASONS = [''malformed_checkpoint'' \<mapsto> ''malformed_pin'', ''anchor_beyond_head'' \<mapsto> ''pin_beyond_head'',
              ''anchor_entry_hash_mismatch'' \<mapsto> ''pin_mismatch'', ''anchor_root_mismatch'' \<mapsto> ''pin_mismatch'']"

definition check_pin :: "(bytes \<Rightarrow> bytes) \<Rightarrow> pystr list \<Rightarrow> checkpoint \<Rightarrow> string option" where
  "check_pin sha hs pin =
     (case verify_checkpoint sha hs pin of
        None \<Rightarrow> None
      | Some r \<Rightarrow> Some (case REASONS r of None \<Rightarrow> ''malformed_pin'' | Some s \<Rightarrow> s))"

text \<open>
  \<^verbatim>\<open>anchor_staleness\<close>: \<open>age\<close> is the age in microseconds of a timestamp at \<open>now\<close>, \<open>None\<close> where it does not parse or
  cannot be subtracted; the newest record is the first one with the greatest position.
\<close>

fun newest :: "int \<times> pystr \<Rightarrow> (int \<times> pystr) list \<Rightarrow> int \<times> pystr" where
  "newest best [] = best"
| "newest best (r # rs) = newest (if fst r > fst best then r else best) rs"

definition anchor_staleness ::
  "(pystr \<Rightarrow> int option) \<Rightarrow> int \<Rightarrow> (int \<times> pystr) list \<Rightarrow> string option" where
  "anchor_staleness age max_age_s records =
     (case records of
        [] \<Rightarrow> Some ''anchor_stale''
      | r # rs \<Rightarrow>
          (case age (snd (newest r rs)) of
             None \<Rightarrow> Some ''anchor_timestamp_unparseable''
           | Some a \<Rightarrow> if a > max_age_s * 1000000 then Some ''anchor_stale'' else None))"

definition anchor_policy_downgrade :: "int \<Rightarrow> (int \<times> pystr option) list \<Rightarrow> bool \<Rightarrow> string option" where
  "anchor_policy_downgrade pinned_seq records any_unreadable =
     (if \<exists>r \<in> set records. fst r \<ge> pinned_seq \<and> snd r \<noteq> None then None
      else if any_unreadable then Some ''anchor_binding_unreadable''
      else Some ''anchor_policy_downgrade'')"

section \<open>Witnesses\<close>

definition WITNESS_CONSISTENT :: string where "WITNESS_CONSISTENT = ''consistent''"
definition WITNESS_INCONSISTENT :: string where "WITNESS_INCONSISTENT = ''inconsistent''"
definition WITNESS_UNREACHABLE :: string where "WITNESS_UNREACHABLE = ''unreachable''"

lemmas witness_status_defs = WITNESS_CONSISTENT_def WITNESS_INCONSISTENT_def WITNESS_UNREACHABLE_def

record witness_observation =
  wo_checkpoints :: "checkpoint list"
  wo_unreadable :: nat

record witness_verdict =
  wv_name :: pystr
  wv_status :: string
  wv_checked :: nat
  wv_reason :: "string option"
  wv_broken_seq :: "int option"
  wv_unreadable :: nat

fun check_witnessed_from ::
  "(bytes \<Rightarrow> bytes) \<Rightarrow> pystr list \<Rightarrow> pystr \<Rightarrow> nat \<Rightarrow> nat \<Rightarrow> checkpoint list \<Rightarrow> witness_verdict" where
  "check_witnessed_from sha hs name unreadable checked [] =
     \<lparr>wv_name = name, wv_status = WITNESS_CONSISTENT, wv_checked = checked,
      wv_reason = (if checked \<noteq> 0 then None else Some ''no_checkpoints_witnessed''),
      wv_broken_seq = None, wv_unreadable = unreadable\<rparr>"
| "check_witnessed_from sha hs name unreadable checked (cp # cps) =
     (case verify_checkpoint sha hs cp of
        Some r \<Rightarrow>
          \<lparr>wv_name = name, wv_status = WITNESS_INCONSISTENT, wv_checked = checked,
           wv_reason = Some r, wv_broken_seq = Some (cp_seq cp), wv_unreadable = unreadable\<rparr>
      | None \<Rightarrow> check_witnessed_from sha hs name unreadable (checked + 1) cps)"

definition check_witnessed ::
  "(bytes \<Rightarrow> bytes) \<Rightarrow> pystr list \<Rightarrow> witness_observation \<Rightarrow> pystr \<Rightarrow> witness_verdict" where
  "check_witnessed sha hs obs name =
     check_witnessed_from sha hs name (wo_unreadable obs) 0 (wo_checkpoints obs)"

definition unreachable_witness :: "pystr \<Rightarrow> string \<Rightarrow> witness_verdict" where
  "unreachable_witness name rsn =
     \<lparr>wv_name = name, wv_status = WITNESS_UNREACHABLE, wv_checked = 0, wv_reason = Some rsn,
      wv_broken_seq = None, wv_unreadable = 0\<rparr>"

section \<open>Frames\<close>

lemma pae_frame_inj:
  assumes "pae_frame pre xs = Inr a" and "pae_frame pre ys = Inr a"
  shows "xs = ys"
proof -
  obtain m b where m: "pack_Q (length xs) = Inr m" "enc_all lp (map Str xs) = Inr b" "a = pre @ m @ b"
    using assms(1) by (auto simp: pae_frame_def res_elims)
  obtain n c where n: "pack_Q (length ys) = Inr n" "enc_all lp (map Str ys) = Inr c" "a = pre @ n @ c"
    using assms(2) by (auto simp: pae_frame_def res_elims)
  have "map Str xs = map Str ys"
    using lp.counted_self_delimiting [of "map Str xs" m "map Str ys" n b c "[]" "[]"] m n by simp
  then show ?thesis by (simp add: inj_map_eq_map inj_def)
qed

text \<open>Two prefixes of one length keep their frames apart.\<close>

lemma pae_frame_prefix:
  assumes "pae_frame pre xs = Inr a" and "pae_frame pre' ys = Inr a" and "length pre = length pre'"
  shows "pre = pre'"
  using assms by (auto simp: pae_frame_def res_elims)

lemma frame_shapes_apart:
  "pae_frame CHECKPOINT_FRAME_PREFIX_BARE xs = Inr f \<Longrightarrow> pae_frame CHECKPOINT_FRAME_PREFIX_AGG_BOUND ys \<noteq> Inr f"
  using pae_frame_prefix [of CHECKPOINT_FRAME_PREFIX_BARE xs f CHECKPOINT_FRAME_PREFIX_AGG_BOUND ys]
  by (auto simp: CHECKPOINT_FRAME_PREFIX_BARE_def CHECKPOINT_FRAME_PREFIX_AGG_BOUND_def asc_def)

definition whole_binding :: "checkpoint \<Rightarrow> bool" where
  "whole_binding cp \<longleftrightarrow> (agg_commit cp = None) = (agg_epoch cp = None)"

lemma make_checkpoint_whole: "make_checkpoint sq eh root c ep = Inr cp \<Longrightarrow> whole_binding cp"
  by (auto simp: make_checkpoint_def whole_binding_def split: if_splits)

lemma checkpoint_frame_inj:
  assumes "whole_binding a" "whole_binding b" and "checkpoint_frame a = Inr f" "checkpoint_frame b = Inr f"
  shows "a = b"
proof (cases "agg_commit a"; cases "agg_commit b")
  assume n: "agg_commit a = None" "agg_commit b = None"
  then have "[str_int (cp_seq a), cp_entry_hash a, cp_root a] = [str_int (cp_seq b), cp_entry_hash b, cp_root b]"
    using assms(3,4) by (intro pae_frame_inj) (simp_all add: checkpoint_frame_def)
  with n assms(1,2) show ?thesis by (auto simp: whole_binding_def dest: str_int_inj)
next
  fix c d assume s: "agg_commit a = Some c" "agg_commit b = Some d"
  then have "[str_int (cp_seq a), cp_entry_hash a, cp_root a, str_opt_int (agg_epoch a), c]
      = [str_int (cp_seq b), cp_entry_hash b, cp_root b, str_opt_int (agg_epoch b), d]"
    using assms(3,4) by (intro pae_frame_inj) (simp_all add: checkpoint_frame_def)
  with s assms(1,2) show ?thesis by (auto simp: whole_binding_def str_opt_int_def dest!: str_int_inj)
next
  fix d assume "agg_commit a = None" "agg_commit b = Some d"
  then show ?thesis using assms(3,4) frame_shapes_apart by (auto simp: checkpoint_frame_def)
next
  fix c assume "agg_commit a = Some c" "agg_commit b = None"
  then show ?thesis using assms(3,4) frame_shapes_apart by (auto simp: checkpoint_frame_def)
qed

section \<open>What a successful check means\<close>

lemma verify_checkpoint_None:
  "verify_checkpoint sha hs cp = None \<longleftrightarrow>
     0 \<le> cp_seq cp \<and> cp_seq cp < int (length hs) \<and> hs ! nat (cp_seq cp) = cp_entry_hash cp
     \<and> batch_root sha (take (nat (cp_seq cp + 1)) hs) = Inr (cp_root cp)"
  by (auto simp: verify_checkpoint_def split: sum.splits if_splits)

lemma check_pin_None: "check_pin sha hs pin = None \<longleftrightarrow> verify_checkpoint sha hs pin = None"
  by (simp add: check_pin_def split: option.splits)

lemma verify_checkpoint_reasons:
  "verify_checkpoint sha hs cp = Some r \<Longrightarrow>
     r \<in> {''malformed_checkpoint'', ''anchor_beyond_head'', ''anchor_entry_hash_mismatch'', ''anchor_root_mismatch''}"
  by (auto simp: verify_checkpoint_def split: sum.splits if_splits)


lemma checkpoint_for_verifies:
  assumes "checkpoint_for sha hs c ep root = Inr cp" and "\<forall>r. root = Some r \<longrightarrow> batch_root sha hs = Inr r"
  shows "verify_checkpoint sha (hs @ later) cp = None"
proof -
  obtain r where r: "hs \<noteq> []" "batch_root sha hs = Inr r" "make_checkpoint (int (length hs) - 1) (last hs) r c ep = Inr cp"
    using assms by (auto simp: checkpoint_for_def res_elims split: if_splits option.splits)
  have cp: "cp_seq cp = int (length hs) - 1" "cp_entry_hash cp = last hs" "cp_root cp = r"
    using r(3) by (auto simp: make_checkpoint_def split: if_splits)
  have "0 < length hs" using r(1) by simp
  then have "nat (cp_seq cp) = length hs - 1" "nat (cp_seq cp + 1) = length hs" "0 \<le> cp_seq cp"
    "cp_seq cp < int (length (hs @ later))" unfolding cp(1) by auto
  then show ?thesis
    using r(1,2) cp \<open>0 < length hs\<close> by (simp add: verify_checkpoint_None nth_append last_conv_nth)
qed

lemma check_witnessed_from_split:
  "check_witnessed_from sha hs name u n cps =
     (case dropWhile (\<lambda>cp. verify_checkpoint sha hs cp = None) cps of
        [] \<Rightarrow> \<lparr>wv_name = name, wv_status = WITNESS_CONSISTENT, wv_checked = n + length cps,
                wv_reason = (if n + length cps \<noteq> 0 then None else Some ''no_checkpoints_witnessed''),
                wv_broken_seq = None, wv_unreadable = u\<rparr>
      | cp # _ \<Rightarrow> \<lparr>wv_name = name, wv_status = WITNESS_INCONSISTENT,
                   wv_checked = n + length (takeWhile (\<lambda>cp. verify_checkpoint sha hs cp = None) cps),
                   wv_reason = verify_checkpoint sha hs cp, wv_broken_seq = Some (cp_seq cp),
                   wv_unreadable = u\<rparr>)"
  by (induction cps arbitrary: n)
     (auto split: option.splits list.splits simp del: dropWhile_eq_Nil_conv)

section \<open>Properties\<close>

text \<open>A checkpoint frame determines the checkpoint, the presence of the aggregate binding included:
  the two frame shapes never coincide, and within a shape the fields are recovered one by
  one.\<close>

theorem checkpoint_frame_injective:
  assumes "make_checkpoint sq eh root c ep = Inr a" "make_checkpoint sq' eh' root' c' ep' = Inr b"
    and "checkpoint_frame a = Inr f" "checkpoint_frame b = Inr f"
  shows "a = b"
  using checkpoint_frame_inj [OF _ _ assms(3,4)] make_checkpoint_whole [OF assms(1)]
    make_checkpoint_whole [OF assms(2)] .

theorem checkpoint_frame_injective_witness:
  "\<exists>a f. make_checkpoint 0 [] [] (Some []) (Some 1) = Inr a \<and> checkpoint_frame a = Inr f \<and> a = a"
proof -
  have e: "encodable (str_int 0)" "encodable (str_int 1)"
    by (auto intro!: encodable_str_int simp: length_str_int_digit)
  obtain a where a: "make_checkpoint 0 [] [] (Some []) (Some 1) = Inr a"
    "a = \<lparr>cp_seq = 0, cp_entry_hash = [], cp_root = [], agg_commit = Some [], agg_epoch = Some 1\<rparr>"
    by (simp add: make_checkpoint_def)
  have "\<exists>b. enc_all lp (map Str [str_int 0, [], [], str_int 1, []]) = Inr b"
    using e by (intro enc_all_total) (auto simp: lp_encodable)
  then obtain f where "checkpoint_frame a = Inr f"
    using a(2) by (auto simp: checkpoint_frame_def pae_frame_def str_opt_int_def pack_Q_small)
  with a checkpoint_frame_injective [OF a(1) a(1) this this] show ?thesis by blast
qed

lemma pin_extends:
  assumes "digest32 sha" and "checkpoint_for sha hs c ep None = Inr pin"
    and "check_pin sha hs' pin = None"
    and "res_mapM fromhex hs = Inr ls" "res_mapM fromhex hs' = Inr ls'"
    and "inj_on sha (tree_inputs sha ls \<union> tree_inputs sha (take (length hs) ls'))"
  shows "length hs \<le> length hs' \<and> take (length hs) ls' = ls"
proof -
  obtain r where r: "hs \<noteq> []" "batch_root sha hs = Inr r"
      "make_checkpoint (int (length hs) - 1) (last hs) r c ep = Inr pin"
    using assms(2) by (auto simp: checkpoint_for_def res_elims split: if_splits)
  have pin: "cp_seq pin = int (length hs) - 1" "cp_root pin = r"
    using r(3) by (auto simp: make_checkpoint_def split: if_splits)
  have v: "cp_seq pin < int (length hs')" "batch_root sha (take (length hs) hs') = Inr r"
    using assms(3) pin by (auto simp: check_pin_None verify_checkpoint_None)
  have "tree_hash sha (take (length hs) ls') = tree_hash sha ls"
    using r(2) v(2) assms(4) res_mapM_take [OF assms(5), of "length hs"] by (auto simp: batch_root_def)
  then have "take (length hs) ls' = ls"
    using digest32.tree_hash_inj [OF assms(1)] assms(6) by (metis Un_commute)
  moreover have "length hs \<le> length hs'" using v(1) pin(1) r(1) by simp
  ultimately show ?thesis by simp
qed

text \<open>A pinned head detects every rewrite and rollback of the confirmed history: a pin taken of one
  trail is accepted for another exactly when the other is at least as long, still has the pinned
  entry hash at the pinned position and, absent a hash collision, has the same entry hashes
  before it.\<close>

theorem pin_detects_rewrite:
  assumes "digest32 sha" and "checkpoint_for sha hs c ep None = Inr pin"
    and "check_pin sha hs' pin = None"
    and "res_mapM fromhex hs = Inr ls" "res_mapM fromhex hs' = Inr ls'"
    and "inj_on sha (tree_inputs sha ls \<union> tree_inputs sha (take (length hs) ls'))"
  shows "length hs \<le> length hs' \<and> take (length hs) ls' = ls"
  by (rule pin_extends [OF assms])

theorem pin_detects_rewrite_witness:
  "\<exists>pin. checkpoint_for first32 [str ''01'', str ''02''] None None None = Inr pin
     \<and> check_pin first32 [str ''01'', str ''02'', str ''03''] pin = None
     \<and> take (length [str ''01'', str ''02'']) [[1], [2], [3]] = [[1], [2 :: byte]]"
proof -
  let ?hs = "[str ''01'', str ''02'']" and ?hs' = "[str ''01'', str ''02'', str ''03'']"
  have r: "res_mapM fromhex ?hs = Inr [[1], [2]]" "res_mapM fromhex ?hs' = Inr [[1], [2], [3]]"
    by (simp_all add: str_def ascii_space_def hexval_def)
  then obtain pin where pin: "checkpoint_for first32 ?hs None None None = Inr pin"
    by (auto simp: checkpoint_for_def batch_root_def make_checkpoint_def)
  have v: "check_pin first32 ?hs' pin = None"
    using checkpoint_for_verifies [OF pin, of "[str ''03'']"] by (simp add: check_pin_None)
  have "inj_on first32 (tree_inputs first32 [[1], [2]])"
    by (simp add: tree_inputs_pair inj_on_def first32_def leaf_hash_def LEAF_PREFIX_def NODE_PREFIX_def)
  then show ?thesis
    using pin_detects_rewrite [OF digest32_first32 pin v r] pin v by (simp add: numeral_2_eq_2)
qed

text \<open>A checkpoint taken of a trail verifies against that trail and against every extension of it,
  whether the root was recomputed or passed in from the incremental tree.\<close>

theorem checkpoint_survives_growth:
  assumes "checkpoint_for sha hs c ep root = Inr cp" and "from_hashes sha hs = Inr t"
    and "root = None \<or> root = Some (im_root sha t)"
  shows "verify_checkpoint sha (hs @ later) cp = None"
  by (rule checkpoint_for_verifies [OF assms(1)])
     (use assms(3) merkle_ok_root [OF from_hashes_ok [OF assms(2)]] in auto)

theorem checkpoint_survives_growth_witness:
  "\<exists>cp. checkpoint_for sha256 [str ''01''] None None None = Inr cp
     \<and> verify_checkpoint sha256 ([str ''01''] @ [str ''zz'']) cp = None"
proof -
  have h: "fromhex (str ''01'') = Inr [1]" by (simp add: str_def ascii_space_def hexval_def)
  obtain cp where cp: "checkpoint_for sha256 [str ''01''] None None None = Inr cp"
    using h by (auto simp: checkpoint_for_def batch_root_def make_checkpoint_def)
  obtain t where "from_hashes sha256 [str ''01''] = Inr t"
    using h by (auto simp: from_hashes_def push_def)
  from checkpoint_survives_growth [OF cp this, of "[str ''zz'']"] cp show ?thesis by blast
qed

text \<open>A witness check reports the first checkpoint of the witness the local trail contradicts, with the
  number confirmed before it, and reports the witness consistent exactly when there is none; a witness
  with nothing to compare is named as such and never counted as agreement.\<close>

theorem check_witnessed_exact:
  "check_witnessed sha hs obs name =
     (case dropWhile (\<lambda>cp. verify_checkpoint sha hs cp = None) (wo_checkpoints obs) of
        [] \<Rightarrow> \<lparr>wv_name = name, wv_status = WITNESS_CONSISTENT, wv_checked = length (wo_checkpoints obs),
                wv_reason = (if wo_checkpoints obs = [] then Some ''no_checkpoints_witnessed'' else None),
                wv_broken_seq = None, wv_unreadable = wo_unreadable obs\<rparr>
      | cp # _ \<Rightarrow> \<lparr>wv_name = name, wv_status = WITNESS_INCONSISTENT,
                   wv_checked = length (takeWhile (\<lambda>cp. verify_checkpoint sha hs cp = None) (wo_checkpoints obs)),
                   wv_reason = verify_checkpoint sha hs cp, wv_broken_seq = Some (cp_seq cp),
                   wv_unreadable = wo_unreadable obs\<rparr>)"
  by (simp add: check_witnessed_def check_witnessed_from_split split: list.splits
      del: dropWhile_eq_Nil_conv)

end
