(* ===== verification/Anchors.thy ===== *)
theory Anchors
  imports Attestor Backend Checkpoint
begin

text \<open>
  Anchor records (\<^verbatim>\<open>adapters/anchors.py\<close>) and the aggregate binding of an anchor (\<^verbatim>\<open>log/_anchoring.py\<close>). The
  \<^verbatim>\<open>.anchors\<close> sidecar is the list of its lines, as in the JSONL backend. An external sink is a function from
  checkpoints to a receipt or an exception. The lemmas show that what is recorded is read back, that a sink records
  exactly what an external witness accepted, and that an anchored aggregate keeps verifying as the trail grows.
\<close>

section \<open>Records\<close>

datatype sink_result = Plain "pystr option" | SinkReceipt pystr "int option"

record anchor_record =
  an_checkpoint :: checkpoint
  an_sink :: pystr
  an_receipt :: "pystr option"
  an_ts :: pystr
  an_version :: int
  an_nonce :: "int option"

record anchor_sidecar =
  as_records :: "anchor_record list"
  as_unreadable :: "pystr list"

definition json_opt_str :: "pystr option \<Rightarrow> json" where
  "json_opt_str x = (case x of None \<Rightarrow> JNull | Some s \<Rightarrow> JStr s)"

definition json_opt_int :: "int option \<Rightarrow> json" where
  "json_opt_int x = (case x of None \<Rightarrow> JNull | Some n \<Rightarrow> JInt n)"

definition record_obj ::
  "checkpoint \<Rightarrow> pystr \<Rightarrow> pystr option \<Rightarrow> pystr \<Rightarrow> int option \<Rightarrow> json" where
  "record_obj cp sink receipt stamp nonce =
     JObj ([(str ''entry_hash'', JStr (cp_entry_hash cp)), (str ''receipt'', json_opt_str receipt),
            (str ''root'', JStr (cp_root cp)), (str ''seq'', JInt (cp_seq cp)), (str ''sink'', JStr sink),
            (str ''ts'', JStr stamp), (str ''v'', JInt (if agg_commit cp = None then 1 else 2))]
           @ (case nonce of None \<Rightarrow> [] | Some n \<Rightarrow> [(str ''nonce'', JStr (str_int n))])
           @ (case agg_commit cp of None \<Rightarrow> []
              | Some c \<Rightarrow> [(str ''agg_commit'', JStr c), (str ''agg_epoch'', json_opt_int (agg_epoch cp))]))"

definition optional_str :: "runtime \<Rightarrow> jobj \<Rightarrow> string \<Rightarrow> pystr option" where
  "optional_str rt fs key = (case jget_null fs key of JNull \<Rightarrow> None | v \<Rightarrow> Some (py_str rt v))"

definition optional_int :: "runtime \<Rightarrow> jobj \<Rightarrow> string \<Rightarrow> int option res" where
  "optional_int rt fs key = (case jget_null fs key of JNull \<Rightarrow> Inr None | v \<Rightarrow> res_map Some (py_int rt v))"

text \<open>
  \<^verbatim>\<open>version not in {1, 2}\<close>: set membership compares with \<^verbatim>\<open>==\<close>, so \<^verbatim>\<open>True\<close> and \<^verbatim>\<open>1.0\<close> are members, and raises on a
  value that cannot be hashed.
\<close>

definition known_record_version :: "json \<Rightarrow> bool res" where
  "known_record_version v =
     (case v of
        JInt n \<Rightarrow> Inr (n = 1 \<or> n = 2)
      | JBool b \<Rightarrow> Inr b
      | JFloat f \<Rightarrow> Inr (f_integral f = Some 1 \<or> f_integral f = Some 2)
      | JList _ \<Rightarrow> Inl TypeError
      | JObj _ \<Rightarrow> Inl TypeError
      | _ \<Rightarrow> Inr False)"

text \<open>One line: a record, or the version this build cannot read.\<close>

definition read_anchor_line :: "runtime \<Rightarrow> json \<Rightarrow> (pystr + anchor_record) res" where
  "read_anchor_line rt v =
     (case v of
        JObj fs \<Rightarrow>
          (let version = (case jget fs ''v'' of None \<Rightarrow> JInt 1 | Some x \<Rightarrow> x) in
           res_bind (known_record_version version) (\<lambda>known.
             if \<not> known then Inr (Inl (py_str rt version))
             else
               res_bind (jindex fs ''seq'') (\<lambda>sv. res_bind (py_int rt sv) (\<lambda>n.
               res_bind (jindex fs ''entry_hash'') (\<lambda>eh.
               res_bind (jindex fs ''root'') (\<lambda>root.
               res_bind (optional_int rt fs ''agg_epoch'') (\<lambda>epoch.
               res_bind (make_checkpoint n (py_str rt eh) (py_str rt root) (optional_str rt fs ''agg_commit'') epoch) (\<lambda>cp.
               res_bind (py_int rt version) (\<lambda>ver.
               res_bind (optional_int rt fs ''nonce'') (\<lambda>nonce.
                 Inr (Inr \<lparr>an_checkpoint = cp,
                           an_sink = (case jget fs ''sink'' of None \<Rightarrow> str ''unknown'' | Some x \<Rightarrow> py_str rt x),
                           an_receipt = optional_str rt fs ''receipt'',
                           an_ts = (case jget fs ''ts'' of None \<Rightarrow> [] | Some x \<Rightarrow> py_str rt x),
                           an_version = ver, an_nonce = nonce\<rparr>))))))))))) 
      | _ \<Rightarrow> Inl ValueError)"

definition read_anchor_records :: "runtime \<Rightarrow> json res list \<Rightarrow> anchor_sidecar res" where
  "read_anchor_records rt lines =
     res_map (\<lambda>rs. \<lparr>as_records = [r. Inr r \<leftarrow> rs], as_unreadable = [u. Inl u \<leftarrow> rs]\<rparr>)
       (res_mapM (\<lambda>l. res_bind l (read_anchor_line rt)) lines)"

section \<open>Sinks\<close>

definition file_anchor :: "json res list \<Rightarrow> pystr \<Rightarrow> checkpoint \<Rightarrow> json res list" where
  "file_anchor lines stamp cp = lines @ [Inr (record_obj cp (str ''file'') None stamp None)]"

definition recording_anchor ::
  "pystr \<Rightarrow> (checkpoint \<Rightarrow> sink_result res) \<Rightarrow> pystr \<Rightarrow> json res list \<Rightarrow> checkpoint
    \<Rightarrow> pystr option res \<times> json res list" where
  "recording_anchor name ext stamp lines cp =
     (case ext cp of
        Inl x \<Rightarrow> (Inl x, lines)
      | Inr result \<Rightarrow>
          let (receipt, nonce) = (case result of Plain r \<Rightarrow> (r, None) | SinkReceipt r n \<Rightarrow> (Some r, n))
          in (Inr receipt, lines @ [Inr (record_obj cp name receipt stamp nonce)]))"

text \<open>\<open>MultiAnchorSink\<close>: only \<^verbatim>\<open>OSError\<close> and \<^verbatim>\<open>RuntimeError\<close> are collected, any other exception ends the call.\<close>

fun multi_anchor_loop ::
  "(pystr \<times> (checkpoint \<Rightarrow> sink_result res)) list \<Rightarrow> pystr \<Rightarrow> checkpoint \<Rightarrow> (pystr \<times> exn) list \<Rightarrow> nat
    \<Rightarrow> json res list \<Rightarrow> unit res \<times> (pystr \<times> exn) list \<times> json res list" where
  "multi_anchor_loop [] stamp cp failures published lines =
     (if published = 0 then Inl RuntimeError else Inr (), failures, lines)"
| "multi_anchor_loop ((name, ext) # sinks) stamp cp failures published lines =
     (case recording_anchor name ext stamp lines cp of
        (Inl x, lines') \<Rightarrow>
          if x = OSError \<or> x = RuntimeError
          then multi_anchor_loop sinks stamp cp (failures @ [(name, x)]) published lines'
          else (Inl x, failures, lines')
      | (Inr _, lines') \<Rightarrow> multi_anchor_loop sinks stamp cp failures (published + 1) lines')"

definition new_multi_sink :: "'s list \<Rightarrow> 's list res" where
  "new_multi_sink sinks = (if length sinks < 2 then Inl ValueError else Inr sinks)"

definition multi_anchor ::
  "(pystr \<times> (checkpoint \<Rightarrow> sink_result res)) list \<Rightarrow> pystr \<Rightarrow> json res list \<Rightarrow> checkpoint
    \<Rightarrow> unit res \<times> (pystr \<times> exn) list \<times> json res list" where
  "multi_anchor sinks stamp lines cp = multi_anchor_loop sinks stamp cp [] 0 lines"

section \<open>The aggregate binding\<close>

definition aggregate_binding ::
  "(bytes \<Rightarrow> bytes) \<Rightarrow> attest_files option \<Rightarrow> (pystr option \<times> int option) res" where
  "aggregate_binding sha src =
     (case src of
        None \<Rightarrow> Inr (None, None)
      | Some files \<Rightarrow>
          (case read_aggregate files of
             Inl x \<Rightarrow> if caught x then Inl RuntimeError else Inl x
           | Inr None \<Rightarrow> Inr (None, None)
           | Inr (Some (_, epoch, agg)) \<Rightarrow>
               res_map (\<lambda>c. (Some c, Some epoch)) (aggregate_commit sha epoch agg)))"

fun check_anchored_records ::
  "(bytes \<Rightarrow> bytes) \<Rightarrow> attestation list \<Rightarrow> bytes \<Rightarrow> int \<Rightarrow> string option \<Rightarrow> nat \<Rightarrow> int list \<Rightarrow> anchor_record list
    \<Rightarrow> attest_result res" where
  "check_anchored_records sha atts key agg_start final checked unv [] =
     Inr \<lparr>ar_ok = True, ar_checked = checked, ar_broken_seq = None, ar_reason = final, ar_unverifiable = unv\<rparr>"
| "check_anchored_records sha atts key agg_start final checked unv (r # rs) =
     (let cp = an_checkpoint r in
      case (agg_commit cp, agg_epoch cp) of
        (Some c, Some ep) \<Rightarrow>
          res_bind (verify_anchored_aggregate sha atts key agg_start ep c) (\<lambda>rsn.
            case rsn of
              Some x \<Rightarrow> Inr (attest_broken checked (Some (cp_seq cp)) x unv)
            | None \<Rightarrow> check_anchored_records sha atts key agg_start final (checked + 1) unv rs)
      | _ \<Rightarrow> check_anchored_records sha atts key agg_start final checked (unv @ [cp_seq cp]) rs)"

definition verify_anchored_aggregates ::
  "(bytes \<Rightarrow> bytes) \<Rightarrow> runtime \<Rightarrow> attest_files \<Rightarrow> attest_files option \<Rightarrow> json res list \<Rightarrow> bytes
    \<Rightarrow> attest_result res" where
  "verify_anchored_aggregates sha rt files src lines key =
     res_bind (case src of None \<Rightarrow> Inr None | Some s \<Rightarrow> read_aggregate s) (\<lambda>state.
       let agg_start = (case state of None \<Rightarrow> 0 | Some (s, _, _) \<Rightarrow> s) in
       case read_anchor_records rt lines of
         Inl x \<Rightarrow> if caught x then Inr (attest_broken 0 None ''malformed_anchor'' []) else Inl x
       | Inr sidecar \<Rightarrow>
           if as_records sidecar = [] \<and> as_unreadable sidecar = [] then
             Inr \<lparr>ar_ok = True, ar_checked = 0, ar_broken_seq = None,
                  ar_reason = Some ''no_anchors_recorded'', ar_unverifiable = []\<rparr>
           else
             res_bind (attestations files) (\<lambda>atts.
               check_anchored_records sha atts key agg_start
                 (if as_unreadable sidecar \<noteq> [] then Some ''unreadable_record_version'' else None)
                 0 [] (as_records sidecar)))"

section \<open>What is recorded is read back\<close>

context py_runtime
begin

lemma read_record_obj:
  assumes "whole_binding cp"
  shows "read_anchor_line rt (record_obj cp sink receipt stamp nonce) =
    Inr (Inr \<lparr>an_checkpoint = cp, an_sink = sink, an_receipt = receipt, an_ts = stamp,
              an_version = (if agg_commit cp = None then 1 else 2), an_nonce = nonce\<rparr>)"
  using assms
  by (cases nonce; cases "agg_commit cp"; cases "agg_epoch cp"; cases receipt)
     (auto simp: read_anchor_line_def record_obj_def jlookup known_record_version_def optional_int_def
       optional_str_def make_checkpoint_def whole_binding_def json_opt_str_def json_opt_int_def
       int_of_str_str_int)

end

lemma read_anchor_records_snoc:
  assumes "read_anchor_records rt lines = Inr sc" "read_anchor_line rt v = Inr (Inr r)"
  shows "read_anchor_records rt (lines @ [Inr v]) = Inr (sc\<lparr>as_records := as_records sc @ [r]\<rparr>)"
  using assms by (auto simp: read_anchor_records_def res_mapM_append res_elims)


definition receipt_of :: "sink_result \<Rightarrow> pystr option" where
  "receipt_of r = (case r of Plain x \<Rightarrow> x | SinkReceipt x n \<Rightarrow> Some x)"

definition nonce_of :: "sink_result \<Rightarrow> int option" where
  "nonce_of r = (case r of Plain x \<Rightarrow> None | SinkReceipt x n \<Rightarrow> n)"

lemma recording_anchor_eq:
  "recording_anchor name ext stamp lines cp =
     (case ext cp of Inl x \<Rightarrow> (Inl x, lines)
      | Inr r \<Rightarrow> (Inr (receipt_of r), lines @ [Inr (record_obj cp name (receipt_of r) stamp (nonce_of r))]))"
  by (auto simp: recording_anchor_def receipt_of_def nonce_of_def split: sum.splits sink_result.splits)

definition failures_of :: "checkpoint \<Rightarrow> (pystr \<times> (checkpoint \<Rightarrow> sink_result res)) list \<Rightarrow> (pystr \<times> exn) list" where
  "failures_of cp sinks = concat (map (\<lambda>(name, ext). case ext cp of Inl x \<Rightarrow> [(name, x)] | Inr _ \<Rightarrow> []) sinks)"

definition published_of ::
  "pystr \<Rightarrow> checkpoint \<Rightarrow> (pystr \<times> (checkpoint \<Rightarrow> sink_result res)) list \<Rightarrow> json res list" where
  "published_of stamp cp sinks = concat (map (\<lambda>(name, ext). snd (recording_anchor name ext stamp [] cp)) sinks)"

lemma multi_anchor_loop_eq:
  "\<forall>s \<in> set sinks. \<forall>x. snd s cp = Inl x \<longrightarrow> x = OSError \<or> x = RuntimeError \<Longrightarrow>
   multi_anchor_loop sinks stamp cp failures published lines =
     (if published = 0 \<and> published_of stamp cp sinks = [] then Inl RuntimeError else Inr (),
      failures @ failures_of cp sinks, lines @ published_of stamp cp sinks)"
proof (induction sinks arbitrary: failures published lines)
  case Nil
  then show ?case by (simp add: failures_of_def published_of_def)
next
  case (Cons s sinks)
  obtain name ext where s: "s = (name, ext)" by force
  show ?case
  proof (cases "ext cp")
    case (Inl x)
    then have "x = OSError \<or> x = RuntimeError" using Cons.prems s by auto
    with Inl Cons.IH Cons.prems s show ?thesis
      by (simp add: recording_anchor_eq failures_of_def published_of_def)
  next
    case (Inr r)
    with Cons.IH Cons.prems s show ?thesis
      by (simp add: recording_anchor_eq failures_of_def published_of_def)
  qed
qed

section \<open>An anchored aggregate survives growth\<close>

lemma agg_rows_append: "e \<le> int (p + length xs) \<Longrightarrow> agg_rows s e p (xs @ ys) = agg_rows s e p xs"
  by (induction xs arbitrary: p) (auto simp: agg_rows_Cons agg_rows_beyond)

lemma seal_rows_append:
  "\<exists>tail. seal_rows sha key scheme (hs @ later) = seal_rows sha key scheme hs @ tail"
proof -
  have "seal_rows sha key scheme (hs @ later)
      = seal_rows sha key scheme hs @ map (\<lambda>i. seal_row sha key scheme i ((hs @ later) ! i)) [length hs..<length (hs @ later)]"
    unfolding seal_rows_def length_append upt_add_eq_append [OF le0] by (simp add: nth_append)
  then show ?thesis by blast
qed

lemma anchored_aggregate_honest:
  assumes "sidecar_ok sha key FS_HMAC_AGG_SCHEME hs files" "hs \<noteq> []"
    and "aggregate_binding sha (Some files) = Inr (Some c, Some ep)"
  shows "verify_anchored_aggregate sha (seal_rows sha key FS_HMAC_AGG_SCHEME (hs @ later)) key 0 ep c = Inr None"
proof -
  obtain mu where mu: "ak_agg files = Some (Inr (0, int (length hs), mu))"
    "agg_run sha key (agg_rows 0 (int (length hs)) 0 (seal_rows sha key FS_HMAC_AGG_SCHEME hs)) = Inr mu"
    using assms(1,2) by (auto simp: sidecar_ok_def)
  have c: "ep = int (length hs)" "aggregate_commit sha ep mu = Inr c"
    using assms(3) mu(1) by (auto simp: aggregate_binding_def read_aggregate_def res_elims)
  obtain d where d: "c = hex d" using c(2) by (auto simp: aggregate_commit_def res_elims)
  obtain tail where "seal_rows sha key FS_HMAC_AGG_SCHEME (hs @ later) = seal_rows sha key FS_HMAC_AGG_SCHEME hs @ tail"
    using seal_rows_append by blast
  then have "agg_fold sha 0 ep 0 key AGG_GENESIS (seal_rows sha key FS_HMAC_AGG_SCHEME (hs @ later)) = Inr mu"
    using agg_rows_append [of ep 0 "seal_rows sha key FS_HMAC_AGG_SCHEME hs" 0 tail] mu(2) c(1)
    by (simp add: agg_fold_rows)
  with c d hex_ascii [of _ d] show ?thesis
    by (auto simp: verify_anchored_aggregate_def compare_digest_def)
qed

section \<open>Properties\<close>

text \<open>A recording sink files exactly what the external witness accepted: when the witness raises, the sidecar
  is untouched and the exception passes through; when it answers, reading the sidecar back gives the earlier records
  and one more, with the checkpoint, its aggregate binding, the receipt and the nonce as they were.\<close>

theorem recording_sink_faithful:
  assumes "py_runtime rt" "make_checkpoint sq eh root commit epoch = Inr cp"
    and "read_anchor_records rt lines = Inr sc"
  shows "case ext cp of
      Inl x \<Rightarrow> recording_anchor name ext stamp lines cp = (Inl x, lines)
    | Inr r \<Rightarrow> (case recording_anchor name ext stamp lines cp of (got, lines') \<Rightarrow>
        got = Inr (receipt_of r)
        \<and> read_anchor_records rt lines' =
            Inr (sc\<lparr>as_records := as_records sc @
              [\<lparr>an_checkpoint = cp, an_sink = name, an_receipt = receipt_of r, an_ts = stamp,
                an_version = (if agg_commit cp = None then 1 else 2), an_nonce = nonce_of r\<rparr>]\<rparr>))"
  using read_anchor_records_snoc [OF assms(3) py_runtime.read_record_obj [OF assms(1) make_checkpoint_whole [OF assms(2)]]]
  by (simp add: recording_anchor_eq split: sum.splits)

theorem recording_sink_faithful_witness:
  "\<exists>cp. make_checkpoint 3 (str ''ab'') (str ''cd'') (Some (str ''ef'')) (Some 4) = Inr cp
     \<and> (case recording_anchor (str ''tsa'') (\<lambda>_. Inr (SinkReceipt (str ''token'') (Some 99))) (str ''now'') [] cp of
          (got, lines') \<Rightarrow> got = Inr (Some (str ''token'')) \<and> read_anchor_records ascii_runtime lines' =
            Inr \<lparr>as_records = [\<lparr>an_checkpoint = cp, an_sink = str ''tsa'', an_receipt = Some (str ''token''),
                   an_ts = str ''now'', an_version = 2, an_nonce = Some 99\<rparr>], as_unreadable = []\<rparr>)"
proof -
  define cp where "cp = \<lparr>cp_seq = 3, cp_entry_hash = str ''ab'', cp_root = str ''cd'', agg_commit = Some (str ''ef''), agg_epoch = Some 4\<rparr>"
  have m: "make_checkpoint 3 (str ''ab'') (str ''cd'') (Some (str ''ef'')) (Some 4) = Inr cp"
    by (simp add: make_checkpoint_def cp_def)
  have r: "read_anchor_records ascii_runtime [] = Inr \<lparr>as_records = [], as_unreadable = []\<rparr>"
    by (simp add: read_anchor_records_def)
  show ?thesis
    using recording_sink_faithful [OF ascii.py_runtime_axioms m r, where ext = "\<lambda>_. Inr (SinkReceipt (str ''token'') (Some 99))" and name = "str ''tsa''" and stamp = "str ''now''"] m
    by (intro exI [of _ cp]) (simp add: cp_def receipt_of_def nonce_of_def split: prod.splits)
qed

text \<open>Publishing one checkpoint to several sinks loses no record to another sink's failure: every sink that
  answers is recorded, in order, every failure is reported with the sink's name, and the call itself raises exactly
  when no sink recorded anything.\<close>

theorem multi_sink_isolates_failures:
  assumes "\<forall>s \<in> set sinks. \<forall>x. snd s cp = Inl x \<longrightarrow> x = OSError \<or> x = RuntimeError"
  shows "multi_anchor sinks stamp lines cp =
    (if published_of stamp cp sinks = [] then Inl RuntimeError else Inr (),
     failures_of cp sinks, lines @ published_of stamp cp sinks)"
  using multi_anchor_loop_eq [OF assms] by (simp add: multi_anchor_def)

theorem multi_sink_isolates_failures_witness:
  "fst (multi_anchor [(str ''a'', \<lambda>_. Inl OSError), (str ''b'', \<lambda>_. Inr (Plain None))] [] []
          \<lparr>cp_seq = 0, cp_entry_hash = [], cp_root = [], agg_commit = None, agg_epoch = None\<rparr>) = Inr ()
   \<and> fst (snd (multi_anchor [(str ''a'', \<lambda>_. Inl OSError), (str ''b'', \<lambda>_. Inr (Plain None))] [] []
          \<lparr>cp_seq = 0, cp_entry_hash = [], cp_root = [], agg_commit = None, agg_epoch = None\<rparr>)) = [(str ''a'', OSError)]"
  by (subst (1 2) multi_sink_isolates_failures)
     (auto simp: published_of_def failures_of_def recording_anchor_eq)

text \<open>An anchored aggregate keeps verifying as the trail grows: the commitment taken from the sidecar of a
  sealed trail is accepted against the attestations of every honest continuation of it.\<close>

theorem anchored_aggregate_survives_growth:
  assumes "sidecar_ok sha key FS_HMAC_AGG_SCHEME hs files" "hs \<noteq> []"
    and "aggregate_binding sha (Some files) = Inr (Some c, Some ep)"
    and "sidecar_ok sha key FS_HMAC_AGG_SCHEME (hs @ later) files'" "attestations files' = Inr atts"
  shows "verify_anchored_aggregate sha atts key 0 ep c = Inr None"
proof -
  have "atts = seal_rows sha key FS_HMAC_AGG_SCHEME (hs @ later)"
    using assms(4,5) by (simp add: sidecar_ok_def attestations_def)
  with anchored_aggregate_honest [OF assms(1-3)] show ?thesis by simp
qed

lemma one_row_sidecar:
  "\<exists>a files. attest sha256 (FsHmac FS_HMAC_AGG_SCHEME) \<lparr>ak_key = Some (Inr (0, [7])), ak_agg = None, ak_lines = []\<rparr> 0 (str ''ab'')
     = (Inr a, files) \<and> sidecar_ok sha256 [7] FS_HMAC_AGG_SCHEME [str ''ab''] files"
proof -
  have "sidecar_ok sha256 [7] FS_HMAC_AGG_SCHEME [] \<lparr>ak_key = Some (Inr (0, [7])), ak_agg = None, ak_lines = []\<rparr>"
    by (simp add: sidecar_ok_def sealed_scheme_def seal_rows_def)
  from sha256.attest_sidecar_ok [OF this, of "str ''ab''"] show ?thesis
    by (simp add: ascii_str_def str_def)
qed

theorem anchored_aggregate_survives_growth_witness:
  "\<exists>files c ep atts. aggregate_binding sha256 (Some files) = Inr (Some c, Some ep)
     \<and> verify_anchored_aggregate sha256 atts [7] 0 ep c = Inr None"
proof -
  obtain files where ok: "sidecar_ok sha256 [7] FS_HMAC_AGG_SCHEME [str ''ab''] files"
    using one_row_sidecar by blast
  obtain mu where mu: "ak_agg files = Some (Inr (0, 1, mu))"
    "agg_run sha256 [7] (agg_rows 0 1 0 (seal_rows sha256 [7] FS_HMAC_AGG_SCHEME [str ''ab''])) = Inr mu"
    using ok by (auto simp: sidecar_ok_def)
  obtain d where d: "mu = hex d" "length d = 32" using sha256.agg_run_hex [OF mu(2)] by blast
  have "encodable mu" unfolding d(1) by (rule encodable_ascii) (auto simp: d(2) intro: hex_ascii)
  then have "\<exists>b. enc_all lp [Str (str_int 1), Str mu] = Inr b"
    using encodable_str_int [of 1] length_str_int_digit [of 1] by (intro enc_all_total) (auto simp: lp_encodable)
  then obtain c where b: "aggregate_binding sha256 (Some files) = Inr (Some c, Some 1)"
    using mu(1) by (auto simp: aggregate_binding_def read_aggregate_def aggregate_commit_def pack_Q_small d(1))
  have a: "attestations files = Inr (seal_rows sha256 [7] FS_HMAC_AGG_SCHEME [str ''ab''])"
    using ok by (simp add: sidecar_ok_def attestations_def)
  have "sidecar_ok sha256 [7] FS_HMAC_AGG_SCHEME ([str ''ab''] @ []) files" using ok by simp
  from anchored_aggregate_survives_growth [OF ok _ b this a] b show ?thesis by blast
qed

end
