(* ===== verification/Payload.thy ===== *)
theory Payload
  imports Json "HOL-Library.List_Lexorder"
begin

text \<open>
  Payload bytes: the canonical JSON serialization (\<^verbatim>\<open>domain/canonical.py\<close>) and the redaction that runs before
  it (\<^verbatim>\<open>adapters/redactors.py\<close>). A payload is a value of \<open>json\<close>; a tuple is a list, as the encoder treats it.
  What the regular expressions make of one string is the argument \<open>redact_text\<close>, and \<^verbatim>\<open>str.lower\<close> the argument
  \<open>lower\<close>; the walk over the payload is modelled. The serialization is injective up to key order, so a payload
  hash commits to the payload and not only to some text of it.
\<close>

section \<open>Canonical JSON\<close>

text \<open>
  \<^verbatim>\<open>json.dumps(payload, sort_keys=True, separators=(",", ":"), ensure_ascii=True)\<close>: every character outside
  the printable ASCII range is a \<open>\u\<close> escape, two of them beyond the basic plane; a float is its
  representation, except the three values that have a JavaScript spelling.
\<close>

definition u_escape :: "nat \<Rightarrow> pystr" where
  "u_escape n = [92, 117, hexdigit (n div 4096 mod 16), hexdigit (n div 256 mod 16),
                 hexdigit (n div 16 mod 16), hexdigit (n mod 16)]"

definition escape_char :: "nat \<Rightarrow> pystr" where
  "escape_char c =
     (if c = 34 then [92, 34] else if c = 92 then [92, 92] else if c = 10 then [92, 110]
      else if c = 13 then [92, 114] else if c = 9 then [92, 116] else if c = 12 then [92, 102]
      else if c = 8 then [92, 98] else if 32 \<le> c \<and> c \<le> 126 then [c]
      else if c < 65536 then u_escape c
      else u_escape (55296 + (c - 65536) div 1024 mod 1024) @ u_escape (56320 + (c - 65536) mod 1024))"

definition json_string :: "pystr \<Rightarrow> pystr" where
  "json_string s = 34 # concat (map escape_char s) @ [34]"

definition json_float :: "pyfloat \<Rightarrow> pystr" where
  "json_float f =
     (if f_repr f = str ''nan'' then str ''NaN'' else if f_repr f = str ''inf'' then str ''Infinity''
      else if f_repr f = str ''-inf'' then str ''-Infinity'' else f_repr f)"

fun commas :: "pystr list \<Rightarrow> pystr" where
  "commas [] = []"
| "commas [x] = x"
| "commas (x # xs) = x @ 44 # commas xs"

fun dumps :: "json \<Rightarrow> pystr" where
  "dumps JNull = str ''null''"
| "dumps (JBool b) = (if b then str ''true'' else str ''false'')"
| "dumps (JInt n) = str_int n"
| "dumps (JFloat f) = json_float f"
| "dumps (JStr s) = json_string s"
| "dumps (JList vs) = 91 # commas (map dumps vs) @ [93]"
| "dumps (JObj fs) =
     123 # commas (map (\<lambda>(k, t). json_string k @ 58 # t) (sort_key fst (map (\<lambda>(k, v). (k, dumps v)) fs))) @ [125]"

definition canonical_json :: "jobj \<Rightarrow> bytes res" where
  "canonical_json p = ascii_encode (dumps (JObj p))"

section \<open>Redaction\<close>






section \<open>Strings are self-delimiting\<close>

definition scalar :: "nat \<Rightarrow> bool" where
  "scalar c \<longleftrightarrow> c < 1114112 \<and> \<not> (55296 \<le> c \<and> c < 57344)"

lemma hexdigit_inj: "m < 16 \<Longrightarrow> n < 16 \<Longrightarrow> hexdigit m = hexdigit n \<Longrightarrow> m = n"
  using hexval_hexdigit by (metis option.inject)

lemma hex4_digits: "(n::nat) < 65536 \<Longrightarrow>
    (((n div 4096 mod 16) * 16 + n div 256 mod 16) * 16 + n div 16 mod 16) * 16 + n mod 16 = n"
proof -
  assume n: "n < 65536"
  have d: "n div 256 = n div 16 div 16" "n div 4096 = n div 16 div 16 div 16"
    by (simp_all add: div_mult2_eq [symmetric])
  have "n div 16 div 16 div 16 < 16" using n by (simp add: div_less_iff_less_mult)
  then have "n div 16 div 16 div 16 mod 16 = n div 16 div 16 div 16" by (rule mod_less)
  then show ?thesis unfolding d by (simp only: div_mult_mod_eq)
qed

lemma u_escape_inj:
  assumes "u_escape m = u_escape n" "m < 65536" "n < 65536"
  shows "m = n"
proof -
  have "m div 4096 mod 16 = n div 4096 mod 16" "m div 256 mod 16 = n div 256 mod 16"
    "m div 16 mod 16 = n div 16 mod 16" "m mod 16 = n mod 16"
    using assms(1) by (auto simp: u_escape_def intro!: hexdigit_inj)
  with hex4_digits [OF assms(2)] hex4_digits [OF assms(3)] show ?thesis by simp
qed

lemma u_escape_append:
  assumes "u_escape m @ x = u_escape n @ y" "m < 65536" "n < 65536"
  shows "m = n \<and> x = y"
proof -
  have "u_escape m = u_escape n \<and> x = y" using assms(1) by (simp add: u_escape_def)
  with u_escape_inj [OF _ assms(2,3)] show ?thesis by blast
qed

text \<open>The short escapes and plain characters never look like a \<open>\u\<close> escape.\<close>

definition short_escape :: "nat \<Rightarrow> bool" where
  "short_escape c \<longleftrightarrow> c \<in> {34, 92, 10, 13, 9, 12, 8} \<or> (32 \<le> c \<and> c \<le> 126)"

lemma escape_char_long:
  "\<not> short_escape c \<Longrightarrow> escape_char c =
     (if c < 65536 then u_escape c
      else u_escape (55296 + (c - 65536) div 1024 mod 1024) @ u_escape (56320 + (c - 65536) mod 1024))"
  by (auto simp: short_escape_def escape_char_def)

definition escape_tag :: "nat \<Rightarrow> nat" where
  "escape_tag c = (if c = 10 then 110 else if c = 13 then 114 else if c = 9 then 116
                   else if c = 12 then 102 else if c = 8 then 98 else c)"

lemma escape_char_tagged: "c \<in> {34, 92, 10, 13, 9, 12, 8} \<Longrightarrow> escape_char c = [92, escape_tag c]"
  by (elim insertE emptyE) (simp_all add: escape_char_def escape_tag_def)

lemma escape_tag_inj:
  "c \<in> {34, 92, 10, 13, 9, 12, 8} \<Longrightarrow> d \<in> {34, 92, 10, 13, 9, 12, 8} \<Longrightarrow> escape_tag c = escape_tag d \<Longrightarrow> c = d"
  by (elim insertE emptyE) (simp_all add: escape_tag_def)

lemma escape_char_plain:
  "short_escape c \<Longrightarrow> c \<notin> {34, 92, 10, 13, 9, 12, 8} \<Longrightarrow> escape_char c = [c] \<and> c \<noteq> 92"
  by (simp add: escape_char_def short_escape_def)

lemma escape_char_short_inj:
  assumes "short_escape c" "short_escape d" "escape_char c @ x = escape_char d @ y"
  shows "c = d \<and> x = y"
proof (cases "c \<in> {34, 92, 10, 13, 9, 12, 8}"; cases "d \<in> {34, 92, 10, 13, 9, 12, 8}")
  assume c: "c \<in> {34, 92, 10, 13, 9, 12, 8}" and d: "d \<in> {34, 92, 10, 13, 9, 12, 8}"
  then have "escape_tag c = escape_tag d" "x = y"
    using assms(3) escape_char_tagged [OF c] escape_char_tagged [OF d] by simp_all
  with escape_tag_inj [OF c d] show ?thesis by simp
next
  assume c: "c \<in> {34, 92, 10, 13, 9, 12, 8}" and d: "d \<notin> {34, 92, 10, 13, 9, 12, 8}"
  then show ?thesis using assms(3) escape_char_tagged [OF c] escape_char_plain [OF assms(2) d] by simp
next
  assume c: "c \<notin> {34, 92, 10, 13, 9, 12, 8}" and d: "d \<in> {34, 92, 10, 13, 9, 12, 8}"
  then show ?thesis using assms(3) escape_char_plain [OF assms(1) c] escape_char_tagged [OF d] by simp
next
  assume c: "c \<notin> {34, 92, 10, 13, 9, 12, 8}" and d: "d \<notin> {34, 92, 10, 13, 9, 12, 8}"
  then show ?thesis using assms(3) escape_char_plain [OF assms(1) c] escape_char_plain [OF assms(2) d] by simp
qed

lemma escape_tag_not_u: "c \<in> {34, 92, 10, 13, 9, 12, 8} \<Longrightarrow> escape_tag c \<noteq> 117"
  by (elim insertE emptyE) (simp_all add: escape_tag_def)

lemma escape_char_short_long:
  assumes "short_escape c" "\<not> short_escape d"
  shows "escape_char c @ x \<noteq> escape_char d @ y"
proof -
  have "\<exists>r. escape_char d = 92 # 117 # r"
    using escape_char_long [OF assms(2)] by (cases "d < 65536") (simp_all add: u_escape_def)
  then obtain r where r: "escape_char d = 92 # 117 # r" by blast
  show ?thesis
  proof (cases "c \<in> {34, 92, 10, 13, 9, 12, 8}")
    case True
    show ?thesis unfolding r escape_char_tagged [OF True] using escape_tag_not_u [OF True] by simp
  next
    case False
    then show ?thesis using escape_char_plain [OF assms(1) False] by (simp add: r)
  qed
qed

lemma surrogate_pair_inj:
  assumes "65536 \<le> c" "c < 1114112" "65536 \<le> d" "d < 1114112"
    and "(c - 65536) div 1024 mod 1024 = (d - 65536) div 1024 mod 1024"
    and "(c - 65536) mod 1024 = (d - 65536) mod (1024::nat)"
  shows "c = d"
proof -
  have "(c - 65536) div 1024 = (d - 65536) div 1024" using assms by auto
  with assms(6) have "c - 65536 = d - 65536" by (metis div_mult_mod_eq)
  with assms(1,3) show ?thesis by simp
qed

lemma escape_char_long_inj:
  assumes "scalar c" "scalar d" "\<not> short_escape c" "\<not> short_escape d"
    and "escape_char c @ x = escape_char d @ y"
  shows "c = d \<and> x = y"
proof -
  have b: "55296 + (n - 65536) div 1024 mod 1024 < (57344::nat)" "56320 + (n - 65536) mod 1024 < (65536::nat)" for n
    using mod_less_divisor [of 1024 "(n - 65536) div 1024"] mod_less_divisor [of 1024 "n - 65536"] by linarith+
  show ?thesis
  proof (cases "c < 65536"; cases "d < 65536")
    assume c: "c < 65536" and d: "d < 65536"
    with assms(3-5) have "u_escape c @ x = u_escape d @ y" by (simp add: escape_char_long)
    from u_escape_append [OF this c d] show ?thesis .
  next
    assume c: "c < 65536" and d: "\<not> d < 65536"
    with assms(3-5) have "u_escape c @ x = u_escape (55296 + (d - 65536) div 1024 mod 1024) @ (u_escape (56320 + (d - 65536) mod 1024) @ y)"
      by (simp add: escape_char_long)
    from u_escape_append [OF this c] b(1) [of d] assms(1) show ?thesis by (auto simp: scalar_def)
  next
    assume c: "\<not> c < 65536" and d: "d < 65536"
    with assms(3-5) have "u_escape (55296 + (c - 65536) div 1024 mod 1024) @ (u_escape (56320 + (c - 65536) mod 1024) @ x) = u_escape d @ y"
      by (simp add: escape_char_long)
    from u_escape_append [OF this _ d] b(1) [of c] assms(2) show ?thesis by (auto simp: scalar_def)
  next
    assume c: "\<not> c < 65536" and d: "\<not> d < 65536"
    with assms(3-5) have e: "u_escape (55296 + (c - 65536) div 1024 mod 1024) @ (u_escape (56320 + (c - 65536) mod 1024) @ x)
        = u_escape (55296 + (d - 65536) div 1024 mod 1024) @ (u_escape (56320 + (d - 65536) mod 1024) @ y)"
      by (simp add: escape_char_long)
    from u_escape_append [OF e] b(1) [of c] b(1) [of d] have
      h: "(c - 65536) div 1024 mod 1024 = (d - 65536) div 1024 mod 1024"
      and e2: "u_escape (56320 + (c - 65536) mod 1024) @ x = u_escape (56320 + (d - 65536) mod 1024) @ y" by auto
    from u_escape_append [OF e2] b(2) [of c] b(2) [of d] have
      "(c - 65536) mod 1024 = (d - 65536) mod 1024" "x = y" by auto
    with surrogate_pair_inj [OF _ _ _ _ h] c d assms(1,2) show ?thesis by (simp add: scalar_def)
  qed
qed

lemma escape_char_inj:
  "scalar c \<Longrightarrow> scalar d \<Longrightarrow> escape_char c @ x = escape_char d @ y \<Longrightarrow> c = d \<and> x = y"
  using escape_char_short_inj [of c d x y] escape_char_long_inj [of c d x y] escape_char_short_long [of c d x y]
    escape_char_short_long [of d c y x]
  by (cases "short_escape c"; cases "short_escape d") simp_all

lemma escape_char_not_quote: "escape_char c @ x \<noteq> 34 # y"
  by (auto simp: escape_char_def u_escape_def)

lemma escaped_inj:
  "\<forall>c \<in> set s \<union> set t. scalar c \<Longrightarrow>
     concat (map escape_char s) @ 34 # x = concat (map escape_char t) @ 34 # y \<Longrightarrow> s = t \<and> x = y"
proof (induction s arbitrary: t)
  case Nil
  then show ?case using escape_char_not_quote [of "hd t"] by (cases t) (auto dest: sym)
next
  case (Cons c s)
  show ?case
  proof (cases t)
    case Nil
    with Cons.prems(2) escape_char_not_quote show ?thesis by simp
  next
    case t: (Cons d t')
    with Cons.prems(2) have "escape_char c @ (concat (map escape_char s) @ 34 # x)
        = escape_char d @ (concat (map escape_char t') @ 34 # y)" by simp
    from escape_char_inj [OF _ _ this] Cons.prems(1) t
    have "c = d" "concat (map escape_char s) @ 34 # x = concat (map escape_char t') @ 34 # y" by auto
    with Cons.IH [OF _ this(2)] Cons.prems(1) t show ?thesis by auto
  qed
qed

lemma json_string_inj:
  "\<forall>c \<in> set s \<union> set t. scalar c \<Longrightarrow> json_string s @ x = json_string t @ y \<Longrightarrow> s = t \<and> x = y"
  using escaped_inj [of s t x y] by (simp add: json_string_def)

section \<open>Values are self-delimiting\<close>

text \<open>
  \<open>norm\<close> sorts the keys of every object; the serialization of a value is that of its normal form, printed in
  the order it has. Numbers and the three literals end at the next delimiter, everything else is bracketed.
\<close>

fun norm :: "json \<Rightarrow> json" where
  "norm (JList vs) = JList (map norm vs)"
| "norm (JObj fs) = JObj (sort_key fst (map (\<lambda>(k, v). (k, norm v)) fs))"
| "norm v = v"

fun pr :: "json \<Rightarrow> pystr" where
  "pr (JList vs) = 91 # commas (map pr vs) @ [93]"
| "pr (JObj fs) = 123 # commas (map (\<lambda>(k, v). json_string k @ 58 # pr v) fs) @ [125]"
| "pr v = dumps v"

definition is_atom :: "json \<Rightarrow> bool" where
  "is_atom v \<longleftrightarrow> (case v of JStr _ \<Rightarrow> False | JList _ \<Rightarrow> False | JObj _ \<Rightarrow> False | _ \<Rightarrow> True)"

definition number_char :: "nat \<Rightarrow> bool" where
  "number_char c \<longleftrightarrow> 48 \<le> c \<and> c \<le> 57 \<or> c = 45 \<or> c = 43 \<or> c = 46 \<or> c = 101"

text \<open>What a finite float prints: a number with a point or an exponent, unlike every integer.\<close>

definition float_text :: "pystr \<Rightarrow> bool" where
  "float_text s \<longleftrightarrow> s \<in> {str ''nan'', str ''inf'', str ''-inf''}
     \<or> (s \<noteq> [] \<and> (\<forall>c \<in> set s. number_char c) \<and> (46 \<in> set s \<or> 101 \<in> set s))"

fun plain :: "pyfloat set \<Rightarrow> json \<Rightarrow> bool" where
  "plain F (JFloat f) \<longleftrightarrow> f \<in> F \<and> float_text (f_repr f)"
| "plain F (JStr s) \<longleftrightarrow> (\<forall>c \<in> set s. scalar c)"
| "plain F (JList vs) \<longleftrightarrow> (\<forall>v \<in> set vs. plain F v)"
| "plain F (JObj fs) \<longleftrightarrow> (\<forall>(k, v) \<in> set fs. (\<forall>c \<in> set k. scalar c) \<and> plain F v)"
| "plain F _ \<longleftrightarrow> True"

definition delim :: "nat \<Rightarrow> bool" where
  "delim c \<longleftrightarrow> c = 44 \<or> c = 93 \<or> c = 125"

definition stops :: "pystr \<Rightarrow> bool" where
  "stops r \<longleftrightarrow> r = [] \<or> delim (hd r)"

lemma atom_text_inj:
  assumes "\<forall>c \<in> set a. \<not> delim c" "\<forall>c \<in> set b. \<not> delim c" "stops r" "stops r'" "a @ r = b @ r'"
  shows "a = b \<and> r = r'"
proof -
  have t: "takeWhile (Not \<circ> delim) (u @ w) = u" if "\<forall>c \<in> set u. \<not> delim c" "stops w" for u w
    using that by (cases w) (auto simp: stops_def takeWhile_append2)
  have "a = takeWhile (Not \<circ> delim) (a @ r)" using t [OF assms(1,3)] by simp
  also have "\<dots> = b" using t [OF assms(2,4)] assms(5) by simp
  finally show ?thesis using assms(5) by simp
qed

lemma str_int_number: "c \<in> set (str_int n) \<Longrightarrow> 48 \<le> c \<and> c \<le> 57 \<or> c = 45"
  using digits_range by (auto simp: str_int_def split: if_splits)

lemma str_int_ne: "str_int n \<noteq> []"
  by (simp add: str_int_def digits_nonempty)

lemma json_float_text:
  assumes "float_text (f_repr f)"
  shows "json_float f \<in> {str ''NaN'', str ''Infinity'', str ''-Infinity''}
    \<or> (json_float f = f_repr f \<and> json_float f \<noteq> [] \<and> (\<forall>c \<in> set (json_float f). number_char c)
        \<and> (46 \<in> set (json_float f) \<or> 101 \<in> set (json_float f)))"
  using assms by (auto simp: float_text_def json_float_def)

lemma dumps_float_int:
  assumes "float_text (f_repr f)"
  shows "json_float f \<noteq> str_int n" and "json_float f \<noteq> str ''null''" and "json_float f \<noteq> str ''true''"
    and "json_float f \<noteq> str ''false''" and "\<forall>c \<in> set (json_float f). \<not> delim c" and "json_float f \<noteq> []"
    and "hd (json_float f) \<notin> {34, 91, 123}"
proof -
  have i: "46 \<notin> set (str_int n)" "101 \<notin> set (str_int n)" "78 \<notin> set (str_int n)" "73 \<notin> set (str_int n)"
    using str_int_number [of _ n] by fastforce+
  note t = json_float_text [OF assms]
  show "json_float f \<noteq> str_int n" using t i by (auto simp: str_def dest: arg_cong [of _ _ set])
  have u: "\<not> number_char 117" "\<not> number_char 97" by (simp_all add: number_char_def)
  show "json_float f \<noteq> str ''null''" using t u by (auto simp: str_def)
  show "json_float f \<noteq> str ''true''" using t u by (auto simp: str_def)
  show "json_float f \<noteq> str ''false''" using t u by (auto simp: str_def)
  show d: "\<forall>c \<in> set (json_float f). \<not> delim c"
    using t by (auto simp: str_def delim_def number_char_def)
  show ne: "json_float f \<noteq> []" using t by (auto simp: str_def)
  show "hd (json_float f) \<notin> {34, 91, 123}"
    using t hd_in_set [OF ne] by (auto simp: str_def number_char_def)
qed

lemma sort_key_map_snd:
  "sort_key fst (map (\<lambda>(k, v). (k, g v)) xs) = map (\<lambda>(k, v). (k, g v)) (sort_key fst xs)"
proof (induction xs)
  case (Cons x xs)
  have i: "insort_key fst (case x of (k, v) \<Rightarrow> (k, g v)) (map (\<lambda>(k, v). (k, g v)) ys)
      = map (\<lambda>(k, v). (k, g v)) (insort_key fst x ys)" for ys
    by (induction ys) (auto split: prod.splits)
  from Cons show ?case by (simp add: i)
qed simp

lemma dumps_norm: "dumps v = pr (norm v)"
proof (induction v rule: dumps.induct)
  case (6 vs)
  then show ?case by (simp cong: map_cong)
next
  case (7 fs)
  have "map (\<lambda>(k, v). (k, dumps v)) fs = map (\<lambda>(k, v). (k, pr (norm v))) fs"
    using 7 by (intro map_cong) auto
  also have "\<dots> = map (\<lambda>(k, v). (k, pr v)) (map (\<lambda>(k, v). (k, norm v)) fs)" by (simp add: case_prod_beta comp_def)
  finally have "sort_key fst (map (\<lambda>(k, v). (k, dumps v)) fs)
      = map (\<lambda>(k, v). (k, pr v)) (sort_key fst (map (\<lambda>(k, v). (k, norm v)) fs))" by (simp only: sort_key_map_snd)
  then show ?case by (simp add: case_prod_unfold comp_def)
qed simp_all

lemma commas_Cons: "xs \<noteq> [] \<Longrightarrow> commas (x # xs) = x @ 44 # commas xs"
  by (cases xs) simp_all

lemma commas_inj:
  assumes "\<And>x y r r'. x \<in> set xs \<Longrightarrow> y \<in> set ys \<Longrightarrow> stops r \<Longrightarrow> stops r' \<Longrightarrow> p x @ r = p y @ r' \<Longrightarrow> x = y \<and> r = r'"
    and "\<forall>x \<in> set xs \<union> set ys. p x \<noteq> [] \<and> hd (p x) \<noteq> c" and "delim c" "c \<noteq> 44"
    and "commas (map p xs) @ c # r = commas (map p ys) @ c # r'"
  shows "xs = ys \<and> r = r'"
  using assms(1,2,5)
proof (induction xs arbitrary: ys)
  case Nil
  have "ys = []"
  proof (rule ccontr)
    assume "ys \<noteq> []"
    then obtain y ys' where y: "ys = y # ys'" by (cases ys) auto
    then have "hd (commas (map p ys) @ c # r') = hd (p y)"
      using Nil.prems(2) by (cases ys') (auto simp: hd_append)
    with Nil.prems(3) have "hd (p y) = c" by (metis append_Nil commas.simps(1) list.sel(1) list.simps(8))
    with Nil.prems(2) y show False by simp
  qed
  with Nil show ?case by simp
next
  case (Cons x xs)
  let ?tail = "\<lambda>zs r. if zs = [] then c # r else 44 # commas (map p zs) @ c # r"
  have split: "commas (map p (z # zs)) @ c # r = p z @ ?tail zs r" for z zs r
    by (cases zs) simp_all
  have st: "stops (?tail zs r)" for zs r using assms(3) by (simp add: stops_def delim_def)
  show ?case
  proof (cases ys)
    case Nil
    have "hd (p x @ ?tail xs r) = c" using Cons.prems(3) by (simp only: split) (simp add: Nil)
    moreover have "hd (p x @ ?tail xs r) = hd (p x)" using Cons.prems(2) by (simp add: hd_append)
    ultimately show ?thesis using Cons.prems(2) by simp
  next
    case y: (Cons y ys')
    have e: "p x @ ?tail xs r = p y @ ?tail ys' r'" using Cons.prems(3) by (simp only: y split)
    have xy: "x = y" and t: "?tail xs r = ?tail ys' r'"
      using Cons.prems(1) [OF _ _ st st e] y by simp_all
    have "xs = ys' \<and> r = r'"
    proof (cases "xs = []"; cases "ys' = []")
      assume "xs \<noteq> []" "ys' \<noteq> []"
      with t have "commas (map p xs) @ c # r = commas (map p ys') @ c # r'" by simp
      moreover have "u = v \<and> s = s'" if "u \<in> set xs" "v \<in> set ys'" "stops s" "stops s'" "p u @ s = p v @ s'" for u v s s'
        using Cons.prems(1) [OF _ _ that(3-5)] that(1,2) y by (meson list.set_intros(2))
      moreover have "\<forall>x \<in> set xs \<union> set ys'. p x \<noteq> [] \<and> hd (p x) \<noteq> c" using Cons.prems(2) y by auto
      ultimately show ?thesis using Cons.IH [of ys'] by blast
    qed (use t assms(4) in simp_all)
    with xy y show ?thesis by simp
  qed
qed

lemma pr_atom: "is_atom v \<Longrightarrow> pr v = dumps v"
  by (cases v) (auto simp: is_atom_def)

lemma atom_chars:
  assumes "is_atom v" "plain F v"
  shows "\<forall>c \<in> set (pr v). \<not> delim c" and "pr v \<noteq> []" and "hd (pr v) \<notin> {34, 91, 123}"
proof -
  have "(\<forall>c \<in> set (pr v). \<not> delim c) \<and> pr v \<noteq> [] \<and> hd (pr v) \<notin> {34, 91, 123}"
  proof (cases v)
    case (JInt n)
    have "hd (str_int n) \<in> set (str_int n)" using str_int_ne by simp
    with JInt show ?thesis using str_int_number [of _ n] str_int_ne [of n] by (fastforce simp: delim_def)
  next
    case (JFloat f)
    with assms(2) show ?thesis using dumps_float_int(5-7) [of f] by simp
  qed (use assms(1) in \<open>auto simp: is_atom_def str_def delim_def\<close>)
  then show "\<forall>c \<in> set (pr v). \<not> delim c" and "pr v \<noteq> []" and "hd (pr v) \<notin> {34, 91, 123}" by simp_all
qed

lemma json_float_inj:
  assumes "float_text (f_repr f)" "float_text (f_repr g)" "json_float f = json_float g"
  shows "f_repr f = f_repr g"
proof -
  have "\<not> float_text (str ''NaN'')" "\<not> float_text (str ''Infinity'')" "\<not> float_text (str ''-Infinity'')"
    by (auto simp: float_text_def number_char_def str_def)
  with assms show ?thesis by (auto simp: json_float_def split: if_splits)
qed

lemma str_int_not_word: "str_int n \<noteq> str ''null''" "str_int n \<noteq> str ''true''" "str_int n \<noteq> str ''false''"
proof -
  have "108 \<notin> set (str_int n)" "116 \<notin> set (str_int n)" using str_int_number [of _ n] by fastforce+
  then show "str_int n \<noteq> str ''null''" "str_int n \<noteq> str ''true''" "str_int n \<noteq> str ''false''"
    by (auto simp: str_def)
qed

lemma atom_inj:
  assumes "is_atom v" "is_atom w" "plain F v" "plain F w" "inj_on f_repr F" "dumps v = dumps w"
  shows "v = w"
proof -
  note i = str_int_not_word str_int_not_word [symmetric] str_int_inj
  note f = dumps_float_int(1-4) dumps_float_int(1-4) [symmetric]
  show ?thesis
  proof (cases v)
    case (JFloat a)
    show ?thesis
    proof (cases w)
      case w: (JFloat b)
      with JFloat assms(3-6) json_float_inj [of a b] show ?thesis by (auto dest: inj_onD)
    qed (use assms JFloat f in \<open>auto simp: is_atom_def split: if_splits\<close>)
  next
    case (JInt n)
    then show ?thesis using assms i f by (cases w) (auto simp: is_atom_def split: if_splits)
  next
    case JNull
    then show ?thesis using assms i f by (cases w) (auto simp: is_atom_def split: if_splits)
  next
    case (JBool b)
    show ?thesis
    proof (cases w)
      case (JFloat g)
      with JBool assms(4,6) f(3,4) [of g] show ?thesis by (cases b) simp_all
    qed (use assms JBool i in \<open>auto simp: is_atom_def split: if_splits\<close>)
  qed (use assms(1) in \<open>auto simp: is_atom_def\<close>)
qed

lemma pr_head:
  assumes "plain F v"
  shows "pr v \<noteq> [] \<and> hd (pr v) \<noteq> 93 \<and> hd (pr v) \<noteq> 125"
proof (cases "is_atom v")
  case True
  have "hd (pr v) \<in> set (pr v)" using atom_chars(2) [OF True assms] by simp
  with atom_chars(1,2) [OF True assms] show ?thesis by (auto simp: delim_def)
next
  case False
  then show ?thesis by (cases v) (auto simp: is_atom_def json_string_def)
qed

definition self_delimiting :: "pyfloat set \<Rightarrow> json \<Rightarrow> bool" where
  "self_delimiting F v \<longleftrightarrow>
     (\<forall>w r r'. plain F w \<longrightarrow> stops r \<longrightarrow> stops r' \<longrightarrow> pr v @ r = pr w @ r' \<longrightarrow> v = w \<and> r = r')"

lemma bracket_head:
  assumes "\<not> is_atom v" "plain F w" "pr v @ r = pr w @ r'"
  shows "\<not> is_atom w"
proof
  assume a: "is_atom w"
  have "hd (pr v @ r) = hd (pr w)" using assms(3) atom_chars(2) [OF a assms(2)] by (simp add: hd_append)
  moreover have "hd (pr v @ r) \<in> {34, 91, 123}"
    using assms(1) by (cases v) (auto simp: is_atom_def json_string_def)
  ultimately show False using atom_chars(3) [OF a assms(2)] by simp
qed

lemma self_delimiting_atom:
  assumes "inj_on f_repr F" "is_atom v" "plain F v"
  shows "self_delimiting F v"
  unfolding self_delimiting_def
proof (intro allI impI)
  fix w r r' assume w: "plain F w" "stops r" "stops r'" "pr v @ r = pr w @ r'"
  have a: "is_atom w" using bracket_head [of w F v r' r] assms(2,3) w(4) by metis
  have "pr v = pr w \<and> r = r'"
    using atom_text_inj [OF atom_chars(1) [OF assms(2,3)] atom_chars(1) [OF a w(1)] w(2-4)] .
  then show "v = w \<and> r = r'"
    using atom_inj [OF assms(2) a assms(3) w(1) assms(1)] pr_atom [OF a] pr_atom [OF assms(2)] by simp
qed

lemma self_delimiting_JStr: "plain F (JStr s) \<Longrightarrow> self_delimiting F (JStr s)"
  unfolding self_delimiting_def
proof (intro allI impI)
  fix w r r' assume s: "plain F (JStr s)" and w: "plain F w" "stops r" "stops r'" "pr (JStr s) @ r = pr w @ r'"
  have "\<not> is_atom w" using bracket_head [OF _ w(1,4)] by (simp add: is_atom_def)
  then obtain t where "w = JStr t" using w(4) by (cases w) (auto simp: is_atom_def json_string_def)
  with s w show "JStr s = w \<and> r = r'" using json_string_inj [of s t r r'] by auto
qed

lemma self_delimiting_JList:
  assumes "plain F (JList vs)" "\<And>v. v \<in> set vs \<Longrightarrow> self_delimiting F v"
  shows "self_delimiting F (JList vs)"
  unfolding self_delimiting_def
proof (intro allI impI)
  fix w r r' assume w: "plain F w" "stops r" "stops r'" "pr (JList vs) @ r = pr w @ r'"
  have "\<not> is_atom w" using bracket_head [OF _ w(1,4)] by (simp add: is_atom_def)
  then obtain us where u: "w = JList us" using w(4) by (cases w) (auto simp: is_atom_def json_string_def)
  have e: "commas (map pr vs) @ 93 # r = commas (map pr us) @ 93 # r'" using w(4) by (simp add: u)
  have "vs = us \<and> r = r'"
  proof (rule commas_inj [OF _ _ _ _ e])
    show "x = y \<and> s = s'" if "x \<in> set vs" "y \<in> set us" "stops s" "stops s'" "pr x @ s = pr y @ s'" for x y s s'
      using assms(2) [OF that(1)] that(2-5) w(1) by (auto simp: self_delimiting_def u)
    show "\<forall>x \<in> set vs \<union> set us. pr x \<noteq> [] \<and> hd (pr x) \<noteq> 93"
      using pr_head [of F] assms(1) w(1) by (auto simp: u)
  qed (simp_all add: delim_def)
  with u show "JList vs = w \<and> r = r'" by simp
qed

lemma self_delimiting_JObj:
  assumes "plain F (JObj fs)" "\<And>k v. (k, v) \<in> set fs \<Longrightarrow> self_delimiting F v"
  shows "self_delimiting F (JObj fs)"
  unfolding self_delimiting_def
proof (intro allI impI)
  fix w r r' assume w: "plain F w" "stops r" "stops r'" "pr (JObj fs) @ r = pr w @ r'"
  have "\<not> is_atom w" using bracket_head [OF _ w(1,4)] by (simp add: is_atom_def)
  then obtain gs where g: "w = JObj gs" using w(4) by (cases w) (auto simp: is_atom_def json_string_def)
  let ?p = "\<lambda>(k, v). json_string k @ 58 # pr v"
  have e: "commas (map ?p fs) @ 125 # r = commas (map ?p gs) @ 125 # r'" using w(4) by (simp add: g)
  have "fs = gs \<and> r = r'"
  proof (rule commas_inj [OF _ _ _ _ e])
    fix x y s s'
    assume that: "x \<in> set fs" "y \<in> set gs" "stops s" "stops s'" "?p x @ s = ?p y @ s'"
    obtain k v l u where x: "x = (k, v)" "y = (l, u)" by (metis surj_pair)
    have "json_string k @ (58 # pr v @ s) = json_string l @ (58 # pr u @ s')" using that(5) by (simp add: x)
    moreover have "\<forall>c \<in> set k \<union> set l. scalar c" using assms(1) w(1) that(1,2) by (auto simp: x g)
    ultimately have "k = l" "pr v @ s = pr u @ s'" using json_string_inj by blast+
    moreover have "plain F u" using w(1) that(2) by (auto simp: x g)
    ultimately show "x = y \<and> s = s'"
      using assms(2) [of k v] that(1,3,4) by (auto simp: self_delimiting_def x)
  next
    show "\<forall>x \<in> set fs \<union> set gs. ?p x \<noteq> [] \<and> hd (?p x) \<noteq> 125" by (auto simp: json_string_def)
  qed (simp_all add: delim_def)
  with g show "JObj fs = w \<and> r = r'" by simp
qed

lemma plain_self_delimiting: "inj_on f_repr F \<Longrightarrow> plain F v \<Longrightarrow> self_delimiting F v"
proof (induction v)
  case (JList vs)
  then show ?case by (intro self_delimiting_JList) auto
next
  case (JObj fs)
  then show ?case by (intro self_delimiting_JObj) (auto simp: snds.simps)
qed (auto intro!: self_delimiting_atom self_delimiting_JStr simp: is_atom_def)

lemma plain_norm: "plain F v \<Longrightarrow> plain F (norm v)"
proof (induction v rule: norm.induct)
  case (2 fs)
  then show ?case by fastforce
qed auto

lemma norm_dumps_inj:
  assumes "inj_on f_repr F" "plain F v" "plain F w" "dumps v = dumps w"
  shows "norm v = norm w"
  using plain_self_delimiting [OF assms(1) plain_norm [OF assms(2)]] plain_norm [OF assms(3)] assms(4)
  by (auto simp: self_delimiting_def dumps_norm stops_def)

lemma escape_char_ascii: "x \<in> set (escape_char c) \<Longrightarrow> x < 128"
proof -
  have h: "hexdigit (n mod 16) < 128" for n :: nat
    using mod_less_divisor [of 16 n] by (simp add: hexdigit_def) linarith
  have u: "y < 128" if "y \<in> set (u_escape n)" for y n using that h by (auto simp: u_escape_def)
  assume "x \<in> set (escape_char c)"
  then show ?thesis
    using u [of x] by (cases "short_escape c") (auto simp: escape_char_long escape_char_def short_escape_def split: if_splits)
qed

lemma json_string_ascii: "x \<in> set (json_string s) \<Longrightarrow> x < 128"
  using escape_char_ascii by (auto simp: json_string_def)

lemma set_commas: "x \<in> set (commas ys) \<Longrightarrow> x = 44 \<or> (\<exists>y \<in> set ys. x \<in> set y)"
  by (induction ys rule: commas.induct) auto

lemma dumps_ascii: "plain F v \<Longrightarrow> x \<in> set (dumps v) \<Longrightarrow> x < 128"
proof (induction v arbitrary: x rule: dumps.induct)
  case (3 n)
  then show ?case using str_int_ascii by simp
next
  case (4 f)
  then show ?case using json_float_text [of f] by (auto simp: str_def number_char_def)
next
  case (5 s)
  then show ?case using json_string_ascii by simp
next
  case (6 vs)
  then show ?case using set_commas [of x "map dumps vs"] by auto
next
  case (7 fs)
  let ?ts = "map (\<lambda>(k, t). json_string k @ 58 # t) (sort_key fst (map (\<lambda>(k, v). (k, dumps v)) fs))"
  have "y < 128" if t: "t \<in> set ?ts" "y \<in> set t" for t y
  proof -
    obtain k v where kv: "(k, v) \<in> set fs" "t = json_string k @ 58 # dumps v" using t(1) by auto
    have "plain F v" using "7.prems"(1) kv(1) by auto
    with kv t(2) "7.IH" [OF kv(1) refl] json_string_ascii show ?thesis
      by (cases "y \<in> set (dumps v)") auto
  qed
  moreover have "x = 123 \<or> x = 125 \<or> x \<in> set (commas ?ts)" using "7.prems"(2) by auto
  ultimately show ?case using set_commas [of x ?ts] by fastforce
qed (auto simp: str_def split: if_splits)

section \<open>What redaction leaves\<close>







lemma canonical_json_total: "plain F (JObj x) \<Longrightarrow> \<exists>b. canonical_json x = Inr b"
  using dumps_ascii [of F "JObj x"] unfolding canonical_json_def ascii_encode_def by metis

section \<open>Properties\<close>

text \<open>C26. The canonical bytes of a payload determine it up to the order of its keys, and are always defined: two payloads
  whose strings are Unicode text (no lone surrogates) and whose floats print differently when they differ serialize to
  the same bytes exactly when they are the same value with keys sorted.\<close>

theorem canonical_json_injective:
  assumes "inj_on f_repr F" "plain F (JObj p)" "plain F (JObj q)"
  shows "(\<exists>b. canonical_json p = Inr b) \<and> (canonical_json p = canonical_json q \<longleftrightarrow> norm (JObj p) = norm (JObj q))"
proof -
  note e = canonical_json_total [of F]
  have "dumps (JObj p) = dumps (JObj q)" if "canonical_json p = canonical_json q"
    using e [OF assms(2)] that ascii_encode_inj unfolding canonical_json_def by metis
  then have "canonical_json p = canonical_json q \<longleftrightarrow> norm (JObj p) = norm (JObj q)"
    using norm_dumps_inj [OF assms] unfolding canonical_json_def by (metis dumps_norm)
  with e [OF assms(2)] show ?thesis by blast
qed

theorem canonical_json_injective_witness:
  "canonical_json [(str ''b'', JInt 1), (str ''a'', JStr [233])] = canonical_json [(str ''a'', JStr [233]), (str ''b'', JInt 1)]"
proof -
  have "norm (JObj [(str ''b'', JInt 1), (str ''a'', JStr [233])]) = norm (JObj [(str ''a'', JStr [233]), (str ''b'', JInt 1)])"
    by (simp add: str_def)
  moreover have "plain {} (JObj [(str ''b'', JInt 1), (str ''a'', JStr [233])])"
    "plain {} (JObj [(str ''a'', JStr [233]), (str ''b'', JInt 1)])"
    by (simp_all add: str_def scalar_def)
  ultimately show ?thesis using canonical_json_injective [of "{}"] by simp
qed



end
