(* ===== verification/AuditLog.thy ===== *)
theory AuditLog
  imports Anchors Payload Backend
begin

text \<open>
  The facade (\<^verbatim>\<open>log/facade.py\<close>) with its sink wrapping (\<^verbatim>\<open>log/_anchoring.py\<close>) and drop recorder
  (\<^verbatim>\<open>adapters/drops.py\<close>): one record for what a log is opened with, one for what it keeps, and every method as a
  function from the state to its result and the next state. Methods run under the append lock, so a run is a sequence of
  calls. The backend is a record of operations; what the facade relies on is the locale \<open>log_backend\<close>,
  interpreted at the in-memory and the JSONL backend. A log started on an empty trail keeps the chain verified, the
  incremental tree equal to the trail's, and the drop count equal to the number of calls that stored nothing.
\<close>

section \<open>Drop recorder\<close>

record drop_recorder =
  dr_lines :: "json res list option"
  dr_source :: pystr

text \<open>
  One call of \<open>record\<close>: \<open>disk\<close> tells whether the write succeeds; a failure is swallowed.
\<close>

definition drop_record :: "bool \<Rightarrow> pystr \<Rightarrow> drop_recorder \<Rightarrow> pystr \<Rightarrow> pystr option \<Rightarrow> pystr option \<Rightarrow> drop_recorder" where
  "drop_record disk stamp d rsn ptype src =
     (if \<not> disk then d
      else d\<lparr>dr_lines := Some ((case dr_lines d of None \<Rightarrow> [] | Some ls \<Rightarrow> ls) @
             [Inr (JObj [(str ''payload_type'', json_opt_str ptype), (str ''reason'', JStr rsn),
                         (str ''source'', JStr (case src of None \<Rightarrow> dr_source d | Some s \<Rightarrow> s)),
                         (str ''ts'', JStr stamp), (str ''v'', JInt 1)])])\<rparr>)"

definition drop_count :: "drop_recorder \<Rightarrow> nat" where
  "drop_count d = (case dr_lines d of None \<Rightarrow> 0 | Some ls \<Rightarrow> length ls)"

definition read_drop_count :: "json res list option \<Rightarrow> nat option" where
  "read_drop_count file = map_option length file"

text \<open>\<^verbatim>\<open>type(e).__name__\<close>\<close>

fun exn_name :: "exn \<Rightarrow> pystr" where
  "exn_name ValueError = str ''ValueError''" | "exn_name LpEncodingError = str ''LpEncodingError''"
| "exn_name UnicodeEncodeError = str ''UnicodeEncodeError''" | "exn_name UnicodeDecodeError = str ''UnicodeDecodeError''"
| "exn_name JSONDecodeError = str ''JSONDecodeError''" | "exn_name TypeError = str ''TypeError''"
| "exn_name KeyError = str ''KeyError''" | "exn_name IndexError = str ''IndexError''"
| "exn_name StructError = str ''error''" | "exn_name RuntimeError = str ''RuntimeError''"
| "exn_name AttestationFailure = str ''AttestationFailure''" | "exn_name OverflowError = str ''OverflowError''"
| "exn_name AbiError = str ''AbiError''" | "exn_name PinMalformed = str ''PinMalformed''"
| "exn_name PinVersionUnknown = str ''PinVersionUnknown''" | "exn_name OSError = str ''OSError''"
| "exn_name AssertionError = str ''AssertionError''" | "exn_name InvalidIdentifier = str ''InvalidIdentifier''"
| "exn_name MalformedEnvelope = str ''MalformedEnvelope''" | "exn_name PreconditionFailed = str ''PreconditionFailed''"
| "exn_name DamagedReceiptLog = str ''DamagedReceiptLog''" | "exn_name RemoteError = str ''RemoteError''"
| "exn_name ClientError = str ''ClientError''" | "exn_name IntegrityError = str ''IntegrityError''"
| "exn_name DerError = str ''DerError''"

section \<open>Configuration and state\<close>

type_synonym external = "pystr \<times> (checkpoint \<Rightarrow> sink_result res)"

datatype sink = FileSink | RecordingSink external | MultiSink "external list" | ExternalSink external

datatype log_payload = PDict jobj | PBytes bytes | POther

text \<open>
  A backend is what its readers and its writer do: \<open>op_rows\<close> gives each stored row as what reading it returns or
  raises, \<open>op_hashes\<close> the optional \<open>entry_hashes\<close> method.
\<close>

record 'b ops =
  op_append :: "'b \<Rightarrow> builder \<Rightarrow> entry res \<times> 'b"
  op_rows :: "'b \<Rightarrow> entry res list"
  op_hashes :: "('b \<Rightarrow> pystr list res) option"

record 'b config =
  cf_ops :: "'b ops"
  cf_redactor :: "(jobj \<Rightarrow> jobj res) option"
  cf_registry :: version_registry
  cf_attestor :: "attest_mode option"
  cf_source :: "attest_files option"
  cf_sink :: "sink option"
  cf_anchor_every :: "int option"
  cf_has_path :: bool

record 'b log =
  lg_backend :: 'b
  lg_files :: attest_files
  lg_anchors :: "json res list"
  lg_drops :: "drop_recorder option"
  lg_merkle :: incremental_merkle
  lg_dropped :: nat
  lg_attest_failures :: nat
  lg_anchor_failures :: nat

text \<open>What the surroundings supply to one call: the clocks, and whether the drop sidecar can be written.\<close>

record environment =
  en_now :: pystr
  en_anchor_now :: pystr
  en_drop_now :: pystr
  en_disk :: bool

definition maybe_record_anchor_sink :: "sink option \<Rightarrow> bool \<Rightarrow> sink option" where
  "maybe_record_anchor_sink s has_path =
     (case s of
        None \<Rightarrow> None
      | Some k \<Rightarrow> if \<not> has_path then Some k
                  else Some (case k of ExternalSink x \<Rightarrow> RecordingSink x | _ \<Rightarrow> k))"

definition new_log ::
  "'b ops \<Rightarrow> 'b \<Rightarrow> (jobj \<Rightarrow> jobj res) option \<Rightarrow> version_registry \<Rightarrow> attest_mode option \<Rightarrow> attest_files
    \<Rightarrow> attest_files option \<Rightarrow> sink option \<Rightarrow> int option \<Rightarrow> drop_recorder option \<Rightarrow> bool \<Rightarrow> json res list
    \<Rightarrow> ('b config \<times> 'b log) res" where
  "new_log ops b redactor reg attestor files source s every recorder has_path anchors =
     (if (case every of None \<Rightarrow> False | Some n \<Rightarrow> n < 1) then Inl ValueError
      else Inr (\<lparr>cf_ops = ops, cf_redactor = redactor, cf_registry = reg, cf_attestor = attestor, cf_source = source,
                 cf_sink = maybe_record_anchor_sink s has_path, cf_anchor_every = every, cf_has_path = has_path\<rparr>,
                \<lparr>lg_backend = b, lg_files = files, lg_anchors = anchors, lg_drops = recorder, lg_merkle = new_merkle,
                 lg_dropped = 0, lg_attest_failures = 0, lg_anchor_failures = 0\<rparr>))"

text \<open>\<open>with_anchor_sink\<close>: a view of the same trail with its own sink, tree and counters.\<close>

definition with_anchor_sink ::
  "'b config \<Rightarrow> 'b log \<Rightarrow> sink \<Rightarrow> int option \<Rightarrow> attest_files option \<Rightarrow> ('b config \<times> 'b log) res" where
  "with_anchor_sink cfg lg s every source =
     new_log (cf_ops cfg) (lg_backend lg) (cf_redactor cfg) (cf_registry cfg) (cf_attestor cfg) (lg_files lg)
       (case source of None \<Rightarrow> cf_source cfg | Some f \<Rightarrow> Some f) (Some s) every (lg_drops lg) (cf_has_path cfg) (lg_anchors lg)"

section \<open>Methods\<close>

definition REJECTED_PAYLOAD_TYPES :: "pystr list" where
  "REJECTED_PAYLOAD_TYPES = [str ''application/json'', str ''text/json'']"

definition canonical_payload :: "'b config \<Rightarrow> log_payload \<Rightarrow> bytes res" where
  "canonical_payload cfg p =
     (case p of
        PBytes b \<Rightarrow> if cf_redactor cfg \<noteq> None then Inl ValueError else Inr b
      | PDict d \<Rightarrow> res_bind (case cf_redactor cfg of None \<Rightarrow> Inr d | Some rd \<Rightarrow> rd d) canonical_json
      | POther \<Rightarrow> Inl TypeError)"

definition build_entry :: "(bytes \<Rightarrow> bytes) \<Rightarrow> pystr \<Rightarrow> pystr \<Rightarrow> bytes \<Rightarrow> builder" where
  "build_entry sha stamp ptype pb n prev =
     res_bind (fingerprint sha) (\<lambda>fp.
       let h = \<lparr>seq = n, ts = stamp, hash_version = fp, payload_type = ptype,
                payload_hash = compute_payload_hash sha pb, prev_hash = prev\<rparr>
       in res_map (\<lambda>eh. \<lparr>header = h, entry_hash = eh, payload = Some pb\<rparr>) (compute_entry_hash sha header_frame h))"

definition log_entries :: "'b config \<Rightarrow> 'b log \<Rightarrow> entry list res" where
  "log_entries cfg lg = res_mapM (\<lambda>r. r) (op_rows (cf_ops cfg) (lg_backend lg))"

definition entry_hashes :: "'b config \<Rightarrow> 'b log \<Rightarrow> pystr list res" where
  "entry_hashes cfg lg =
     (case op_hashes (cf_ops cfg) of
        Some reader \<Rightarrow> reader (lg_backend lg)
      | None \<Rightarrow> res_map (map entry_hash) (log_entries cfg lg))"

definition note_appended :: "(bytes \<Rightarrow> bytes) \<Rightarrow> 'b config \<Rightarrow> 'b log \<Rightarrow> entry \<Rightarrow> unit res \<times> 'b log" where
  "note_appended sha cfg lg e =
     (case (if int (im_size (lg_merkle lg)) = seq (header e) then push sha (lg_merkle lg) (entry_hash e)
            else res_bind (entry_hashes cfg lg) (from_hashes sha)) of
        Inl x \<Rightarrow> (Inl x, lg)
      | Inr t \<Rightarrow> (Inr (), lg\<lparr>lg_merkle := t\<rparr>))"

definition merkle_root_for ::
  "(bytes \<Rightarrow> bytes) \<Rightarrow> incremental_merkle \<Rightarrow> pystr list \<Rightarrow> pystr res \<times> incremental_merkle" where
  "merkle_root_for sha t hs =
     (if im_size t = length hs then
        if hs \<noteq> [] \<and> last_leaf t \<noteq> Some (last hs) then
          (case from_hashes sha hs of Inl x \<Rightarrow> (Inl x, t) | Inr u \<Rightarrow> (Inr (im_root sha u), u))
        else (Inr (im_root sha t), t)
      else (case from_hashes sha hs of
              Inl x \<Rightarrow> (Inl x, t)
            | Inr u \<Rightarrow> (Inr (im_root sha u), if im_size t = 0 then u else t)))"

definition publish ::
  "sink \<Rightarrow> pystr \<Rightarrow> json res list \<Rightarrow> checkpoint \<Rightarrow> unit res \<times> json res list" where
  "publish s stamp lines cp =
     (case s of
        FileSink \<Rightarrow> (Inr (), file_anchor lines stamp cp)
      | RecordingSink (name, ext) \<Rightarrow>
          (case recording_anchor name ext stamp lines cp of (r, lines') \<Rightarrow> (res_map (\<lambda>_. ()) r, lines'))
      | MultiSink ss \<Rightarrow> (case multi_anchor ss stamp lines cp of (r, _, lines') \<Rightarrow> (r, lines'))
      | ExternalSink (name, ext) \<Rightarrow> (res_map (\<lambda>_. ()) (ext cp), lines))"

definition aggregate_source :: "'b config \<Rightarrow> 'b log \<Rightarrow> attest_files option" where
  "aggregate_source cfg lg =
     (case cf_source cfg of
        Some f \<Rightarrow> Some f
      | None \<Rightarrow> if cf_attestor cfg = None then None else Some (lg_files lg))"

definition anchor :: "(bytes \<Rightarrow> bytes) \<Rightarrow> 'b config \<Rightarrow> environment \<Rightarrow> 'b log \<Rightarrow> checkpoint res \<times> 'b log" where
  "anchor sha cfg env lg =
     (case cf_sink cfg of
        None \<Rightarrow> (Inl ValueError, lg)
      | Some s \<Rightarrow>
          (case entry_hashes cfg lg of
             Inl x \<Rightarrow> (Inl x, lg)
           | Inr hs \<Rightarrow>
               if hs = [] then (Inl ValueError, lg)
               else (case aggregate_binding sha (aggregate_source cfg lg) of
                       Inl x \<Rightarrow> (Inl x, lg)
                     | Inr (c, ep) \<Rightarrow>
                         (case merkle_root_for sha (lg_merkle lg) hs of
                            (Inl x, t) \<Rightarrow> (Inl x, lg\<lparr>lg_merkle := t\<rparr>)
                          | (Inr root, t) \<Rightarrow>
                              (case checkpoint_for sha hs c ep (Some root) of
                                 Inl x \<Rightarrow> (Inl x, lg\<lparr>lg_merkle := t\<rparr>)
                               | Inr cp \<Rightarrow>
                                   (case publish s (en_anchor_now env) (lg_anchors lg) cp of
                                      (r, lines') \<Rightarrow> (res_map (\<lambda>_. cp) r, lg\<lparr>lg_anchors := lines', lg_merkle := t\<rparr>)))))))"

definition attest_entry :: "(bytes \<Rightarrow> bytes) \<Rightarrow> 'b config \<Rightarrow> 'b log \<Rightarrow> entry \<Rightarrow> unit res \<times> 'b log" where
  "attest_entry sha cfg lg e =
     (case cf_attestor cfg of
        None \<Rightarrow> (Inr (), lg)
      | Some mode \<Rightarrow>
          (case attest sha mode (lg_files lg) (seq (header e)) (entry_hash e) of
             (Inl x, files) \<Rightarrow> (Inl AttestationFailure, lg\<lparr>lg_files := files\<rparr>)
           | (Inr _, files) \<Rightarrow> (Inr (), lg\<lparr>lg_files := files\<rparr>)))"

definition auto_anchor :: "(bytes \<Rightarrow> bytes) \<Rightarrow> 'b config \<Rightarrow> environment \<Rightarrow> 'b log \<Rightarrow> entry \<Rightarrow> 'b log" where
  "auto_anchor sha cfg env lg e =
     (if cf_sink cfg \<noteq> None
         \<and> (case cf_anchor_every cfg of None \<Rightarrow> False | Some n \<Rightarrow> (seq (header e) + 1) mod n = 0)
      then (case anchor sha cfg env lg of
              (Inl _, lg') \<Rightarrow> lg'\<lparr>lg_anchor_failures := lg_anchor_failures lg' + 1\<rparr>
            | (Inr _, lg') \<Rightarrow> lg')
      else lg)"

definition log_append ::
  "(bytes \<Rightarrow> bytes) \<Rightarrow> 'b config \<Rightarrow> environment \<Rightarrow> 'b log \<Rightarrow> log_payload \<Rightarrow> pystr \<Rightarrow> entry res \<times> 'b log" where
  "log_append sha cfg env lg p ptype =
     (if ptype \<in> set REJECTED_PAYLOAD_TYPES then (Inl ValueError, lg)
      else (case canonical_payload cfg p of
              Inl x \<Rightarrow> (Inl x, lg)
            | Inr pb \<Rightarrow>
                (case op_append (cf_ops cfg) (lg_backend lg) (build_entry sha (en_now env) ptype pb) of
                   (Inl x, b') \<Rightarrow> (Inl x, lg\<lparr>lg_backend := b'\<rparr>)
                 | (Inr e, b') \<Rightarrow>
                     (case note_appended sha cfg (lg\<lparr>lg_backend := b'\<rparr>) e of
                        (Inl x, lg1) \<Rightarrow> (Inl x, lg1)
                      | (Inr _, lg1) \<Rightarrow>
                          (case attest_entry sha cfg lg1 e of
                             (Inl x, lg2) \<Rightarrow> (Inl x, lg2)
                           | (Inr _, lg2) \<Rightarrow> (Inr e, auto_anchor sha cfg env lg2 e))))))"

definition try_append ::
  "(bytes \<Rightarrow> bytes) \<Rightarrow> 'b config \<Rightarrow> environment \<Rightarrow> 'b log \<Rightarrow> log_payload \<Rightarrow> pystr \<Rightarrow> bool \<times> 'b log" where
  "try_append sha cfg env lg p ptype =
     (case log_append sha cfg env lg p ptype of
        (Inr _, lg') \<Rightarrow> (True, lg')
      | (Inl x, lg') \<Rightarrow>
          if x = AttestationFailure then (True, lg'\<lparr>lg_attest_failures := lg_attest_failures lg' + 1\<rparr>)
          else (False, lg'\<lparr>lg_dropped := lg_dropped lg' + 1,
                          lg_drops := map_option (\<lambda>d. drop_record (en_disk env) (en_drop_now env) d (exn_name x) (Some ptype) None)
                                        (lg_drops lg')\<rparr>))"

text \<open>
  \<open>verify\<close> reads the rows one at a time, so a break found before an unreadable row is reported and the unreadable row
  raises only when the pass reaches it.
\<close>

fun stream :: "'a res list \<Rightarrow> 'a list \<times> exn option" where
  "stream [] = ([], None)"
| "stream (r # rs) = (case r of Inl x \<Rightarrow> ([], Some x) | Inr e \<Rightarrow> (case stream rs of (es, x) \<Rightarrow> (e # es, x)))"

definition verify_rows :: "(bytes \<Rightarrow> bytes) \<Rightarrow> version_registry \<Rightarrow> entry res list \<Rightarrow> verify_result res" where
  "verify_rows sha reg rows =
     (case stream rows of (es, err) \<Rightarrow>
        res_bind (verify_chain sha reg es) (\<lambda>r.
          if \<not> vr_ok r then Inr r else (case err of None \<Rightarrow> Inr r | Some x \<Rightarrow> Inl x)))"

definition log_verify :: "(bytes \<Rightarrow> bytes) \<Rightarrow> 'b config \<Rightarrow> 'b log \<Rightarrow> bool \<Rightarrow> verify_result res" where
  "log_verify sha cfg lg measure_drops =
     res_map (\<lambda>r. if \<not> measure_drops then r
                  else (case lg_drops lg of
                          Some d \<Rightarrow> r\<lparr>dropped_writes := Some (drop_count d), drops_source := Some ''sidecar''\<rparr>
                        | None \<Rightarrow> r\<lparr>dropped_writes := Some (lg_dropped lg), drops_source := Some ''process''\<rparr>))
       (verify_rows sha (cf_registry cfg) (op_rows (cf_ops cfg) (lg_backend lg)))"

definition verify_and_entries :: "(bytes \<Rightarrow> bytes) \<Rightarrow> 'b config \<Rightarrow> 'b log \<Rightarrow> (verify_result \<times> entry list) res" where
  "verify_and_entries sha cfg lg =
     res_bind (log_entries cfg lg) (\<lambda>es. res_map (\<lambda>r. (r, es)) (verify_chain sha (cf_registry cfg) es))"

definition verify_attestations ::
  "(bytes \<Rightarrow> bytes) \<Rightarrow> 'b config \<Rightarrow> 'b log \<Rightarrow> bytes option \<Rightarrow> (pystr \<times> (bytes \<Rightarrow> bytes \<Rightarrow> bool)) option
    \<Rightarrow> attest_result res" where
  "verify_attestations sha cfg lg initial_key verifier =
     (case cf_attestor cfg of
        None \<Rightarrow> Inl ValueError
      | Some mode \<Rightarrow> verify_sidecar sha mode (lg_files lg) (log_entries cfg lg) (cf_registry cfg) initial_key verifier)"

definition log_verify_anchored :: "(bytes \<Rightarrow> bytes) \<Rightarrow> runtime \<Rightarrow> 'b config \<Rightarrow> 'b log \<Rightarrow> bytes \<Rightarrow> attest_result res" where
  "log_verify_anchored sha rt cfg lg initial_key =
     (case cf_attestor cfg of
        None \<Rightarrow> Inl ValueError
      | Some mode \<Rightarrow> verify_anchored_aggregates sha rt (lg_files lg) (aggregate_source cfg lg) (lg_anchors lg) initial_key)"

section \<open>What the facade relies on\<close>

locale log_backend =
  backend "op_append ops" "\<lambda>b. res_mapM (\<lambda>r. r) (op_rows ops b)" whole
  for ops :: "'b ops" and whole :: "'b \<Rightarrow> bool" +
  assumes hashes:
    "op_hashes ops = Some reader \<Longrightarrow> res_mapM (\<lambda>r. r) (op_rows ops b) = Inr es \<Longrightarrow> reader b = Inr (map entry_hash es)"

definition memory_ops :: "entry list ops" where
  "memory_ops = \<lparr>op_append = memory_append, op_rows = map Inr, op_hashes = None\<rparr>"

definition jsonl_ops :: "runtime \<Rightarrow> jsonl ops" where
  "jsonl_ops rt = \<lparr>op_append = jsonl_append rt, op_rows = (\<lambda>b. map (\<lambda>l. res_bind l (from_obj rt)) (jl_lines b)),
                   op_hashes = Some (jsonl_entry_hashes rt)\<rparr>"

lemma res_mapM_map: "res_mapM (\<lambda>r. r) (map f xs) = res_mapM f xs"
  by (induction xs) simp_all

lemma memory_ops_eq: "op_append memory_ops = memory_append" "(\<lambda>b. res_mapM (\<lambda>r. r) (op_rows memory_ops b)) = memory_entries"
  by (auto simp: memory_ops_def memory_entries_def)

lemma jsonl_ops_eq:
  "op_append (jsonl_ops rt) = jsonl_append rt" "(\<lambda>b. res_mapM (\<lambda>r. r) (op_rows (jsonl_ops rt) b)) = jsonl_entries rt"
  by (auto simp: jsonl_ops_def jsonl_entries_def res_mapM_map)

lemma res_mapM_through:
  assumes "\<And>x y. f x = Inr y \<Longrightarrow> g x = Inr (h y)" "res_mapM f xs = Inr ys"
  shows "res_mapM g xs = Inr (map h ys)"
  using assms(2) by (induction xs arbitrary: ys) (auto simp: res_elims assms(1))

lemma jsonl_hashes_of_entries:
  assumes "jsonl_entries rt b = Inr es"
  shows "jsonl_entry_hashes rt b = Inr (map entry_hash es)"
  unfolding jsonl_entry_hashes_def
  by (rule res_mapM_through [OF _ assms [unfolded jsonl_entries_def]]) (auto simp: from_obj_def res_elims)

interpretation memory_log: log_backend memory_ops "\<lambda>_. True"
  unfolding log_backend_def log_backend_axioms_def memory_ops_eq
  using memory.backend_axioms by (simp add: memory_ops_def)

interpretation jsonl_log: log_backend "jsonl_ops rt" terminated for rt
proof (intro log_backend.intro log_backend_axioms.intro)
  show "backend (op_append (jsonl_ops rt)) (\<lambda>b. res_mapM (\<lambda>r. r) (op_rows (jsonl_ops rt) b)) terminated"
    unfolding jsonl_ops_eq by (rule jsonl.backend_axioms)
  fix reader b es
  assume "op_hashes (jsonl_ops rt) = Some reader" "res_mapM (\<lambda>r. r) (op_rows (jsonl_ops rt) b) = Inr es"
  then show "reader b = Inr (map entry_hash es)"
    using jsonl_hashes_of_entries [of rt b es] by (simp add: jsonl_ops_def jsonl_entries_def res_mapM_map)
qed

section \<open>Chains grow by built entries\<close>

definition own_registry :: "(bytes \<Rightarrow> bytes) \<Rightarrow> version_registry \<Rightarrow> bool" where
  "own_registry sha reg \<longleftrightarrow> registry_ok sha reg \<and> (\<exists>fp. fingerprint sha = Inr fp \<and> schemas reg fp = Some HEADER_FIELDS)"

lemma new_registry_own: "new_registry sha = Inr reg \<Longrightarrow> own_registry sha reg"
  using new_registry_ok by (auto simp: own_registry_def new_registry_def res_elims)

definition known_chain :: "(bytes \<Rightarrow> bytes) \<Rightarrow> version_registry \<Rightarrow> entry list \<Rightarrow> bool" where
  "known_chain sha reg es \<longleftrightarrow> accepted sha reg es \<and> (\<forall>e \<in> set es. known_row reg e)"

lemma known_chain_next: "known_chain sha reg es \<Longrightarrow> next_seq es = int (length es) \<and> next_prev es = prev_at es (length es)"
  using accepted_row(1) [of sha reg es "length es - 1"]
  by (cases "es = []") (auto simp: known_chain_def next_seq_def next_prev_def prev_at_def last_conv_nth of_nat_diff Suc_leI)

lemma known_chain_snoc:
  assumes "own_registry sha reg" "known_chain sha reg es"
    and "build_entry sha stamp ptype pb (next_seq es) (next_prev es) = Inr e"
  shows "known_chain sha reg (es @ [e])" and "seq (header e) = int (length es)" and "payload e = Some pb"
    and "ts (header e) = stamp" and "payload_type (header e) = ptype"
proof -
  obtain fp where fp: "fingerprint sha = Inr fp" "schemas reg fp = Some HEADER_FIELDS"
    using assms(1) by (auto simp: own_registry_def)
  note n = known_chain_next [OF assms(2)]
  have e: "seq (header e) = int (length es)" "prev_hash (header e) = prev_at es (length es)" "hash_version (header e) = fp"
    "compute_entry_hash sha header_frame (header e) = Inr (entry_hash e)" "payload e = Some pb"
    "payload_hash (header e) = compute_payload_hash sha pb" "ts (header e) = stamp" "payload_type (header e) = ptype"
    using assms(3) n by (auto simp: build_entry_def fp(1) res_elims Let_def)
  then show "seq (header e) = int (length es)" "payload e = Some pb" "ts (header e) = stamp" "payload_type (header e) = ptype"
    by simp_all
  have k: "known_row reg e" using e fp(2) by (simp add: known_row_def)
  have "row_break sha reg (int (length es)) (prev_at es (length es)) e = None"
    using e k by (simp add: row_break_def Let_def)
  moreover have "prev_at (es @ [e]) i = prev_at es i" if "i \<le> length es" for i
    using that by (auto simp: prev_at_def nth_append)
  ultimately show "known_chain sha reg (es @ [e])"
    using assms(2) k by (auto simp: known_chain_def accepted_def nth_append less_Suc_eq)
qed

lemma known_chain_hex:
  assumes "known_chain sha reg es" "e \<in> set es"
  shows "\<exists>d. entry_hash e = hex (sha d)"
proof -
  obtain i where i: "i < length es" "es ! i = e" using assms(2) by (auto simp: in_set_conv_nth)
  then have "compute_entry_hash sha header_frame (header e) = Inr (entry_hash e)"
    using accepted_row(3) [of sha reg es i] assms by (auto simp: known_chain_def)
  then show ?thesis by (auto simp: compute_entry_hash_def res_elims)
qed

lemma known_chain_from_hashes:
  assumes "known_chain sha reg es"
  shows "\<exists>t. from_hashes sha (map entry_hash es) = Inr t \<and> merkle_ok sha (map entry_hash es) t"
proof -
  have "\<exists>b. fromhex h = Inr b" if "h \<in> set (map entry_hash es)" for h
    using known_chain_hex [OF assms] that by fastforce
  then have "res_mapM fromhex (map entry_hash es) \<noteq> Inl x" for x
    using res_mapM_Inl [of fromhex "map entry_hash es" x] by fastforce
  then obtain t where "from_hashes sha (map entry_hash es) = Inr t"
    unfolding from_hashes_def using from_hashes_loop_Inl by (metis sum.exhaust_sel)
  then show ?thesis using from_hashes_ok by blast
qed

section \<open>Verification of a known chain\<close>

lemma verify_from_known:
  assumes "registry_ok sha reg"
  shows "(\<forall>e \<in> set es. known_row reg e) \<Longrightarrow>
     (\<forall>i < length es. row_break sha reg (n + int i) (if i = 0 then prev else entry_hash (es ! (i - 1))) (es ! i) = None) \<Longrightarrow>
     verify_from sha reg n checked unv prev es =
       Inr \<lparr>vr_ok = True, vr_checked = checked + length es, vr_broken_seq = None, vr_reason = None,
            vr_unverifiable = unv, dropped_writes = None, drops_source = None\<rparr>"
proof (induction es arbitrary: n checked prev)
  case (Cons e es)
  have b: "row_break sha reg n prev e = None" using Cons.prems(2) by (auto dest: spec [of _ 0])
  then have "verify_from sha reg n checked unv prev (e # es) = verify_from sha reg (n + 1) (checked + 1) unv (entry_hash e) es"
    using Cons.prems(1) recomputable_ok [OF assms] encoder_for_ok [OF assms]
    by (auto simp: verify_from.simps row_break_def known_row_def Let_def split: if_splits)
  moreover have "\<forall>i < length es. row_break sha reg (n + 1 + int i) (if i = 0 then entry_hash e else entry_hash (es ! (i - 1))) (es ! i) = None"
  proof (intro allI impI)
    fix i assume "i < length es"
    with Cons.prems(2) [rule_format, of "Suc i"]
    show "row_break sha reg (n + 1 + int i) (if i = 0 then entry_hash e else entry_hash (es ! (i - 1))) (es ! i) = None"
      by (cases i) (simp_all add: algebra_simps)
  qed
  ultimately show ?case using Cons.IH [of "n + 1" "entry_hash e" "checked + 1"] Cons.prems(1) by simp
qed simp

lemma verify_known_chain:
  assumes "registry_ok sha reg" "known_chain sha reg es"
  shows "verify_chain sha reg es =
    Inr \<lparr>vr_ok = True, vr_checked = length es, vr_broken_seq = None, vr_reason = None,
         vr_unverifiable = [], dropped_writes = None, drops_source = None\<rparr>"
  using verify_from_known [OF assms(1), of es 0 GENESIS_PREV_HASH 0 "[]"] assms(2)
  by (simp add: verify_chain_def known_chain_def accepted_def prev_at_def)

lemma stream_ok: "res_mapM (\<lambda>r. r) rows = Inr es \<Longrightarrow> stream rows = (es, None)"
  by (induction rows arbitrary: es) (auto simp: res_elims)

section \<open>The tree follows the trail\<close>

definition tree_of :: "(bytes \<Rightarrow> bytes) \<Rightarrow> entry list \<Rightarrow> incremental_merkle \<Rightarrow> bool" where
  "tree_of sha es t \<longleftrightarrow> (\<exists>k \<le> length es. merkle_ok sha (map entry_hash (take k es)) t)"

text \<open>
  The root published for a list of hashes is that list's root for every tree the instance may hold: one built from
  another prefix of the trail has another size, and one of the same size is used only when its last leaf agrees.
\<close>

lemma merkle_root_for_exact:
  assumes "merkle_ok sha gs t" "length gs = length hs \<and> gs \<noteq> [] \<and> last gs = last hs \<Longrightarrow> gs = hs"
  shows "fst (merkle_root_for sha t hs) = batch_root sha hs"
proof (cases "im_size t = length hs \<and> (hs = [] \<or> last_leaf t = Some (last hs))")
  case True
  have "gs = hs" using True assms by (cases "gs = []") (auto simp: merkle_ok_def split: if_splits)
  then show ?thesis using True merkle_ok_root [OF assms(1)] by (auto simp: merkle_root_for_def)
next
  case False
  have rebuilt: "fst (case from_hashes sha hs of Inl x \<Rightarrow> (Inl x, t) | Inr u \<Rightarrow> (Inr (im_root sha u), f u)) = batch_root sha hs" for f
  proof (cases "from_hashes sha hs")
    case (Inl x)
    then have "res_mapM fromhex hs = Inl x" using from_hashes_loop_Inl [of sha new_merkle hs] by (simp add: from_hashes_def)
    with Inl show ?thesis by (simp add: batch_root_def)
  next
    case (Inr u)
    then show ?thesis using merkle_ok_root [OF from_hashes_ok [OF Inr]] by simp
  qed
  show ?thesis using False rebuilt [of "\<lambda>u. u"] rebuilt [of "\<lambda>u. if im_size t = 0 then u else t"]
    by (auto simp: merkle_root_for_def)
qed

lemma merkle_root_for_tree:
  assumes "tree_of sha es t" "merkle_root_for sha t (map entry_hash es) = (r, u)"
  shows "tree_of sha es u"
proof -
  have full: "tree_of sha es v" if "from_hashes sha (map entry_hash es) = Inr v" for v
    using from_hashes_ok [OF that] by (auto simp: tree_of_def intro!: exI [of _ "length es"])
  show ?thesis using assms full by (auto simp: merkle_root_for_def split: if_splits sum.splits)
qed

section \<open>The log invariant\<close>

definition log_ok :: "(bytes \<Rightarrow> bytes) \<Rightarrow> ('b \<Rightarrow> bool) \<Rightarrow> 'b config \<Rightarrow> 'b log \<Rightarrow> entry list \<Rightarrow> bool" where
  "log_ok sha whole cfg lg es \<longleftrightarrow>
     own_registry sha (cf_registry cfg) \<and> whole (lg_backend lg) \<and> log_entries cfg lg = Inr es
     \<and> known_chain sha (cf_registry cfg) es \<and> tree_of sha es (lg_merkle lg)"

lemma log_ok_fields:
  "lg_backend lg' = lg_backend lg \<Longrightarrow> lg_merkle lg' = lg_merkle lg \<Longrightarrow> log_ok sha whole cfg lg' es = log_ok sha whole cfg lg es"
  by (simp add: log_ok_def log_entries_def)

context log_backend
begin

lemma entry_hashes_ok:
  "cf_ops cfg = ops \<Longrightarrow> log_entries cfg lg = Inr es \<Longrightarrow> entry_hashes cfg lg = Inr (map entry_hash es)"
  using hashes by (auto simp: entry_hashes_def log_entries_def split: option.splits)

lemma note_appended_ok:
  assumes "cf_ops cfg = ops" "log_entries cfg lg = Inr (es @ [e])" "known_chain sha reg (es @ [e])"
    and "tree_of sha es (lg_merkle lg)"
  shows "\<exists>t. note_appended sha cfg lg e = (Inr (), lg\<lparr>lg_merkle := t\<rparr>) \<and> merkle_ok sha (map entry_hash (es @ [e])) t"
proof -
  obtain k where k: "k \<le> length es" "merkle_ok sha (map entry_hash (take k es)) (lg_merkle lg)"
    using assms(4) by (auto simp: tree_of_def)
  have sz: "im_size (lg_merkle lg) = k" using k by (simp add: merkle_ok_def)
  have sq: "seq (header e) = int (length es)"
    using accepted_row(1) [of sha reg "es @ [e]" "length es"] assms(3) by (simp add: known_chain_def)
  show ?thesis
  proof (cases "k = length es")
    case True
    obtain d where d: "entry_hash e = hex (sha d)" using known_chain_hex [OF assms(3), of e] by auto
    then obtain t where t: "push sha (lg_merkle lg) (entry_hash e) = Inr t" by (simp add: push_def)
    with True k push_ok [OF k(2) t] sz sq show ?thesis by (intro exI [of _ t]) (simp add: note_appended_def)
  next
    case False
    with known_chain_from_hashes [OF assms(3)] sz sq entry_hashes_ok [OF assms(1,2)] show ?thesis
      by (auto simp: note_appended_def)
  qed
qed

lemma anchor_keeps:
  assumes "cf_ops cfg = ops" "log_ok sha whole cfg lg es" "anchor sha cfg env lg = (r, lg')"
  shows "log_ok sha whole cfg lg' es" and "lg_dropped lg' = lg_dropped lg" and "lg_files lg' = lg_files lg"
    and "lg_drops lg' = lg_drops lg" and "lg_attest_failures lg' = lg_attest_failures lg"
proof -
  have en: "entry_hashes cfg lg = Inr (map entry_hash es)"
    using entry_hashes_ok [OF assms(1)] assms(2) by (simp add: log_ok_def)
  have t0: "tree_of sha es (lg_merkle lg)" using assms(2) by (simp add: log_ok_def)
  obtain root t where m: "merkle_root_for sha (lg_merkle lg) (map entry_hash es) = (root, t)" by force
  have t: "tree_of sha es t" using merkle_root_for_tree [OF t0 m] .
  have "lg_backend lg' = lg_backend lg \<and> tree_of sha es (lg_merkle lg') \<and> lg_dropped lg' = lg_dropped lg
      \<and> lg_files lg' = lg_files lg \<and> lg_drops lg' = lg_drops lg \<and> lg_attest_failures lg' = lg_attest_failures lg"
    using assms(3) t0 t unfolding anchor_def en
    by (auto simp: m split: option.splits if_splits sum.splits prod.splits)
  then show "log_ok sha whole cfg lg' es" "lg_dropped lg' = lg_dropped lg" "lg_files lg' = lg_files lg"
    "lg_drops lg' = lg_drops lg" "lg_attest_failures lg' = lg_attest_failures lg"
    using assms(2) by (simp_all add: log_ok_def log_entries_def)
qed

end

text \<open>Counters an append leaves alone, and what it does to the attestation files.\<close>

definition kept :: "'b log \<Rightarrow> 'b log \<Rightarrow> bool" where
  "kept lg lg' \<longleftrightarrow> lg_dropped lg' = lg_dropped lg \<and> lg_drops lg' = lg_drops lg
     \<and> lg_attest_failures lg' = lg_attest_failures lg"

definition sealed_step :: "(bytes \<Rightarrow> bytes) \<Rightarrow> 'b config \<Rightarrow> 'b log \<Rightarrow> entry \<Rightarrow> entry res \<Rightarrow> 'b log \<Rightarrow> bool" where
  "sealed_step sha cfg lg e r lg' \<longleftrightarrow>
     (case cf_attestor cfg of
        None \<Rightarrow> r = Inr e \<and> lg_files lg' = lg_files lg
      | Some mode \<Rightarrow> \<exists>a. attest sha mode (lg_files lg) (seq (header e)) (entry_hash e) = (a, lg_files lg')
                        \<and> (r = Inr e) = (\<exists>att. a = Inr att))"

lemma header_frame_raises: "header_frame h = Inl x \<Longrightarrow> x = LpEncodingError \<or> x = StructError"
  by (auto simp: header_frame_def enc_all_def lp_def lp_framed_def pack_Q_def res_elims
      split: if_splits option.splits)

lemma build_entry_errors: "build_entry sha stamp ptype pb n prev \<noteq> Inl AttestationFailure"
  using fingerprint_total [of sha] header_frame_raises
  by (fastforce simp: build_entry_def Let_def compute_entry_hash_def res_elims)

context log_backend
begin

lemma after_note:
  assumes ops: "cf_ops cfg = ops" and ok: "log_ok sha whole cfg lg es"
    and ap: "(case attest_entry sha cfg lg e of
        (Inl x, lg2) \<Rightarrow> (Inl x, lg2) | (Inr _, lg2) \<Rightarrow> (Inr e, auto_anchor sha cfg env lg2 e)) = (r, lg')"
  shows "(r = Inr e \<or> r = Inl AttestationFailure) \<and> log_ok sha whole cfg lg' es \<and> kept lg lg' \<and> sealed_step sha cfg lg e r lg'"
proof -
  obtain a lg2 where a: "attest_entry sha cfg lg e = (a, lg2)" by force
  have k0: "kept lg lg2 \<and> lg_backend lg2 = lg_backend lg \<and> lg_merkle lg2 = lg_merkle lg"
    using a by (auto simp: attest_entry_def kept_def split: option.splits prod.splits sum.splits)
  then have k: "kept lg lg2 \<and> log_ok sha whole cfg lg2 es" using ok by (simp add: log_ok_def log_entries_def)
  have anc: "log_ok sha whole cfg (auto_anchor sha cfg env lg2 e) es \<and> kept lg2 (auto_anchor sha cfg env lg2 e)
      \<and> lg_files (auto_anchor sha cfg env lg2 e) = lg_files lg2"
  proof -
    obtain c lg3 where c: "anchor sha cfg env lg2 = (c, lg3)" by force
    note ak = anchor_keeps [OF ops conjunct2 [OF k] c]
    show ?thesis using ak k c log_ok_fields [of "lg3\<lparr>lg_anchor_failures := lg_anchor_failures lg3 + 1\<rparr>" lg3]
      by (auto simp: auto_anchor_def kept_def split: sum.splits)
  qed
  show ?thesis
  proof (cases a)
    case (Inl x)
    with a ap k show ?thesis
      by (auto simp: attest_entry_def sealed_step_def split: option.splits prod.splits sum.splits)
  next
    case (Inr u)
    then have r: "r = Inr e" "lg' = auto_anchor sha cfg env lg2 e" using a ap by simp_all
    have "sealed_step sha cfg lg e (Inr e) lg2"
      using a Inr by (auto simp: attest_entry_def sealed_step_def split: option.splits prod.splits sum.splits)
    then have "sealed_step sha cfg lg e (Inr e) lg'" using anc r by (auto simp: sealed_step_def split: option.splits)
    with r k anc show ?thesis by (auto simp: kept_def)
  qed
qed

text \<open>What an append does to a log in order: it stores exactly one entry, or it changes nothing that is counted.\<close>

lemma log_append_cases:
  assumes ops: "cf_ops cfg = ops" and ok: "log_ok sha whole cfg lg es"
    and ap: "log_append sha cfg env lg p ptype = (r, lg')"
    and rd: "canonical_payload cfg p \<noteq> Inl AttestationFailure"
  shows "(\<exists>x. r = Inl x \<and> x \<noteq> AttestationFailure \<and> log_ok sha whole cfg lg' es \<and> kept lg lg' \<and> lg_files lg' = lg_files lg)
    \<or> (\<exists>e pb. canonical_payload cfg p = Inr pb \<and> build_entry sha (en_now env) ptype pb (next_seq es) (next_prev es) = Inr e
        \<and> (r = Inr e \<or> r = Inl AttestationFailure) \<and> log_ok sha whole cfg lg' (es @ [e]) \<and> kept lg lg'
        \<and> sealed_step sha cfg lg e r lg')"
proof -
  note o = ok [unfolded log_ok_def]
  have en: "res_mapM (\<lambda>r. r) (op_rows ops (lg_backend lg)) = Inr es" using o ops by (simp add: log_entries_def)
  show ?thesis
  proof (cases "ptype \<in> set REJECTED_PAYLOAD_TYPES")
    case True
    with ap ok show ?thesis by (auto simp: log_append_def kept_def)
  next
    case nr: False
    show ?thesis
    proof (cases "canonical_payload cfg p")
      case (Inl x)
      with nr ap ok rd show ?thesis by (auto simp: log_append_def kept_def)
    next
      case (Inr pb)
      let ?b = "build_entry sha (en_now env) ptype pb"
      obtain q b' where q: "op_append ops (lg_backend lg) ?b = (q, b')" by force
      show ?thesis
      proof (cases q)
        case x: (Inl x)
        have e: "res_mapM (\<lambda>r. r) (op_rows ops b') = Inr es" "whole b'"
          using append_refuses [OF q [unfolded x]] en o by auto
        have "x \<noteq> AttestationFailure" using append_raises [OF en q [unfolded x]] build_entry_errors by blast
        moreover have "log_ok sha whole cfg (lg\<lparr>lg_backend := b'\<rparr>) es" using o e ops by (simp add: log_ok_def log_entries_def)
        moreover have "r = Inl x" "lg' = lg\<lparr>lg_backend := b'\<rparr>" using ap nr Inr q x ops by (simp_all add: log_append_def)
        ultimately show ?thesis by (auto simp: kept_def)
      next
        case e: (Inr e)
        have st: "whole b'" "res_mapM (\<lambda>r. r) (op_rows ops b') = Inr (es @ [e])" "?b (next_seq es) (next_prev es) = Inr e"
          using append_stores [OF _ en q [unfolded e]] o by auto
        have kc: "known_chain sha (cf_registry cfg) (es @ [e])" using known_chain_snoc(1) [OF _ _ st(3)] o by blast
        let ?lg1 = "lg\<lparr>lg_backend := b'\<rparr>"
        have "log_entries cfg ?lg1 = Inr (es @ [e])" using st(2) ops by (simp add: log_entries_def)
        moreover have "tree_of sha es (lg_merkle ?lg1)" using o by simp
        ultimately obtain t where t: "note_appended sha cfg ?lg1 e = (Inr (), ?lg1\<lparr>lg_merkle := t\<rparr>)"
          "merkle_ok sha (map entry_hash (es @ [e])) t" using note_appended_ok [OF ops _ kc] by blast
        let ?lg2 = "?lg1\<lparr>lg_merkle := t\<rparr>"
        have ok2: "log_ok sha whole cfg ?lg2 (es @ [e])"
          using o st kc t(2) ops by (auto simp: log_ok_def log_entries_def tree_of_def intro!: exI [of _ "length (es @ [e])"])
        have "log_append sha cfg env lg p ptype = (case attest_entry sha cfg ?lg2 e of
            (Inl x, lg2) \<Rightarrow> (Inl x, lg2) | (Inr _, lg2) \<Rightarrow> (Inr e, auto_anchor sha cfg env lg2 e))"
          using nr Inr q e t(1) ops by (simp add: log_append_def)
        with ap after_note [OF ops ok2, where e = e and env = env and r = r and lg' = lg'] have
          n: "r = Inr e \<or> r = Inl AttestationFailure" "log_ok sha whole cfg lg' (es @ [e])" "kept ?lg2 lg'" "sealed_step sha cfg ?lg2 e r lg'"
          by simp_all
        have "kept lg lg'" "sealed_step sha cfg lg e r lg'"
          using n(3,4) by (auto simp: kept_def sealed_step_def split: option.splits)
        with Inr st(3) n(1,2) show ?thesis by blast
      qed
    qed
  qed
qed

end

text \<open>
  What an append needs to go through: a time and a type that encode, and a row number whose decimal form fits a field.
\<close>

lemma encodable_hex: "length b < 2 ^ 59 \<Longrightarrow> encodable (hex b)"
  using hex_ascii by (auto intro!: encodable_ascii)

lemma known_chain_prev_encodable:
  assumes "digest32 sha" "known_chain sha reg es"
  shows "encodable (next_prev es)"
proof (cases "es = []")
  case False
  then obtain d where "entry_hash (last es) = hex (sha d)" using known_chain_hex [OF assms(2), of "last es"] by auto
  with False show ?thesis using digest32.digest_length [OF assms(1)] by (simp add: next_prev_def encodable_hex)
qed (simp add: next_prev_def encodable_genesis)

lemma build_entry_total:
  assumes "digest32 sha" "encodable stamp" "encodable ptype" "encodable (str_int n)" "encodable prev"
  shows "\<exists>e. build_entry sha stamp ptype pb n prev = Inr e"
proof -
  obtain fp where fp: "fingerprint sha = Inr fp" using fingerprint_total by blast
  then have "encodable fp"
    using digest32.digest_length [OF assms(1)]
    by (auto simp: fingerprint_def fingerprint_for_def res_elims encodable_hex)
  then have "encodable_header \<lparr>seq = n, ts = stamp, hash_version = fp, payload_type = ptype,
      payload_hash = compute_payload_hash sha pb, prev_hash = prev\<rparr>"
    using assms(2-5) digest32.digest_length [OF assms(1)] by (simp add: encodable_header_def compute_payload_hash_def encodable_hex)
  from header_frame_encodable [OF this] show ?thesis by (auto simp: build_entry_def fp compute_entry_hash_def)
qed

context log_backend
begin

lemma log_append_total:
  assumes "digest32 sha" "cf_ops cfg = ops" "log_ok sha whole cfg lg es" "cf_attestor cfg = None"
    and "canonical_payload cfg p = Inr pb" "ptype \<notin> set REJECTED_PAYLOAD_TYPES"
    and "encodable (en_now env)" "encodable ptype" "encodable (str_int (int (length es)))"
  shows "\<exists>e lg'. log_append sha cfg env lg p ptype = (Inr e, lg')"
proof -
  note o = assms(3) [unfolded log_ok_def]
  have en: "res_mapM (\<lambda>r. r) (op_rows ops (lg_backend lg)) = Inr es" using o assms(2) by (simp add: log_entries_def)
  have kc: "known_chain sha (cf_registry cfg) es" using o by blast
  let ?b = "build_entry sha (en_now env) ptype pb"
  obtain e where e: "?b (next_seq es) (next_prev es) = Inr e"
    using build_entry_total [OF assms(1,7,8) _ known_chain_prev_encodable [OF assms(1) kc]] assms(9) known_chain_next [OF kc]
    by force
  then have "payload e \<noteq> None" using known_chain_snoc(3) [OF _ kc e] o by simp
  from append_accepts [of "lg_backend lg" es ?b e, OF en e this] obtain b' where q: "op_append ops (lg_backend lg) ?b = (Inr e, b')"
    by (cases "op_append ops (lg_backend lg) ?b") simp
  obtain r lg' where r: "log_append sha cfg env lg p ptype = (r, lg')" by force
  have "log_entries cfg (lg\<lparr>lg_backend := b'\<rparr>) = Inr (es @ [e])"
    using append_stores [OF _ en q] o assms(2) by (simp add: log_entries_def)
  moreover have "known_chain sha (cf_registry cfg) (es @ [e])" using known_chain_snoc(1) [OF _ kc e] o by blast
  ultimately obtain t where "note_appended sha cfg (lg\<lparr>lg_backend := b'\<rparr>) e = (Inr (), lg\<lparr>lg_backend := b', lg_merkle := t\<rparr>)"
    using note_appended_ok [OF assms(2), of "lg\<lparr>lg_backend := b'\<rparr>" es e sha "cf_registry cfg"] o by auto
  then show ?thesis using assms(2,4-6) q by (simp add: log_append_def attest_entry_def)
qed

end

section \<open>Runs\<close>

type_synonym call = "environment \<times> log_payload \<times> pystr"

fun log_run :: "(bytes \<Rightarrow> bytes) \<Rightarrow> 'b config \<Rightarrow> 'b log \<Rightarrow> call list \<Rightarrow> 'b log" where
  "log_run sha cfg lg [] = lg"
| "log_run sha cfg lg ((env, p, ptype) # cs) = log_run sha cfg (snd (try_append sha cfg env lg p ptype)) cs"

text \<open>A redactor of the program's own code never raises the exception the facade reserves for attestations.\<close>

definition redactor_ok :: "'b config \<Rightarrow> bool" where
  "redactor_ok cfg \<longleftrightarrow> (\<forall>rd d. cf_redactor cfg = Some rd \<longrightarrow> rd d \<noteq> Inl AttestationFailure)"

lemma canonical_payload_errors:
  "redactor_ok cfg \<Longrightarrow> canonical_payload cfg p \<noteq> Inl AttestationFailure"
  by (auto simp: redactor_ok_def canonical_payload_def canonical_json_def ascii_encode_def res_elims
      split: log_payload.splits option.splits if_splits)

text \<open>The drop sidecar of a run whose writes all succeed counts what the process counts.\<close>

definition drops_agree :: "'b log \<Rightarrow> nat \<Rightarrow> bool" where
  "drops_agree lg base \<longleftrightarrow> (case lg_drops lg of None \<Rightarrow> True | Some d \<Rightarrow> drop_count d = base + lg_dropped lg)"

lemma drop_record_count: "drop_count (drop_record True stamp d rsn ptype src) = Suc (drop_count d)"
  by (simp add: drop_count_def drop_record_def split: option.splits)

context log_backend
begin

lemma try_append_ok:
  assumes "cf_ops cfg = ops" "redactor_ok cfg" "log_ok sha whole cfg lg es" "try_append sha cfg env lg p ptype = (stored, lg')"
  shows "\<exists>new. log_ok sha whole cfg lg' (es @ new) \<and> length new = (if stored then 1 else 0)
    \<and> lg_dropped lg' = lg_dropped lg + (if stored then 0 else 1)
    \<and> (en_disk env \<longrightarrow> drops_agree lg base \<longrightarrow> drops_agree lg' base)"
proof -
  obtain r lg1 where r: "log_append sha cfg env lg p ptype = (r, lg1)" by force
  from log_append_cases [OF assms(1,3) r canonical_payload_errors [OF assms(2)]] show ?thesis
  proof
    assume "\<exists>x. r = Inl x \<and> x \<noteq> AttestationFailure \<and> log_ok sha whole cfg lg1 es \<and> kept lg lg1 \<and> lg_files lg1 = lg_files lg"
    then obtain x where x: "r = Inl x" "x \<noteq> AttestationFailure" "log_ok sha whole cfg lg1 es" "kept lg lg1" by blast
    then have "\<not> stored" "lg' = lg1\<lparr>lg_dropped := lg_dropped lg1 + 1,
        lg_drops := map_option (\<lambda>d. drop_record (en_disk env) (en_drop_now env) d (exn_name x) (Some ptype) None) (lg_drops lg1)\<rparr>"
      using assms(4) r by (auto simp: try_append_def)
    with x show ?thesis
      by (auto simp: kept_def log_ok_def log_entries_def drops_agree_def drop_record_count split: option.splits)
  next
    assume "\<exists>e pb. canonical_payload cfg p = Inr pb
        \<and> build_entry sha (en_now env) ptype pb (next_seq es) (next_prev es) = Inr e
        \<and> (r = Inr e \<or> r = Inl AttestationFailure) \<and> log_ok sha whole cfg lg1 (es @ [e]) \<and> kept lg lg1
        \<and> sealed_step sha cfg lg e r lg1"
    then obtain e where e: "r = Inr e \<or> r = Inl AttestationFailure" "log_ok sha whole cfg lg1 (es @ [e])" "kept lg lg1" by blast
    then have "stored" "lg_backend lg' = lg_backend lg1" "lg_merkle lg' = lg_merkle lg1" "lg_dropped lg' = lg_dropped lg1"
      "lg_drops lg' = lg_drops lg1"
      using assms(4) r by (auto simp: try_append_def)
    with e show ?thesis
      by (intro exI [of _ "[e]"]) (auto simp: kept_def log_ok_def log_entries_def drops_agree_def split: option.splits)
  qed
qed

lemma log_run_ok:
  assumes "cf_ops cfg = ops" "redactor_ok cfg"
  shows "log_ok sha whole cfg lg es \<Longrightarrow>
    \<exists>new. log_ok sha whole cfg (log_run sha cfg lg cs) (es @ new)
      \<and> length new + lg_dropped (log_run sha cfg lg cs) = lg_dropped lg + length cs
      \<and> ((\<forall>(env, _) \<in> set cs. en_disk env) \<longrightarrow> drops_agree lg base \<longrightarrow> drops_agree (log_run sha cfg lg cs) base)"
proof (induction cs arbitrary: lg es)
  case Nil
  then show ?case by (intro exI [of _ "[]"]) simp
next
  case (Cons c cs)
  obtain env p ptype where c: "c = (env, p, ptype)" by (cases c) auto
  obtain st lg1 where t: "try_append sha cfg env lg p ptype = (st, lg1)" by force
  obtain new1 where n1: "log_ok sha whole cfg lg1 (es @ new1)" "length new1 = (if st then 1 else 0)"
    "lg_dropped lg1 = lg_dropped lg + (if st then 0 else 1)" "en_disk env \<longrightarrow> drops_agree lg base \<longrightarrow> drops_agree lg1 base"
    using try_append_ok [OF assms Cons.prems t, of base] by blast
  obtain new2 where n2: "log_ok sha whole cfg (log_run sha cfg lg1 cs) ((es @ new1) @ new2)"
    "length new2 + lg_dropped (log_run sha cfg lg1 cs) = lg_dropped lg1 + length cs"
    "(\<forall>(env, _) \<in> set cs. en_disk env) \<longrightarrow> drops_agree lg1 base \<longrightarrow> drops_agree (log_run sha cfg lg1 cs) base"
    using Cons.IH [OF n1(1)] by blast
  show ?case using n1 n2 by (intro exI [of _ "new1 @ new2"]) (auto simp: c t split: if_splits)
qed

lemma log_verify_ok:
  assumes "log_ok sha whole cfg lg es"
  shows "log_verify sha cfg lg True =
    Inr \<lparr>vr_ok = True, vr_checked = length es, vr_broken_seq = None, vr_reason = None, vr_unverifiable = [],
         dropped_writes = Some (case lg_drops lg of Some d \<Rightarrow> drop_count d | None \<Rightarrow> lg_dropped lg),
         drops_source = Some (case lg_drops lg of Some d \<Rightarrow> ''sidecar'' | None \<Rightarrow> ''process'')\<rparr>"
proof -
  note o = assms [unfolded log_ok_def log_entries_def own_registry_def]
  have "verify_rows sha (cf_registry cfg) (op_rows (cf_ops cfg) (lg_backend lg)) =
      Inr \<lparr>vr_ok = True, vr_checked = length es, vr_broken_seq = None, vr_reason = None,
           vr_unverifiable = [], dropped_writes = None, drops_source = None\<rparr>"
    using verify_known_chain [of sha "cf_registry cfg" es] o by (simp add: verify_rows_def stream_ok)
  then show ?thesis by (simp add: log_verify_def split: option.splits)
qed

lemma anchor_verifies:
  assumes "cf_ops cfg = ops" "log_ok sha whole cfg lg es" "anchor sha cfg env lg = (Inr cp, lg')"
  shows "verify_checkpoint sha (map entry_hash es @ later) cp = None"
proof -
  have en: "entry_hashes cfg lg = Inr (map entry_hash es)"
    using entry_hashes_ok [OF assms(1)] assms(2) by (simp add: log_ok_def)
  obtain k where k: "k \<le> length es" "merkle_ok sha (map entry_hash (take k es)) (lg_merkle lg)"
    using assms(2) by (auto simp: log_ok_def tree_of_def)
  have root: "fst (merkle_root_for sha (lg_merkle lg) (map entry_hash es)) = batch_root sha (map entry_hash es)"
    by (rule merkle_root_for_exact [OF k(2)]) (use k(1) in auto)
  obtain c ep root t where "merkle_root_for sha (lg_merkle lg) (map entry_hash es) = (Inr root, t)"
    "checkpoint_for sha (map entry_hash es) c ep (Some root) = Inr cp"
    using assms(3) en unfolding anchor_def
    by (auto simp: res_elims split: option.splits if_splits sum.splits prod.splits)
  with root checkpoint_for_verifies show ?thesis by fastforce
qed

end

section \<open>Sealed runs\<close>

definition sealed_ok :: "(bytes \<Rightarrow> bytes) \<Rightarrow> bytes \<Rightarrow> pystr \<Rightarrow> 'b log \<Rightarrow> entry list \<Rightarrow> bool" where
  "sealed_ok sha key scheme lg es \<longleftrightarrow> sidecar_ok sha key scheme (map entry_hash es) (lg_files lg) \<and> lg_attest_failures lg = 0"

context log_backend
begin

lemma try_append_sealed:
  assumes "digest32 sha" "cf_ops cfg = ops" "redactor_ok cfg" "cf_attestor cfg = Some (FsHmac scheme)"
    and "log_ok sha whole cfg lg es" "sealed_ok sha key scheme lg es" "try_append sha cfg env lg p ptype = (stored, lg')"
  shows "\<exists>new. log_ok sha whole cfg lg' (es @ new) \<and> sealed_ok sha key scheme lg' (es @ new)"
proof -
  obtain r lg1 where r: "log_append sha cfg env lg p ptype = (r, lg1)" by force
  from log_append_cases [OF assms(2,5) r canonical_payload_errors [OF assms(3)]] show ?thesis
  proof
    assume "\<exists>x. r = Inl x \<and> x \<noteq> AttestationFailure \<and> log_ok sha whole cfg lg1 es \<and> kept lg lg1 \<and> lg_files lg1 = lg_files lg"
    then obtain x where x: "r = Inl x" "x \<noteq> AttestationFailure" "log_ok sha whole cfg lg1 es" "kept lg lg1"
      "lg_files lg1 = lg_files lg" by blast
    with assms(6,7) r show ?thesis
      by (intro exI [of _ "[]"]) (auto simp: try_append_def sealed_ok_def kept_def log_ok_def log_entries_def)
  next
    assume "\<exists>e pb. canonical_payload cfg p = Inr pb
        \<and> build_entry sha (en_now env) ptype pb (next_seq es) (next_prev es) = Inr e
        \<and> (r = Inr e \<or> r = Inl AttestationFailure) \<and> log_ok sha whole cfg lg1 (es @ [e]) \<and> kept lg lg1
        \<and> sealed_step sha cfg lg e r lg1"
    then obtain e where e: "log_ok sha whole cfg lg1 (es @ [e])" "kept lg lg1" "sealed_step sha cfg lg e r lg1" by blast
    have kc: "known_chain sha (cf_registry cfg) (es @ [e])" using e(1) by (simp add: log_ok_def)
    then have sq: "seq (header e) = int (length (map entry_hash es))"
      using accepted_row(1) [of sha "cf_registry cfg" "es @ [e]" "length es"] by (simp add: known_chain_def)
    have "ascii_str (entry_hash e)"
      using known_chain_hex [OF kc, of e] hex_ascii by (auto simp: ascii_str_def)
    from digest32.attest_sidecar_ok [OF assms(1) conjunct1 [OF assms(6) [unfolded sealed_ok_def]] this]
    obtain a files' where a: "attest sha (FsHmac scheme) (lg_files lg) (seq (header e)) (entry_hash e) = (Inr a, files')"
      "sidecar_ok sha key scheme (map entry_hash es @ [entry_hash e]) files'" unfolding sq by blast
    then have "r = Inr e" "lg_files lg1 = files'" using e(3) assms(4) by (simp_all add: sealed_step_def)
    with a e assms(6,7) r show ?thesis
      by (intro exI [of _ "[e]"]) (auto simp: try_append_def sealed_ok_def kept_def)
  qed
qed

lemma log_run_sealed:
  assumes "digest32 sha" "cf_ops cfg = ops" "redactor_ok cfg" "cf_attestor cfg = Some (FsHmac scheme)"
  shows "log_ok sha whole cfg lg es \<Longrightarrow> sealed_ok sha key scheme lg es \<Longrightarrow>
    \<exists>new. log_ok sha whole cfg (log_run sha cfg lg cs) (es @ new) \<and> sealed_ok sha key scheme (log_run sha cfg lg cs) (es @ new)"
proof (induction cs arbitrary: lg es)
  case Nil
  then show ?case by (intro exI [of _ "[]"]) simp
next
  case (Cons c cs)
  obtain env p ptype where c: "c = (env, p, ptype)" by (cases c) auto
  obtain st lg1 where t: "try_append sha cfg env lg p ptype = (st, lg1)" by force
  obtain new1 where n1: "log_ok sha whole cfg lg1 (es @ new1)" "sealed_ok sha key scheme lg1 (es @ new1)"
    using try_append_sealed [OF assms Cons.prems t] by blast
  from Cons.IH [OF n1] show ?case by (auto simp: c t intro: exI [of _ "new1 @ _"])
qed

lemma verify_attestations_ok:
  assumes "digest32 sha" "cf_attestor cfg = Some (FsHmac scheme)" "log_ok sha whole cfg lg es" "sealed_ok sha key scheme lg es"
  shows "verify_attestations sha cfg lg (Some key) None =
    Inr \<lparr>ar_ok = True, ar_checked = length es, ar_broken_seq = None, ar_reason = None, ar_unverifiable = []\<rparr>"
  using digest32.verify_sidecar_honest [OF assms(1), of "cf_registry cfg" es key scheme "lg_files lg"] assms(2-4)
  by (simp add: verify_attestations_def log_ok_def own_registry_def known_chain_def sealed_ok_def)

end

section \<open>The abstract log\<close>





section \<open>Properties\<close>

lemma new_log_ok:
  assumes "new_log (jsonl_ops rt) b redactor reg attestor files source s every recorder has_path anchors = Inr (cfg, lg)"
    and "own_registry sha reg" "terminated b" "jsonl_entries rt b = Inr es" "known_chain sha reg es"
  shows "log_ok sha terminated cfg lg es" and "cf_ops cfg = jsonl_ops rt" and "cf_redactor cfg = redactor"
    and "lg_dropped lg = 0" and "lg_attest_failures lg = 0" and "lg_drops lg = recorder" and "lg_files lg = files"
    and "cf_attestor cfg = attestor" and "cf_registry cfg = reg"
proof -
  have "tree_of sha es new_merkle" using new_merkle_ok by (auto simp: tree_of_def intro!: exI [of _ 0])
  then show "log_ok sha terminated cfg lg es" and "cf_ops cfg = jsonl_ops rt" and "cf_redactor cfg = redactor"
    and "lg_dropped lg = 0" and "lg_attest_failures lg = 0" and "lg_drops lg = recorder" and "lg_files lg = files"
    and "cf_attestor cfg = attestor" and "cf_registry cfg = reg"
    using assms fun_cong [OF jsonl_ops_eq(2), of rt b]
    by (auto simp: new_log_def log_ok_def log_entries_def split: if_splits)
qed


definition empty_trail :: jsonl where
  "empty_trail = \<lparr>jl_lines = [], jl_open = False, jl_scan_every = Some 1000, jl_scanned = 0, jl_warnings = 0\<rparr>"

definition some_environment :: environment where
  "some_environment = \<lparr>en_now = str ''now'', en_anchor_now = str ''now'', en_drop_now = str ''now'', en_disk = True\<rparr>"

lemma empty_trail: "terminated empty_trail" "jsonl_entries rt empty_trail = Inr []" "known_chain sha reg []"
  by (simp_all add: empty_trail_def terminated_def jsonl_entries_def known_chain_def accepted_def)





text \<open>C8. A checkpoint the log publishes is right and stays right: whatever the state of the incremental tree, a checkpoint
  returned by \<open>anchor\<close> verifies against the trail it was taken of and against the trail after any further best-effort
  appends.\<close>

theorem published_checkpoint_verifies:
  assumes "log_ok sha terminated cfg lg es" "cf_ops cfg = jsonl_ops rt" "redactor_ok cfg"
    and "anchor sha cfg env lg = (Inr cp, lg')"
  shows "\<exists>hs. entry_hashes cfg (log_run sha cfg lg' calls) = Inr hs \<and> verify_checkpoint sha hs cp = None"
proof -
  obtain new where e: "log_ok sha terminated cfg (log_run sha cfg lg' calls) (es @ new)"
    using jsonl_log.log_run_ok [OF assms(2,3) jsonl_log.anchor_keeps(1) [OF assms(2,1,4)]] by blast
  have "entry_hashes cfg (log_run sha cfg lg' calls) = Inr (map entry_hash es @ map entry_hash new)"
    using jsonl_log.entry_hashes_ok [OF assms(2)] e by (simp add: log_ok_def)
  then show ?thesis using jsonl_log.anchor_verifies [OF assms(2,1,4)] by blast
qed

context digest32
begin

lemma build_sample:
  assumes "encodable prev" "0 \<le> n" "n < 10"
  shows "\<exists>e. build_entry sha (str ''now'') (str ''a/b'') [1] n prev = Inr e"
  by (rule build_entry_total [OF digest32_axioms])
     (use assms in \<open>auto intro!: encodable_str encodable_str_int simp: length_str_int_digit\<close>)

end

context log_backend
begin

lemma anchor_file_sink:
  assumes "cf_ops cfg = ops" "log_ok sha whole cfg lg es" "es \<noteq> []"
    and "cf_sink cfg = Some FileSink" "cf_attestor cfg = None" "cf_source cfg = None"
  shows "\<exists>cp lg'. anchor sha cfg env lg = (Inr cp, lg')"
proof -
  have en: "entry_hashes cfg lg = Inr (map entry_hash es)"
    using entry_hashes_ok [OF assms(1)] assms(2) by (simp add: log_ok_def)
  have kc: "known_chain sha (cf_registry cfg) es" using assms(2) by (simp add: log_ok_def)
  obtain k where k: "k \<le> length es" "merkle_ok sha (map entry_hash (take k es)) (lg_merkle lg)"
    using assms(2) by (auto simp: log_ok_def tree_of_def)
  have "fst (merkle_root_for sha (lg_merkle lg) (map entry_hash es)) = batch_root sha (map entry_hash es)"
    by (rule merkle_root_for_exact [OF k(2)]) (use k(1) in auto)
  moreover obtain t where "merkle_ok sha (map entry_hash es) t" using known_chain_from_hashes [OF kc] by blast
  ultimately obtain root u where "merkle_root_for sha (lg_merkle lg) (map entry_hash es) = (Inr root, u)"
    using merkle_ok_root by (metis fst_conv surj_pair)
  then show ?thesis using assms en
    by (auto simp: anchor_def aggregate_source_def aggregate_binding_def checkpoint_for_def make_checkpoint_def publish_def)
qed

end

lemma sample_log_one_row:
  "\<exists>cfg lg es. log_ok sha256 terminated cfg lg es \<and> es \<noteq> [] \<and> cf_ops cfg = jsonl_ops ascii_runtime \<and> redactor_ok cfg
     \<and> cf_sink cfg = Some FileSink \<and> cf_attestor cfg = None \<and> cf_source cfg = None"
proof -
  obtain e where e: "build_entry sha256 (str ''now'') (str ''a/b'') [1] 0 GENESIS_PREV_HASH = Inr e"
    using sha256.build_sample [OF encodable_genesis, of 0] by auto
  note own = new_registry_own [OF sample_registry_new [of sha256]]
  have kc: "known_chain sha256 (sample_registry sha256) [e]" and "payload e \<noteq> None"
    using known_chain_snoc(1,3) [OF own empty_trail(3), of "str ''now''" "str ''a/b''" "[1]" e] e
    by (simp_all add: next_seq_def next_prev_def)
  then obtain v where v: "to_obj e = Inr v" using to_obj_total by blast
  let ?b = "empty_trail\<lparr>jl_lines := [Inr v]\<rparr>"
  have "terminated ?b" "jsonl_entries ascii_runtime ?b = Inr [e]"
    by (simp_all add: terminated_def empty_trail_def jsonl_entries_def from_obj_to_obj [OF v])
  moreover obtain cfg lg where n: "new_log (jsonl_ops ascii_runtime) ?b None (sample_registry sha256) None
      \<lparr>ak_key = None, ak_agg = None, ak_lines = []\<rparr> None (Some FileSink) None None True [] = Inr (cfg, lg)"
    "cf_redactor cfg = None" "cf_sink cfg = Some FileSink" "cf_attestor cfg = None" "cf_source cfg = None"
    by (simp add: new_log_def maybe_record_anchor_sink_def)
  ultimately have "log_ok sha256 terminated cfg lg [e]" "cf_ops cfg = jsonl_ops ascii_runtime"
    using new_log_ok(1,2) [OF n(1) own _ _ kc] by auto
  with n(2-5) show ?thesis by (intro exI [of _ cfg] exI [of _ lg] exI [of _ "[e]"]) (simp add: redactor_ok_def)
qed

theorem published_checkpoint_verifies_witness:
  "\<exists>(cfg :: jsonl config) lg cp lg' hs. anchor sha256 cfg some_environment lg = (Inr cp, lg')
     \<and> entry_hashes cfg (log_run sha256 cfg lg' [(some_environment, PBytes [1], str ''a/b'')]) = Inr hs
     \<and> verify_checkpoint sha256 hs cp = None"
proof -
  obtain cfg lg es where l: "log_ok sha256 terminated cfg lg es" "es \<noteq> []" "cf_ops cfg = jsonl_ops ascii_runtime"
    "redactor_ok cfg" "cf_sink cfg = Some FileSink" "cf_attestor cfg = None" "cf_source cfg = None"
    using sample_log_one_row by blast
  obtain cp lg' where a: "anchor sha256 cfg some_environment lg = (Inr cp, lg')"
    using jsonl_log.anchor_file_sink [OF l(3,1,2,5-7)] by blast
  from published_checkpoint_verifies [OF l(1,3,4) a] a show ?thesis by blast
qed



text \<open>C35. An entry can be counted as dropped although it is on the chain: when a log is opened on a readable trail in which
  some stored hash is not hexadecimal, the first append is written and then fails while the tree is rebuilt, so the
  best-effort call reports a lost write for an entry the trail holds.\<close>

theorem stored_entry_counted_as_dropped:
  assumes "terminated b" "jsonl_entries rt b = Inr es" "next_seq es \<noteq> 0" "res_mapM fromhex (map entry_hash es) = Inl x"
    and "new_log (jsonl_ops rt) b redactor reg attestor files source s every recorder has_path anchors = Inr (cfg, lg)"
    and "ptype \<notin> set REJECTED_PAYLOAD_TYPES" "canonical_payload cfg p = Inr pb"
    and "build_entry sha (en_now env) ptype pb (next_seq es) (next_prev es) = Inr e"
  shows "\<exists>lg'. try_append sha cfg env lg p ptype = (False, lg') \<and> lg_dropped lg' = 1
    \<and> jsonl_entries rt (lg_backend lg') = Inr (es @ [e])"
proof -
  have c: "cf_ops cfg = jsonl_ops rt" "lg_backend lg = b" "lg_merkle lg = new_merkle" "lg_dropped lg = 0"
    using assms(5) by (auto simp: new_log_def split: if_splits)
  have pay: "payload e \<noteq> None" and sq: "seq (header e) = next_seq es"
    using assms(8) by (auto simp: build_entry_def res_elims Let_def)
  let ?b = "build_entry sha (en_now env) ptype pb"
  obtain b' where a: "jsonl_append rt b ?b = (Inr e, b')"
    using jsonl_append_clean [OF assms(2), where build = ?b, OF assms(8) pay] by (metis prod.collapse)
  have st: "jsonl_entries rt b' = Inr (es @ [e])" using jsonl.append_stores [OF assms(1,2) a] by simp
  have "x = ValueError" using res_mapM_Inl [OF assms(4)] fromhex_errors by blast
  then have "from_hashes sha (map entry_hash (es @ [e])) = Inl ValueError"
    using assms(4) by (simp add: from_hashes_def from_hashes_loop_Inl res_mapM_append)
  then have "note_appended sha cfg (lg\<lparr>lg_backend := b'\<rparr>) e = (Inl ValueError, lg\<lparr>lg_backend := b'\<rparr>)"
    using assms(3) sq c jsonl_hashes_of_entries [OF st]
    by (simp add: note_appended_def new_merkle_def entry_hashes_def jsonl_ops_def)
  then have "log_append sha cfg env lg p ptype = (Inl ValueError, lg\<lparr>lg_backend := b'\<rparr>)"
    using assms(6,7) c a by (simp add: log_append_def jsonl_ops_eq)
  then show ?thesis using c st by (simp add: try_append_def)
qed

theorem stored_entry_counted_as_dropped_witness:
  "\<exists>(cfg :: jsonl config) lg lg' es. try_append sha256 cfg some_environment lg (PBytes [1]) (str ''a/b'') = (False, lg')
     \<and> jsonl_entries ascii_runtime (lg_backend lg') = Inr es \<and> length es = 2"
proof -
  let ?o = "\<lparr>header = sample_header 0 [], entry_hash = str ''zz'', payload = Some []\<rparr>"
  obtain v where v: "to_obj ?o = Inr v" using to_obj_total [of ?o] by auto
  let ?b = "empty_trail\<lparr>jl_lines := [Inr v]\<rparr>"
  have b: "terminated ?b" "jsonl_entries ascii_runtime ?b = Inr [?o]"
    by (simp_all add: terminated_def empty_trail_def jsonl_entries_def from_obj_to_obj [OF v])
  have "encodable (str ''zz'')" by (rule encodable_ascii) (auto simp: str_def)
  then obtain e where e: "build_entry sha256 (en_now some_environment) (str ''a/b'') [1] (next_seq [?o]) (next_prev [?o]) = Inr e"
    using sha256.build_sample [of "str ''zz''" 1] by (auto simp: next_seq_def next_prev_def sample_header_def some_environment_def)
  have x: "res_mapM fromhex (map entry_hash [?o]) = Inl ValueError"
    by (simp add: str_def hexval_def ascii_space_def)
  obtain cfg lg where n: "new_log (jsonl_ops ascii_runtime) ?b None (sample_registry sha256) None
      \<lparr>ak_key = None, ak_agg = None, ak_lines = []\<rparr> None None None None True [] = Inr (cfg, lg)" "cf_redactor cfg = None"
    by (simp add: new_log_def)
  have p: "str ''a/b'' \<notin> set REJECTED_PAYLOAD_TYPES" by (simp add: REJECTED_PAYLOAD_TYPES_def)
  have c: "canonical_payload cfg (PBytes [1]) = Inr [1]" using n(2) by (simp add: canonical_payload_def)
  have "next_seq [?o] \<noteq> 0" by (simp add: next_seq_def sample_header_def)
  from stored_entry_counted_as_dropped [OF b this x n(1) p c e] show ?thesis by force
qed

lemma healthy_append:
  assumes "digest32 sha" "new_registry sha = Inr reg" "terminated b" "jsonl_entries rt b = Inr es" "known_chain sha reg es"
    and "new_log (jsonl_ops rt) b redactor reg None files source s every recorder has_path anchors = Inr (cfg, lg)"
    and "redactor_ok cfg" "canonical_payload cfg p = Inr pb" "ptype \<notin> set REJECTED_PAYLOAD_TYPES"
    and "encodable (en_now env)" "encodable ptype" "encodable (str_int (int (length es)))"
  obtains e lg' where "log_append sha cfg env lg p ptype = (Inr e, lg')" "jsonl_entries rt (lg_backend lg') = Inr (es @ [e])"
    "payload e = Some pb" "seq (header e) = int (length es)" "payload_type (header e) = ptype"
proof -
  note n = new_log_ok [OF assms(6) new_registry_own [OF assms(2)] assms(3-5)]
  obtain e lg' where a: "log_append sha cfg env lg p ptype = (Inr e, lg')"
    using jsonl_log.log_append_total [OF assms(1) n(2,1) n(8) assms(8-12)] by blast
  from jsonl_log.log_append_cases [OF n(2,1) a canonical_payload_errors [OF assms(7)]]
  have k: "build_entry sha (en_now env) ptype pb (next_seq es) (next_prev es) = Inr e" "log_ok sha terminated cfg lg' (es @ [e])"
    using assms(8) by auto
  have "jsonl_entries rt (lg_backend lg') = Inr (es @ [e])"
    using k(2) n(2) fun_cong [OF jsonl_ops_eq(2), of rt "lg_backend lg'"] by (simp add: log_ok_def log_entries_def)
  then show thesis using that a known_chain_snoc [OF new_registry_own [OF assms(2)] assms(5) k(1)] by blast
qed

text \<open>C20. A healthy log does not refuse work: on a trail in order and without an attestor, every payload that has a canonical form,
  under an application type, at a time and a row number that encode, is stored; the caller gets the entry and the trail
  has it as its last row.\<close>

theorem healthy_append_succeeds:
  assumes "digest32 sha" "new_registry sha = Inr reg" "terminated b" "jsonl_entries rt b = Inr es" "known_chain sha reg es"
    and "new_log (jsonl_ops rt) b redactor reg None files source s every recorder has_path anchors = Inr (cfg, lg)"
    and "redactor_ok cfg" "canonical_payload cfg p = Inr pb" "ptype \<notin> set REJECTED_PAYLOAD_TYPES"
    and "encodable (en_now env)" "encodable ptype" "encodable (str_int (int (length es)))"
  shows "\<exists>e lg'. log_append sha cfg env lg p ptype = (Inr e, lg') \<and> payload e = Some pb
    \<and> jsonl_entries rt (lg_backend lg') = Inr (es @ [e])"
  using healthy_append [OF assms] by metis

theorem healthy_append_succeeds_witness:
  "\<exists>(cfg :: jsonl config) lg e lg'. log_append sha256 cfg \<lparr>en_now = str ''now'', en_anchor_now = [], en_drop_now = [], en_disk = True\<rparr>
      lg (PBytes [1]) (str ''a/b'') = (Inr e, lg') \<and> payload e = Some [1]"
proof -
  obtain cfg lg where n: "new_log (jsonl_ops ascii_runtime) empty_trail None (sample_registry sha256) None
      \<lparr>ak_key = None, ak_agg = None, ak_lines = []\<rparr> None None None None True [] = Inr (cfg, lg)" "cf_redactor cfg = None"
    by (simp add: new_log_def)
  have r: "redactor_ok cfg" "canonical_payload cfg (PBytes [1]) = Inr [1]"
    using n(2) by (simp_all add: redactor_ok_def canonical_payload_def)
  have e: "encodable (str ''now'')" "encodable (str ''a/b'')" "encodable (str_int (int (length ([] :: entry list))))"
    by (auto intro!: encodable_str encodable_str_int simp: length_str_int_digit)
  have t: "str ''a/b'' \<notin> set REJECTED_PAYLOAD_TYPES" by (simp add: REJECTED_PAYLOAD_TYPES_def)
  show ?thesis
    using healthy_append_succeeds [OF sha256.digest32_axioms sample_registry_new empty_trail(1,2) empty_trail(3) n(1) r t,
        where env = "\<lparr>en_now = str ''now'', en_anchor_now = [], en_drop_now = [], en_disk = True\<rparr>"] e by auto
qed

end
