(* ===== verification/Pins.thy ===== *)
theory Pins
  imports Checkpoint Verdict Json
begin

text \<open>
  What a verifier remembers and what it concludes without looking at the trail: the separation degree
  (\<^verbatim>\<open>domain/separation.py\<close>), the pin state and its file format (\<^verbatim>\<open>domain/pinning.py\<close>) and the liveness reading of a
  ledger (\<^verbatim>\<open>domain/liveness.py\<close>). The text of a pin file is what \<^verbatim>\<open>json.loads\<close> gives for it. A state read back from
  the object rendered for it is that state, undeclared fields included, and every other content is refused by name.
\<close>

section \<open>Separation\<close>

record separation_topology =
  seal_escrow :: bool
  anchor_sinks :: int
  st_witness :: bool
  pin_separate :: bool
  ledger :: "bool option"

definition separation_degree :: "separation_topology option \<Rightarrow> int option" where
  "separation_degree t =
     map_option (\<lambda>t. 1 + (if seal_escrow t then 1 else 0) + anchor_sinks t + (if st_witness t then 1 else 0)
                     + (if pin_separate t then 1 else 0) + (if ledger t = Some True then 1 else 0)) t"

definition separation_shortfall :: "separation_topology \<Rightarrow> int \<Rightarrow> bool \<Rightarrow> bool" where
  "separation_shortfall declared observed_anchor_sinks observed_witness_consistent \<longleftrightarrow>
     anchor_sinks declared > observed_anchor_sinks \<or> (st_witness declared \<and> \<not> observed_witness_consistent)"

definition ledger_shortfall :: "separation_topology \<Rightarrow> bool \<Rightarrow> bool" where
  "ledger_shortfall declared observed_ledger_ok \<longleftrightarrow> ledger declared = Some True \<and> \<not> observed_ledger_ok"

definition render_separation_degree :: "int option \<Rightarrow> pystr" where
  "render_separation_degree d = (case d of None \<Rightarrow> str ''not declared'' | Some n \<Rightarrow> str_int n)"

definition counted_authorities :: "separation_topology option \<Rightarrow> (string \<times> int) list option" where
  "counted_authorities t =
     map_option (\<lambda>t. [(''writer'', 1)] @ (if seal_escrow t then [(''seal_escrow'', 1)] else [])
                     @ (if anchor_sinks t \<noteq> 0 then [(''anchor_sinks'', anchor_sinks t)] else [])
                     @ (if st_witness t then [(''witness'', 1)] else [])
                     @ (if pin_separate t then [(''pin_separate'', 1)] else [])
                     @ (if ledger t = Some True then [(''ledger'', 1)] else [])) t"

fun plus_join :: "pystr list \<Rightarrow> pystr" where
  "plus_join [] = []"
| "plus_join [x] = x"
| "plus_join (x # xs) = x @ str '' + '' @ plus_join xs"

definition render_counted_authorities :: "(string \<times> int) list option \<Rightarrow> pystr" where
  "render_counted_authorities c =
     (case c of
        None \<Rightarrow> str ''not declared''
      | Some xs \<Rightarrow> plus_join (map (\<lambda>(name, n). str name @ [40] @ str_int n @ [41]) xs)
                   @ str '' = '' @ str_int (sum_list (map snd xs)))"

section \<open>Pin states\<close>

record pin_state =
  ps_target :: pystr
  ps_chain_id :: "pystr option"
  ps_checkpoint :: checkpoint
  ps_pinned_ts :: pystr
  declared_topology :: "separation_topology option"
  max_anchor_age_s :: "int option"
  expect_anchor_binding :: bool

definition PIN_STATE_VERSION :: int where "PIN_STATE_VERSION = 1"

definition check_pin_target :: "pin_state \<Rightarrow> pystr \<Rightarrow> pystr option \<Rightarrow> string option" where
  "check_pin_target st target chain_id =
     (if ps_target st \<noteq> target \<or> ps_chain_id st \<noteq> chain_id then Some ''pin_target_mismatch'' else None)"

definition topology_obj :: "separation_topology \<Rightarrow> jobj" where
  "topology_obj t =
     [(str ''seal_escrow'', JBool (seal_escrow t)), (str ''anchor_sinks'', JInt (anchor_sinks t)),
      (str ''witness'', JBool (st_witness t)), (str ''pin_separate'', JBool (pin_separate t))]
     @ (case ledger t of None \<Rightarrow> [] | Some b \<Rightarrow> [(str ''ledger'', JBool b)])"

definition render_pin_state :: "pin_state \<Rightarrow> jobj" where
  "render_pin_state st =
     [(str ''v'', JInt PIN_STATE_VERSION), (str ''target'', JStr (ps_target st)),
      (str ''chain_id'', case ps_chain_id st of None \<Rightarrow> JNull | Some c \<Rightarrow> JStr c),
      (str ''seq'', JInt (cp_seq (ps_checkpoint st))), (str ''entry_hash'', JStr (cp_entry_hash (ps_checkpoint st))),
      (str ''root'', JStr (cp_root (ps_checkpoint st))), (str ''pinned_ts'', JStr (ps_pinned_ts st)),
      (str ''expect_anchor_binding'', JBool (expect_anchor_binding st))]
     @ (case declared_topology st of None \<Rightarrow> [] | Some t \<Rightarrow> [(str ''declared_topology'', JObj (topology_obj t))])
     @ (case max_anchor_age_s st of None \<Rightarrow> [] | Some n \<Rightarrow> [(str ''max_anchor_age_s'', JInt n)])"

definition require_str :: "jobj \<Rightarrow> string \<Rightarrow> pystr res" where
  "require_str obj key = (case jget_null obj key of JStr s \<Rightarrow> Inr s | _ \<Rightarrow> Inl PinMalformed)"

definition pin_optional_str :: "jobj \<Rightarrow> string \<Rightarrow> pystr option res" where
  "pin_optional_str obj key =
     (case jget_null obj key of JNull \<Rightarrow> Inr None | JStr s \<Rightarrow> Inr (Some s) | _ \<Rightarrow> Inl PinMalformed)"

definition require_int :: "jobj \<Rightarrow> string \<Rightarrow> int res" where
  "require_int obj key = (case jget_null obj key of JInt n \<Rightarrow> Inr n | _ \<Rightarrow> Inl PinMalformed)"

definition pin_optional_int :: "jobj \<Rightarrow> string \<Rightarrow> int option res" where
  "pin_optional_int obj key =
     (case jget_null obj key of JNull \<Rightarrow> Inr None | JInt n \<Rightarrow> Inr (Some n) | _ \<Rightarrow> Inl PinMalformed)"

definition require_bool :: "jobj \<Rightarrow> string \<Rightarrow> bool res" where
  "require_bool obj key = (case jget_null obj key of JBool b \<Rightarrow> Inr b | _ \<Rightarrow> Inl PinMalformed)"

definition optional_bool :: "jobj \<Rightarrow> string \<Rightarrow> bool \<Rightarrow> bool res" where
  "optional_bool obj key dflt =
     (case jget_null obj key of JNull \<Rightarrow> Inr dflt | JBool b \<Rightarrow> Inr b | _ \<Rightarrow> Inl PinMalformed)"

definition optional_bool_or_none :: "jobj \<Rightarrow> string \<Rightarrow> bool option res" where
  "optional_bool_or_none obj key =
     (case jget_null obj key of JNull \<Rightarrow> Inr None | JBool b \<Rightarrow> Inr (Some b) | _ \<Rightarrow> Inl PinMalformed)"

definition optional_topology :: "jobj \<Rightarrow> string \<Rightarrow> separation_topology option res" where
  "optional_topology obj key =
     (case jget_null obj key of
        JNull \<Rightarrow> Inr None
      | JObj v \<Rightarrow>
          res_bind (require_bool v ''seal_escrow'') (\<lambda>se. res_bind (require_int v ''anchor_sinks'') (\<lambda>an.
          res_bind (require_bool v ''witness'') (\<lambda>w. res_bind (require_bool v ''pin_separate'') (\<lambda>p.
          res_bind (optional_bool_or_none v ''ledger'') (\<lambda>l.
            Inr (Some \<lparr>seal_escrow = se, anchor_sinks = an, st_witness = w, pin_separate = p, ledger = l\<rparr>))))))
      | _ \<Rightarrow> Inl PinMalformed)"

text \<open>\<open>parse_pin_state\<close>: its argument is what \<^verbatim>\<open>json.loads\<close> gives for the text of the file.\<close>

definition parse_pin_state :: "json res \<Rightarrow> pin_state res" where
  "parse_pin_state loaded =
     (case loaded of
        Inl x \<Rightarrow> if is_ValueError x \<or> x = TypeError then Inl PinMalformed else Inl x
      | Inr (JObj obj) \<Rightarrow>
          (case jget_null obj ''v'' of
             JInt version \<Rightarrow>
               if version \<noteq> PIN_STATE_VERSION then Inl PinVersionUnknown
               else
                 res_bind (require_str obj ''target'') (\<lambda>target. res_bind (pin_optional_str obj ''chain_id'') (\<lambda>chain.
                 res_bind (require_int obj ''seq'') (\<lambda>sq. res_bind (require_str obj ''entry_hash'') (\<lambda>eh.
                 res_bind (require_str obj ''root'') (\<lambda>root.
                 res_bind (make_checkpoint sq eh root None None) (\<lambda>cp.
                 res_bind (require_str obj ''pinned_ts'') (\<lambda>pts.
                 res_bind (optional_topology obj ''declared_topology'') (\<lambda>topo.
                 res_bind (pin_optional_int obj ''max_anchor_age_s'') (\<lambda>age.
                 res_bind (optional_bool obj ''expect_anchor_binding'' False) (\<lambda>expect.
                   Inr \<lparr>ps_target = target, ps_chain_id = chain, ps_checkpoint = cp, ps_pinned_ts = pts,
                        declared_topology = topo, max_anchor_age_s = age, expect_anchor_binding = expect\<rparr>))))))))))
           | _ \<Rightarrow> Inl PinMalformed)
      | Inr _ \<Rightarrow> Inl PinMalformed)"

section \<open>Liveness\<close>

definition LIVE :: string where "LIVE = ''live''"
definition DELINQUENT :: string where "DELINQUENT = ''delinquent''"
definition UNREACHABLE :: string where "UNREACHABLE = ''unreachable''"

lemmas liveness_status_defs = LIVE_def DELINQUENT_def UNREACHABLE_def

record liveness_verdict =
  lv_status :: string
  lv_reason :: "string option"
  lv_age_s :: "int option"
  lv_deadline_s :: "int option"

definition LEDGER_STATUS :: "string \<rightharpoonup> verdict" where
  "LEDGER_STATUS = [LIVE \<mapsto> OK, DELINQUENT \<mapsto> BROKEN, UNREACHABLE \<mapsto> UNVERIFIABLE]"

definition VERIFY_STATUS :: "string \<rightharpoonup> verdict" where
  "VERIFY_STATUS = [LIVE \<mapsto> OK, DELINQUENT \<mapsto> UNVERIFIABLE, UNREACHABLE \<mapsto> UNVERIFIABLE]"

definition status_lookup :: "string \<Rightarrow> (string \<rightharpoonup> verdict) \<Rightarrow> verdict res" where
  "status_lookup s table = (case table s of None \<Rightarrow> Inl ValueError | Some v \<Rightarrow> Inr v)"

definition liveness_to_verdict :: "liveness_verdict \<Rightarrow> verdict res" where
  "liveness_to_verdict v = status_lookup (lv_status v) LEDGER_STATUS"

definition to_verify_verdict :: "liveness_verdict \<Rightarrow> verdict res" where
  "to_verify_verdict v = status_lookup (lv_status v) VERIFY_STATUS"

text \<open>
  The clock: \<open>moment\<close> is \<^verbatim>\<open>_moment\<close> followed by \<^verbatim>\<open>isoformat\<close>, \<open>None\<close> where the block time is outside
  \<^verbatim>\<open>datetime\<close>'s range, and \<open>age\<close> the age of a timestamp at \<^verbatim>\<open>now\<close> in microseconds, \<open>None\<close> where the subtraction
  is refused. \<^verbatim>\<open>int(total_seconds())\<close> truncates toward zero.
\<close>

definition age_seconds :: "int \<Rightarrow> int" where
  "age_seconds us = (if us < 0 then - ((- us) div 1000000) else us div 1000000)"

definition delinquency ::
  "(int \<Rightarrow> pystr option) \<Rightarrow> (pystr \<Rightarrow> int option) \<Rightarrow> int option \<Rightarrow> int option \<Rightarrow> liveness_verdict" where
  "delinquency moment age latest_block_ts deadline_s =
     (case deadline_s of
        None \<Rightarrow> \<lparr>lv_status = UNREACHABLE, lv_reason = Some ''deadline_unavailable'', lv_age_s = None, lv_deadline_s = None\<rparr>
      | Some d \<Rightarrow>
          if (case latest_block_ts of None \<Rightarrow> False | Some b \<Rightarrow> moment b = None)
          then \<lparr>lv_status = UNREACHABLE, lv_reason = Some ''block_timestamp_unusable'', lv_age_s = None, lv_deadline_s = Some d\<rparr>
          else
            let m = Option.bind latest_block_ts moment;
                records = (case m of None \<Rightarrow> [] | Some t \<Rightarrow> [(0, t)]);
                stale = anchor_staleness age d records;
                a = (case m of None \<Rightarrow> None | Some t \<Rightarrow> map_option age_seconds (age t))
            in if stale = None
               then \<lparr>lv_status = LIVE, lv_reason = None, lv_age_s = a, lv_deadline_s = Some d\<rparr>
               else if stale = Some ''anchor_timestamp_unparseable''
               then \<lparr>lv_status = UNREACHABLE, lv_reason = stale, lv_age_s = None, lv_deadline_s = Some d\<rparr>
               else \<lparr>lv_status = DELINQUENT,
                     lv_reason = Some (if m \<noteq> None then ''ledger_delinquent'' else ''no_checkpoint_on_ledger''),
                     lv_age_s = a, lv_deadline_s = Some d\<rparr>)"

definition unreachable_ledger :: "string \<Rightarrow> liveness_verdict" where
  "unreachable_ledger rsn = \<lparr>lv_status = UNREACHABLE, lv_reason = Some rsn, lv_age_s = None, lv_deadline_s = None\<rparr>"

section \<open>Properties\<close>

lemma topology_round_trip: "optional_topology [(str ''declared_topology'', JObj (topology_obj t))] ''declared_topology'' = Inr (Some t)"
  by (cases "ledger t")
     (simp_all add: optional_topology_def topology_obj_def require_bool_def require_int_def optional_bool_or_none_def jlookup)

text \<open>A pin state survives being written and read back: parsing the object rendered for it gives the same state, with an
  undeclared topology, ledger or deadline still undeclared and a declared zero or false still declared. Stated for
  states whose checkpoint carries no aggregate binding, the only ones a pin file can hold.\<close>

theorem pin_state_round_trip:
  assumes "agg_commit (ps_checkpoint st) = None" "agg_epoch (ps_checkpoint st) = None"
  shows "parse_pin_state (Inr (JObj (render_pin_state st))) = Inr st"
proof -
  have t: "optional_topology (render_pin_state st) ''declared_topology'' = Inr (declared_topology st)"
    using topology_round_trip
    by (cases "declared_topology st"; cases "max_anchor_age_s st"; cases "ps_chain_id st")
       (simp_all add: render_pin_state_def optional_topology_def jlookup)
  have a: "pin_optional_int (render_pin_state st) ''max_anchor_age_s'' = Inr (max_anchor_age_s st)"
    by (cases "declared_topology st"; cases "max_anchor_age_s st")
       (simp_all add: render_pin_state_def pin_optional_int_def jlookup)
  have c: "pin_optional_str (render_pin_state st) ''chain_id'' = Inr (ps_chain_id st)"
    by (cases "ps_chain_id st") (simp_all add: render_pin_state_def pin_optional_str_def jlookup)
  have f: "jget_null (render_pin_state st) ''v'' = JInt PIN_STATE_VERSION"
    "require_str (render_pin_state st) ''target'' = Inr (ps_target st)"
    "require_int (render_pin_state st) ''seq'' = Inr (cp_seq (ps_checkpoint st))"
    "require_str (render_pin_state st) ''entry_hash'' = Inr (cp_entry_hash (ps_checkpoint st))"
    "require_str (render_pin_state st) ''root'' = Inr (cp_root (ps_checkpoint st))"
    "require_str (render_pin_state st) ''pinned_ts'' = Inr (ps_pinned_ts st)"
    "optional_bool (render_pin_state st) ''expect_anchor_binding'' False = Inr (expect_anchor_binding st)"
    by (simp_all add: render_pin_state_def require_str_def require_int_def optional_bool_def jlookup)
  have "make_checkpoint (cp_seq (ps_checkpoint st)) (cp_entry_hash (ps_checkpoint st)) (cp_root (ps_checkpoint st)) None None
      = Inr (ps_checkpoint st)"
    using assms by (simp add: make_checkpoint_def)
  with t a c f show ?thesis by (simp add: parse_pin_state_def)
qed

theorem pin_state_round_trip_witness:
  "parse_pin_state (Inr (JObj (render_pin_state
     \<lparr>ps_target = str ''t'', ps_chain_id = None,
      ps_checkpoint = \<lparr>cp_seq = 4, cp_entry_hash = str ''ab'', cp_root = str ''cd'', agg_commit = None, agg_epoch = None\<rparr>,
      ps_pinned_ts = str ''now'',
      declared_topology = Some \<lparr>seal_escrow = True, anchor_sinks = 0, st_witness = False, pin_separate = True, ledger = None\<rparr>,
      max_anchor_age_s = Some 0, expect_anchor_binding = True\<rparr>)))
   = Inr \<lparr>ps_target = str ''t'', ps_chain_id = None,
      ps_checkpoint = \<lparr>cp_seq = 4, cp_entry_hash = str ''ab'', cp_root = str ''cd'', agg_commit = None, agg_epoch = None\<rparr>,
      ps_pinned_ts = str ''now'',
      declared_topology = Some \<lparr>seal_escrow = True, anchor_sinks = 0, st_witness = False, pin_separate = True, ledger = None\<rparr>,
      max_anchor_age_s = Some 0, expect_anchor_binding = True\<rparr>"
  by (rule pin_state_round_trip) simp_all

text \<open>A liveness reading never says a trail was edited: whatever the contract returned and whatever the clock does, the
  reading maps to a verdict without raising, the verdict \<open>verify\<close> folds in is never a break, a reading is live exactly
  when a usable block time is within the deadline, and an age is reported only when one was measured.\<close>

theorem liveness_never_breaks_verify:
  "\<exists>v w. to_verify_verdict (delinquency moment age b d) = Inr v \<and> v \<noteq> BROKEN
     \<and> liveness_to_verdict (delinquency moment age b d) = Inr w
     \<and> (w = OK \<longleftrightarrow> (\<exists>t dl m a. b = Some t \<and> d = Some dl \<and> moment t = Some m \<and> age m = Some a \<and> a \<le> dl * 1000000))
     \<and> (v = OK \<longleftrightarrow> w = OK)
     \<and> (lv_age_s (delinquency moment age b d) \<noteq> None \<longrightarrow> (\<exists>t m. b = Some t \<and> moment t = Some m \<and> age m \<noteq> None))"
proof (cases d)
  case None
  then show ?thesis
    by (simp add: delinquency_def to_verify_verdict_def liveness_to_verdict_def status_lookup_def LEDGER_STATUS_def
        VERIFY_STATUS_def liveness_status_defs)
next
  case d: (Some dl)
  show ?thesis
  proof (cases b)
    case None
    with d show ?thesis
      by (simp add: delinquency_def to_verify_verdict_def liveness_to_verdict_def status_lookup_def LEDGER_STATUS_def
          VERIFY_STATUS_def liveness_status_defs anchor_staleness_def)
  next
    case b: (Some t)
    show ?thesis
    proof (cases "moment t")
      case None
      with d b show ?thesis
        by (simp add: delinquency_def to_verify_verdict_def liveness_to_verdict_def status_lookup_def LEDGER_STATUS_def
            VERIFY_STATUS_def liveness_status_defs)
    next
      case (Some m)
      with d b show ?thesis
        by (cases "age m") (simp_all add: delinquency_def to_verify_verdict_def liveness_to_verdict_def status_lookup_def
            LEDGER_STATUS_def VERIFY_STATUS_def liveness_status_defs anchor_staleness_def Let_def)
    qed
  qed
qed

theorem liveness_never_breaks_verify_witness:
  "to_verify_verdict (delinquency (\<lambda>t. Some (str_int t)) (\<lambda>_. Some 5000000) (Some 7) (Some 5)) = Inr OK"
  using liveness_never_breaks_verify [of "\<lambda>t. Some (str_int t)" "\<lambda>_. Some 5000000" "Some 7" "Some 5"] by auto

text \<open>The separation degree is the sum of the authorities it enumerates, and it is reported exactly when a topology was
  declared. It is at least one only when the declared number of sinks is not negative, which the pin file's reader does
  not check: a file can declare a negative one.\<close>

theorem separation_degree_is_sum_of_authorities:
  "separation_degree t = map_option (\<lambda>xs. sum_list (map snd xs)) (counted_authorities t)
   \<and> (separation_degree t = None \<longleftrightarrow> t = None)
   \<and> optional_topology [(str ''declared_topology'', JObj (topology_obj
        \<lparr>seal_escrow = False, anchor_sinks = - 3, st_witness = False, pin_separate = False, ledger = None\<rparr>))] ''declared_topology''
      = Inr (Some \<lparr>seal_escrow = False, anchor_sinks = - 3, st_witness = False, pin_separate = False, ledger = None\<rparr>)"
  using topology_round_trip
  by (cases t) (simp_all add: separation_degree_def counted_authorities_def)

end
