(* ===== verification/Abi.thy ===== *)
theory Abi
  imports PyBytes
begin

text \<open>
  The ABI codec of the ledger layer (\<^verbatim>\<open>domain/abi.py\<close>): words, dynamic values and calldata. A value that is not of the type
  the function takes has no counterpart here, the types of the model rule it out. Calldata is decodable: every argument
  is found at its head, static ones as their word and dynamic ones through the offset.
\<close>

section \<open>Encoding\<close>

definition WORD :: nat where "WORD = 32"

datatype abi_arg = Static bytes | Dynamic bytes

datatype abi_bytes32 = RawBytes bytes | HexText pystr

definition encode_uint :: "int \<Rightarrow> int \<Rightarrow> bytes res" where
  "encode_uint v bits =
     (if bits < 8 \<or> bits > 256 \<or> bits mod 8 \<noteq> 0 then Inl AbiError
      else if v < 0 then Inl AbiError
      else if v \<ge> 2 ^ nat bits then Inl AbiError
      else Inr (be_bytes WORD (nat v)))"

definition encode_bool :: "bool \<Rightarrow> bytes" where
  "encode_bool b = be_bytes WORD (if b then 1 else 0)"

definition encode_address :: "pystr \<Rightarrow> bytes res" where
  "encode_address v =
     (if take 2 v \<noteq> str ''0x'' \<or> length v \<noteq> 42 then Inl AbiError
      else (case fromhex (drop 2 v) of Inl _ \<Rightarrow> Inl AbiError | Inr raw \<Rightarrow> Inr (replicate 12 0 @ raw)))"

definition encode_bytes32 :: "abi_bytes32 \<Rightarrow> bytes res" where
  "encode_bytes32 v =
     (case v of
        RawBytes b \<Rightarrow> if length b \<noteq> WORD then Inl AbiError else Inr b
      | HexText t \<Rightarrow>
          (case fromhex (if take 2 t = str ''0x'' then drop 2 t else t) of
             Inl _ \<Rightarrow> Inl AbiError
           | Inr raw \<Rightarrow> if length raw \<noteq> WORD then Inl AbiError else Inr raw))"

definition pad_right :: "bytes \<Rightarrow> bytes" where
  "pad_right raw = (if length raw mod WORD = 0 then raw else raw @ replicate (WORD - length raw mod WORD) 0)"

definition encode_bytes :: "bytes \<Rightarrow> bytes res" where
  "encode_bytes v = res_map (\<lambda>n. n @ pad_right v) (encode_uint (int (length v)) 256)"

definition encode_string :: "pystr \<Rightarrow> bytes res" where
  "encode_string v = (case utf8_encode v of None \<Rightarrow> Inl UnicodeEncodeError | Some b \<Rightarrow> encode_bytes b)"

definition encode_bytes32_array :: "abi_bytes32 list \<Rightarrow> bytes res" where
  "encode_bytes32_array vs =
     res_bind (res_mapM encode_bytes32 vs) (\<lambda>body. res_map (\<lambda>n. n @ concat body) (encode_uint (int (length vs)) 256))"

text \<open>The loop of \<open>encode_call\<close>: the heads and the tails, with the running offset.\<close>

fun call_parts :: "nat \<Rightarrow> abi_arg list \<Rightarrow> (bytes \<times> bytes) res" where
  "call_parts off [] = Inr ([], [])"
| "call_parts off (Dynamic d # as) =
     res_bind (encode_uint (int off) 256) (\<lambda>h. res_map (\<lambda>(hs, ts). (h @ hs, d @ ts)) (call_parts (off + length d) as))"
| "call_parts off (Static w # as) =
     (if length w \<noteq> WORD then Inl AbiError else res_map (\<lambda>(hs, ts). (w @ hs, ts)) (call_parts off as))"

definition encode_call :: "bytes \<Rightarrow> abi_arg list \<Rightarrow> bytes res" where
  "encode_call selector args =
     (if length selector \<noteq> 4 then Inl AbiError
      else res_map (\<lambda>(hs, ts). selector @ hs @ ts) (call_parts (WORD * length args) args))"

section \<open>Decoding\<close>

function chunks :: "bytes \<Rightarrow> bytes list" where
  "chunks d = (if d = [] then [] else take WORD d # chunks (drop WORD d))"
  by pat_completeness auto
termination by (relation "measure length") (auto simp: WORD_def)

declare chunks.simps [simp del]

definition decode_words :: "bytes \<Rightarrow> bytes list res" where
  "decode_words data = (if length data mod WORD \<noteq> 0 then Inl AbiError else Inr (chunks data))"

definition word_of :: "bytes \<Rightarrow> bytes res" where
  "word_of v = (if length v \<noteq> WORD then Inl AbiError else Inr v)"

definition decode_uint :: "bytes \<Rightarrow> nat res" where
  "decode_uint w = res_map be_val (word_of w)"

definition decode_bool :: "bytes \<Rightarrow> bool res" where
  "decode_bool w = res_bind (decode_uint w) (\<lambda>raw. if raw > 1 then Inl AbiError else Inr (raw = 1))"

definition decode_address :: "bytes \<Rightarrow> pystr res" where
  "decode_address w =
     res_bind (word_of w) (\<lambda>raw. if take 12 raw \<noteq> replicate 12 0 then Inl AbiError
                                 else Inr (str ''0x'' @ hex (drop 12 raw)))"

definition decode_bytes32 :: "bytes \<Rightarrow> pystr res" where
  "decode_bytes32 w = res_map hex (word_of w)"

definition decode_bytes :: "bytes \<Rightarrow> nat \<Rightarrow> bytes res" where
  "decode_bytes data index =
     (let start = index * WORD in
      if start + WORD > length data then Inl AbiError
      else res_bind (decode_uint (take WORD (drop start data))) (\<lambda>offset.
        if offset mod WORD \<noteq> 0 \<or> offset + WORD > length data then Inl AbiError
        else res_bind (decode_uint (take WORD (drop offset data))) (\<lambda>len.
          if offset + WORD + len > length data then Inl AbiError
          else Inr (take len (drop (offset + WORD) data)))))"

section \<open>Selectors\<close>

definition SELECTORS :: "(string \<times> bytes) list" where
  "SELECTORS =
     [(''register(bytes)'', [130, 251, 220, 156]), (''lookup(bytes32)'', [243, 158, 193, 247]),
      (''submit(bytes32,uint64,bytes32,bytes32,bytes,bytes32[])'', [13, 13, 83, 210]),
      (''isDelinquent(bytes32)'', [240, 107, 110, 174]), (''lastSeen(bytes32)'', [26, 191, 232, 226]),
      (''deadlineOf(bytes32)'', [74, 203, 237, 227]), (''registerTrail(bytes32,address,uint64)'', [37, 127, 179, 253]),
      (''deposit()'', [208, 227, 13, 176]), (''withdraw()'', [60, 207, 214, 11]), (''bondOf(address)'', [114, 210, 182, 192]),
      (''proveEquivocation(bytes32,uint64,(uint64,bytes32,bytes32,bytes),(uint64,bytes32,bytes32,bytes))'', [22, 152, 250, 100]),
      (''proveNonExtension(bytes32,(uint64,bytes32,bytes32,bytes),(uint64,bytes32,bytes32,bytes),(uint256,bytes32,bytes32[]),(uint256,bytes32,bytes32[]))'',
       [212, 89, 167, 61])]"

text \<open>No two functions share a selector, and every selector is one \<open>encode_call\<close> takes.\<close>

lemma selectors_distinct: "distinct (map snd SELECTORS)" "\<forall>(_, sel) \<in> set SELECTORS. length sel = 4"
  by (simp_all add: SELECTORS_def)

section \<open>Words\<close>

lemma length_be_WORD [simp]: "length (be_bytes WORD n) = WORD"
  by simp

lemma encode_uint_total: "n < 2 ^ 256 \<Longrightarrow> encode_uint (int n) 256 = Inr (be_bytes WORD n)"
proof -
  assume "n < 2 ^ 256"
  then have "int n < 2 ^ 256" by (metis of_nat_less_iff of_nat_numeral of_nat_power)
  then show ?thesis by (simp add: encode_uint_def)
qed

lemma encode_uint_256: "encode_uint (int n) 256 = Inr w \<Longrightarrow> length w = WORD \<and> be_val w = n"
proof -
  assume e: "encode_uint (int n) 256 = Inr w"
  then have w: "w = be_bytes WORD n" and n: "int n < 2 ^ 256" by (auto simp: encode_uint_def split: if_splits)
  have "n < 256 ^ WORD"
  proof -
    have "(256::nat) ^ WORD = 2 ^ 256" by (simp add: WORD_def power_mult [symmetric, of 2 8 32, simplified])
    with n show ?thesis by (metis of_nat_less_iff of_nat_numeral of_nat_power)
  qed
  with w show ?thesis by (simp add: be_val_be_bytes)
qed

lemma decode_encode_word: "encode_uint (int n) 256 = Inr w \<Longrightarrow> decode_uint w = Inr n"
  using encode_uint_256 by (simp add: decode_uint_def word_of_def)

lemma length_pad_right: "32 dvd length (pad_right v)" "length v \<le> length (pad_right v)" "take (length v) (pad_right v) = v"
proof -
  have "length v + (32 - length v mod 32) = 32 * (length v div 32 + 1)"
  proof -
    have "n + (32 - r) = 32 * (q + 1)" if "n = q * 32 + r" "r < 32" for n q r :: nat using that by simp
    from this [of "length v" "length v div 32" "length v mod 32"] show ?thesis by simp
  qed
  then have "32 dvd length v + (32 - length v mod 32)" by simp
  then show "32 dvd length (pad_right v)" by (auto simp: pad_right_def WORD_def)
  show "length v \<le> length (pad_right v)" "take (length v) (pad_right v) = v" by (simp_all add: pad_right_def)
qed

text \<open>Where the loop puts each argument.\<close>

lemma call_parts_Dynamic:
  assumes "call_parts off (Dynamic d # as) = Inr (h, t)"
  obtains w hs ts where "length w = WORD" "decode_uint w = Inr off" "call_parts (off + length d) as = Inr (hs, ts)"
    "h = w @ hs" "t = d @ ts"
proof -
  obtain w hs ts where "encode_uint (int off) 256 = Inr w" "call_parts (off + length d) as = Inr (hs, ts)" "h = w @ hs" "t = d @ ts"
    using assms by (auto simp: res_elims)
  with encode_uint_256 decode_encode_word that show ?thesis by blast
qed

lemma call_parts_Static:
  assumes "call_parts off (Static w # as) = Inr (h, t)"
  obtains hs where "length w = WORD" "call_parts off as = Inr (hs, t)" "h = w @ hs"
  using assms by (auto simp: res_elims split: if_splits)

lemma call_parts_heads: "call_parts off args = Inr (h, t) \<Longrightarrow> length h = WORD * length args"
proof (induction args arbitrary: off h t)
  case (Cons a as)
  show ?case
  proof (cases a)
    case (Static w)
    then show ?thesis using Cons by (auto elim!: call_parts_Static simp del: call_parts.simps)
  next
    case (Dynamic d)
    then show ?thesis using Cons by (auto elim!: call_parts_Dynamic simp del: call_parts.simps)
  qed
qed simp

lemma call_parts_static:
  "call_parts off args = Inr (h, t) \<Longrightarrow> i < length args \<Longrightarrow> args ! i = Static w \<Longrightarrow> take WORD (drop (i * WORD) h) = w"
proof (induction args arbitrary: off h t i)
  case (Cons a as)
  show ?case
  proof (cases a)
    case (Static v)
    with Cons.prems(1) obtain hs where "length v = WORD" "call_parts off as = Inr (hs, t)" "h = v @ hs"
      by (metis call_parts_Static)
    with Static Cons.IH Cons.prems(2,3) show ?thesis by (cases i) auto
  next
    case (Dynamic d)
    with Cons.prems(1) obtain x hs ts where "length x = WORD" "call_parts (off + length d) as = Inr (hs, ts)" "h = x @ hs"
      by (metis call_parts_Dynamic)
    with Dynamic Cons.IH Cons.prems(2,3) show ?thesis by (cases i) auto
  qed
qed simp

lemma call_parts_dynamic:
  "call_parts off args = Inr (h, t) \<Longrightarrow> i < length args \<Longrightarrow> args ! i = Dynamic d \<Longrightarrow>
   \<forall>d'. Dynamic d' \<in> set args \<longrightarrow> 32 dvd length d' \<Longrightarrow>
   \<exists>pre post. decode_uint (take WORD (drop (i * WORD) h)) = Inr (off + length pre) \<and> t = pre @ d @ post \<and> 32 dvd length pre"
proof (induction args arbitrary: off h t i)
  case (Cons a as)
  show ?case
  proof (cases a)
    case (Static w)
    with Cons.prems(1) obtain hs where p: "length w = WORD" "call_parts off as = Inr (hs, t)" "h = w @ hs"
      by (metis call_parts_Static)
    obtain j where "i = Suc j" using Static Cons.prems(3) by (cases i) auto
    with p Cons.IH [OF p(2), of j] Cons.prems(2-4) show ?thesis by auto
  next
    case (Dynamic e)
    with Cons.prems(1) obtain w hs ts where p: "length w = WORD" "decode_uint w = Inr off"
      "call_parts (off + length e) as = Inr (hs, ts)" "h = w @ hs" "t = e @ ts"
      by (metis call_parts_Dynamic)
    show ?thesis
    proof (cases i)
      case 0
      then have "d = e" using Dynamic Cons.prems(3) by simp
      with 0 p show ?thesis by (intro exI [of _ "[]"] exI [of _ ts]) simp
    next
      case (Suc j)
      have "\<exists>pre post. decode_uint (take WORD (drop (j * WORD) hs)) = Inr (off + length e + length pre)
          \<and> ts = pre @ d @ post \<and> 32 dvd length pre"
        using Cons.IH [OF p(3), of j] Cons.prems(2-4) Suc by simp
      then obtain pre post where q: "decode_uint (take WORD (drop (j * WORD) hs)) = Inr (off + length e + length pre)"
        "ts = pre @ d @ post" "32 dvd length pre" by blast
      have "32 dvd length e" using Cons.prems(4) Dynamic by simp
      with q Suc p show ?thesis by (intro exI [of _ "e @ pre"] exI [of _ post]) (simp add: add.assoc)
    qed
  qed
qed simp

lemma call_layout:
  assumes "encode_call selector args = Inr data"
  shows "\<exists>h t. call_parts (WORD * length args) args = Inr (h, t) \<and> drop 4 data = h @ t \<and> length selector = 4"
  using assms by (auto simp: encode_call_def res_elims split: if_splits)

section \<open>Properties\<close>

text \<open>Calldata is decodable at every position: in an encoded call, past the selector, the head word of a static argument is
  that argument, and following the head of a dynamic \<open>bytes\<close> argument gives back exactly its bytes, whatever the other
  arguments are, as long as every dynamic one is padded to whole words, as the encoders make them.\<close>

theorem encoded_call_decodes:
  assumes "encode_call selector args = Inr data" "i < length args"
    and "\<forall>d'. Dynamic d' \<in> set args \<longrightarrow> 32 dvd length d'"
  shows "take 4 data = selector
    \<and> (case args ! i of
         Static w \<Rightarrow> take WORD (drop (i * WORD) (drop 4 data)) = w
       | Dynamic d \<Rightarrow> (\<forall>v. encode_bytes v = Inr d \<longrightarrow> decode_bytes (drop 4 data) i = Inr v))"
proof -
  obtain h t where p: "call_parts (WORD * length args) args = Inr (h, t)" "drop 4 data = h @ t" "length selector = 4"
    using call_layout [OF assms(1)] by blast
  have lh: "length h = WORD * length args" by (rule call_parts_heads [OF p(1)])
  have iw: "i * WORD + WORD \<le> length h" using assms(2) unfolding lh by (metis Suc_leI mult.commute mult_Suc_right mult_le_mono2 add.commute)
  have sel: "take 4 data = selector"
    using assms(1) p(3) by (auto simp: encode_call_def res_elims)
  have dyn: "decode_bytes (h @ t) i = Inr v" if d: "args ! i = Dynamic d" "encode_bytes v = Inr d" for d v
  proof -
    obtain pre post where q: "decode_uint (take WORD (drop (i * WORD) h)) = Inr (length h + length pre)"
      "t = pre @ d @ post" "32 dvd length pre"
      using call_parts_dynamic [OF p(1) assms(2) d(1) assms(3)] lh by auto
    obtain n where n: "encode_uint (int (length v)) 256 = Inr n" "d = n @ pad_right v"
      using d(2) by (auto simp: encode_bytes_def res_elims)
    have w: "length n = WORD" "decode_uint n = Inr (length v)"
      using encode_uint_256 [OF n(1)] decode_encode_word [OF n(1)] by simp_all
    have "(length h + length pre) mod WORD = 0" using lh q(3) by (simp add: WORD_def mod_eq_0_iff_dvd)
    moreover have "take WORD (drop (i * WORD) (h @ t)) = take WORD (drop (i * WORD) h)"
      using iw by (simp add: drop_append take_append)
    moreover have "drop (length h + length pre) (h @ t) = n @ pad_right v @ post" by (simp add: q(2) n(2))
    moreover have "drop (length h + length pre + WORD) (h @ t) = pad_right v @ post"
      by (simp add: q(2) n(2) w(1) add.assoc flip: drop_drop)
    ultimately show ?thesis
      using iw q(1) w length_pad_right(2,3) [of v] by (simp add: decode_bytes_def Let_def q(2) n(2) take_append)
  qed
  show ?thesis
    using sel dyn call_parts_static [OF p(1) assms(2)] p(2) iw
    by (auto split: abi_arg.splits simp: take_append drop_append)
qed

theorem encoded_call_decodes_witness:
  "\<exists>data. encode_call [1, 2, 3, 4] [Static (be_bytes WORD 7), Dynamic (be_bytes WORD 1 @ pad_right [9])] = Inr data
     \<and> decode_bytes (drop 4 data) 1 = Inr [9]"
proof -
  have e: "encode_bytes [9] = Inr (be_bytes WORD 1 @ pad_right [9])"
    by (simp add: encode_bytes_def encode_uint_def)
  have "\<exists>p. call_parts (WORD + WORD) [Static (be_bytes WORD 7), Dynamic (be_bytes WORD 1 @ pad_right [9])] = Inr p"
    by (simp add: encode_uint_def WORD_def)
  then obtain data where d: "encode_call [1, 2, 3, 4] [Static (be_bytes WORD 7), Dynamic (be_bytes WORD 1 @ pad_right [9])] = Inr data"
    by (auto simp: encode_call_def mult_2_right simp del: call_parts.simps)
  have "\<forall>d'. Dynamic d' \<in> set [Static (be_bytes WORD 7), Dynamic (be_bytes WORD 1 @ pad_right [9])] \<longrightarrow> 32 dvd length d'"
    by (simp add: pad_right_def WORD_def)
  from encoded_call_decodes [OF d, of 1, OF _ this] e d show ?thesis by simp
qed

text \<open>The word codecs invert each other on their whole range: an unsigned integer is encoded exactly when it fits its width,
  into one word that decodes to it, and a boolean, an address word and a 32-byte word read back as what they were made
  from. An address text with blanks among its digits is accepted and encoded into fewer than 32 bytes.\<close>

theorem abi_words_round_trip:
  assumes "8 \<le> bits" "bits \<le> 256" "bits mod 8 = 0"
  shows "(if 0 \<le> v \<and> v < 2 ^ nat bits then res_bind (encode_uint v bits) decode_uint = Inr (nat v)
          else encode_uint v bits = Inl AbiError)
   \<and> decode_bool (encode_bool b) = Inr b
   \<and> (length raw = 20 \<longrightarrow> res_bind (encode_address (str ''0x'' @ hex raw)) decode_address = Inr (str ''0x'' @ hex raw))
   \<and> (length word = 32 \<longrightarrow> res_bind (encode_bytes32 (RawBytes word)) decode_bytes32 = Inr (hex word))
   \<and> res_map length (encode_address (str ''0x'' @ replicate 38 48 @ [32, 32])) = Inr 31"
proof (intro conjI impI)
  have "res_bind (encode_uint v bits) decode_uint = Inr (nat v)" if v: "0 \<le> v" "v < 2 ^ nat bits"
  proof -
    have "(2::int) ^ nat bits \<le> 2 ^ 256" using assms(1,2) by (intro power_increasing) auto
    then have "v < 2 ^ 256" using v(2) by (rule less_le_trans [rotated])
    then have "encode_uint (int (nat v)) 256 = Inr (be_bytes WORD (nat v))" using v(1) by (simp add: encode_uint_def)
    from decode_encode_word [OF this] show ?thesis using assms v by (simp add: encode_uint_def)
  qed
  moreover have "encode_uint v bits = Inl AbiError" if "\<not> (0 \<le> v \<and> v < 2 ^ nat bits)"
    using that by (auto simp: encode_uint_def)
  ultimately show "if 0 \<le> v \<and> v < 2 ^ nat bits then res_bind (encode_uint v bits) decode_uint = Inr (nat v)
      else encode_uint v bits = Inl AbiError" by simp
  show "decode_bool (encode_bool b) = Inr b"
    by (cases b) (simp_all add: decode_bool_def encode_bool_def decode_uint_def word_of_def be_val_be_bytes WORD_def)
  show "length raw = 20 \<Longrightarrow> res_bind (encode_address (str ''0x'' @ hex raw)) decode_address = Inr (str ''0x'' @ hex raw)"
    by (simp add: encode_address_def decode_address_def word_of_def WORD_def str_def)
  show "length word = 32 \<Longrightarrow> res_bind (encode_bytes32 (RawBytes word)) decode_bytes32 = Inr (hex word)"
    by (simp add: encode_bytes32_def decode_bytes32_def word_of_def WORD_def)
  have "fromhex (replicate (2 * n) 48 @ [32, 32]) = Inr (replicate n 0)" for n
    by (induction n) (simp_all add: hexval_def ascii_space_def)
  from this [of 19] show "res_map length (encode_address (str ''0x'' @ replicate 38 48 @ [32, 32])) = Inr 31"
    by (simp add: encode_address_def str_def)
qed

theorem abi_words_round_trip_witness:
  "res_bind (encode_uint 255 8) decode_uint = Inr 255 \<and> encode_uint 256 8 = Inl AbiError"
  using abi_words_round_trip [of 8 255] abi_words_round_trip [of 8 256] by simp

end
