(* ===== verification/Bond.thy ===== *)
theory Bond
  imports Consistency Checkpoint Verdict
begin

text \<open>
  Bonded checkpoints (\<^verbatim>\<open>domain/bond.py\<close>): what a writer signs, the two shapes of fraud evidence and the bond status. The
  signature itself is the contract's business and not here. An honest writer cannot be convicted: the checkpoints of one
  growing trail are never an equivocation, and two inclusion proofs that hold against them name the same leaf, absent a
  hash collision; conversely two trees that differ at an index both cover always have a divergent leaf to show.
\<close>

section \<open>What is signed\<close>

definition LEDGER_CHECKPOINT_SIG_PREFIX :: bytes where
  "LEDGER_CHECKPOINT_SIG_PREFIX = asc ''waxseal-ledger-checkpoint-sig-v1'' @ [10]"

definition trail_id_for :: "(bytes \<Rightarrow> bytes) \<Rightarrow> pystr \<Rightarrow> bytes res" where
  "trail_id_for sha chain_id = (case utf8_encode chain_id of None \<Rightarrow> Inl LpEncodingError | Some b \<Rightarrow> Inr (sha b))"

definition signing_frame :: "(bytes \<Rightarrow> bytes) \<Rightarrow> pystr \<Rightarrow> checkpoint \<Rightarrow> bytes res" where
  "signing_frame sha chain_id cp =
     res_bind (pack_Q 2) (\<lambda>n. res_bind (trail_id_for sha chain_id) (\<lambda>tid. res_bind (lp (Str (hex tid))) (\<lambda>t.
     res_map (\<lambda>f. LEDGER_CHECKPOINT_SIG_PREFIX @ n @ t @ f) (checkpoint_frame cp))))"

definition checkpoint_signing_digest :: "(bytes \<Rightarrow> bytes) \<Rightarrow> pystr \<Rightarrow> checkpoint \<Rightarrow> bytes res" where
  "checkpoint_signing_digest sha chain_id cp = res_map sha (signing_frame sha chain_id cp)"

section \<open>Fraud evidence\<close>

record equivocation_proof =
  eq_chain_id :: pystr
  checkpoint_a :: checkpoint
  signature_a :: bytes
  checkpoint_b :: checkpoint
  signature_b :: bytes

definition equivocation_digests :: "(bytes \<Rightarrow> bytes) \<Rightarrow> equivocation_proof \<Rightarrow> (bytes \<times> bytes) res" where
  "equivocation_digests sha p =
     res_bind (checkpoint_signing_digest sha (eq_chain_id p) (checkpoint_a p)) (\<lambda>a.
     res_map (Pair a) (checkpoint_signing_digest sha (eq_chain_id p) (checkpoint_b p)))"

definition equivocation_validate :: "equivocation_proof \<Rightarrow> string option" where
  "equivocation_validate p =
     (if signature_a p = [] \<or> signature_b p = [] then Some ''missing_signature''
      else if cp_seq (checkpoint_a p) \<noteq> cp_seq (checkpoint_b p) then Some ''seq_mismatch''
      else if cp_entry_hash (checkpoint_a p) = cp_entry_hash (checkpoint_b p)
              \<and> cp_root (checkpoint_a p) = cp_root (checkpoint_b p) then Some ''not_divergent''
      else None)"

record non_extension_challenge =
  nc_chain_id :: pystr
  nc_older :: checkpoint
  nc_newer :: checkpoint
  nc_proof :: "pystr list"

definition challenge_validate :: "non_extension_challenge \<Rightarrow> string option" where
  "challenge_validate c = (if cp_seq (nc_newer c) \<le> cp_seq (nc_older c) then Some ''seq_not_advancing'' else None)"

definition extension_holds :: "(bytes \<Rightarrow> bytes) \<Rightarrow> non_extension_challenge \<Rightarrow> bool" where
  "extension_holds sha c =
     verify_consistency sha (cp_root (nc_older c)) (cp_seq (nc_older c) + 1) (cp_root (nc_newer c)) (cp_seq (nc_newer c) + 1) (nc_proof c)"

record divergent_leaf =
  dl_index :: int
  dl_entry_hash :: pystr
  dl_proof :: "pystr list"

record non_extension_proof =
  ne_chain_id :: pystr
  ne_older :: checkpoint
  ne_newer :: checkpoint
  older_signature :: bytes
  newer_signature :: bytes
  in_older :: divergent_leaf
  in_newer :: divergent_leaf

definition non_extension_digests :: "(bytes \<Rightarrow> bytes) \<Rightarrow> non_extension_proof \<Rightarrow> (bytes \<times> bytes) res" where
  "non_extension_digests sha p =
     res_bind (checkpoint_signing_digest sha (ne_chain_id p) (ne_older p)) (\<lambda>a.
     res_map (Pair a) (checkpoint_signing_digest sha (ne_chain_id p) (ne_newer p)))"

definition non_extension_validate :: "non_extension_proof \<Rightarrow> string option" where
  "non_extension_validate p =
     (if older_signature p = [] \<or> newer_signature p = [] then Some ''missing_signature''
      else if cp_seq (ne_newer p) \<le> cp_seq (ne_older p) then Some ''seq_not_advancing''
      else if dl_index (in_older p) \<noteq> dl_index (in_newer p) then Some ''leaf_index_differs''
      else if dl_index (in_older p) > cp_seq (ne_older p) then Some ''leaf_outside_older_tree''
      else if dl_entry_hash (in_older p) = dl_entry_hash (in_newer p) then Some ''leaves_agree''
      else None)"

definition divergence_holds :: "(bytes \<Rightarrow> bytes) \<Rightarrow> non_extension_proof \<Rightarrow> bool" where
  "divergence_holds sha p \<longleftrightarrow>
     verify_membership sha (dl_entry_hash (in_older p)) (dl_index (in_older p)) (cp_seq (ne_older p) + 1)
       (dl_proof (in_older p)) (cp_root (ne_older p))
     \<and> verify_membership sha (dl_entry_hash (in_newer p)) (dl_index (in_newer p)) (cp_seq (ne_newer p) + 1)
       (dl_proof (in_newer p)) (cp_root (ne_newer p))"

section \<open>Bond status\<close>

definition BONDED :: string where "BONDED = ''bonded''"
definition SLASHED :: string where "SLASHED = ''slashed''"
definition UNBONDED :: string where "UNBONDED = ''unbonded''"
definition BOND_UNREACHABLE :: string where "BOND_UNREACHABLE = ''unreachable''"

lemmas bond_status_defs = BONDED_def SLASHED_def UNBONDED_def BOND_UNREACHABLE_def

record bond_status =
  bs_writer_id :: pystr
  bs_status :: string
  amount_wei :: "int option"
  bs_reason :: "string option"

definition BOND_STATUS :: "string \<rightharpoonup> verdict" where
  "BOND_STATUS = [BONDED \<mapsto> OK, SLASHED \<mapsto> BROKEN, UNBONDED \<mapsto> BROKEN, BOND_UNREACHABLE \<mapsto> UNVERIFIABLE]"

definition bond_to_verdict :: "bond_status \<Rightarrow> verdict res" where
  "bond_to_verdict b = (case BOND_STATUS (bs_status b) of None \<Rightarrow> Inl ValueError | Some v \<Rightarrow> Inr v)"

definition bond_status_for :: "pystr \<Rightarrow> int \<Rightarrow> bool \<Rightarrow> bond_status" where
  "bond_status_for writer amount slashed =
     (if slashed then \<lparr>bs_writer_id = writer, bs_status = SLASHED, amount_wei = Some amount, bs_reason = Some ''bond_slashed''\<rparr>
      else if amount \<le> 0
      then \<lparr>bs_writer_id = writer, bs_status = UNBONDED, amount_wei = Some amount, bs_reason = Some ''no_bond_posted''\<rparr>
      else \<lparr>bs_writer_id = writer, bs_status = BONDED, amount_wei = Some amount, bs_reason = None\<rparr>)"

definition unreachable_bond :: "pystr \<Rightarrow> string \<Rightarrow> bond_status" where
  "unreachable_bond writer rsn =
     \<lparr>bs_writer_id = writer, bs_status = BOND_UNREACHABLE, amount_wei = None, bs_reason = Some rsn\<rparr>"

section \<open>An honest writer\<close>

lemma checkpoint_for_fields:
  assumes "checkpoint_for sha hs c ep None = Inr cp"
  shows "hs \<noteq> [] \<and> cp_seq cp = int (length hs) - 1 \<and> cp_entry_hash cp = last hs \<and> batch_root sha hs = Inr (cp_root cp)
    \<and> whole_binding cp"
  using assms make_checkpoint_whole
  by (auto simp: checkpoint_for_def make_checkpoint_def whole_binding_def res_elims split: if_splits)

lemma checkpoint_for_size: "checkpoint_for sha hs c ep None = Inr cp \<Longrightarrow> cp_seq cp + 1 = int (length hs)"
  using checkpoint_for_fields by fastforce

text \<open>Checkpoints of prefixes of one trail are never an equivocation: at one position there is one prefix.\<close>

lemma prefix_checkpoints_agree:
  assumes "checkpoint_for sha (take i hs) c ep None = Inr (checkpoint_a p)"
    and "checkpoint_for sha (take j hs) c' ep' None = Inr (checkpoint_b p)"
  shows "equivocation_validate p \<noteq> None"
proof (cases "cp_seq (checkpoint_a p) = cp_seq (checkpoint_b p)")
  case True
  then have "length (take i hs) = length (take j hs)"
    using checkpoint_for_size [OF assms(1)] checkpoint_for_size [OF assms(2)] by linarith
  then have "take i hs = take j hs" by (metis length_take min_def nat_le_linear take_all)
  then show ?thesis
    using checkpoint_for_fields [OF assms(1)] checkpoint_for_fields [OF assms(2)] by (simp add: equivocation_validate_def)
qed (simp add: equivocation_validate_def)

text \<open>One divergent leaf claim against an honest checkpoint names the trail's own entry.\<close>

lemma leaf_claim_binds:
  assumes "digest32 sha" and "checkpoint_for sha hs c ep None = Inr cp" and "membership_proof sha hs (dl_index l) = Inr pf"
    and "verify_membership sha (dl_entry_hash l) (dl_index l) (cp_seq cp + 1) (dl_proof l) (cp_root cp)"
    and "inj_on sha (membership_inputs sha (dl_entry_hash l) (dl_index l) (int (length hs)) (dl_proof l)
           \<union> membership_inputs sha (hs ! nat (dl_index l)) (dl_index l) (int (length hs)) pf)"
  shows "fromhex (dl_entry_hash l) = fromhex (hs ! nat (dl_index l))"
proof -
  have root: "batch_root sha hs = Inr (cp_root cp)" using checkpoint_for_fields [OF assms(2)] by simp
  show ?thesis
    using digest32.verify_membership_binding [OF assms(1) _ verify_membership_complete [OF root assms(3)] assms(5)]
      assms(4) unfolding checkpoint_for_size [OF assms(2)] by blast
qed

lemma leaf_claim_complete:
  assumes "checkpoint_for sha hs c ep None = Inr cp" and "0 \<le> i" "i < int (length hs)"
  obtains pf where "membership_proof sha hs i = Inr pf"
    and "verify_membership sha (hs ! nat i) i (cp_seq cp + 1) pf (cp_root cp)"
proof -
  have root: "batch_root sha hs = Inr (cp_root cp)" using checkpoint_for_fields [OF assms(1)] by simp
  obtain pf where pf: "membership_proof sha hs i = Inr pf" using membership_proof_total [OF root assms(2,3)] by blast
  show thesis
    by (rule that [OF pf]) (use verify_membership_complete [OF root pf] checkpoint_for_size [OF assms(1)] in simp)
qed

text \<open>The inclusion check only reads the entry hash through its decoding.\<close>

lemma verify_membership_spelling:
  "fromhex eh' = fromhex eh \<Longrightarrow> verify_membership sha eh' i n pf root = verify_membership sha eh i n pf root"
  by (simp add: verify_membership_def)

lemma signing_frame_inj:
  assumes "whole_binding a" "whole_binding b" and "signing_frame sha x a = Inr f" "signing_frame sha y b = Inr f"
  shows "trail_id_for sha x = trail_id_for sha y \<and> a = b"
proof -
  obtain n t u ca where a: "pack_Q 2 = Inr n" "trail_id_for sha x = Inr t" "lp (Str (hex t)) = Inr u"
      "checkpoint_frame a = Inr ca" "f = LEDGER_CHECKPOINT_SIG_PREFIX @ n @ u @ ca"
    using assms(3) by (auto simp: signing_frame_def res_elims)
  obtain t' u' cb where b: "trail_id_for sha y = Inr t'" "lp (Str (hex t')) = Inr u'"
      "checkpoint_frame b = Inr cb" "f = LEDGER_CHECKPOINT_SIG_PREFIX @ n @ u' @ cb"
    using assms(4) a(1) by (auto simp: signing_frame_def res_elims)
  have "Str (hex t) = Str (hex t') \<and> ca = cb"
    using lp_self_delimiting [OF a(3) b(2), of ca cb] a(5) b(4) by simp
  then show ?thesis
    using a b checkpoint_frame_inj [OF assms(1,2) a(4)] hex_inj by simp
qed

section \<open>Properties\<close>

text \<open>C30. An honest writer cannot be convicted by a divergent leaf: when both checkpoints are of one growing trail, every
  submission the verifier accepts names, in both trees, the entry hash the trail has at that index, absent a
  collision among what the proofs hash.\<close>

theorem honest_writer_not_convicted:
  assumes "digest32 sha" and "checkpoint_for sha hs c ep None = Inr (ne_older p)"
    and "checkpoint_for sha (hs @ later) c' ep' None = Inr (ne_newer p)"
    and "non_extension_validate p = None" "divergence_holds sha p"
    and "membership_proof sha hs (dl_index (in_older p)) = Inr pf"
    and "membership_proof sha (hs @ later) (dl_index (in_newer p)) = Inr pf'"
    and "inj_on sha (membership_inputs sha (dl_entry_hash (in_older p)) (dl_index (in_older p)) (int (length hs)) (dl_proof (in_older p))
           \<union> membership_inputs sha (hs ! nat (dl_index (in_older p))) (dl_index (in_older p)) (int (length hs)) pf)"
    and "inj_on sha (membership_inputs sha (dl_entry_hash (in_newer p)) (dl_index (in_newer p)) (int (length (hs @ later))) (dl_proof (in_newer p))
           \<union> membership_inputs sha ((hs @ later) ! nat (dl_index (in_newer p))) (dl_index (in_newer p)) (int (length (hs @ later))) pf')"
  shows "fromhex (dl_entry_hash (in_older p)) = fromhex (hs ! nat (dl_index (in_older p)))
    \<and> fromhex (dl_entry_hash (in_newer p)) = fromhex (dl_entry_hash (in_older p))"
proof -
  have d: "verify_membership sha (dl_entry_hash (in_older p)) (dl_index (in_older p)) (cp_seq (ne_older p) + 1)
       (dl_proof (in_older p)) (cp_root (ne_older p))"
     "verify_membership sha (dl_entry_hash (in_newer p)) (dl_index (in_newer p)) (cp_seq (ne_newer p) + 1)
       (dl_proof (in_newer p)) (cp_root (ne_newer p))"
    using assms(5) by (simp_all add: divergence_holds_def)
  have i: "dl_index (in_newer p) = dl_index (in_older p)" "nat (dl_index (in_older p)) < length hs"
    using assms(4,6) by (auto simp: non_extension_validate_def membership_proof_def res_elims split: if_splits)
  show ?thesis
    using leaf_claim_binds [OF assms(1,2,6) d(1) assms(8)] leaf_claim_binds [OF assms(1,3,7) d(2) assms(9)] i
    by (simp add: nth_append)
qed

text \<open>A fork can always be shown: when a writer has signed checkpoints of two trails that differ at an index both
  cover, the longer as the newer, there is a submission both checks accept.\<close>

theorem fork_is_provable:
  assumes "checkpoint_for sha hs c ep None = Inr older" and "checkpoint_for sha hs' c' ep' None = Inr newer"
    and "length hs < length hs'" and "i < length hs" and "hs ! i \<noteq> hs' ! i" and "sig \<noteq> []" "sig' \<noteq> []"
  shows "\<exists>p. ne_older p = older \<and> ne_newer p = newer \<and> older_signature p = sig \<and> newer_signature p = sig'
    \<and> non_extension_validate p = None \<and> divergence_holds sha p"
proof -
  obtain pf where pf: "verify_membership sha (hs ! nat (int i)) (int i) (cp_seq older + 1) pf (cp_root older)"
    by (rule leaf_claim_complete [OF assms(1), of "int i"]) (use assms(4) in auto)
  obtain pf' where pf': "verify_membership sha (hs' ! nat (int i)) (int i) (cp_seq newer + 1) pf' (cp_root newer)"
    by (rule leaf_claim_complete [OF assms(2), of "int i"]) (use assms(3,4) in auto)
  let ?p = "\<lparr>ne_chain_id = [], ne_older = older, ne_newer = newer, older_signature = sig, newer_signature = sig',
    in_older = \<lparr>dl_index = int i, dl_entry_hash = hs ! i, dl_proof = pf\<rparr>,
    in_newer = \<lparr>dl_index = int i, dl_entry_hash = hs' ! i, dl_proof = pf'\<rparr>\<rparr>"
  have "non_extension_validate ?p = None"
    using assms(3-7) checkpoint_for_fields [OF assms(1)] checkpoint_for_fields [OF assms(2)]
    by (simp add: non_extension_validate_def)
  moreover have "divergence_holds sha ?p" using pf pf' by (simp add: divergence_holds_def)
  ultimately show ?thesis by (intro exI [of _ ?p]) simp
qed

theorem fork_is_provable_witness:
  "\<exists>p :: non_extension_proof. non_extension_validate p = None \<and> divergence_holds sha256 p"
proof -
  have h: "res_mapM fromhex [str ''ab''] = Inr [[171]]" "res_mapM fromhex [str ''01'', str ''02''] = Inr [[1], [2]]"
    by (simp_all add: str_def ascii_space_def hexval_def)
  obtain a b where "checkpoint_for sha256 [str ''ab''] None None None = Inr a"
    "checkpoint_for sha256 [str ''01'', str ''02''] None None None = Inr b"
    using h by (auto simp: checkpoint_for_def batch_root_def make_checkpoint_def)
  from fork_is_provable [OF this, of 0 "[1]" "[1]"] show ?thesis by (auto simp: str_def)
qed

text \<open>The divergence check compares the two leaves as strings but proves them as decoded bytes, so one leaf spelled two
  ways passes for a fork: for every honest trail and every extension of it, any second spelling of an entry hash gives
  a submission that both checks accept, although the trees agree.\<close>

theorem honest_writer_divergence_by_spelling:
  assumes "checkpoint_for sha hs c ep None = Inr older" and "checkpoint_for sha (hs @ later) c' ep' None = Inr newer"
    and "later \<noteq> []" and "i < length hs" and "fromhex eh = fromhex (hs ! i)" and "eh \<noteq> hs ! i"
  shows "\<exists>p. ne_older p = older \<and> ne_newer p = newer \<and> non_extension_validate p = None \<and> divergence_holds sha p"
proof -
  obtain pf where pf: "verify_membership sha (hs ! nat (int i)) (int i) (cp_seq older + 1) pf (cp_root older)"
    by (rule leaf_claim_complete [OF assms(1), of "int i"]) (use assms(4) in auto)
  obtain pf' where "verify_membership sha ((hs @ later) ! nat (int i)) (int i) (cp_seq newer + 1) pf' (cp_root newer)"
    by (rule leaf_claim_complete [OF assms(2), of "int i"]) (use assms(4) in auto)
  then have pf': "verify_membership sha eh (int i) (cp_seq newer + 1) pf' (cp_root newer)"
    using assms(4,5) by (subst verify_membership_spelling [of eh "hs ! i"]) (simp_all add: nth_append)
  let ?p = "\<lparr>ne_chain_id = [], ne_older = older, ne_newer = newer, older_signature = [1], newer_signature = [1],
    in_older = \<lparr>dl_index = int i, dl_entry_hash = hs ! i, dl_proof = pf\<rparr>,
    in_newer = \<lparr>dl_index = int i, dl_entry_hash = eh, dl_proof = pf'\<rparr>\<rparr>"
  have "non_extension_validate ?p = None"
    using assms(3-6) checkpoint_for_fields [OF assms(1)] checkpoint_for_fields [OF assms(2)]
    by (auto simp: non_extension_validate_def)
  moreover have "divergence_holds sha ?p" using pf pf' by (simp add: divergence_holds_def)
  ultimately show ?thesis by (intro exI [of _ ?p]) simp
qed

lemma sample_spelling: "fromhex (str ''AB'') = fromhex (str ''ab'')" "str ''AB'' \<noteq> str ''ab''"
  by (simp_all add: str_def ascii_space_def hexval_def)

lemma sample_growth:
  obtains a b where "checkpoint_for sha [str ''ab''] None None None = Inr a"
    and "checkpoint_for sha ([str ''ab''] @ [str ''02'']) None None None = Inr b"
proof -
  have h: "res_mapM fromhex [str ''ab''] = Inr [[171]]" "res_mapM fromhex [str ''ab'', str ''02''] = Inr [[171], [2]]"
    by (simp_all add: str_def ascii_space_def hexval_def)
  then show thesis by (intro that) (auto simp: checkpoint_for_def batch_root_def make_checkpoint_def)
qed

theorem honest_writer_divergence_by_spelling_witness:
  "\<exists>p :: non_extension_proof. non_extension_validate p = None \<and> divergence_holds sha256 p"
proof -
  obtain a b where "checkpoint_for sha256 [str ''ab''] None None None = Inr a"
    "checkpoint_for sha256 ([str ''ab''] @ [str ''02'']) None None None = Inr b"
    by (rule sample_growth)
  from honest_writer_divergence_by_spelling [OF this, of 0 "str ''AB''"] sample_spelling show ?thesis by auto
qed

text \<open>A writer's signature is on one checkpoint of one trail: two signing digests agree only for the same checkpoint and,
  absent a collision on the frames and on the trail names, the same trail.\<close>

theorem signing_digest_binds:
  assumes "make_checkpoint sq eh root c ep = Inr a" "make_checkpoint sq' eh' root' c' ep' = Inr b"
    and "checkpoint_signing_digest sha x a = Inr d" "checkpoint_signing_digest sha y b = Inr d"
    and "inj_on sha {f. \<exists>z cp. z \<in> {x, y} \<and> cp \<in> {a, b} \<and> (signing_frame sha z cp = Inr f \<or> utf8_encode z = Some f)}"
  shows "x = y \<and> a = b"
proof -
  obtain f g where f: "signing_frame sha x a = Inr f" "sha f = d" "signing_frame sha y b = Inr g" "sha g = d"
    using assms(3,4) by (auto simp: checkpoint_signing_digest_def res_elims)
  have "f = g" by (rule inj_onD [OF assms(5)]) (use f in auto)
  then have t: "trail_id_for sha x = trail_id_for sha y" "a = b"
    using signing_frame_inj make_checkpoint_whole [OF assms(1)] make_checkpoint_whole [OF assms(2)] f(1,3) by metis+
  have "trail_id_for sha x \<noteq> Inl e" "trail_id_for sha y \<noteq> Inl e" for e
    using f(1,3) by (auto simp: signing_frame_def res_elims)
  then obtain bx bz where u: "utf8_encode x = Some bx" "utf8_encode y = Some bz" "sha bx = sha bz"
    using t(1) by (auto simp: trail_id_for_def split: option.splits)
  have "bx = bz" by (rule inj_onD [OF assms(5) u(3)]) (use u in auto)
  then show ?thesis using u t(2) utf8_encode_inj by metis
qed

theorem signing_digest_binds_witness:
  "\<exists>a d. checkpoint_signing_digest first32 [] a = Inr d \<and> ([] :: pystr) = [] \<and> a = a"
proof -
  let ?a = "\<lparr>cp_seq = 0, cp_entry_hash = [], cp_root = [], agg_commit = None, agg_epoch = None\<rparr>"
  have a: "make_checkpoint 0 [] [] None None = Inr ?a" by (simp add: make_checkpoint_def)
  have "\<exists>b. enc_all lp (map Str [str_int 0, [], []]) = Inr b"
    by (intro enc_all_total) (auto simp: lp_encodable encodable_str_int length_str_int_digit)
  then obtain f where f: "checkpoint_frame ?a = Inr f"
    by (auto simp: checkpoint_frame_def pae_frame_def pack_Q_small)
  have e: "utf8_encode [] = Some []" by simp
  have "\<exists>u. lp (Str (hex (first32 []))) = Inr u" by (intro lp_encodable encodable_ascii) (use hex_ascii in \<open>auto simp: first32_def\<close>)
  then obtain g where g: "signing_frame first32 [] ?a = Inr g"
    using f e by (auto simp: signing_frame_def trail_id_for_def pack_Q_small)
  have "hd g = 119" "g \<noteq> []"
    using g by (auto simp: signing_frame_def res_elims LEDGER_CHECKPOINT_SIG_PREFIX_def asc_def)
  then have "hd (first32 g) \<noteq> hd (first32 [])" by (simp add: first32_def)
  then have "first32 g \<noteq> first32 []" by auto
  then have i: "inj_on first32 {f. \<exists>z cp. z \<in> {[]} \<and> cp \<in> {?a} \<and> (signing_frame first32 z cp = Inr f \<or> utf8_encode z = Some f)}"
    using g by (auto simp: inj_on_def)
  obtain d where d: "checkpoint_signing_digest first32 [] ?a = Inr d"
    using g by (auto simp: checkpoint_signing_digest_def)
  show ?thesis using signing_digest_binds [OF a a d d] i d by auto
qed

theorem honest_writer_not_convicted_witness:
  "\<exists>p. non_extension_validate p = None \<and> divergence_holds first32 p
     \<and> fromhex (dl_entry_hash (in_newer p)) = fromhex (dl_entry_hash (in_older p))"
proof -
  let ?hs = "[str ''ab'']" and ?l = "[str ''02'']"
  obtain a b where c: "checkpoint_for first32 ?hs None None None = Inr a"
    "checkpoint_for first32 (?hs @ ?l) None None None = Inr b" by (rule sample_growth)
  have h: "fromhex (str ''ab'') = Inr [171]" "fromhex (str ''02'') = Inr [2]" "str ''AB'' \<noteq> str ''ab''"
    "fromhex (str ''AB'') = Inr [171]" by (simp_all add: str_def ascii_space_def hexval_def)
  let ?s = "hex (leaf_hash first32 [2])"
  have pf: "membership_proof first32 ?hs 0 = Inr []" "membership_proof first32 (?hs @ ?l) 0 = Inr [?s]"
    using h by (simp_all add: membership_proof_def audit_path_single tree_hash_single
      audit_path_append [of "[[171]]" 0 "[[2]]", simplified])
  let ?p = "\<lparr>ne_chain_id = [], ne_older = a, ne_newer = b, older_signature = [1], newer_signature = [1],
    in_older = \<lparr>dl_index = 0, dl_entry_hash = str ''ab'', dl_proof = []\<rparr>,
    in_newer = \<lparr>dl_index = 0, dl_entry_hash = str ''AB'', dl_proof = [?s]\<rparr>\<rparr>"
  have v: "non_extension_validate ?p = None"
    using checkpoint_for_fields [OF c(1)] checkpoint_for_fields [OF c(2)] h by (simp add: non_extension_validate_def)
  have m: "verify_membership first32 (str ''ab'') 0 (cp_seq a + 1) [] (cp_root a)"
    "verify_membership first32 (str ''ab'') 0 (cp_seq b + 1) [?s] (cp_root b)"
    using leaf_claim_complete [OF c(1), of 0] leaf_claim_complete [OF c(2), of 0] pf by fastforce+
  have d: "divergence_holds first32 ?p"
    using m verify_membership_spelling [of "str ''AB''" "str ''ab''"] h by (simp add: divergence_holds_def)
  have i: "inj_on first32 (membership_inputs first32 (str ''ab'') 0 1 [])"
    "inj_on first32 (membership_inputs first32 (str ''AB'') 0 2 [?s] \<union> membership_inputs first32 (str ''ab'') 0 2 [?s])"
    using h by (simp_all add: membership_inputs_def inj_on_def LEAF_PREFIX_def NODE_PREFIX_def first32_def)
  show ?thesis
    using honest_writer_not_convicted [OF digest32_first32, of ?hs None None ?p ?l None None "[]" "[?s]"] c v d pf i h
    by (intro exI [of _ ?p]) simp
qed

end
