(* ===== verification/Export.thy ===== *)
theory Export
  imports Membership Chain Json
begin

text \<open>
  Proof bundles (\<^verbatim>\<open>domain/export.py\<close>): one entry with its membership proof, exported, parsed back and checked offline. A
  bundle of a verified trail checks out; a bundle that checks out against the root of a trail is that trail's entry,
  header and retained payload included; and the serialization loses nothing. Text is handled as the JSON value it
  denotes.
\<close>

section \<open>Definitions\<close>

definition BUNDLE_VERSION :: pystr where
  "BUNDLE_VERSION = str ''waxseal-proof-bundle-v1''"

record proof_bundle =
  pb_header :: entry_header
  pb_entry_hash :: pystr
  pb_payload :: "bytes option"
  pb_batch_size :: int
  pb_proof :: "pystr list"
  pb_root :: pystr

record bundle_result =
  br_ok :: bool
  br_reason :: "string option"
  br_unverifiable :: bool

definition build_proof_bundle :: "(bytes \<Rightarrow> bytes) \<Rightarrow> entry list \<Rightarrow> int \<Rightarrow> proof_bundle res" where
  "build_proof_bundle sha es sq =
     (if \<not> (0 \<le> sq \<and> sq < int (length es)) then Inl IndexError
      else let hs = map entry_hash es; e = es ! nat sq in
        res_bind (membership_proof sha hs sq) (\<lambda>pf. res_bind (batch_root sha hs) (\<lambda>root.
          Inr \<lparr>pb_header = header e, pb_entry_hash = entry_hash e, pb_payload = payload e,
               pb_batch_size = int (length hs), pb_proof = pf, pb_root = root\<rparr>)))"

definition is_sha256_hex :: "pystr \<Rightarrow> bool" where
  "is_sha256_hex v \<longleftrightarrow> hex64 v"

definition bundle_fails :: "string \<Rightarrow> bool \<Rightarrow> bundle_result" where
  "bundle_fails rsn u = \<lparr>br_ok = False, br_reason = Some rsn, br_unverifiable = u\<rparr>"

definition verify_bundle_membership :: "(bytes \<Rightarrow> bytes) \<Rightarrow> proof_bundle \<Rightarrow> bool \<Rightarrow> bundle_result" where
  "verify_bundle_membership sha b u =
     (if \<not> verify_membership sha (pb_entry_hash b) (seq (pb_header b)) (pb_batch_size b) (pb_proof b) (pb_root b)
      then bundle_fails ''membership_not_proven'' u
      else \<lparr>br_ok = True, br_reason = None, br_unverifiable = u\<rparr>)"

definition verify_proof_bundle :: "(bytes \<Rightarrow> bytes) \<Rightarrow> version_registry \<Rightarrow> proof_bundle \<Rightarrow> bundle_result res" where
  "verify_proof_bundle sha reg b =
     (let h = pb_header b in
      if pb_batch_size b < 1 \<or> \<not> (0 \<le> seq h \<and> seq h < pb_batch_size b) then Inr (bundle_fails ''malformed_bundle'' False)
      else if \<not> is_sha256_hex (pb_entry_hash b) \<or> \<not> is_sha256_hex (pb_root b) then Inr (bundle_fails ''malformed_bundle'' False)
      else res_bind (recomputable reg (hash_version h)) (\<lambda>known.
        if \<not> known then Inr (verify_bundle_membership sha b True)
        else res_bind (encoder_for reg (hash_version h)) (\<lambda>encoder.
          case encoder of None \<Rightarrow> Inl AssertionError
          | Some frame \<Rightarrow>
              (case compute_entry_hash sha frame h of
                 Inl x \<Rightarrow> (if x = LpEncodingError then Inr (bundle_fails ''entry_hash_mismatch'' False) else Inl x)
               | Inr recomputed \<Rightarrow>
                   if recomputed \<noteq> pb_entry_hash b then Inr (bundle_fails ''entry_hash_mismatch'' False)
                   else if (case pb_payload b of None \<Rightarrow> False | Some p \<Rightarrow> compute_payload_hash sha p \<noteq> payload_hash h)
                   then Inr (bundle_fails ''payload_hash_mismatch'' False)
                   else Inr (verify_bundle_membership sha b False)))))"

section \<open>Serialization\<close>

definition bundle_to_obj :: "proof_bundle \<Rightarrow> json" where
  "bundle_to_obj b =
     JObj [(str ''batch_size'', JInt (pb_batch_size b)), (str ''bundle_version'', JStr BUNDLE_VERSION),
           (str ''entry_hash'', JStr (pb_entry_hash b)), (str ''header'', JObj (header_to_obj (pb_header b))),
           (str ''payload_b64'', case pb_payload b of None \<Rightarrow> JNull | Some p \<Rightarrow> JStr (b64encode p)),
           (str ''proof'', JList (map JStr (pb_proof b))), (str ''root'', JStr (pb_root b))]"

text \<open>
  \<^verbatim>\<open>base64.b64decode(value, validate=True)\<close>: only alphabet characters, whole groups, and nothing after the padding.
\<close>

fun b64_strict :: "nat list \<Rightarrow> nat \<Rightarrow> pystr \<Rightarrow> bytes res" where
  "b64_strict q pads [] = (if q = [] then Inr [] else Inl ValueError)"
| "b64_strict q pads (c # cs) =
     (if c = 61 then
        (if length q \<ge> 2 \<and> length q + Suc pads \<ge> 4 then
           (if cs \<noteq> [] then Inl ValueError
            else Inr (if length q = 2 then [of_nat (q ! 0 * 4 + q ! 1 div 16)]
                      else [of_nat (q ! 0 * 4 + q ! 1 div 16), of_nat (q ! 1 mod 16 * 16 + q ! 2 div 4)]))
         else if length q < 2 then Inl ValueError
         else b64_strict q (Suc pads) cs)
      else (case b64_val c of
              None \<Rightarrow> Inl ValueError
            | Some v \<Rightarrow>
                if pads \<noteq> 0 then Inl ValueError
                else if length q = 3 then
                  res_map (\<lambda>bs. of_nat (q ! 0 * 4 + q ! 1 div 16) # of_nat (q ! 1 mod 16 * 16 + q ! 2 div 4)
                                # of_nat (q ! 2 mod 4 * 64 + v) # bs) (b64_strict [] 0 cs)
                else b64_strict (q @ [v]) 0 cs))"

definition decode_payload :: "json \<Rightarrow> bytes option res" where
  "decode_payload v =
     (case v of JNull \<Rightarrow> Inr None | JStr s \<Rightarrow> res_map Some (b64_strict [] 0 s) | _ \<Rightarrow> Inl ValueError)"

fun str_items :: "json list \<Rightarrow> pystr list option" where
  "str_items [] = Some []"
| "str_items (JStr s # vs) = map_option (Cons s) (str_items vs)"
| "str_items (_ # vs) = None"

definition bundle_from_obj :: "runtime \<Rightarrow> json res \<Rightarrow> proof_bundle res" where
  "bundle_from_obj rt text =
     (case text of
        Inl e \<Rightarrow> if e = JSONDecodeError then Inl ValueError else Inl e
      | Inr (JObj fs) \<Rightarrow>
          if jget fs ''bundle_version'' \<noteq> Some (JStr BUNDLE_VERSION) then Inl ValueError
          else if \<exists>k \<in> {''header'', ''entry_hash'', ''batch_size'', ''proof'', ''root''}. jget fs k = None then Inl ValueError
          else (case jget_null fs ''proof'' of
                  JList vs \<Rightarrow>
                    (case str_items vs of
                       None \<Rightarrow> Inl ValueError
                     | Some pf \<Rightarrow>
                         (case jget_null fs ''batch_size'' of
                            JInt n \<Rightarrow>
                              res_bind (header_from_obj rt (jget_null fs ''header'')) (\<lambda>h.
                              res_bind (decode_payload (jget_null fs ''payload_b64'')) (\<lambda>p.
                                Inr \<lparr>pb_header = h, pb_entry_hash = py_str rt (jget_null fs ''entry_hash''), pb_payload = p,
                                     pb_batch_size = n, pb_proof = pf, pb_root = py_str rt (jget_null fs ''root'')\<rparr>))
                          | _ \<Rightarrow> Inl ValueError))
                | _ \<Rightarrow> Inl ValueError)
      | Inr _ \<Rightarrow> Inl ValueError)"

section \<open>Shapes\<close>

lemma b64_strict_encode: "b64_strict [] 0 (b64encode bs) = Inr bs"
proof (induction bs rule: b64encode.induct)
  case (2 a)
  show ?case using sextet_join [of 0 a]
    by (simp add: b64_char_not_pad b64_val_char byte_sextets del: of_nat_add of_nat_mult)
next
  case (3 a b)
  show ?case using sextet_join [of "unat b div 16" a] sextet_join2 [of 0 "unat a mod 4" b] byte_div_small
    by (simp add: b64_char_not_pad b64_val_char byte_sextets del: of_nat_add of_nat_mult)
next
  case (4 a b c bs)
  show ?case
    using 4 sextet_join [of "unat b div 16" a] sextet_join2 [of "unat c div 64" "unat a mod 4" b]
      sextet_join3 [of "unat b mod 16" c] byte_div_small
    by (simp add: b64_char_not_pad b64_val_char byte_sextets del: of_nat_add of_nat_mult)
qed simp

lemma str_items_JStr [simp]: "str_items (map JStr ss) = Some ss"
  by (induction ss) simp_all

lemma compute_entry_hash_shape: "digest32 sha \<Longrightarrow> compute_entry_hash sha f h = Inr x \<Longrightarrow> is_sha256_hex x"
  by (auto simp: compute_entry_hash_def res_elims is_sha256_hex_def digest32.digest_length intro!: hex64_hex)

section \<open>What a checked bundle means\<close>

lemma verify_bundle_ok:
  assumes "registry_ok sha reg" and "verify_proof_bundle sha reg b = Inr r" "br_ok r"
  shows "is_sha256_hex (pb_entry_hash b) \<and> is_sha256_hex (pb_root b)
    \<and> verify_membership sha (pb_entry_hash b) (seq (pb_header b)) (pb_batch_size b) (pb_proof b) (pb_root b)
    \<and> (if schemas reg (hash_version (pb_header b)) \<noteq> Some HEADER_FIELDS then br_unverifiable r
       else \<not> br_unverifiable r \<and> compute_entry_hash sha header_frame (pb_header b) = Inr (pb_entry_hash b)
         \<and> (\<forall>p. pb_payload b = Some p \<longrightarrow> compute_payload_hash sha p = payload_hash (pb_header b)))"
  using assms(2,3) recomputable_ok [OF assms(1)] encoder_for_ok [OF assms(1)]
  by (auto simp: verify_proof_bundle_def verify_bundle_membership_def bundle_fails_def Let_def
      split: if_splits sum.splits option.splits)

lemma build_proof_bundle_fields:
  assumes "build_proof_bundle sha es sq = Inr b"
  shows "0 \<le> sq \<and> nat sq < length es \<and> pb_header b = header (es ! nat sq) \<and> pb_entry_hash b = entry_hash (es ! nat sq)
    \<and> pb_payload b = payload (es ! nat sq) \<and> pb_batch_size b = int (length es)
    \<and> membership_proof sha (map entry_hash es) sq = Inr (pb_proof b) \<and> batch_root sha (map entry_hash es) = Inr (pb_root b)"
  using assms by (auto simp: build_proof_bundle_def Let_def res_elims split: if_splits)

lemma batch_root_shape: "digest32 sha \<Longrightarrow> batch_root sha hs = Inr root \<Longrightarrow> is_sha256_hex root"
  by (auto simp: batch_root_def res_elims is_sha256_hex_def digest32.length_tree_hash intro!: hex64_hex)

lemma built_bundle_checks:
  assumes "digest32 sha" "registry_ok sha reg" "accepted sha reg es"
    and "known_row reg (es ! nat sq) \<or> is_sha256_hex (entry_hash (es ! nat sq))"
    and "build_proof_bundle sha es sq = Inr b"
  shows "verify_proof_bundle sha reg b =
    Inr \<lparr>br_ok = True, br_reason = None, br_unverifiable = \<not> known_row reg (es ! nat sq)\<rparr>"
proof -
  note f = build_proof_bundle_fields [OF assms(5)]
  let ?e = "es ! nat sq"
  have row: "seq (header ?e) = sq" using accepted_row(1) [OF assms(3), of "nat sq"] f by simp
  have k: "known_row reg ?e \<Longrightarrow> compute_entry_hash sha header_frame (header ?e) = Inr (entry_hash ?e)"
    "known_row reg ?e \<Longrightarrow> payload ?e = Some p \<Longrightarrow> payload_hash (header ?e) = compute_payload_hash sha p" for p
    using accepted_row(3,4) [OF assms(3), of "nat sq"] f by auto
  have shape: "is_sha256_hex (entry_hash ?e)" "is_sha256_hex (pb_root b)"
    using assms(4) k(1) compute_entry_hash_shape [OF assms(1)] batch_root_shape [OF assms(1)] f by auto
  have m: "verify_membership sha (entry_hash ?e) sq (int (length es)) (pb_proof b) (pb_root b)"
    using verify_membership_complete [of sha "map entry_hash es" "pb_root b" sq "pb_proof b"] f by simp
  have "sq < int (length es)" using f by linarith
  then show ?thesis
    using f row k shape m recomputable_ok [OF assms(2)] encoder_for_ok [OF assms(2)]
    by (auto simp: verify_proof_bundle_def verify_bundle_membership_def known_row_def Let_def split: option.splits)
qed

section \<open>What parsing raises\<close>

lemma b64_strict_errors: "b64_strict q pads cs = Inl e \<Longrightarrow> e = ValueError"
  by (induction q pads cs rule: b64_strict.induct) (auto simp: res_elims split: if_splits option.splits)

lemma decode_payload_errors: "decode_payload v = Inl e \<Longrightarrow> e = ValueError"
  by (auto simp: decode_payload_def res_elims dest: b64_strict_errors split: json.splits)

context py_runtime
begin

lemma py_int_errors: "py_int rt v = Inl e \<Longrightarrow> e = ValueError \<or> e = TypeError \<or> (\<exists>f. v = JFloat f \<and> f_int f = Inl e)"
  by (cases v) (auto dest: int_of_str_errors)

lemma header_from_obj_errors:
  "header_from_obj rt v = Inl e \<Longrightarrow> e \<noteq> ValueError \<Longrightarrow>
     \<exists>fs f. v = JObj fs \<and> jget fs ''seq'' = Some (JFloat f) \<and> f_int f = Inl e"
  using py_int_errors
  by (fastforce simp: header_from_obj_def jget_null_def split: json.splits if_splits sum.splits option.splits)

end

section \<open>Properties\<close>

text \<open>A bundle of a trail that verifies checks out offline: whatever row is exported, the recipient's check succeeds
  against the batch root, and says the row is unverifiable exactly when its fingerprint is not known.\<close>

theorem exported_bundle_verifies:
  assumes "digest32 sha" "reachable_registry sha reg" "\<forall>e \<in> set es. short_header (header e)"
    and "verify_chain sha reg es = Inr r" "vr_ok r"
    and "known_row reg (es ! nat sq) \<or> is_sha256_hex (entry_hash (es ! nat sq))"
    and "build_proof_bundle sha es sq = Inr b"
  shows "verify_proof_bundle sha reg b =
    Inr \<lparr>br_ok = True, br_reason = None, br_unverifiable = \<not> known_row reg (es ! nat sq)\<rparr>"
  using built_bundle_checks [OF assms(1) reachable_registry_ok [OF assms(2)] _ assms(6,7)]
    verify_chain_ok_iff [OF reachable_registry_ok [OF assms(2)] assms(3,4)] assms(5) by blast

text \<open>C19. A bundle cannot show an entry the trail does not have: one that checks out against the root and the size of a
  verified trail, under a known fingerprint, carries the header that trail has at that position and, where both retain
  a payload, the same payload, absent a hash collision among what the two checks hash.\<close>

theorem checked_bundle_is_trail_entry:
  assumes "digest32 sha" "reachable_registry sha reg" "\<forall>e \<in> set es. short_header (header e)"
    and "verify_chain sha reg es = Inr v" "vr_ok v" "vr_checked v = length es"
    and "batch_root sha (map entry_hash es) = Inr (pb_root b)" "pb_batch_size b = int (length es)"
    and "verify_proof_bundle sha reg b = Inr r" "br_ok r" "\<not> br_unverifiable r"
    and "membership_proof sha (map entry_hash es) (seq (pb_header b)) = Inr honest"
    and "inj_on sha (membership_inputs sha (pb_entry_hash b) (seq (pb_header b)) (int (length es)) (pb_proof b)
           \<union> membership_inputs sha (map entry_hash es ! nat (seq (pb_header b))) (seq (pb_header b)) (int (length es)) honest)"
    and "inj_on sha ({f. header_frame (pb_header b) = Inr f} \<union> chain_frames es)"
    and "inj_on sha ({p. pb_payload b = Some p} \<union> chain_payloads es)"
  shows "pb_header b = header (es ! nat (seq (pb_header b)))
    \<and> (\<forall>p q. pb_payload b = Some p \<and> payload (es ! nat (seq (pb_header b))) = Some q \<longrightarrow> p = q)"
proof -
  let ?i = "nat (seq (pb_header b))"
  note ok = reachable_registry_ok [OF assms(2)]
  note t = verified_all_known [OF assms(2-6)]
  have i: "?i < length es" using assms(12) by (auto simp: membership_proof_def res_elims split: if_splits)
  have e: "compute_entry_hash sha header_frame (header (es ! ?i)) = Inr (entry_hash (es ! ?i))"
    and p: "payload (es ! ?i) = Some q \<Longrightarrow> payload_hash (header (es ! ?i)) = compute_payload_hash sha q" for q
    using accepted_row(3,4) [OF t(1) i] t(2) i by auto
  note b = verify_bundle_ok [OF ok assms(9,10)]
  have k: "compute_entry_hash sha header_frame (pb_header b) = Inr (pb_entry_hash b)"
    and q: "pb_payload b = Some p \<Longrightarrow> compute_payload_hash sha p = payload_hash (pb_header b)" for p
    using b assms(11) by (auto split: if_splits)
  have "fromhex (pb_entry_hash b) = fromhex (map entry_hash es ! ?i)"
    using digest32.verify_membership_binding [OF assms(1) _ verify_membership_complete [OF assms(7,12)]] b assms(8,13)
    by (metis length_map)
  then have "pb_entry_hash b = entry_hash (es ! ?i)"
    using hex64_inj b compute_entry_hash_shape [OF assms(1) e] i by (simp add: is_sha256_hex_def)
  then obtain f g where f: "header_frame (pb_header b) = Inr f" "header_frame (header (es ! ?i)) = Inr g" "sha f = sha g"
    using k e hex_inj by (auto simp: compute_entry_hash_def res_elims)
  have "f = g" by (rule inj_onD [OF assms(14) f(3)]) (use f i in \<open>auto simp: chain_frames_def\<close>)
  then have h: "pb_header b = header (es ! ?i)" using f header_frame_inj by blast
  moreover have "x = y" if "pb_payload b = Some x" "payload (es ! ?i) = Some y" for x y
  proof -
    have "sha x = sha y" using q [OF that(1)] p [OF that(2)] h hex_inj by (simp add: compute_payload_hash_def)
    then show ?thesis
      by (rule inj_onD [OF assms(15)]) (use that i in \<open>auto simp: chain_payloads_def\<close>)
  qed
  ultimately show ?thesis by blast
qed

text \<open>A bundle survives its serialization: parsing the object written for a bundle gives the bundle back, an absent
  payload and an empty one kept apart.\<close>

theorem bundle_round_trip: "bundle_from_obj rt (Inr (bundle_to_obj b)) = Inr b"
proof -
  have "decode_payload (case pb_payload b of None \<Rightarrow> JNull | Some p \<Rightarrow> JStr (b64encode p)) = Inr (pb_payload b)"
    by (cases "pb_payload b") (simp_all add: decode_payload_def b64_strict_encode)
  then show ?thesis
    by (simp add: bundle_from_obj_def bundle_to_obj_def jlookup header_obj_round_trip)
qed

text \<open>The one-row trail of the witnesses.\<close>

lemma one_row_trail:
  obtains r b d where "verify_chain sha256 (sample_registry sha256) [sample_row sha256 0 GENESIS_PREV_HASH] = Inr r"
    and "vr_ok r" "vr_checked r = 1" "build_proof_bundle sha256 [sample_row sha256 0 GENESIS_PREV_HASH] 0 = Inr b"
    and "fromhex (entry_hash (sample_row sha256 0 GENESIS_PREV_HASH)) = Inr d" "pb_proof b = []"
proof -
  let ?e = "sample_row sha256 0 GENESIS_PREV_HASH" and ?reg = "sample_registry sha256"
  obtain r where r: "verify_chain sha256 ?reg [?e] = Inr r" "vr_ok r" "vr_checked r = 1"
    by (rule sha256.sample_row_verifies)
  have "compute_entry_hash sha256 header_frame (header ?e) = Inr (entry_hash ?e)"
    using accepted_row(3) [OF sha256.sample_row_accepted, of 0] sample_row_known by simp
  then obtain d where d: "fromhex (entry_hash ?e) = Inr d" by (auto simp: compute_entry_hash_def res_elims)
  then obtain b where b: "build_proof_bundle sha256 [?e] 0 = Inr b" "pb_proof b = []"
    by (auto simp: build_proof_bundle_def membership_proof_def batch_root_def audit_path_single Let_def)
  show thesis by (rule that [OF r b(1) d b(2)])
qed

theorem exported_bundle_verifies_witness:
  "\<exists>b. build_proof_bundle sha256 [sample_row sha256 0 GENESIS_PREV_HASH] 0 = Inr b
     \<and> verify_proof_bundle sha256 (sample_registry sha256) b = Inr \<lparr>br_ok = True, br_reason = None, br_unverifiable = False\<rparr>"
proof -
  obtain r b where w: "verify_chain sha256 (sample_registry sha256) [sample_row sha256 0 GENESIS_PREV_HASH] = Inr r"
    "vr_ok r" "build_proof_bundle sha256 [sample_row sha256 0 GENESIS_PREV_HASH] 0 = Inr b"
    by (rule one_row_trail)
  show ?thesis
    using exported_bundle_verifies [OF sha256.digest32_axioms sample_registry_reachable _ w(1,2) _ w(3)] w(3)
    by (simp add: sha256.sample_row_short sample_row_known)
qed

theorem checked_bundle_is_trail_entry_witness:
  "\<exists>b. build_proof_bundle sha256 [sample_row sha256 0 GENESIS_PREV_HASH] 0 = Inr b
     \<and> pb_header b = header ([sample_row sha256 0 GENESIS_PREV_HASH] ! nat (seq (pb_header b)))"
proof -
  let ?e = "sample_row sha256 0 GENESIS_PREV_HASH" and ?reg = "sample_registry sha256"
  obtain r b d where w: "verify_chain sha256 ?reg [?e] = Inr r" "vr_ok r" "vr_checked r = 1"
    "build_proof_bundle sha256 [?e] 0 = Inr b" "fromhex (entry_hash ?e) = Inr d" "pb_proof b = []"
    by (rule one_row_trail)
  note f = build_proof_bundle_fields [OF w(4)]
  have z: "seq (header ?e) = 0" using accepted_row(1) [OF sha256.sample_row_accepted, of 0] by simp
  have k: "verify_proof_bundle sha256 ?reg b = Inr \<lparr>br_ok = True, br_reason = None, br_unverifiable = False\<rparr>"
    using built_bundle_checks [OF sha256.digest32_axioms reachable_registry_ok [OF sample_registry_reachable]
        sha256.sample_row_accepted _ w(4)] by (simp add: sample_row_known)
  have "inj_on sha256 (membership_inputs sha256 (entry_hash ?e) 0 1 [])"
    "inj_on sha256 ({f. header_frame (header ?e) = Inr f} \<union> chain_frames [?e])"
    "inj_on sha256 ({p. pb_payload b = Some p} \<union> chain_payloads [?e])"
    using w(5) f by (auto simp: membership_inputs_def chain_frames_def chain_payloads_def intro!: inj_onI)
  then show ?thesis
    using checked_bundle_is_trail_entry [OF sha256.digest32_axioms sample_registry_reachable _ w(1,2) _ _ _ k, of "[]"]
      f w z by (simp add: sha256.sample_row_short)
qed

text \<open>Parsing a bundle raises one exception type, with one exception: anything but \<open>ValueError\<close> comes out of a header whose
  \<open>seq\<close> is a float the integer conversion refuses, such as \<open>Infinity\<close>, and is what that conversion raises.\<close>

theorem bundle_parse_errors:
  assumes "py_runtime rt" and "bundle_from_obj rt (Inr v) = Inl e" and "e \<noteq> ValueError"
  shows "\<exists>fs hs f. v = JObj fs \<and> jget fs ''header'' = Some (JObj hs) \<and> jget hs ''seq'' = Some (JFloat f) \<and> f_int f = Inl e"
proof -
  obtain fs where v: "v = JObj fs" "jget fs ''header'' \<noteq> None" "header_from_obj rt (jget_null fs ''header'') = Inl e"
    using assms(2,3) decode_payload_errors
    by (auto simp: bundle_from_obj_def res_elims split: json.splits if_splits option.splits)
  then show ?thesis
    using py_runtime.header_from_obj_errors [OF assms(1) v(3) assms(3)] by (auto simp: jget_null_def)
qed

definition inf_bundle :: json where
  "inf_bundle = JObj [(str ''bundle_version'', JStr BUNDLE_VERSION), (str ''entry_hash'', JNull), (str ''batch_size'', JInt 1),
     (str ''proof'', JList []), (str ''root'', JNull),
     (str ''header'', JObj ((str ''seq'', JFloat \<lparr>f_repr = str ''inf'', f_int = Inl OverflowError, f_integral = None\<rparr>)
        # header_to_obj (sample_header 0 [])))]"

theorem bundle_parse_errors_witness:
  "bundle_from_obj ascii_runtime (Inr inf_bundle) = Inl OverflowError
     \<and> (\<exists>fs hs f. inf_bundle = JObj fs \<and> jget fs ''header'' = Some (JObj hs) \<and> jget hs ''seq'' = Some (JFloat f)
         \<and> f_int f = Inl OverflowError)"
proof -
  have "bundle_from_obj ascii_runtime (Inr inf_bundle) = Inl OverflowError"
    by (simp add: inf_bundle_def bundle_from_obj_def jlookup header_from_obj_def header_to_obj_def)
  with bundle_parse_errors [OF ascii.py_runtime_axioms this] show ?thesis by simp
qed

end
