(* ===== verification/Segments.thy ===== *)
theory Segments
  imports Chain Json "HOL-Library.List_Lexorder"
begin

text \<open>
  Handoff bindings (\<^verbatim>\<open>domain/handoff.py\<close>) and sealed segments (\<^verbatim>\<open>domain/segments.py\<close>): the pointer triple with its
  parser and its check, the names of segments and what a directory of segments adds up to. A segment is what was read of
  it; \<^verbatim>\<open>str.lower\<close> is the argument \<open>lower\<close>. A directory is reported intact exactly when every segment verifies and every
  binding holds, deleting any segment but the last is detected, and a binding that holds pins the history it points
  into.
\<close>

section \<open>Handoff bindings\<close>

definition HANDOFF_PAYLOAD_TYPE :: pystr where
  "HANDOFF_PAYLOAD_TYPE = str ''application/vnd.waxseal.handoff-binding+json''"

record handoff_binding =
  hb_chain_id :: pystr
  hb_seq :: int
  hb_head_hash :: pystr

text \<open>\<^verbatim>\<open>HandoffBinding(...)\<close> with its \<^verbatim>\<open>__post_init__\<close>, on the values a payload may hold.\<close>

definition make_binding :: "json \<Rightarrow> json \<Rightarrow> json \<Rightarrow> handoff_binding res" where
  "make_binding cid sq hd_hash =
     (case cid of
        JStr c \<Rightarrow>
          if c = [] then Inl ValueError
          else (case sq of
                  JInt n \<Rightarrow>
                    if n < 0 then Inl ValueError
                    else (case hd_hash of
                            JStr h \<Rightarrow> if hex64 h then Inr \<lparr>hb_chain_id = c, hb_seq = n, hb_head_hash = h\<rparr> else Inl ValueError
                          | _ \<Rightarrow> Inl ValueError)
                | _ \<Rightarrow> Inl ValueError)
      | _ \<Rightarrow> Inl ValueError)"

definition to_payload :: "handoff_binding \<Rightarrow> jobj" where
  "to_payload b = [(str ''chain_id'', JStr (hb_chain_id b)), (str ''seq'', JInt (hb_seq b)),
                   (str ''head_hash'', JStr (hb_head_hash b))]"

definition from_payload :: "json \<Rightarrow> handoff_binding res" where
  "from_payload p =
     (case p of
        JObj fs \<Rightarrow>
          (case res_bind (jindex fs ''chain_id'') (\<lambda>c. res_bind (jindex fs ''seq'') (\<lambda>n.
                 res_map (\<lambda>h. (c, n, h)) (jindex fs ''head_hash''))) of
             Inl _ \<Rightarrow> Inl ValueError
           | Inr (c, n, h) \<Rightarrow> make_binding c n h)
      | _ \<Rightarrow> Inl ValueError)"

definition binding_holds :: "handoff_binding \<Rightarrow> pystr list \<Rightarrow> bool" where
  "binding_holds b hs =
     (if \<not> (0 \<le> hb_seq b \<and> hb_seq b < int (length hs)) then False else hs ! nat (hb_seq b) = hb_head_hash b)"

section \<open>Segment names\<close>

definition ROTATION_PAYLOAD_TYPE :: pystr where
  "ROTATION_PAYLOAD_TYPE = str ''application/vnd.waxseal.rotation-binding+json''"

definition SEGMENT_DIGITS :: nat where "SEGMENT_DIGITS = 5"

definition SEGMENT_SUFFIX :: pystr where "SEGMENT_SUFFIX = str ''.jsonl''"

text \<open>\<^verbatim>\<open>f"{n:05d}"\<close> of a non-negative integer.\<close>

definition zero_padded :: "nat \<Rightarrow> nat \<Rightarrow> pystr" where
  "zero_padded w n = replicate (w - length (digits n)) 48 @ digits n"

definition segment_name :: "pystr \<Rightarrow> int \<Rightarrow> pystr res" where
  "segment_name stem ordinal =
     (if ordinal < 0 then Inl ValueError
      else if ordinal > 10 ^ SEGMENT_DIGITS - 1 then Inl ValueError
      else Inr (stem @ [46] @ zero_padded SEGMENT_DIGITS (nat ordinal) @ SEGMENT_SUFFIX))"

definition startswith :: "pystr \<Rightarrow> pystr \<Rightarrow> bool" where
  "startswith s p \<longleftrightarrow> take (length p) s = p"

definition endswith :: "pystr \<Rightarrow> pystr \<Rightarrow> bool" where
  "endswith s p \<longleftrightarrow> length p \<le> length s \<and> drop (length s - length p) s = p"

definition segment_ordinal :: "pystr \<Rightarrow> pystr \<Rightarrow> int option" where
  "segment_ordinal name stem =
     (let pre = stem @ [46];
          middle = take (length name - length SEGMENT_SUFFIX - length pre) (drop (length pre) name) in
      if \<not> startswith name pre \<or> \<not> endswith name SEGMENT_SUFFIX then None
      else if length middle \<noteq> SEGMENT_DIGITS \<or> \<not> (\<forall>c \<in> set middle. 48 \<le> c \<and> c \<le> 57) then None
      else Some (int (digits_val middle)))"

definition segment_identity :: "pystr \<Rightarrow> pystr" where
  "segment_identity name =
     (if endswith name SEGMENT_SUFFIX then take (length name - length SEGMENT_SUFFIX) name else name)"

definition segment_chain_id :: "pystr \<Rightarrow> pystr \<Rightarrow> pystr" where
  "segment_chain_id slug identity = slug @ [47] @ identity"

section \<open>Project slugs\<close>

definition SLUG_READABLE_MAX :: nat where "SLUG_READABLE_MAX = 32"
definition SLUG_DIGEST_CHARS :: nat where "SLUG_DIGEST_CHARS = 12"
definition SLUG_FALLBACK :: pystr where "SLUG_FALLBACK = str ''unnamed''"

text \<open>\<^verbatim>\<open>cwd.encode("utf-8", "surrogatepass")\<close>: a surrogate is encoded as any other three-byte code point.\<close>

definition utf8_surrogatepass :: "pystr \<Rightarrow> bytes" where
  "utf8_surrogatepass s =
     concat (map (\<lambda>n. case utf8_cp n of Some b \<Rightarrow> b
       | None \<Rightarrow> [of_nat (0xE0 + n div 4096), of_nat (0x80 + (n div 64) mod 64), of_nat (0x80 + n mod 64)]) s)"

definition slug_char :: "nat \<Rightarrow> bool" where
  "slug_char c \<longleftrightarrow> (97 \<le> c \<and> c \<le> 122) \<or> (48 \<le> c \<and> c \<le> 57)"

text \<open>\<^verbatim>\<open>_UNSAFE.sub("-", s)\<close>: every maximal run of other characters becomes one dash.\<close>

fun fold_unsafe :: "bool \<Rightarrow> pystr \<Rightarrow> pystr" where
  "fold_unsafe in_run [] = []"
| "fold_unsafe in_run (c # cs) =
     (if slug_char c then c # fold_unsafe False cs
      else if in_run then fold_unsafe True cs else 45 # fold_unsafe True cs)"

definition lstrip_of :: "nat set \<Rightarrow> pystr \<Rightarrow> pystr" where
  "lstrip_of cs s = dropWhile (\<lambda>c. c \<in> cs) s"

definition rstrip_of :: "nat set \<Rightarrow> pystr \<Rightarrow> pystr" where
  "rstrip_of cs s = rev (dropWhile (\<lambda>c. c \<in> cs) (rev s))"

definition strip_of :: "nat set \<Rightarrow> pystr \<Rightarrow> pystr" where
  "strip_of cs s = rstrip_of cs (lstrip_of cs s)"

text \<open>The part after the last separator, as \<^verbatim>\<open>split(...)[-1]\<close> and \<^verbatim>\<open>rpartition(...)[2]\<close> give it.\<close>

definition after_last :: "nat set \<Rightarrow> pystr \<Rightarrow> pystr" where
  "after_last cs s = rev (takeWhile (\<lambda>c. c \<notin> cs) (rev s))"

definition readable :: "(pystr \<Rightarrow> pystr) \<Rightarrow> pystr \<Rightarrow> pystr" where
  "readable lower cwd =
     (let basename = after_last {47, 92} (rstrip_of {47, 92} cwd);
          folded = strip_of {45} (fold_unsafe False (lower basename));
          clipped = strip_of {45} (take SLUG_READABLE_MAX folded) in
      if clipped = [] then SLUG_FALLBACK else clipped)"

definition project_slug :: "(bytes \<Rightarrow> bytes) \<Rightarrow> (pystr \<Rightarrow> pystr) \<Rightarrow> pystr \<Rightarrow> pystr" where
  "project_slug sha lower cwd = readable lower cwd @ [45] @ take SLUG_DIGEST_CHARS (hex (sha (utf8_surrogatepass cwd)))"

section \<open>Verification of a directory\<close>

definition SEGMENT_OK :: string where "SEGMENT_OK = ''ok''"
definition SEGMENT_BROKEN :: string where "SEGMENT_BROKEN = ''broken''"
definition SEGMENT_UNVERIFIABLE :: string where "SEGMENT_UNVERIFIABLE = ''unverifiable''"
definition SEGMENT_MISSING :: string where "SEGMENT_MISSING = ''missing''"

lemmas segment_state_defs = SEGMENT_OK_def SEGMENT_BROKEN_def SEGMENT_UNVERIFIABLE_def SEGMENT_MISSING_def

definition STATE_VERDICT :: "string \<rightharpoonup> verdict" where
  "STATE_VERDICT = [SEGMENT_OK \<mapsto> OK, SEGMENT_UNVERIFIABLE \<mapsto> UNVERIFIABLE, SEGMENT_BROKEN \<mapsto> BROKEN, SEGMENT_MISSING \<mapsto> BROKEN]"

record segment_read =
  sr_identity :: pystr
  sr_chain :: "verify_result option"
  sr_hashes :: "pystr list"
  genesis_payload_type :: "pystr option"
  genesis_payload :: "json option"

record segment_state =
  ss_identity :: pystr
  ss_state :: string
  ss_reason :: "string option"
  ss_broken_seq :: "int option"

record segments_result =
  sg_segments :: "segment_state list"
  sg_verdict :: verdict

definition seg_state :: "pystr \<Rightarrow> string \<Rightarrow> string option \<Rightarrow> int option \<Rightarrow> segment_state" where
  "seg_state ident st rsn sq = \<lparr>ss_identity = ident, ss_state = st, ss_reason = rsn, ss_broken_seq = sq\<rparr>"

text \<open>The dictionary by identity; a later segment of the same identity replaces an earlier one.\<close>

definition present_of :: "segment_read list \<Rightarrow> pystr \<rightharpoonup> segment_read" where
  "present_of segs = map_of (rev (map (\<lambda>s. (sr_identity s, s)) segs))"

definition named_predecessor :: "handoff_binding \<Rightarrow> pystr" where
  "named_predecessor b = after_last {47} (hb_chain_id b)"

definition binding_finding ::
  "segment_read \<Rightarrow> nat \<Rightarrow> (pystr \<rightharpoonup> segment_read) \<Rightarrow> segment_state option \<times> pystr option" where
  "binding_finding seg index present =
     (if genesis_payload_type seg \<noteq> Some ROTATION_PAYLOAD_TYPE then
        if index = 0 then (None, None)
        else (Some (seg_state (sr_identity seg) SEGMENT_BROKEN (Some ''rotation_binding_missing'') (Some 0)), None)
      else (case (case genesis_payload seg of None \<Rightarrow> Inl ValueError | Some p \<Rightarrow> from_payload p) of
              Inl _ \<Rightarrow> (Some (seg_state (sr_identity seg) SEGMENT_UNVERIFIABLE (Some ''rotation_binding_unreadable'') (Some 0)), None)
            | Inr b \<Rightarrow>
                (case present (named_predecessor b) of
                   None \<Rightarrow> (None, Some (named_predecessor b))
                 | Some predecessor \<Rightarrow>
                     if sr_chain predecessor = None then
                       (Some (seg_state (sr_identity seg) SEGMENT_UNVERIFIABLE (Some ''rotation_binding_unchecked'') (Some 0)), None)
                     else if \<not> binding_holds b (sr_hashes predecessor) then
                       (Some (seg_state (sr_identity seg) SEGMENT_BROKEN (Some ''rotation_binding_mismatch'') (Some 0)), None)
                     else (None, None))))"

fun segments_loop ::
  "(pystr \<rightharpoonup> segment_read) \<Rightarrow> nat \<Rightarrow> pystr set \<Rightarrow> segment_read list \<Rightarrow> segment_state list" where
  "segments_loop present index emitted [] = []"
| "segments_loop present index emitted (seg # segs) =
     (case sr_chain seg of
        None \<Rightarrow> seg_state (sr_identity seg) SEGMENT_UNVERIFIABLE (Some ''segment_unreadable'') None
                 # segments_loop present (Suc index) emitted segs
      | Some chain \<Rightarrow>
          if \<not> vr_ok chain then
            seg_state (sr_identity seg) SEGMENT_BROKEN (vr_reason chain) (vr_broken_seq chain)
            # segments_loop present (Suc index) emitted segs
          else (case binding_finding seg index present of (finding, missing) \<Rightarrow>
            (case missing of
               Some m \<Rightarrow> if m \<notin> emitted then [seg_state m SEGMENT_MISSING (Some ''segment_missing'') None] else []
             | None \<Rightarrow> [])
            @ (case finding of
                 Some s \<Rightarrow> s
               | None \<Rightarrow>
                   (case vr_unverifiable chain of
                      [] \<Rightarrow> seg_state (sr_identity seg) SEGMENT_OK None None
                    | u # _ \<Rightarrow> seg_state (sr_identity seg) SEGMENT_UNVERIFIABLE (Some ''unknown_fingerprint'') (Some u)))
            # segments_loop present (Suc index) (case missing of Some m \<Rightarrow> insert m emitted | None \<Rightarrow> emitted) segs))"

definition state_verdict :: "segment_state \<Rightarrow> verdict" where
  "state_verdict s = the (STATE_VERDICT (ss_state s))"

definition verify_segments :: "segment_read list \<Rightarrow> segments_result" where
  "verify_segments segs =
     (let states = segments_loop (present_of segs) 0 {} segs
      in \<lparr>sg_segments = states, sg_verdict = fold (\<lambda>s acc. join acc (state_verdict s)) states OK\<rparr>)"

section \<open>Bindings\<close>

lemma make_binding_Inr:
  "make_binding c n h = Inr b \<longleftrightarrow> c = JStr (hb_chain_id b) \<and> n = JInt (hb_seq b) \<and> h = JStr (hb_head_hash b)
     \<and> hb_chain_id b \<noteq> [] \<and> 0 \<le> hb_seq b \<and> hex64 (hb_head_hash b)"
  by (cases c; cases n; cases h; cases b) (auto simp: make_binding_def)

lemma from_payload_to_payload:
  "make_binding (JStr (hb_chain_id b)) (JInt (hb_seq b)) (JStr (hb_head_hash b)) = Inr b \<Longrightarrow>
     from_payload (JObj (to_payload b)) = Inr b"
  by (simp add: from_payload_def to_payload_def jlookup)

lemma from_payload_errors: "from_payload p = Inl e \<Longrightarrow> e = ValueError"
  by (auto simp: from_payload_def make_binding_def split: json.splits sum.splits if_splits)

lemma binding_holds_nth:
  "binding_holds b hs \<longleftrightarrow> 0 \<le> hb_seq b \<and> nat (hb_seq b) < length hs \<and> hs ! nat (hb_seq b) = hb_head_hash b"
  by (auto simp: binding_holds_def)

lemma takeWhile_tail: "c \<notin> set t \<Longrightarrow> takeWhile (\<lambda>x. x \<noteq> c) (t @ c # s) = t"
  by (induction t) auto

lemma after_last_segment: "c \<notin> set t \<Longrightarrow> after_last {c} (s @ [c] @ t) = t"
  by (simp add: after_last_def takeWhile_tail)

lemma named_predecessor_chain_id:
  "47 \<notin> set identity \<Longrightarrow> hb_chain_id b = segment_chain_id slug identity \<Longrightarrow> named_predecessor b = identity"
  by (simp add: named_predecessor_def segment_chain_id_def after_last_segment del: append_Cons)

section \<open>Names\<close>

lemma digits_length_le: "n < 10 ^ w \<Longrightarrow> 0 < w \<Longrightarrow> length (digits n) \<le> w"
proof (induction w arbitrary: n)
  case (Suc w)
  show ?case
  proof (cases "n < 10")
    case True
    then show ?thesis by (subst digits.simps) simp
  next
    case False
    have "n div 10 < 10 ^ w" "0 < w" using Suc.prems False by (auto simp: div_less_iff_less_mult) (cases w; simp)
    from Suc.IH [OF this] show ?thesis using False by (subst digits.simps) simp
  qed
qed simp

lemma digits_val_zeros: "digits_val (replicate k 48 @ ds) = digits_val ds"
  by (induction k) (simp_all add: digits_val_def)

lemma zero_padded:
  assumes "n < 10 ^ w" "0 < w"
  shows "length (zero_padded w n) = w" "digits_val (zero_padded w n) = n"
    "\<And>c. c \<in> set (zero_padded w n) \<Longrightarrow> 48 \<le> c \<and> c \<le> 57"
proof -
  show "length (zero_padded w n) = w" using digits_length_le [OF assms] by (simp add: zero_padded_def)
  show "digits_val (zero_padded w n) = n" by (simp add: zero_padded_def digits_val_zeros digits_val_digits)
  show "48 \<le> c \<and> c \<le> 57" if "c \<in> set (zero_padded w n)" for c
    using that digits_range [of c n] by (auto simp: zero_padded_def split: if_splits)
qed

lemma foldl_digits: "foldl (\<lambda>a d. a * 10 + (d - 48)) a ds = a * 10 ^ length ds + digits_val (ds :: pystr)"
proof (induction ds arbitrary: a)
  case (Cons c cs)
  have "digits_val (c # cs) = foldl (\<lambda>a d. a * 10 + (d - 48)) (c - 48) cs" by (simp add: digits_val_def)
  then show ?case by (simp only: foldl_Cons Cons.IH) (simp add: add_mult_distrib)
qed (simp add: digits_val_def)

lemma digits_val_Cons: "digits_val (c # cs) = (c - 48) * 10 ^ length cs + digits_val cs"
  using foldl_digits [of "c - 48" cs] by (simp add: digits_val_def)

lemma digits_val_less: "(\<And>c. c \<in> set ds \<Longrightarrow> 48 \<le> c \<and> c \<le> 57) \<Longrightarrow> digits_val ds < 10 ^ length ds"
proof (induction ds)
  case (Cons c cs)
  then have "c - 48 \<le> 9" "digits_val cs < 10 ^ length cs" by fastforce+
  then have "(c - 48) * 10 ^ length cs + digits_val cs < (9 + 1) * 10 ^ length cs"
    by (metis add_le_less_mono add_mult_distrib mult_1 mult_le_mono1)
  then show ?case by (simp add: digits_val_Cons)
qed (simp add: digits_val_def)

text \<open>On digit strings of one length the lexicographic order is the numeric one.\<close>

lemma digits_order:
  "length xs = length ys \<Longrightarrow> (\<And>c. c \<in> set xs \<union> set ys \<Longrightarrow> 48 \<le> c \<and> c \<le> 57) \<Longrightarrow>
     xs < ys \<longleftrightarrow> digits_val xs < digits_val ys"
proof (induction xs ys rule: list_induct2)
  case (Cons x xs y ys)
  have r: "48 \<le> x" "48 \<le> y" using Cons.prems [of x] Cons.prems [of y] by auto
  have v: "digits_val xs < 10 ^ length ys" "digits_val ys < 10 ^ length ys"
    using digits_val_less [of xs] digits_val_less [of ys] Cons by auto
  have step: "(a - 48) * k + d < (b - 48) * k + e" if "a < b" "48 \<le> a" "d < k" for a b d e k :: nat
  proof -
    have "(a - 48) * k + d < (a - 48) * k + k" using that by simp
    also have "\<dots> = Suc (a - 48) * k" by simp
    also have "\<dots> \<le> (b - 48) * k" using that by (intro mult_le_mono1) simp
    finally show ?thesis by simp
  qed
  show ?case
  proof (cases x y rule: linorder_cases)
    case less
    then show ?thesis using step [OF less r(1) v(1), of "digits_val ys"] Cons.hyps by (simp add: digits_val_Cons)
  next
    case equal
    then show ?thesis using Cons by (simp add: digits_val_Cons)
  next
    case greater
    then show ?thesis using step [OF greater r(2) v(2), of "digits_val xs"] Cons.hyps by (simp add: digits_val_Cons)
  qed
qed simp

lemma segment_name_Inr:
  "segment_name stem n = Inr name \<Longrightarrow> 0 \<le> n \<and> nat n < 10 ^ SEGMENT_DIGITS
     \<and> name = stem @ [46] @ zero_padded SEGMENT_DIGITS (nat n) @ SEGMENT_SUFFIX"
  by (auto simp: segment_name_def SEGMENT_DIGITS_def split: if_splits)

lemma segment_ordinal_name:
  assumes "segment_name stem n = Inr name"
  shows "segment_ordinal name stem = Some n"
proof -
  note n = segment_name_Inr [OF assms]
  have d: "0 < SEGMENT_DIGITS" by (simp add: SEGMENT_DIGITS_def)
  note z = zero_padded [OF conjunct1 [OF conjunct2 [OF n]] d]
  show ?thesis using n z by (simp add: segment_ordinal_def Let_def startswith_def endswith_def)
qed

lemma less_common_prefix: "p @ x < p @ y \<longleftrightarrow> x < y" for p x y :: pystr
  by (induction p) simp_all

lemma less_common_suffix: "length x = length y \<Longrightarrow> x @ s < y @ s \<longleftrightarrow> x < y" for x y s :: pystr
  by (induction x y rule: list_induct2) simp_all

lemma segment_name_order:
  assumes "segment_name stem m = Inr a" "segment_name stem n = Inr b"
  shows "a < b \<longleftrightarrow> m < n"
proof -
  note m = segment_name_Inr [OF assms(1)] and n = segment_name_Inr [OF assms(2)]
  have d: "0 < SEGMENT_DIGITS" by (simp add: SEGMENT_DIGITS_def)
  note zm = zero_padded [OF conjunct1 [OF conjunct2 [OF m]] d] and zn = zero_padded [OF conjunct1 [OF conjunct2 [OF n]] d]
  let ?x = "zero_padded SEGMENT_DIGITS (nat m)" and ?y = "zero_padded SEGMENT_DIGITS (nat n)"
  have "?x < ?y \<longleftrightarrow> nat m < nat n" using digits_order [of ?x ?y] zm zn by auto
  then show ?thesis using m n zm(1) zn(1) less_common_prefix less_common_suffix [of ?x ?y] by (simp del: append_Cons) linarith
qed

section \<open>Slugs\<close>

lemma fold_unsafe_chars: "c \<in> set (fold_unsafe r s) \<Longrightarrow> slug_char c \<or> c = 45"
  by (induction r s rule: fold_unsafe.induct) (auto split: if_splits)

lemma set_strip_of: "c \<in> set (strip_of cs s) \<Longrightarrow> c \<in> set s"
  by (auto simp: strip_of_def rstrip_of_def lstrip_of_def dest!: set_dropWhileD)

lemma length_strip_of: "length (strip_of cs s) \<le> length s"
  unfolding strip_of_def rstrip_of_def lstrip_of_def length_rev
  by (rule order_trans [OF length_dropWhile_le]) (simp add: length_dropWhile_le)

lemma hd_strip_of:
  assumes "strip_of cs s \<noteq> []"
  shows "hd (strip_of cs s) \<notin> cs"
proof -
  let ?l = "lstrip_of cs s"
  obtain k where k: "rstrip_of cs ?l = take k ?l"
    unfolding rstrip_of_def using dropWhile_eq_drop [of _ "rev ?l"] by (metis rev_drop rev_rev_ident)
  then have "?l \<noteq> []" "hd (strip_of cs s) = hd ?l" using assms by (auto simp: strip_of_def hd_take)
  then show ?thesis using hd_dropWhile [of "\<lambda>c. c \<in> cs" s] by (simp add: lstrip_of_def)
qed

section \<open>What a directory adds up to\<close>

text \<open>A segment that verifies and whose link is right.\<close>

definition seg_intact :: "(pystr \<rightharpoonup> segment_read) \<Rightarrow> nat \<Rightarrow> segment_read \<Rightarrow> bool" where
  "seg_intact present i seg \<longleftrightarrow>
     (\<exists>chain. sr_chain seg = Some chain \<and> vr_ok chain \<and> vr_unverifiable chain = [])
     \<and> (if genesis_payload_type seg \<noteq> Some ROTATION_PAYLOAD_TYPE then i = 0
        else \<exists>p b pred. genesis_payload seg = Some p \<and> from_payload p = Inr b \<and> present (named_predecessor b) = Some pred
               \<and> sr_chain pred \<noteq> None \<and> binding_holds b (sr_hashes pred))"

lemma state_verdict_simps [simp]:
  "state_verdict (seg_state i SEGMENT_OK r q) = OK" "state_verdict (seg_state i SEGMENT_BROKEN r q) = BROKEN"
  "state_verdict (seg_state i SEGMENT_UNVERIFIABLE r q) = UNVERIFIABLE" "state_verdict (seg_state i SEGMENT_MISSING r q) = BROKEN"
  by (simp_all add: state_verdict_def seg_state_def STATE_VERDICT_def segment_state_defs)

lemma binding_finding_none:
  "binding_finding seg i present = (None, None) \<longleftrightarrow>
     (if genesis_payload_type seg \<noteq> Some ROTATION_PAYLOAD_TYPE then i = 0
      else \<exists>p b pred. genesis_payload seg = Some p \<and> from_payload p = Inr b \<and> present (named_predecessor b) = Some pred
             \<and> sr_chain pred \<noteq> None \<and> binding_holds b (sr_hashes pred))"
  by (auto simp: binding_finding_def split: option.splits sum.splits if_splits)

lemma binding_finding_bad: "binding_finding seg i present = (Some s, m) \<Longrightarrow> state_verdict s \<noteq> OK"
  by (auto simp: binding_finding_def split: option.splits sum.splits if_splits)

lemma segments_loop_OK:
  "(\<forall>s \<in> set (segments_loop present i {} segs). state_verdict s = OK) \<longleftrightarrow>
     (\<forall>j < length segs. seg_intact present (i + j) (segs ! j))"
proof (induction segs arbitrary: i)
  case (Cons seg segs)
  have split: "(\<forall>j < length (seg # segs). seg_intact present (i + j) ((seg # segs) ! j)) \<longleftrightarrow>
      seg_intact present i seg \<and> (\<forall>j < length segs. seg_intact present (Suc i + j) (segs ! j))"
    by (auto simp: less_Suc_eq_0_disj)
  show ?case
  proof (cases "\<exists>chain. sr_chain seg = Some chain \<and> vr_ok chain")
    case False
    then show ?thesis unfolding split by (auto simp: seg_intact_def split: option.splits)
  next
    case True
    then obtain chain where c: "sr_chain seg = Some chain" "vr_ok chain" by blast
    obtain f m where fm: "binding_finding seg i present = (f, m)" by (cases "binding_finding seg i present")
    have intact: "seg_intact present i seg \<longleftrightarrow> f = None \<and> m = None \<and> vr_unverifiable chain = []"
      unfolding seg_intact_def binding_finding_none [symmetric] using c fm by auto
    show ?thesis
    proof (cases "f = None \<and> m = None")
      case True
      then show ?thesis
        unfolding split intact using c fm Cons.IH [of "Suc i"] by (cases "vr_unverifiable chain") simp_all
    next
      case False
      then have "\<exists>s \<in> set (segments_loop present i {} (seg # segs)). state_verdict s \<noteq> OK"
        using c fm binding_finding_bad by (cases m; cases f) auto
      then show ?thesis unfolding split intact using False by blast
    qed
  qed
qed simp

lemma verify_segments_OK:
  "sg_verdict (verify_segments segs) = OK \<longleftrightarrow> (\<forall>i < length segs. seg_intact (present_of segs) i (segs ! i))"
proof -
  have "fold (\<lambda>s acc. join acc (state_verdict s)) ss OK = fold (\<lambda>v acc. join acc v) (map state_verdict ss) OK" for ss
    by (simp add: fold_map comp_def)
  then show ?thesis
    using segments_loop_OK [of "present_of segs" 0 segs] by (auto simp: verify_segments_def Let_def fold_join_OK)
qed

lemma verify_segments_BROKEN:
  "s \<in> set (segments_loop (present_of segs) 0 {} segs) \<Longrightarrow> state_verdict s = BROKEN \<Longrightarrow>
     sg_verdict (verify_segments segs) = BROKEN"
proof -
  assume s: "s \<in> set (segments_loop (present_of segs) 0 {} segs)" "state_verdict s = BROKEN"
  have "fold (\<lambda>s acc. join acc (state_verdict s)) ss OK = fold (\<lambda>v acc. join acc v) (map state_verdict ss) OK" for ss
    by (simp add: fold_map comp_def)
  with s show ?thesis by (force simp: verify_segments_def Let_def fold_join_BROKEN)
qed

lemma segments_loop_missing:
  "seg \<in> set segs \<Longrightarrow> sr_chain seg = Some chain \<Longrightarrow> vr_ok chain \<Longrightarrow>
   (\<And>i. binding_finding seg i present = (None, Some m)) \<Longrightarrow> m \<notin> E \<Longrightarrow>
     \<exists>s \<in> set (segments_loop present i E segs). state_verdict s = BROKEN"
proof (induction segs arbitrary: i E)
  case (Cons x segs)
  show ?case
  proof (cases "x = seg")
    case True
    then show ?thesis using Cons.prems by simp
  next
    case False
    then have seg: "seg \<in> set segs" using Cons.prems(1) by simp
    show ?thesis
    proof (cases "\<exists>n chain f. sr_chain x = Some chain \<and> vr_ok chain \<and> binding_finding x i present = (f, Some n) \<and> n \<notin> E")
      case True
      then show ?thesis by auto
    next
      case out: False
      have "set (segments_loop present (Suc i) E segs) \<subseteq> set (segments_loop present i E (x # segs))"
      proof (cases "sr_chain x")
        case (Some ch)
        obtain f n where fn: "binding_finding x i present = (f, n)" by (cases "binding_finding x i present")
        have "vr_ok ch \<Longrightarrow> (case n of Some m \<Rightarrow> insert m E | None \<Rightarrow> E) = E"
          using out Some fn by (cases n) auto
        then show ?thesis using Some fn by (cases "vr_ok ch") auto
      qed auto
      then show ?thesis using Cons.IH [OF seg Cons.prems(2-5), of "Suc i"] by blast
    qed
  qed
qed simp

section \<open>Trails in order\<close>

text \<open>
  What rotation leaves behind: distinct segments that verify, the first without a binding, every later one with a
  binding that names its predecessor and holds.
\<close>

definition rotated_trail :: "segment_read list \<Rightarrow> bool" where
  "rotated_trail segs \<longleftrightarrow>
     distinct (map sr_identity segs)
     \<and> (\<forall>seg \<in> set segs. \<exists>chain. sr_chain seg = Some chain \<and> vr_ok chain \<and> vr_unverifiable chain = [])
     \<and> (segs \<noteq> [] \<longrightarrow> genesis_payload_type (hd segs) \<noteq> Some ROTATION_PAYLOAD_TYPE)
     \<and> (\<forall>i. Suc i < length segs \<longrightarrow> genesis_payload_type (segs ! Suc i) = Some ROTATION_PAYLOAD_TYPE
          \<and> (\<exists>p b. genesis_payload (segs ! Suc i) = Some p \<and> from_payload p = Inr b
               \<and> named_predecessor b = sr_identity (segs ! i) \<and> binding_holds b (sr_hashes (segs ! i))))"

lemma present_of_distinct:
  "distinct (map sr_identity segs) \<Longrightarrow> seg \<in> set segs \<Longrightarrow> present_of segs (sr_identity seg) = Some seg"
  unfolding present_of_def by (intro map_of_is_SomeI) (auto simp: rev_map [symmetric] comp_def)

lemma present_of_None: "x \<notin> sr_identity ` set segs \<Longrightarrow> present_of segs x = None"
  by (auto simp: present_of_def map_of_eq_None_iff)

lemma rotated_trail_take:
  assumes "rotated_trail segs"
  shows "rotated_trail (take n segs)"
proof -
  have "hd (take n segs) = hd segs" if "take n segs \<noteq> []" using that by (simp add: hd_take)
  moreover have "distinct (map sr_identity (take n segs))"
    using assms distinct_take [of "map sr_identity segs" n] by (simp add: rotated_trail_def take_map)
  ultimately show ?thesis using assms by (auto simp: rotated_trail_def dest: in_set_takeD)
qed

lemma rotated_trail_verifies:
  assumes "rotated_trail segs"
  shows "sg_verdict (verify_segments segs) = OK"
  unfolding verify_segments_OK
proof (intro allI impI)
  fix i assume i: "i < length segs"
  have c: "\<exists>chain. sr_chain (segs ! j) = Some chain \<and> vr_ok chain \<and> vr_unverifiable chain = []" if "j < length segs" for j
    using assms that by (simp add: rotated_trail_def)
  show "seg_intact (present_of segs) i (segs ! i)"
  proof (cases i)
    case 0
    then show ?thesis
      using assms i c [OF i] by (cases segs) (auto simp: rotated_trail_def seg_intact_def)
  next
    case (Suc k)
    then obtain p b where b: "genesis_payload_type (segs ! i) = Some ROTATION_PAYLOAD_TYPE" "genesis_payload (segs ! i) = Some p"
        "from_payload p = Inr b" "named_predecessor b = sr_identity (segs ! k)" "binding_holds b (sr_hashes (segs ! k))"
      using assms i by (auto simp: rotated_trail_def)
    have k: "k < length segs" using i Suc by simp
    then have "present_of segs (named_predecessor b) = Some (segs ! k)"
      using assms b(4) present_of_distinct [of segs "segs ! k"] by (simp add: rotated_trail_def)
    with b c [OF i] c [OF k] show ?thesis by (auto simp: seg_intact_def)
  qed
qed

text \<open>A rotated trail of two segments, under any name.\<close>

definition sample_verified :: verify_result where
  "sample_verified = \<lparr>vr_ok = True, vr_checked = 1, vr_broken_seq = None, vr_reason = None, vr_unverifiable = [],
     dropped_writes = None, drops_source = None\<rparr>"

definition sample_segments :: "pystr \<Rightarrow> segment_read list" where
  "sample_segments stem =
     [\<lparr>sr_identity = stem, sr_chain = Some sample_verified, sr_hashes = [replicate 64 48], genesis_payload_type = None,
       genesis_payload = None\<rparr>,
      \<lparr>sr_identity = stem @ [46], sr_chain = Some sample_verified, sr_hashes = [replicate 64 49],
       genesis_payload_type = Some ROTATION_PAYLOAD_TYPE,
       genesis_payload = Some (JObj (to_payload \<lparr>hb_chain_id = segment_chain_id [] stem, hb_seq = 0, hb_head_hash = replicate 64 48\<rparr>))\<rparr>]"

lemma sample_segments_rotated:
  assumes "47 \<notin> set stem"
  shows "rotated_trail (sample_segments stem)"
proof -
  let ?b = "\<lparr>hb_chain_id = segment_chain_id [] stem, hb_seq = 0, hb_head_hash = replicate 64 48\<rparr>"
  have "from_payload (JObj (to_payload ?b)) = Inr ?b"
    by (rule from_payload_to_payload) (simp add: make_binding_def segment_chain_id_def hex64_def hex_lower_def)
  moreover have "named_predecessor ?b = stem" using named_predecessor_chain_id [OF assms, of ?b "[]"] by simp
  ultimately show ?thesis
    by (auto simp: rotated_trail_def sample_segments_def sample_verified_def binding_holds_def less_Suc_eq)
qed

section \<open>Properties\<close>

text \<open>C18. Deleting segments is detected exactly when something after them survives: of a rotated trail, a directory that
  keeps any set of segments is reported intact if the kept ones are an initial part of the trail, and broken otherwise.
  Cutting off the newest segments is what the bindings cannot show.\<close>

theorem segment_deletion_detected:
  assumes "rotated_trail segs" and "K \<subseteq> {..<length segs}"
  shows "sg_verdict (verify_segments (nths segs K)) = (if \<exists>n. K = {..<n} then OK else BROKEN)"
proof (cases "\<exists>n. K = {..<n}")
  case True
  then obtain n where "K = {..<n}" by blast
  then show ?thesis
    using True rotated_trail_verifies [OF rotated_trail_take [OF assms(1)], of n] by (simp add: nths_upt_eq_take)
next
  case False
  have "\<exists>j. j \<notin> K \<and> Suc j \<in> K"
  proof (rule ccontr)
    assume "\<nexists>j. j \<notin> K \<and> Suc j \<in> K"
    then have down: "j < k \<Longrightarrow> k \<in> K \<Longrightarrow> j \<in> K" for j k by (induction k) (auto simp: less_Suc_eq)
    have fin: "finite K" using assms(2) finite_subset by blast
    have "K = {..<(if K = {} then 0 else Suc (Max K))}"
      using down [OF _ Max_in [OF fin]] Max_in [OF fin] Max_ge [OF fin] by (cases "K = {}") (auto simp: less_Suc_eq_le le_less)
    with False show False by blast
  qed
  then obtain j where j: "j \<notin> K" "Suc j \<in> K" by blast
  let ?s = "segs ! Suc j" and ?d = "nths segs K"
  have l: "Suc j < length segs" using j(2) assms(2) by auto
  then obtain p b where b: "genesis_payload_type ?s = Some ROTATION_PAYLOAD_TYPE" "genesis_payload ?s = Some p"
      "from_payload p = Inr b" "named_predecessor b = sr_identity (segs ! j)"
    using assms(1) by (auto simp: rotated_trail_def)
  obtain chain where c: "sr_chain ?s = Some chain" "vr_ok chain" using assms(1) nth_mem [OF l] by (auto simp: rotated_trail_def)
  have "sr_identity (segs ! j) \<notin> sr_identity ` set ?d"
  proof
    assume "sr_identity (segs ! j) \<in> sr_identity ` set ?d"
    then obtain k where "k < length segs" "k \<in> K" "sr_identity (segs ! k) = sr_identity (segs ! j)" by (auto simp: set_nths)
    then show False
      using assms(1) l j(1) nth_eq_iff_index_eq [of "map sr_identity segs" k j] by (auto simp: rotated_trail_def)
  qed
  then have "binding_finding ?s i (present_of ?d) = (None, Some (sr_identity (segs ! j)))" for i
    using b present_of_None [of "sr_identity (segs ! j)" ?d] by (simp add: binding_finding_def)
  moreover have "?s \<in> set ?d" using j(2) l by (auto simp: set_nths)
  ultimately show ?thesis
    using segments_loop_missing [OF _ c, of ?d "present_of ?d" _ "{}" 0] verify_segments_BROKEN False by fastforce
qed

theorem segment_deletion_detected_witness:
  "sg_verdict (verify_segments (nths (sample_segments (str ''t'')) {1})) = BROKEN"
proof -
  have "\<not> (\<exists>n. {1::nat} = {..<n})" by (metis insertI1 lessThan_iff less_one not_one_less_zero singletonD zero_neq_one gr_zeroI)
  then show ?thesis
    using segment_deletion_detected [OF sample_segments_rotated, of "str ''t''" "{1}"]
    by (simp add: sample_segments_def str_def)
qed

text \<open>Two rotated trails in one directory are reported broken although each of them is intact: the check runs over all
  segments in one list, so the first segment of the second trail is asked for a binding it never had.\<close>

theorem two_trails_reported_broken:
  assumes "rotated_trail xs" "rotated_trail ys" and "xs \<noteq> []" "ys \<noteq> []"
  shows "sg_verdict (verify_segments xs) = OK \<and> sg_verdict (verify_segments ys) = OK
    \<and> sg_verdict (verify_segments (xs @ ys)) = BROKEN"
proof -
  obtain y zs where y: "ys = y # zs" using assms(4) by (cases ys) auto
  obtain chain where c: "sr_chain y = Some chain" "vr_ok chain" "genesis_payload_type y \<noteq> Some ROTATION_PAYLOAD_TYPE"
    using assms(2) y by (auto simp: rotated_trail_def)
  have "\<exists>s \<in> set (segments_loop present i E (xs @ y # zs)). state_verdict s = BROKEN" if "0 < i + length xs" for present i E
    using that
  proof (induction xs arbitrary: i E)
    case Nil
    then show ?case using c by (auto simp: binding_finding_def)
  next
    case (Cons x xs)
    have "\<exists>E'. set (segments_loop present (Suc i) E' (xs @ y # zs)) \<subseteq> set (segments_loop present i E (x # xs @ y # zs))"
      by (cases "sr_chain x"; cases "binding_finding x i present") (auto split: if_splits)
    then show ?case using Cons.IH [of "Suc i"] by fastforce
  qed
  from this [of 0 "present_of (xs @ ys)" "{}"] show ?thesis
    using rotated_trail_verifies assms verify_segments_BROKEN [of _ "xs @ ys"] by (auto simp: y)
qed

theorem two_trails_reported_broken_witness:
  "sg_verdict (verify_segments (sample_segments (str ''a'') @ sample_segments (str ''b''))) = BROKEN"
  using two_trails_reported_broken [OF sample_segments_rotated sample_segments_rotated, of "str ''a''" "str ''b''"]
  by (simp add: sample_segments_def str_def)

text \<open>A binding pins the history it points into: two verified versions of the predecessor that both satisfy one binding
  have the same headers up to the bound position, absent a hash collision.\<close>

theorem binding_pins_history:
  assumes "reachable_registry sha reg" "reachable_registry sha reg'"
    and "\<forall>e \<in> set es \<union> set fs. short_header (header e)"
    and "verify_chain sha reg es = Inr r" "vr_ok r" "vr_checked r = length es"
    and "verify_chain sha reg' fs = Inr r'" "vr_ok r'" "vr_checked r' = length fs"
    and "binding_holds b (map entry_hash es)" "binding_holds b (map entry_hash fs)"
    and "inj_on sha (chain_frames es \<union> chain_frames fs)"
  shows "take (nat (hb_seq b) + 1) (map header es) = take (nat (hb_seq b) + 1) (map header fs)"
proof -
  have s: "\<forall>e \<in> set es. short_header (header e)" "\<forall>e \<in> set fs. short_header (header e)" using assms(3) by auto
  note e = verified_all_known [OF assms(1) s(1) assms(4-6)] and f = verified_all_known [OF assms(2) s(2) assms(7-9)]
  let ?i = "nat (hb_seq b)"
  have i: "?i < length es" "?i < length fs" "entry_hash (es ! ?i) = entry_hash (fs ! ?i)"
    using assms(10,11) by (auto simp: binding_holds_nth)
  have "\<forall>k \<le> ?i. header (es ! k) = header (fs ! k)"
    using same_hash_same_history [OF e(1) f(1) e(2) f(2) assms(12) i] by blast
  then show ?thesis using i by (intro nth_equalityI) auto
qed

theorem binding_pins_history_witness:
  "take 1 (map header [sample_row sha256 0 GENESIS_PREV_HASH]) = [header (sample_row sha256 0 GENESIS_PREV_HASH)]"
proof -
  let ?es = "[sample_row sha256 0 GENESIS_PREV_HASH]" and ?reg = "sample_registry sha256"
  let ?b = "\<lparr>hb_chain_id = [1], hb_seq = 0, hb_head_hash = entry_hash (sample_row sha256 0 GENESIS_PREV_HASH)\<rparr>"
  have s: "\<forall>e \<in> set ?es. short_header (header e)" by (simp add: sha256.sample_row_short)
  obtain r where r: "verify_chain sha256 ?reg ?es = Inr r" and v: "vr_ok r" and "vr_checked r = 1"
    by (rule sha256.sample_row_verifies)
  then have c: "vr_checked r = length ?es" by simp
  have "inj_on sha256 (chain_frames ?es)" by (auto simp: chain_frames_def intro!: inj_onI)
  then show ?thesis
    using binding_pins_history [OF sample_registry_reachable sample_registry_reachable _ r v c r v c, of ?b] s
    by (simp add: binding_holds_def)
qed

text \<open>The names of a trail's segments are ordered as the segments are: a name gives its ordinal back, and of two names the
  lexicographically smaller one is the older.\<close>

theorem segment_names_ordered:
  assumes "segment_name stem m = Inr a" "segment_name stem n = Inr b"
  shows "segment_ordinal a stem = Some m \<and> segment_ordinal b stem = Some n \<and> (a < b \<longleftrightarrow> m < n)"
  using segment_ordinal_name [OF assms(1)] segment_ordinal_name [OF assms(2)] segment_name_order [OF assms] by blast

theorem segment_names_ordered_witness:
  "\<exists>a b. segment_name (str ''trail'') 9 = Inr a \<and> segment_name (str ''trail'') 10 = Inr b \<and> a < b
     \<and> segment_ordinal a (str ''trail'') = Some 9"
proof -
  obtain a b where n: "segment_name (str ''trail'') 9 = Inr a" "segment_name (str ''trail'') 10 = Inr b"
    by (simp add: segment_name_def SEGMENT_DIGITS_def)
  with segment_names_ordered [OF n] show ?thesis by simp
qed

text \<open>A project's directory name is safe wherever the project lives: for every path, and whatever lower-casing does, it has
  only lowercase letters, digits and dashes, does not start with a dash and is at most 45 characters long.\<close>

theorem project_slug_safe:
  "set (project_slug sha lower cwd) \<subseteq> {c. slug_char c \<or> c = 45} \<and> length (project_slug sha lower cwd) \<le> 45
    \<and> slug_char (hd (project_slug sha lower cwd))"
proof -
  define r where "r = readable lower cwd"
  have r: "\<forall>c \<in> set r. slug_char c \<or> c = 45" "length r \<le> 32" "r \<noteq> []" "slug_char (hd r)"
  proof -
    define f where "f = strip_of {45} (fold_unsafe False (lower (after_last {47, 92} (rstrip_of {47, 92} cwd))))"
    have f: "c \<in> set f \<Longrightarrow> slug_char c \<or> c = 45" for c
      using set_strip_of fold_unsafe_chars unfolding f_def by blast
    define k where "k = strip_of {45} (take SLUG_READABLE_MAX f)"
    have k: "\<forall>c \<in> set k. slug_char c \<or> c = 45" "length k \<le> 32" "k \<noteq> [] \<Longrightarrow> hd k \<noteq> 45"
    proof -
      have "c \<in> set f" if "c \<in> set k" for c using that set_strip_of in_set_takeD unfolding k_def by metis
      then show "\<forall>c \<in> set k. slug_char c \<or> c = 45" using f by blast
      show "length k \<le> 32"
        using length_strip_of [of "{45}" "take SLUG_READABLE_MAX f"] by (simp add: k_def SLUG_READABLE_MAX_def)
      show "k \<noteq> [] \<Longrightarrow> hd k \<noteq> 45" using hd_strip_of [of "{45}" "take SLUG_READABLE_MAX f"] by (auto simp: k_def)
    qed
    have "r = (if k = [] then SLUG_FALLBACK else k)"
      by (simp add: r_def readable_def k_def f_def Let_def)
    then show "\<forall>c \<in> set r. slug_char c \<or> c = 45" "length r \<le> 32" "r \<noteq> []" "slug_char (hd r)"
      using k hd_in_set [of k] by (auto simp: SLUG_FALLBACK_def str_def slug_char_def)
  qed
  moreover have "slug_char c" if "c \<in> set (take SLUG_DIGEST_CHARS (hex (sha x)))" for c x
    using set_hex [of c "sha x"] in_set_takeD [OF that] by (auto simp: hex_lower_def slug_char_def)
  ultimately show ?thesis
    unfolding project_slug_def r_def [symmetric] by (auto simp: SLUG_DIGEST_CHARS_def)
qed

end
