(* ===== verification/Receipts.thy ===== *)
theory Receipts
  imports Registry Verdict Json
begin

text \<open>
  Per-append receipts (\<^verbatim>\<open>domain/receipts.py\<close>) and their sidecar (\<^verbatim>\<open>adapters/receipts.py\<close>): the record, the
  classification of a line and the reconciliation with a trail. The sidecar is its physical lines, a blank one or what
  decoding the line gives, and \<open>None\<close> where there is no file; the texts of diagnostics are not modelled. Reconciliation
  reports the first line that contradicts the trail, agrees exactly when every line does, and the record written for an
  acknowledgment is read back.
\<close>

section \<open>Records and lines\<close>

definition RECEIPT_RECORD_VERSION :: int where "RECEIPT_RECORD_VERSION = 1"
definition KNOWN_RECORD_VERSIONS :: "int set" where "KNOWN_RECORD_VERSIONS = {RECEIPT_RECORD_VERSION}"
definition RECEIPT_FRAME_FINGERPRINT_FIELD :: string where
  "RECEIPT_FRAME_FINGERPRINT_FIELD = ''receipt_frame_fingerprint''"

record receipt_record =
  rr_line_no :: nat
  rr_seq :: int
  rr_entry_hash :: pystr
  rr_receipt_seq :: int
  rr_receipt_head :: pystr
  rr_source :: pystr
  rr_ts :: pystr
  rr_fingerprint :: pystr

datatype receipt_line =
    ReceiptRecord receipt_record
  | MalformedRecord nat
  | UnreadableRecord nat pystr
  | UnrecognizedReceiptFrame nat pystr

record receipt_sidecar =
  rs_present :: bool
  rs_lines :: "receipt_line list"

record receipt_reconciliation =
  rc_verdict :: verdict
  rc_reason :: "string option"
  rc_checked :: nat
  rc_broken_seq :: "int option"
  rc_broken_line :: "nat option"
  rc_present :: bool
  rc_latest_seq :: "int option"
  rc_unreadable_versions :: "pystr list"
  rc_unrecognized :: "pystr list"

definition build_receipt_record ::
  "(bytes \<Rightarrow> bytes) \<Rightarrow> int \<Rightarrow> pystr \<Rightarrow> int \<Rightarrow> pystr \<Rightarrow> pystr \<Rightarrow> pystr \<Rightarrow> pystr option \<Rightarrow> json res" where
  "build_receipt_record sha sq eh rsq rhead source stamp fp =
     res_map (\<lambda>f. JObj [(str ''entry_hash'', JStr eh), (str RECEIPT_FRAME_FINGERPRINT_FIELD, JStr f),
                        (str ''receipt_head'', JStr rhead), (str ''receipt_seq'', JInt rsq), (str ''seq'', JInt sq),
                        (str ''source'', JStr source), (str ''ts'', JStr stamp), (str ''v'', JInt RECEIPT_RECORD_VERSION)])
       (case fp of None \<Rightarrow> receipt_fingerprint sha | Some f \<Rightarrow> Inr f)"

definition receipt_index :: "jobj \<Rightarrow> string \<Rightarrow> int res" where
  "receipt_index fs key =
     res_bind (jindex fs key) (\<lambda>v. case v of JInt n \<Rightarrow> if n < 0 then Inl ValueError else Inr n | _ \<Rightarrow> Inl TypeError)"

definition receipt_hex64 :: "jobj \<Rightarrow> string \<Rightarrow> pystr res" where
  "receipt_hex64 fs key =
     res_bind (jindex fs key) (\<lambda>v. case v of JStr s \<Rightarrow> if hex64 s then Inr s else Inl ValueError | _ \<Rightarrow> Inl ValueError)"

text \<open>The record itself, read once the version and the frame are known.\<close>

definition read_receipt :: "runtime \<Rightarrow> jobj \<Rightarrow> nat \<Rightarrow> pystr \<Rightarrow> receipt_record res" where
  "read_receipt rt fs line_no fp =
     res_bind (receipt_index fs ''seq'') (\<lambda>sq. res_bind (receipt_hex64 fs ''entry_hash'') (\<lambda>eh.
     res_bind (receipt_index fs ''receipt_seq'') (\<lambda>rsq. res_bind (receipt_hex64 fs ''receipt_head'') (\<lambda>rhead.
       Inr \<lparr>rr_line_no = line_no, rr_seq = sq, rr_entry_hash = eh, rr_receipt_seq = rsq, rr_receipt_head = rhead,
            rr_source = (case jget fs ''source'' of None \<Rightarrow> str ''unknown'' | Some v \<Rightarrow> py_str rt v),
            rr_ts = (case jget fs ''ts'' of None \<Rightarrow> [] | Some v \<Rightarrow> py_str rt v), rr_fingerprint = fp\<rparr>))))"

definition declared_fingerprint :: "(bytes \<Rightarrow> bytes) \<Rightarrow> jobj \<Rightarrow> pystr option res" where
  "declared_fingerprint sha fs =
     (case jget_null fs RECEIPT_FRAME_FINGERPRINT_FIELD of
        JNull \<Rightarrow> res_map Some (receipt_fingerprint sha)
      | JStr s \<Rightarrow> Inr (if hex64 s then Some s else None)
      | _ \<Rightarrow> Inr None)"

definition parse_receipt_line ::
  "(bytes \<Rightarrow> bytes) \<Rightarrow> runtime \<Rightarrow> receipt_registry \<Rightarrow> json res \<Rightarrow> nat \<Rightarrow> receipt_line res" where
  "parse_receipt_line sha rt reg line line_no =
     (case line of
        Inl e \<Rightarrow> if is_ValueError e then Inr (MalformedRecord line_no) else Inl e
      | Inr (JObj fs) \<Rightarrow>
          (case (case jget fs ''v'' of None \<Rightarrow> JInt RECEIPT_RECORD_VERSION | Some v \<Rightarrow> v) of
             JInt version \<Rightarrow>
               if version \<notin> KNOWN_RECORD_VERSIONS then Inr (UnreadableRecord line_no (str_int version))
               else res_bind (declared_fingerprint sha fs) (\<lambda>declared.
                 case declared of
                   None \<Rightarrow> Inr (MalformedRecord line_no)
                 | Some fp \<Rightarrow>
                     if \<not> receipt_knows reg fp then Inr (UnrecognizedReceiptFrame line_no fp)
                     else (case read_receipt rt fs line_no fp of
                             Inl e \<Rightarrow> if e = KeyError \<or> e = TypeError \<or> is_ValueError e
                                      then Inr (MalformedRecord line_no) else Inl e
                           | Inr r \<Rightarrow> Inr (ReceiptRecord r)))
           | _ \<Rightarrow> Inr (MalformedRecord line_no))
      | Inr _ \<Rightarrow> Inr (MalformedRecord line_no))"

section \<open>The sidecar\<close>

type_synonym receipts_file = "json res option list option"

fun read_receipt_lines ::
  "(bytes \<Rightarrow> bytes) \<Rightarrow> runtime \<Rightarrow> receipt_registry \<Rightarrow> nat \<Rightarrow> json res option list \<Rightarrow> receipt_line list res" where
  "read_receipt_lines sha rt reg n [] = Inr []"
| "read_receipt_lines sha rt reg n (None # ls) = read_receipt_lines sha rt reg (Suc n) ls"
| "read_receipt_lines sha rt reg n (Some l # ls) =
     res_bind (parse_receipt_line sha rt reg l n) (\<lambda>x. res_map (Cons x) (read_receipt_lines sha rt reg (Suc n) ls))"

definition read_receipts :: "(bytes \<Rightarrow> bytes) \<Rightarrow> runtime \<Rightarrow> receipts_file \<Rightarrow> receipt_sidecar res" where
  "read_receipts sha rt file =
     (case file of
        None \<Rightarrow> Inr \<lparr>rs_present = False, rs_lines = []\<rparr>
      | Some ls \<Rightarrow> res_bind (new_receipt_registry sha) (\<lambda>reg.
          res_map (\<lambda>xs. \<lparr>rs_present = True, rs_lines = xs\<rparr>) (read_receipt_lines sha rt reg 1 ls)))"

definition append_receipt ::
  "(bytes \<Rightarrow> bytes) \<Rightarrow> receipts_file \<Rightarrow> int \<Rightarrow> pystr \<Rightarrow> int \<Rightarrow> pystr \<Rightarrow> pystr \<Rightarrow> pystr \<Rightarrow> receipts_file res" where
  "append_receipt sha file sq eh rsq rhead source stamp =
     res_map (\<lambda>r. Some ((case file of None \<Rightarrow> [] | Some ls \<Rightarrow> ls) @ [Some (Inr r)]))
       (build_receipt_record sha sq eh rsq rhead source stamp None)"

section \<open>Reconciliation\<close>

fun reconcile_loop :: "pystr list \<Rightarrow> receipt_line list \<Rightarrow> receipt_reconciliation \<Rightarrow> receipt_reconciliation" where
  "reconcile_loop hs [] st = st"
| "reconcile_loop hs (line # lines) st =
     reconcile_loop hs lines
       (case line of
          UnreadableRecord n v \<Rightarrow> st\<lparr>rc_unreadable_versions := rc_unreadable_versions st @ [v]\<rparr>
        | UnrecognizedReceiptFrame n fp \<Rightarrow> st\<lparr>rc_unrecognized := rc_unrecognized st @ [fp]\<rparr>
        | MalformedRecord n \<Rightarrow>
            if rc_verdict st \<noteq> BROKEN
            then st\<lparr>rc_verdict := BROKEN, rc_reason := Some ''malformed_receipt_record'', rc_broken_line := Some n\<rparr>
            else st
        | ReceiptRecord r \<Rightarrow>
            let st' = st\<lparr>rc_checked := rc_checked st + 1,
                         rc_latest_seq := Some (case rc_latest_seq st of None \<Rightarrow> rr_seq r | Some l \<Rightarrow> max l (rr_seq r))\<rparr> in
            if rc_verdict st = BROKEN then st'
            else if rr_seq r \<ge> int (length hs)
            then st'\<lparr>rc_verdict := BROKEN, rc_reason := Some ''receipt_beyond_head'',
                     rc_broken_seq := Some (rr_seq r), rc_broken_line := Some (rr_line_no r)\<rparr>
            else if hs ! nat (rr_seq r) \<noteq> rr_entry_hash r
            then st'\<lparr>rc_verdict := BROKEN, rc_reason := Some ''receipt_mismatch'',
                     rc_broken_seq := Some (rr_seq r), rc_broken_line := Some (rr_line_no r)\<rparr>
            else st')"

definition reconcile_receipts :: "pystr list \<Rightarrow> receipt_sidecar \<Rightarrow> receipt_reconciliation" where
  "reconcile_receipts hs sidecar =
     (let st = reconcile_loop hs (rs_lines sidecar)
                 \<lparr>rc_verdict = OK, rc_reason = None, rc_checked = 0, rc_broken_seq = None, rc_broken_line = None,
                  rc_present = rs_present sidecar, rc_latest_seq = None, rc_unreadable_versions = [], rc_unrecognized = []\<rparr> in
      if rc_verdict st = OK then
        if rc_unreadable_versions st \<noteq> [] then st\<lparr>rc_verdict := UNVERIFIABLE, rc_reason := Some ''unreadable_record_version''\<rparr>
        else if rc_unrecognized st \<noteq> []
        then st\<lparr>rc_verdict := UNVERIFIABLE, rc_reason := Some ''unrecognized_receipt_frame_fingerprint''\<rparr>
        else st
      else st)"

section \<open>The first line that contradicts the trail\<close>

definition receipt_break :: "pystr list \<Rightarrow> receipt_line \<Rightarrow> (string \<times> int option \<times> nat) option" where
  "receipt_break hs line =
     (case line of
        MalformedRecord n \<Rightarrow> Some (''malformed_receipt_record'', None, n)
      | ReceiptRecord r \<Rightarrow>
          if rr_seq r \<ge> int (length hs) then Some (''receipt_beyond_head'', Some (rr_seq r), rr_line_no r)
          else if hs ! nat (rr_seq r) \<noteq> rr_entry_hash r then Some (''receipt_mismatch'', Some (rr_seq r), rr_line_no r)
          else None
      | _ \<Rightarrow> None)"

definition receipt_records :: "receipt_line list \<Rightarrow> receipt_record list" where
  "receipt_records lines = concat (map (\<lambda>l. case l of ReceiptRecord r \<Rightarrow> [r] | _ \<Rightarrow> []) lines)"

definition receipt_versions :: "receipt_line list \<Rightarrow> pystr list" where
  "receipt_versions lines = concat (map (\<lambda>l. case l of UnreadableRecord n v \<Rightarrow> [v] | _ \<Rightarrow> []) lines)"

definition receipt_frames :: "receipt_line list \<Rightarrow> pystr list" where
  "receipt_frames lines = concat (map (\<lambda>l. case l of UnrecognizedReceiptFrame n fp \<Rightarrow> [fp] | _ \<Rightarrow> []) lines)"

definition latest_receipt :: "int option \<Rightarrow> receipt_record list \<Rightarrow> int option" where
  "latest_receipt l rs = fold (\<lambda>r acc. Some (case acc of None \<Rightarrow> rr_seq r | Some m \<Rightarrow> max m (rr_seq r))) rs l"

lemmas receipt_views = receipt_records_def receipt_versions_def receipt_frames_def latest_receipt_def

definition tallied :: "receipt_line list \<Rightarrow> receipt_reconciliation \<Rightarrow> receipt_reconciliation" where
  "tallied lines st =
     st\<lparr>rc_checked := rc_checked st + length (receipt_records lines),
        rc_latest_seq := latest_receipt (rc_latest_seq st) (receipt_records lines),
        rc_unreadable_versions := rc_unreadable_versions st @ receipt_versions lines,
        rc_unrecognized := rc_unrecognized st @ receipt_frames lines\<rparr>"

definition break_reported :: "receipt_reconciliation \<Rightarrow> string \<times> int option \<times> nat \<Rightarrow> receipt_reconciliation" where
  "break_reported st brk =
     (case brk of (rsn, sq, n) \<Rightarrow>
        st\<lparr>rc_verdict := BROKEN, rc_reason := Some rsn,
           rc_broken_seq := (case sq of None \<Rightarrow> rc_broken_seq st | Some q \<Rightarrow> Some q), rc_broken_line := Some n\<rparr>)"

lemma tallied_Nil [simp]: "tallied [] st = st"
  by (simp add: tallied_def receipt_views)

lemma reconcile_loop_broken: "rc_verdict st = BROKEN \<Longrightarrow> reconcile_loop hs lines st = tallied lines st"
  by (induction lines arbitrary: st)
     (auto simp: tallied_def receipt_views Let_def split: receipt_line.splits)

lemma reconcile_loop_eq:
  "rc_verdict st \<noteq> BROKEN \<Longrightarrow> reconcile_loop hs lines st =
     (case List.find (\<lambda>l. receipt_break hs l \<noteq> None) lines of
        None \<Rightarrow> tallied lines st
      | Some l \<Rightarrow> break_reported (tallied lines st) (the (receipt_break hs l)))"
proof (induction lines arbitrary: st)
  case (Cons line lines)
  have step: "tallied lines (tallied [line] st) = tallied (line # lines) st" for st
    by (cases line) (simp_all add: tallied_def receipt_views)
  have comm: "tallied ls (break_reported x b) = break_reported (tallied ls x) b" for ls x b
    by (cases b; cases x) (simp add: tallied_def break_reported_def split: option.splits)
  show ?case
  proof (cases "receipt_break hs line")
    case None
    then have "reconcile_loop hs (line # lines) st = reconcile_loop hs lines (tallied [line] st)"
      using Cons.prems
      by (cases line) (auto simp: tallied_def receipt_views receipt_break_def Let_def split: if_splits)
    moreover have "rc_verdict (tallied [line] st) \<noteq> BROKEN" using Cons.prems by (simp add: tallied_def)
    ultimately show ?thesis using Cons.IH [of "tallied [line] st"] None
      by (simp add: step del: reconcile_loop.simps split: option.split)
  next
    case (Some b)
    then have "reconcile_loop hs (line # lines) st = reconcile_loop hs lines (break_reported (tallied [line] st) b)"
      using Cons.prems
      by (cases line)
         (auto simp: tallied_def receipt_views receipt_break_def break_reported_def Let_def split: if_splits)
    also have "\<dots> = tallied lines (break_reported (tallied [line] st) b)"
      by (rule reconcile_loop_broken) (cases b, simp add: break_reported_def)
    finally show ?thesis using Some step comm by (cases b) (simp del: reconcile_loop.simps)
  qed
qed simp

section \<open>Reading what was written\<close>

lemma receipt_fingerprint_total:
  assumes "digest32 sha"
  obtains fp where "receipt_fingerprint sha = Inr fp" "hex64 fp"
proof -
  have "\<forall>c \<in> set (ALGORITHM # ENCODING # RECEIPT_FRAME_FIELDS). encodable c"
    by (auto simp: RECEIPT_FRAME_FIELDS_def ALGORITHM_def ENCODING_def intro!: encodable_str)
  then obtain f where "component_frame RECEIPT_DESCRIPTOR_PREFIX (ALGORITHM # ENCODING # RECEIPT_FRAME_FIELDS) = Inr f"
    using component_frame_total [of "ALGORITHM # ENCODING # RECEIPT_FRAME_FIELDS" RECEIPT_DESCRIPTOR_PREFIX]
    by (auto simp: RECEIPT_FRAME_FIELDS_def)
  then show thesis
    by (intro that) (auto simp: receipt_fingerprint_def receipt_fingerprint_for_def digest32.digest_length [OF assms] intro!: hex64_hex)
qed

lemma read_receipt_lines_append:
  "read_receipt_lines sha rt reg n (xs @ ys) =
     res_bind (read_receipt_lines sha rt reg n xs) (\<lambda>a. res_map (\<lambda>b. a @ b) (read_receipt_lines sha rt reg (n + length xs) ys))"
proof (induction sha rt reg n xs rule: read_receipt_lines.induct)
  case (1 sha rt reg n)
  show ?case by (cases "read_receipt_lines sha rt reg n ys") simp_all
next
  case (2 sha rt reg n ls)
  then show ?case by simp
next
  case (3 sha rt reg n l ls)
  then show ?case
    by (cases "parse_receipt_line sha rt reg l n"; cases "read_receipt_lines sha rt reg (Suc n) ls";
        cases "read_receipt_lines sha rt reg (Suc (n + length ls)) ys") simp_all
qed

lemma parse_built_receipt:
  assumes "receipt_fingerprint sha = Inr fp" "hex64 fp" "receipt_knows reg fp"
    and "hex64 eh" "hex64 rhead" "0 \<le> sq" "0 \<le> rsq"
    and "build_receipt_record sha sq eh rsq rhead source stamp None = Inr r"
  shows "parse_receipt_line sha rt reg (Inr r) n = Inr (ReceiptRecord \<lparr>rr_line_no = n, rr_seq = sq, rr_entry_hash = eh,
    rr_receipt_seq = rsq, rr_receipt_head = rhead, rr_source = source, rr_ts = stamp, rr_fingerprint = fp\<rparr>)"
  using assms
  by (auto simp: build_receipt_record_def parse_receipt_line_def declared_fingerprint_def read_receipt_def receipt_index_def
      receipt_hex64_def jlookup RECEIPT_FRAME_FINGERPRINT_FIELD_def KNOWN_RECORD_VERSIONS_def res_elims)

section \<open>Properties\<close>

text \<open>Reconciliation reports the first line of the sidecar that contradicts the trail, with its reason, position and line
  number, and counts every readable record whatever it reports; only without such a line does a version or a frame this
  build does not know make the result unverifiable.\<close>

theorem reconcile_reports_first_break:
  "reconcile_receipts hs sidecar =
     (let ls = rs_lines sidecar;
          st = \<lparr>rc_verdict = OK, rc_reason = None, rc_checked = length (receipt_records ls), rc_broken_seq = None,
                rc_broken_line = None, rc_present = rs_present sidecar, rc_latest_seq = latest_receipt None (receipt_records ls),
                rc_unreadable_versions = receipt_versions ls, rc_unrecognized = receipt_frames ls\<rparr> in
      case List.find (\<lambda>l. receipt_break hs l \<noteq> None) ls of
        Some l \<Rightarrow> (case the (receipt_break hs l) of (rsn, sq, n) \<Rightarrow>
                    st\<lparr>rc_verdict := BROKEN, rc_reason := Some rsn, rc_broken_seq := sq, rc_broken_line := Some n\<rparr>)
      | None \<Rightarrow> if receipt_versions ls \<noteq> [] then st\<lparr>rc_verdict := UNVERIFIABLE, rc_reason := Some ''unreadable_record_version''\<rparr>
                else if receipt_frames ls \<noteq> []
                then st\<lparr>rc_verdict := UNVERIFIABLE, rc_reason := Some ''unrecognized_receipt_frame_fingerprint''\<rparr>
                else st)"
  by (auto simp: reconcile_receipts_def reconcile_loop_eq tallied_def break_reported_def Let_def
      split: option.splits prod.splits)

lemma receipt_versions_iff: "receipt_versions ls \<noteq> [] \<longleftrightarrow> (\<exists>n v. UnreadableRecord n v \<in> set ls)"
  by (induction ls) (auto simp: receipt_versions_def split: receipt_line.splits)

lemma receipt_frames_iff: "receipt_frames ls \<noteq> [] \<longleftrightarrow> (\<exists>n v. UnrecognizedReceiptFrame n v \<in> set ls)"
  by (induction ls) (auto simp: receipt_frames_def split: receipt_line.splits)

lemma reconcile_verdict:
  "rc_verdict (reconcile_receipts hs sidecar) =
     (if \<exists>l \<in> set (rs_lines sidecar). receipt_break hs l \<noteq> None then BROKEN
      else if receipt_versions (rs_lines sidecar) \<noteq> [] \<or> receipt_frames (rs_lines sidecar) \<noteq> [] then UNVERIFIABLE else OK)"
proof (cases "List.find (\<lambda>l. receipt_break hs l \<noteq> None) (rs_lines sidecar)")
  case None
  have "\<not> (\<exists>l \<in> set (rs_lines sidecar). receipt_break hs l \<noteq> None)" using None by (auto simp: find_None_iff)
  with None show ?thesis
    by (simp add: reconcile_receipts_def reconcile_loop_eq tallied_def Let_def del: not_None_eq)
next
  case (Some l)
  then have l: "l \<in> set (rs_lines sidecar)" "receipt_break hs l \<noteq> None" by (auto simp: find_Some_iff)
  then obtain rsn sq n where b: "receipt_break hs l = Some (rsn, sq, n)" by auto
  have "\<exists>l \<in> set (rs_lines sidecar). receipt_break hs l \<noteq> None" using l by blast
  with Some b show ?thesis
    by (simp add: reconcile_receipts_def reconcile_loop_eq tallied_def break_reported_def Let_def del: not_None_eq)
qed

text \<open>Receipts agree with a trail exactly when every line of the sidecar is a record this build reads and the trail still has
  the acknowledged hash at the acknowledged position; so editing or cutting off a single acknowledged entry is a
  break.\<close>

theorem receipts_agree_iff:
  "rc_verdict (reconcile_receipts hs sidecar) = OK \<longleftrightarrow>
     set (rs_lines sidecar) \<subseteq> {ReceiptRecord r | r. rr_seq r < int (length hs) \<and> hs ! nat (rr_seq r) = rr_entry_hash r}"
proof -
  define good where "good = (\<lambda>l. receipt_break hs l = None \<and> (\<forall>n v. l \<noteq> UnreadableRecord n v) \<and> (\<forall>n v. l \<noteq> UnrecognizedReceiptFrame n v))"
  have "{ReceiptRecord r | r. rr_seq r < int (length hs) \<and> hs ! nat (rr_seq r) = rr_entry_hash r} = {l. good l}"
  proof (rule set_eqI)
    fix l show "l \<in> {ReceiptRecord r | r. rr_seq r < int (length hs) \<and> hs ! nat (rr_seq r) = rr_entry_hash r} \<longleftrightarrow> l \<in> {l. good l}"
      by (cases l) (auto simp: receipt_break_def good_def)
  qed
  moreover have "rc_verdict (reconcile_receipts hs sidecar) = OK \<longleftrightarrow> (\<forall>l \<in> set (rs_lines sidecar). good l)"
    unfolding reconcile_verdict receipt_versions_iff receipt_frames_iff good_def by (simp del: not_None_eq) metis
  ultimately show ?thesis by blast
qed

text \<open>An acknowledgment that was filed is read back: whatever the sidecar held, the record appended for an accepted entry is
  read as one more record, with its fields and at its own line.\<close>

theorem receipt_round_trip:
  assumes "digest32 sha" and "read_receipts sha rt file = Inr sidecar"
    and "append_receipt sha file sq eh rsq rhead source stamp = Inr file'"
    and "hex64 eh" "hex64 rhead" "0 \<le> sq" "0 \<le> rsq"
  shows "\<exists>fp. receipt_fingerprint sha = Inr fp \<and> read_receipts sha rt file' = Inr \<lparr>rs_present = True, rs_lines = rs_lines sidecar @
    [ReceiptRecord \<lparr>rr_line_no = Suc (case file of None \<Rightarrow> 0 | Some ls \<Rightarrow> length ls), rr_seq = sq, rr_entry_hash = eh,
      rr_receipt_seq = rsq, rr_receipt_head = rhead, rr_source = source, rr_ts = stamp, rr_fingerprint = fp\<rparr>]\<rparr>"
proof -
  obtain fp where fp: "receipt_fingerprint sha = Inr fp" "hex64 fp" using receipt_fingerprint_total [OF assms(1)] .
  let ?reg = "[fp \<mapsto> RECEIPT_FRAME_FIELDS]" and ?ls = "case file of None \<Rightarrow> [] | Some ls \<Rightarrow> ls"
  have reg: "new_receipt_registry sha = Inr ?reg" by (simp add: new_receipt_registry_def fp(1))
  obtain r where r: "build_receipt_record sha sq eh rsq rhead source stamp None = Inr r" "file' = Some (?ls @ [Some (Inr r)])"
    using assms(3) by (auto simp: append_receipt_def res_elims)
  have old: "read_receipt_lines sha rt ?reg 1 ?ls = Inr (rs_lines sidecar)"
    using assms(2) reg by (auto simp: read_receipts_def res_elims split: option.splits)
  have "receipt_knows ?reg fp" by (simp add: receipt_knows_def)
  note new = parse_built_receipt [OF fp this assms(4-7) r(1), of rt "Suc (length ?ls)"]
  have "length ?ls = (case file of None \<Rightarrow> 0 | Some ls \<Rightarrow> length ls)" by (cases "file") simp_all
  with fp(1) old new reg show ?thesis
    by (simp add: read_receipts_def r(2) read_receipt_lines_append)
qed

theorem receipt_round_trip_witness:
  "\<exists>file fp. append_receipt sha256 None 0 (replicate 64 48) 7 (replicate 64 97) [] [] = Inr file
     \<and> read_receipts sha256 ascii_runtime file = Inr \<lparr>rs_present = True, rs_lines =
         [ReceiptRecord \<lparr>rr_line_no = 1, rr_seq = 0, rr_entry_hash = replicate 64 48, rr_receipt_seq = 7,
           rr_receipt_head = replicate 64 97, rr_source = [], rr_ts = [], rr_fingerprint = fp\<rparr>]\<rparr>"
proof -
  obtain fp where fp: "receipt_fingerprint sha256 = Inr fp" using receipt_fingerprint_total [OF sha256.digest32_axioms] .
  then obtain fl where f: "append_receipt sha256 None 0 (replicate 64 48) 7 (replicate 64 97) [] [] = Inr fl"
    by (simp add: append_receipt_def build_receipt_record_def)
  have "read_receipts sha256 ascii_runtime None = Inr \<lparr>rs_present = False, rs_lines = []\<rparr>" by (simp add: read_receipts_def)
  from receipt_round_trip [OF sha256.digest32_axioms this f] f show ?thesis by (auto simp: hex64_def hex_lower_def)
qed

end
