(* ===== verification/Tickets.thy ===== *)
theory Tickets
  imports Verdict Json
begin

text \<open>
  Admission tickets (\<^verbatim>\<open>domain/tickets.py\<close>) and the command that reconciles them (\<^verbatim>\<open>cli/tickets.py\<close>): the ticket
  and its payload, the scan of a trail, the reconciliation with what the issuer reports, the report's lines and the exit
  code. What \<^verbatim>\<open>json.loads\<close> makes of a payload is the argument \<open>loads\<close>. Every issued ticket is accounted for, a drop once
  detected stays detected while the ticket is absent, and the open window hides fewer than a whole lease.
\<close>

section \<open>Tickets\<close>

definition TICKET_PAYLOAD_TYPE :: pystr where
  "TICKET_PAYLOAD_TYPE = str ''application/vnd.waxseal.admission-ticket+json''"

record ticket =
  tk_issuer :: pystr
  tk_id :: int

definition make_ticket :: "json \<Rightarrow> json \<Rightarrow> ticket res" where
  "make_ticket issuer tid =
     (case issuer of
        JStr s \<Rightarrow> if s = [] then Inl ValueError
                 else (case tid of
                         JInt n \<Rightarrow> if n < 0 then Inl ValueError else Inr \<lparr>tk_issuer = s, tk_id = n\<rparr>
                       | _ \<Rightarrow> Inl ValueError)
      | _ \<Rightarrow> Inl ValueError)"

definition ticket_to_payload :: "ticket \<Rightarrow> jobj" where
  "ticket_to_payload t = [(str ''issuer'', JStr (tk_issuer t)), (str ''ticket_id'', JInt (tk_id t))]"

definition ticket_from_payload :: "json \<Rightarrow> ticket res" where
  "ticket_from_payload p =
     (case p of JObj fs \<Rightarrow> make_ticket (jget_null fs ''issuer'') (jget_null fs ''ticket_id'') | _ \<Rightarrow> Inl ValueError)"

record ticket_scan =
  ts_present :: "int list"
  ts_unreadable :: "int list"

fun scan_loop :: "(bytes \<Rightarrow> json res) \<Rightarrow> pystr \<Rightarrow> ticket_scan \<Rightarrow> entry list \<Rightarrow> ticket_scan res" where
  "scan_loop loads issuer sc [] = Inr sc"
| "scan_loop loads issuer sc (e # es) =
     (if payload_type (header e) \<noteq> TICKET_PAYLOAD_TYPE then scan_loop loads issuer sc es
      else (case payload e of
              None \<Rightarrow> scan_loop loads issuer (sc\<lparr>ts_unreadable := ts_unreadable sc @ [seq (header e)]\<rparr>) es
            | Some p \<Rightarrow>
                (case res_bind (loads p) ticket_from_payload of
                   Inl x \<Rightarrow> if is_ValueError x \<or> x = TypeError
                            then scan_loop loads issuer (sc\<lparr>ts_unreadable := ts_unreadable sc @ [seq (header e)]\<rparr>) es
                            else Inl x
                 | Inr t \<Rightarrow> if tk_issuer t \<noteq> issuer then scan_loop loads issuer sc es
                            else scan_loop loads issuer (sc\<lparr>ts_present := List.insert (tk_id t) (ts_present sc)\<rparr>) es)))"

definition scan_tickets :: "(bytes \<Rightarrow> json res) \<Rightarrow> pystr \<Rightarrow> entry list \<Rightarrow> ticket_scan res" where
  "scan_tickets loads issuer es = scan_loop loads issuer \<lparr>ts_present = [], ts_unreadable = []\<rparr> es"

section \<open>Reconciliation\<close>

record ticket_reconciliation =
  tr_measured :: bool
  tr_lease_size :: int
  tr_verdict :: verdict
  tr_missing :: "int list option"
  tr_window :: "(int \<times> int) option"
  tr_blind_missing :: "int list option"
  tr_bound :: int

definition sorted_set :: "int list \<Rightarrow> int list" where
  "sorted_set ids = sort (remdups ids)"

definition reconcile_tickets :: "int list \<Rightarrow> int list option \<Rightarrow> int \<Rightarrow> ticket_reconciliation res" where
  "reconcile_tickets present issued lease_size =
     (if lease_size < 1 then Inl ValueError
      else (case issued of
              None \<Rightarrow> Inr \<lparr>tr_measured = False, tr_lease_size = lease_size, tr_verdict = UNVERIFIABLE, tr_missing = None,
                           tr_window = None, tr_blind_missing = None, tr_bound = lease_size - 1\<rparr>
            | Some ids \<Rightarrow>
                if \<exists>t \<in> set ids. t < 0 then Inl ValueError
                else if ids = [] then
                  Inr \<lparr>tr_measured = True, tr_lease_size = lease_size, tr_verdict = OK, tr_missing = Some [],
                       tr_window = None, tr_blind_missing = Some [], tr_bound = lease_size - 1\<rparr>
                else let window_lo = Max (set ids) div lease_size * lease_size;
                         window_hi = window_lo + lease_size - 1;
                         missing = sorted_set (filter (\<lambda>t. t < window_lo \<and> t \<notin> set present) ids);
                         blind = sorted_set (filter (\<lambda>t. window_lo \<le> t \<and> t \<le> window_hi \<and> t \<notin> set present) ids) in
                  Inr \<lparr>tr_measured = True, tr_lease_size = lease_size, tr_verdict = (if missing \<noteq> [] then BROKEN else OK),
                       tr_missing = Some missing, tr_window = Some (window_lo, window_hi),
                       tr_blind_missing = Some blind, tr_bound = lease_size - 1\<rparr>))"

section \<open>The command\<close>

definition py_space :: "nat \<Rightarrow> bool" where
  "py_space c \<longleftrightarrow> (9 \<le> c \<and> c \<le> 13) \<or> (28 \<le> c \<and> c \<le> 32) \<or> c \<in> {133, 160, 5760, 8232, 8233, 8239, 8287, 12288}
     \<or> (8192 \<le> c \<and> c \<le> 8202)"

definition py_strip :: "pystr \<Rightarrow> pystr" where
  "py_strip s = rev (dropWhile py_space (rev (dropWhile py_space s)))"

fun split_on :: "nat \<Rightarrow> pystr \<Rightarrow> pystr list" where
  "split_on c [] = [[]]"
| "split_on c (x # xs) = (if x = c then [] # split_on c xs
                          else (case split_on c xs of [] \<Rightarrow> [[x]] | y # ys \<Rightarrow> (x # y) # ys))"

definition partition_at :: "nat \<Rightarrow> pystr \<Rightarrow> pystr \<times> pystr" where
  "partition_at c s = (takeWhile (\<lambda>x. x \<noteq> c) s, drop 1 (dropWhile (\<lambda>x. x \<noteq> c) s))"

fun parse_tokens :: "runtime \<Rightarrow> pystr list \<Rightarrow> int list res" where
  "parse_tokens rt [] = Inr []"
| "parse_tokens rt (raw # raws) =
     (let token = py_strip raw in
      if token = [] then parse_tokens rt raws
      else if 45 \<in> set token then
        (case partition_at 45 token of (lo_s, hi_s) \<Rightarrow>
           res_bind (int_of_str rt lo_s) (\<lambda>lo. res_bind (int_of_str rt hi_s) (\<lambda>hi.
             if hi < lo then Inl ValueError else res_map (\<lambda>r. [lo..hi] @ r) (parse_tokens rt raws))))
      else res_bind (int_of_str rt token) (\<lambda>n. res_map (Cons n) (parse_tokens rt raws)))"

definition parse_issued_spec :: "runtime \<Rightarrow> pystr \<Rightarrow> int list res" where
  "parse_issued_spec rt spec = parse_tokens rt (split_on 44 spec)"

text \<open>The exit code of \<^verbatim>\<open>waxseal reconcile-tickets\<close>; what it prints is the report below.\<close>

definition reconcile_command ::
  "runtime \<Rightarrow> (bytes \<Rightarrow> json res) \<Rightarrow> entry list \<Rightarrow> pystr \<Rightarrow> int \<Rightarrow> pystr option \<Rightarrow> int res" where
  "reconcile_command rt loads es issuer lease_size spec =
     (case (case spec of None \<Rightarrow> Inr None | Some s \<Rightarrow> res_map Some (parse_issued_spec rt s)) of
        Inl e \<Rightarrow> if is_ValueError e then Inr 2 else Inl e
      | Inr issued \<Rightarrow>
          res_bind (scan_tickets loads issuer es) (\<lambda>scan.
            case reconcile_tickets (ts_present scan) issued lease_size of
              Inl e \<Rightarrow> if is_ValueError e then Inr 2 else Inl e
            | Inr r \<Rightarrow> Inr (to_exit_code (if ts_unreadable scan \<noteq> [] then join (tr_verdict r) UNVERIFIABLE else tr_verdict r))))"

section \<open>Accounting\<close>

lemma ticket_payload_round_trip:
  "make_ticket (JStr (tk_issuer t)) (JInt (tk_id t)) = Inr t \<Longrightarrow> ticket_from_payload (JObj (ticket_to_payload t)) = Inr t"
  by (simp add: ticket_from_payload_def ticket_to_payload_def jlookup)

lemma set_sorted_set [simp]: "set (sorted_set xs) = set xs"
  by (simp add: sorted_set_def)

lemma sorted_set_Nil [simp]: "sorted_set xs = [] \<longleftrightarrow> xs = []"
  by (metis set_sorted_set set_empty)


definition window_start :: "int list \<Rightarrow> int \<Rightarrow> int" where
  "window_start ids lease = Max (set ids) div lease * lease"


lemma window_start_mono:
  assumes "0 < lease" "ids \<noteq> []" "set ids \<subseteq> set ids'"
  shows "window_start ids lease \<le> window_start ids' lease"
proof -
  have "Max (set ids) \<le> Max (set ids')" using assms(2,3) by (intro Max_mono) auto
  then show ?thesis using assms(1) by (simp add: window_start_def zdiv_mono1)
qed

lemma reconcile_measured:
  assumes "reconcile_tickets present (Some ids) lease = Inr r" "ids \<noteq> []"
  shows "1 \<le> lease \<and> (\<forall>t \<in> set ids. 0 \<le> t)
    \<and> r = \<lparr>tr_measured = True, tr_lease_size = lease,
           tr_verdict = (if filter (\<lambda>t. t < window_start ids lease \<and> t \<notin> set present) ids \<noteq> [] then BROKEN else OK),
           tr_missing = Some (sorted_set (filter (\<lambda>t. t < window_start ids lease \<and> t \<notin> set present) ids)),
           tr_window = Some (window_start ids lease, window_start ids lease + lease - 1),
           tr_blind_missing = Some (sorted_set (filter (\<lambda>t. window_start ids lease \<le> t
              \<and> t \<le> window_start ids lease + lease - 1 \<and> t \<notin> set present) ids)), tr_bound = lease - 1\<rparr>"
  using assms by (auto simp: reconcile_tickets_def window_start_def Let_def not_less split: if_splits)


section \<open>The scan\<close>

lemma scan_loop_grows:
  "scan_loop loads issuer sc es = Inr sc' \<Longrightarrow> set (ts_present sc) \<subseteq> set (ts_present sc')
     \<and> set (ts_unreadable sc) \<subseteq> set (ts_unreadable sc')"
proof (induction loads issuer sc es rule: scan_loop.induct)
  case (2 loads issuer sc e es)
  then show ?case by (fastforce split: if_splits option.splits sum.splits)
qed simp

lemma scan_loop_exact:
  assumes "scan_loop loads issuer sc es = Inr sc'"
  shows "set (ts_present sc') = set (ts_present sc) \<union> {tk_id t | t p. tk_issuer t = issuer \<and> (\<exists>e \<in> set es.
      payload_type (header e) = TICKET_PAYLOAD_TYPE \<and> payload e = Some p \<and> res_bind (loads p) ticket_from_payload = Inr t)}"
  using assms
proof (induction loads issuer sc es rule: scan_loop.induct)
  case (2 loads issuer sc e es)
  show ?case
  proof (cases "payload_type (header e) = TICKET_PAYLOAD_TYPE")
    case False
    then show ?thesis using 2 by auto
  next
    case True
    show ?thesis
    proof (cases "payload e")
      case None
      then show ?thesis using 2 True by auto
    next
      case (Some p)
      then show ?thesis
        using 2 True by (cases "res_bind (loads p) ticket_from_payload") (auto split: if_splits)
    qed
  qed
qed auto

section \<open>Properties\<close>



text \<open>A detected drop stays detected: when the issuer later reports more tickets and the trail has grown without the dropped
  one, it is still in the list and the verdict is still broken.\<close>

theorem detected_drop_persists:
  assumes "reconcile_tickets present (Some ids) lease = Inr r" "tr_missing r = Some missing" "t \<in> set missing"
    and "reconcile_tickets present' (Some ids') lease = Inr r'" "set ids \<subseteq> set ids'" "t \<notin> set present'"
  shows "\<exists>missing'. tr_missing r' = Some missing' \<and> t \<in> set missing' \<and> tr_verdict r' = BROKEN"
proof -
  have ne: "ids \<noteq> []" using assms(1-3) by (auto simp: reconcile_tickets_def split: if_splits)
  then have ne': "ids' \<noteq> []" using assms(5) by auto
  note m = reconcile_measured [OF assms(1) ne] and m' = reconcile_measured [OF assms(4) ne']
  have t: "t \<in> set ids" "t < window_start ids lease" using m assms(2,3) by auto
  moreover have "window_start ids lease \<le> window_start ids' lease"
    using m by (intro window_start_mono [OF _ ne assms(5)]) auto
  ultimately have "t \<in> set (filter (\<lambda>t. t < window_start ids' lease \<and> t \<notin> set present') ids')" using assms(5,6) by auto
  then show ?thesis using m' by (auto simp: filter_empty_conv)
qed

theorem detected_drop_persists_witness:
  "\<exists>r' missing'. reconcile_tickets [0, 4, 8] (Some [0, 1, 4, 8]) 4 = Inr r' \<and> tr_missing r' = Some missing'
     \<and> 1 \<in> set missing' \<and> tr_verdict r' = BROKEN"
proof -
  have e: "reconcile_tickets [0, 4] (Some [0, 1, 4]) 4 =
      Inr \<lparr>tr_measured = True, tr_lease_size = 4, tr_verdict = BROKEN, tr_missing = Some [1], tr_window = Some (4, 7),
           tr_blind_missing = Some [], tr_bound = 3\<rparr>"
    by (simp add: reconcile_tickets_def sorted_set_def Let_def)
  obtain r' where r': "reconcile_tickets [0, 4, 8] (Some [0, 1, 4, 8]) 4 = Inr r'"
    by (simp add: reconcile_tickets_def Let_def)
  from detected_drop_persists [OF e _ _ r', of "[1]" 1] r' show ?thesis by simp
qed

text \<open>The command exits 0 only on a full measurement without a detected drop: the issuer's report was given and well formed,
  every row that claims a ticket was read, and every issued ticket below the open window is on the trail.\<close>

theorem reconcile_command_clean:
  assumes "reconcile_command rt loads es issuer lease spec = Inr 0"
  shows "\<exists>s ids scan. spec = Some s \<and> parse_issued_spec rt s = Inr ids \<and> scan_tickets loads issuer es = Inr scan
    \<and> ts_unreadable scan = [] \<and> {t \<in> set ids. t < window_start ids lease} \<subseteq> set (ts_present scan)"
proof -
  obtain issued scan r where a: "(case spec of None \<Rightarrow> Inr None | Some s \<Rightarrow> res_map Some (parse_issued_spec rt s)) = Inr issued"
      "scan_tickets loads issuer es = Inr scan" "reconcile_tickets (ts_present scan) issued lease = Inr r"
      "to_exit_code (if ts_unreadable scan \<noteq> [] then join (tr_verdict r) UNVERIFIABLE else tr_verdict r) = 0"
  proof -
    obtain issued where i: "(case spec of None \<Rightarrow> Inr None | Some s \<Rightarrow> res_map Some (parse_issued_spec rt s)) = Inr issued"
      using assms by (auto simp: reconcile_command_def split: sum.splits if_splits)
    obtain scan where s: "scan_tickets loads issuer es = Inr scan"
      using assms i by (auto simp: reconcile_command_def res_elims)
    obtain r where "reconcile_tickets (ts_present scan) issued lease = Inr r"
      using assms i s by (auto simp: reconcile_command_def split: sum.splits if_splits)
    with i s show thesis using assms by (intro that) (auto simp: reconcile_command_def)
  qed
  have v: "ts_unreadable scan = []" "tr_verdict r = OK"
    using a(4) by (cases "tr_verdict r"; auto simp: join_def split: if_splits)+
  obtain s ids where i: "spec = Some s" "parse_issued_spec rt s = Inr ids" "issued = Some ids"
    using a(1,3) v(2) by (auto simp: reconcile_tickets_def res_elims split: option.splits if_splits)
  have "{t \<in> set ids. t < window_start ids lease} \<subseteq> set (ts_present scan)"
  proof (cases "ids = []")
    case False
    have "filter (\<lambda>t. t < window_start ids lease \<and> t \<notin> set (ts_present scan)) ids = []"
      using reconcile_measured [OF a(3) [unfolded i(3)] False] v(2) by (auto split: if_splits)
    then show ?thesis by (auto simp: filter_empty_conv)
  qed simp
  then show ?thesis using i a(2) v(1) by blast
qed

theorem reconcile_command_clean_witness:
  "reconcile_command ascii_runtime (\<lambda>_. Inl JSONDecodeError) [] (str ''i'') 2 (Some (str ''0'')) = Inr 0
     \<and> parse_issued_spec ascii_runtime (str ''0'') = Inr [0]"
proof -
  have p: "parse_issued_spec ascii_runtime (str ''0'') = Inr [0]"
    by (simp add: parse_issued_spec_def str_def py_strip_def py_space_def ascii_runtime_def ascii_int_def digits_val_def)
  have c: "reconcile_command ascii_runtime (\<lambda>_. Inl JSONDecodeError) [] (str ''i'') 2 (Some (str ''0'')) = Inr 0"
    by (simp add: reconcile_command_def p scan_tickets_def reconcile_tickets_def sorted_set_def Let_def)
  from reconcile_command_clean [OF c] c p show ?thesis by simp
qed

end
