(* ===== verification/Rotation.thy ===== *)
theory Rotation
  imports AuditLog Segments
begin

text \<open>
  Segment rotation (\<^verbatim>\<open>sources/rotation.py\<close>), the archive of a sealed segment (\<^verbatim>\<open>domain/archive.py\<close>) and the reader of
  \<^verbatim>\<open>waxseal segments\<close> (\<^verbatim>\<open>cli/segments.py\<close>), over a directory: file names with what each file holds. The size of a
  file in bytes is the argument \<open>size_of\<close>; what \<^verbatim>\<open>json.loads\<close> makes of a payload is the argument \<open>loads\<close>; a log is opened
  without an attestor, as the hooks open it. The check before the lock and the work under it see two directories, since
  another process may have rotated in between. A rotation leaves a directory that verifies, and racing writers rotate
  once.
\<close>

section \<open>The directory\<close>

record stored_file =
  sf_lines :: "json res list"
  sf_open :: bool
  sf_anchors :: "json res list"

type_synonym directory = "(pystr \<times> stored_file) list"

definition dir_put :: "directory \<Rightarrow> pystr \<Rightarrow> stored_file \<Rightarrow> directory" where
  "dir_put d name f =
     (if name \<in> fst ` set d then map (\<lambda>(n, g). (n, if n = name then f else g)) d else d @ [(name, f)])"

definition open_trail :: "directory \<Rightarrow> pystr \<Rightarrow> jsonl" where
  "open_trail d name =
     (case map_of d name of
        None \<Rightarrow> empty_trail
      | Some f \<Rightarrow> \<lparr>jl_lines = sf_lines f, jl_open = sf_open f, jl_scan_every = Some 1000, jl_scanned = 0, jl_warnings = 0\<rparr>)"

definition stored_anchors :: "directory \<Rightarrow> pystr \<Rightarrow> json res list" where
  "stored_anchors d name = (case map_of d name of None \<Rightarrow> [] | Some f \<Rightarrow> sf_anchors f)"

definition store_back :: "directory \<Rightarrow> pystr \<Rightarrow> jsonl log \<Rightarrow> directory" where
  "store_back d name lg =
     dir_put d name \<lparr>sf_lines = jl_lines (lg_backend lg), sf_open = jl_open (lg_backend lg), sf_anchors = lg_anchors lg\<rparr>"

section \<open>Discovery\<close>

definition before_last :: "nat \<Rightarrow> pystr \<Rightarrow> pystr" where
  "before_last c s = (if c \<in> set s then rev (tl (dropWhile (\<lambda>x. x \<noteq> c) (rev s))) else [])"

definition stem_of :: "pystr \<Rightarrow> pystr option" where
  "stem_of name =
     (let hd_part = before_last 46 (segment_identity name) in
      if hd_part = [] then None else if segment_ordinal name hd_part \<noteq> None then Some hd_part else None)"

definition dir_stem :: "pystr \<Rightarrow> pystr" where
  "dir_stem name = (case stem_of name of Some stem \<Rightarrow> stem | None \<Rightarrow> segment_identity name)"

definition ordinals :: "directory \<Rightarrow> pystr \<Rightarrow> int list" where
  "ordinals d stem = List.map_filter (\<lambda>(n, _). segment_ordinal n stem) d"

definition active :: "directory \<Rightarrow> pystr \<Rightarrow> pystr \<Rightarrow> pystr res" where
  "active d stem fallback =
     (if ordinals d stem \<noteq> [] then segment_name stem (Max (set (ordinals d stem)))
      else if stem @ SEGMENT_SUFFIX \<in> fst ` set d then Inr (stem @ SEGMENT_SUFFIX)
      else Inr fallback)"

definition active_segment :: "directory \<Rightarrow> pystr \<Rightarrow> pystr res" where
  "active_segment d base = active d (dir_stem base) base"

definition next_ordinal :: "directory \<Rightarrow> pystr \<Rightarrow> int" where
  "next_ordinal d stem = (if ordinals d stem \<noteq> [] then Max (set (ordinals d stem)) + 1 else 0)"

definition trail_names :: "directory \<Rightarrow> pystr \<Rightarrow> pystr list" where
  "trail_names d stem =
     (if stem @ SEGMENT_SUFFIX \<in> fst ` set d then [stem @ SEGMENT_SUFFIX] else [])
     @ sort_key (\<lambda>n. the (segment_ordinal n stem)) (filter (\<lambda>n. stem_of n = Some stem) (map fst d))"

definition discover_segments :: "directory \<Rightarrow> pystr list" where
  "discover_segments d =
     concat (map (trail_names d) (sort (remdups (List.map_filter (\<lambda>(n, _). stem_of n) d))))"

section \<open>Archive\<close>

datatype archive_state = STORED | FAILED | NOT_ATTEMPTED

record archive_report =
  arc_state :: archive_state
  arc_destination :: pystr
  arc_detail :: pystr

definition archive_sealed_report ::
  "directory \<Rightarrow> pystr \<Rightarrow> (pystr \<Rightarrow> stored_file option \<Rightarrow> archive_report res) option \<Rightarrow> archive_report" where
  "archive_sealed_report d sealed destination =
     (case destination of
        None \<Rightarrow> \<lparr>arc_state = NOT_ATTEMPTED, arc_destination = str ''(no archive destination configured)'',
                 arc_detail = sealed @ str '' exists only on this box, so deleting the file destroys the history it holds; an anchor would prove the loss, not undo it''\<rparr>
      | Some dest \<Rightarrow>
          (case dest sealed (map_of d sealed) of
             Inr r \<Rightarrow> r
           | Inl e \<Rightarrow> \<lparr>arc_state = FAILED, arc_destination = str ''(the configured archive destination)'', arc_detail = exn_name e\<rparr>))"

section \<open>Rotation\<close>

definition DEFAULT_MAX_SEGMENT_BYTES :: int where
  "DEFAULT_MAX_SEGMENT_BYTES = 16 * 1024 * 1024"

record open_kwargs =
  kw_redactor :: "(jobj \<Rightarrow> jobj res) option"
  kw_registry :: version_registry
  kw_sink :: "sink option"
  kw_every :: "int option"

datatype notice = TailUnreadable exn | CheckpointFailed exn | Rotated pystr pystr bool | Archived archive_report

definition no_files :: attest_files where
  "no_files = \<lparr>ak_key = None, ak_agg = None, ak_lines = []\<rparr>"

definition open_log :: "runtime \<Rightarrow> open_kwargs \<Rightarrow> directory \<Rightarrow> pystr \<Rightarrow> (jsonl config \<times> jsonl log) res" where
  "open_log rt kw d name =
     new_log (jsonl_ops rt) (open_trail d name) (kw_redactor kw) (kw_registry kw) None no_files None (kw_sink kw)
       (kw_every kw) None True (stored_anchors d name)"

definition final_checkpoint ::
  "(bytes \<Rightarrow> bytes) \<Rightarrow> runtime \<Rightarrow> open_kwargs \<Rightarrow> environment \<Rightarrow> directory \<Rightarrow> pystr \<Rightarrow> directory \<times> notice list" where
  "final_checkpoint sha rt kw env d act =
     (if kw_sink kw = None then (d, [])
      else (case open_log rt kw d act of
              Inl e \<Rightarrow> (d, [CheckpointFailed e])
            | Inr (cfg, lg) \<Rightarrow>
                (case anchor sha cfg env lg of
                   (r, lg') \<Rightarrow> (store_back d act lg', case r of Inl e \<Rightarrow> [CheckpointFailed e] | Inr _ \<Rightarrow> []))))"

text \<open>The part under the lock that creates the next segment; the new file exists once its first line is written.\<close>

definition create_segment ::
  "(bytes \<Rightarrow> bytes) \<Rightarrow> runtime \<Rightarrow> open_kwargs \<Rightarrow> environment \<Rightarrow> pystr \<Rightarrow> directory \<Rightarrow> pystr \<Rightarrow> pystr \<Rightarrow> int \<times> pystr
    \<Rightarrow> (pystr \<times> jsonl config \<times> jsonl log) res \<times> directory" where
  "create_segment sha rt kw env dname d stem act tip =
     (case segment_name stem (next_ordinal d stem) of
        Inl e \<Rightarrow> (Inl e, d)
      | Inr new \<Rightarrow>
          (case open_log rt kw d new of
             Inl e \<Rightarrow> (Inl e, d)
           | Inr (cfg, lg) \<Rightarrow>
               (case make_binding (JStr (segment_chain_id dname (segment_identity act))) (JInt (fst tip)) (JStr (snd tip)) of
                  Inl e \<Rightarrow> (Inl e, d)
                | Inr b \<Rightarrow>
                    (case log_append sha cfg env lg (PDict (to_payload b)) ROTATION_PAYLOAD_TYPE of
                       (r, lg') \<Rightarrow>
                         (res_map (\<lambda>_. (new, cfg, lg')) r,
                          if jl_lines (lg_backend lg') = [] then d else store_back d new lg')))))"

definition open_segmented ::
  "(bytes \<Rightarrow> bytes) \<Rightarrow> runtime \<Rightarrow> (stored_file \<Rightarrow> int) \<Rightarrow> open_kwargs \<Rightarrow> environment \<Rightarrow> pystr
    \<Rightarrow> (pystr \<Rightarrow> stored_file option \<Rightarrow> archive_report res) option \<Rightarrow> directory \<Rightarrow> directory \<Rightarrow> pystr \<Rightarrow> int
    \<Rightarrow> ((pystr \<times> jsonl config \<times> jsonl log) \<times> notice list) res \<times> directory" where
  "open_segmented sha rt size_of kw env dname archive d0 d base max_bytes =
     (let stem = dir_stem base;
          bytes_of = (\<lambda>dir name. case map_of dir name of None \<Rightarrow> 0 | Some f \<Rightarrow> size_of f);
          opened = (\<lambda>name notes. res_map (\<lambda>(cfg, lg). ((name, cfg, lg), notes)) (open_log rt kw d name)) in
      case active d0 stem base of
        Inl e \<Rightarrow> (Inl e, d)
      | Inr act0 \<Rightarrow>
          if bytes_of d0 act0 < max_bytes then (opened act0 [], d)
          else (case active d stem base of
             Inl e \<Rightarrow> (Inl e, d)
           | Inr act \<Rightarrow>
               if bytes_of d act < max_bytes then (opened act [], d)
               else if jl_lines (open_trail d act) = [] then (opened act [], d)
               else (case res_bind (last (jl_lines (open_trail d act))) (tail_fields rt) of
                  Inl e \<Rightarrow> if is_ValueError e \<or> e = KeyError \<or> e = TypeError
                           then (opened act [TailUnreadable e], d) else (Inl e, d)
                | Inr tip \<Rightarrow>
                    (case final_checkpoint sha rt kw env d act of (d1, notes) \<Rightarrow>
                       (case create_segment sha rt kw env dname d1 stem act tip of
                          (Inl e, d2) \<Rightarrow> (Inl e, d2)
                        | (Inr (new, cfg, lg), d2) \<Rightarrow>
                            (Inr ((new, cfg, lg), notes @ [Rotated act new (max_bytes = DEFAULT_MAX_SEGMENT_BYTES),
                                                          Archived (archive_sealed_report d2 act archive)]), d2))))))"

section \<open>Reading a segment\<close>

definition decode_genesis :: "(bytes \<Rightarrow> json res) \<Rightarrow> bytes option \<Rightarrow> json option res" where
  "decode_genesis loads p =
     (case p of
        None \<Rightarrow> Inr None
      | Some b \<Rightarrow> (case loads b of
                    Inr v \<Rightarrow> Inr (case v of JNull \<Rightarrow> None | _ \<Rightarrow> Some v)
                  | Inl e \<Rightarrow> if is_ValueError e then Inr None else Inl e))"

definition read_segment ::
  "(bytes \<Rightarrow> bytes) \<Rightarrow> runtime \<Rightarrow> (bytes \<Rightarrow> json res) \<Rightarrow> version_registry \<Rightarrow> directory \<Rightarrow> pystr \<Rightarrow> segment_read res" where
  "read_segment sha rt loads reg d name =
     (case open_log rt \<lparr>kw_redactor = None, kw_registry = reg, kw_sink = None, kw_every = None\<rparr> d name of
        Inl e \<Rightarrow> Inl e
      | Inr (cfg, lg) \<Rightarrow>
          (case verify_and_entries sha cfg lg of
             Inl e \<Rightarrow> if is_ValueError e \<or> e = KeyError \<or> e = TypeError \<or> e = OSError
                      then Inr \<lparr>sr_identity = segment_identity name, sr_chain = None, sr_hashes = [],
                                genesis_payload_type = None, genesis_payload = None\<rparr> else Inl e
           | Inr (r, es) \<Rightarrow>
               res_map (\<lambda>g. \<lparr>sr_identity = segment_identity name, sr_chain = Some r, sr_hashes = map entry_hash es,
                            genesis_payload_type = (if es = [] then None else Some (payload_type (header (hd es)))),
                            genesis_payload = g\<rparr>)
                 (if es = [] then Inr None else decode_genesis loads (payload (hd es)))))"

text \<open>The exit code of \<^verbatim>\<open>waxseal segments\<close> on an existing directory.\<close>

definition segments_command ::
  "(bytes \<Rightarrow> bytes) \<Rightarrow> runtime \<Rightarrow> (bytes \<Rightarrow> json res) \<Rightarrow> version_registry \<Rightarrow> directory \<Rightarrow> int res" where
  "segments_command sha rt loads reg d =
     (if discover_segments d = [] then Inr 3
      else res_map (\<lambda>segs. to_exit_code (sg_verdict (verify_segments segs)))
             (res_mapM (read_segment sha rt loads reg d) (discover_segments d)))"

section \<open>Names and ordinals\<close>

lemma segment_name_of_ordinal:
  assumes "segment_ordinal name stem = Some k"
  shows "segment_name stem k = Inr name"
proof -
  let ?pre = "stem @ [46]"
  define mid where "mid = take (length name - length SEGMENT_SUFFIX - length ?pre) (drop (length ?pre) name)"
  have m: "take (length ?pre) name = ?pre" "drop (length name - length SEGMENT_SUFFIX) name = SEGMENT_SUFFIX"
    "length mid = 5" "\<And>c. c \<in> set mid \<Longrightarrow> 48 \<le> c \<and> c \<le> 57" "k = int (digits_val mid)"
    using assms by (auto simp: segment_ordinal_def Let_def startswith_def endswith_def mid_def SEGMENT_DIGITS_def split: if_splits)
  have le: "length ?pre + 5 = length name - length SEGMENT_SUFFIX"
    using m(3) unfolding mid_def length_take length_drop by linarith
  have "name = ?pre @ drop (length ?pre) name" using m(1) by (metis append_take_drop_id)
  also have "drop (length ?pre) name = mid @ drop (length name - length SEGMENT_SUFFIX - length ?pre) (drop (length ?pre) name)"
    unfolding mid_def by (rule append_take_drop_id [symmetric])
  also have "drop (length name - length SEGMENT_SUFFIX - length ?pre) (drop (length ?pre) name) = SEGMENT_SUFFIX"
  proof -
    have "length name - length SEGMENT_SUFFIX - length ?pre + length ?pre = length name - length SEGMENT_SUFFIX" using le by linarith
    then show ?thesis using m(2) by (simp only: drop_drop)
  qed
  finally have name: "name = ?pre @ mid @ SEGMENT_SUFFIX" .
  have v: "digits_val mid < 10 ^ 5" using digits_val_less [of mid] m(3,4) by simp
  note z = zero_padded [OF v, simplified]
  have "\<not> mid < zero_padded 5 (digits_val mid)" "\<not> zero_padded 5 (digits_val mid) < mid"
    using digits_order [of mid "zero_padded 5 (digits_val mid)"] digits_order [of "zero_padded 5 (digits_val mid)" mid] m(3,4) z
    by auto
  then have "zero_padded 5 (digits_val mid) = mid" by (metis linorder_less_linear)
  then show ?thesis using v m(5) name by (simp add: segment_name_def SEGMENT_DIGITS_def)
qed

lemma before_last_append: "c \<notin> set t \<Longrightarrow> before_last c (s @ c # t) = s"
  by (simp add: before_last_def dropWhile_append)

lemma segment_name_stem:
  assumes "segment_name stem k = Inr name" "stem \<noteq> []"
  shows "stem_of name = Some stem" and "segment_identity name @ SEGMENT_SUFFIX = name"
    and "name \<noteq> stem @ SEGMENT_SUFFIX"
proof -
  note n = segment_name_Inr [OF assms(1)]
  let ?z = "zero_padded SEGMENT_DIGITS (nat k)"
  have z: "46 \<notin> set ?z" "length ?z = 5" using n zero_padded [of "nat k" SEGMENT_DIGITS] by (fastforce simp: SEGMENT_DIGITS_def)+
  have i: "segment_identity name = stem @ 46 # ?z" using n by (simp add: segment_identity_def endswith_def)
  then show "segment_identity name @ SEGMENT_SUFFIX = name" using n by simp
  show "stem_of name = Some stem"
    using i z(1) assms(2) segment_ordinal_name [OF assms(1)] by (simp add: stem_of_def Let_def before_last_append)
  show "name \<noteq> stem @ SEGMENT_SUFFIX" using n z(2) by auto
qed

lemma stem_of_ordinal:
  assumes "stem \<noteq> []"
  shows "stem_of n = Some stem \<longleftrightarrow> (\<exists>k. segment_ordinal n stem = Some k)"
proof
  show "stem_of n = Some stem \<Longrightarrow> \<exists>k. segment_ordinal n stem = Some k" by (auto simp: stem_of_def Let_def split: if_splits)
qed (use segment_name_stem(1) [OF segment_name_of_ordinal assms] in blast)

lemma set_ordinals: "set (ordinals d stem) = {k. \<exists>n \<in> fst ` set d. segment_ordinal n stem = Some k}"
  by (force simp: ordinals_def List.map_filter_def)

lemma sort_key_snoc:
  fixes f :: "'a \<Rightarrow> 'b::linorder"
  assumes "\<And>y. y \<in> set xs \<Longrightarrow> f y \<le> f x"
  shows "sort_key f (xs @ [x]) = sort_key f xs @ [x]"
proof -
  have "f y \<le> f x \<Longrightarrow> insort_key f y (zs @ [x]) = insort_key f y zs @ [x]" for y zs by (induction zs) auto
  then have "foldr (insort_key f) ys [x] = foldr (insort_key f) ys [] @ [x]" if "set ys \<subseteq> set xs" for ys
    using that assms by (induction ys) auto
  from this [of xs] show ?thesis by (simp add: sort_key_def)
qed

lemma last_sort_key:
  fixes f :: "'a \<Rightarrow> 'b::linorder"
  assumes "xs \<noteq> []"
  shows "f (last (sort_key f xs)) = Max (f ` set xs)"
proof -
  let ?ys = "sort_key f xs"
  have ne: "?ys \<noteq> []" using assms by (metis set_empty set_sort)
  have "f y \<le> f (last ?ys)" if y: "y \<in> set ?ys" for y
  proof -
    obtain i where i: "i < length ?ys" "?ys ! i = y" using y unfolding in_set_conv_nth by blast
    have "sorted (map f ?ys)" by simp
    from sorted_nth_mono [OF this, of i "length ?ys - 1"] i ne show ?thesis by (simp add: last_conv_nth)
  qed
  moreover have "last ?ys \<in> set ?ys" by (rule last_in_set [OF ne])
  ultimately show ?thesis by (intro Max_eqI [symmetric]) auto
qed

lemma last_sort_key_in: "xs \<noteq> [] \<Longrightarrow> last (sort_key f xs) \<in> set xs"
  by (metis last_in_set set_empty set_sort)

text \<open>The active segment is the newest of the trail, and the next ordinal is past all of them.\<close>

lemma active_last:
  assumes "stem \<noteq> []" "trail_names d stem \<noteq> []"
  shows "active d stem base = Inr (last (trail_names d stem))"
proof (cases "filter (\<lambda>n. stem_of n = Some stem) (map fst d) = []")
  case True
  then have "ordinals d stem = []"
    using set_ordinals [of d stem] stem_of_ordinal [OF assms(1)] by (force simp: filter_empty_conv)
  with True assms(2) show ?thesis by (auto simp: active_def trail_names_def split: if_splits)
next
  case False
  let ?xs = "filter (\<lambda>n. stem_of n = Some stem) (map fst d)" and ?f = "\<lambda>n. the (segment_ordinal n stem)"
  have img: "set (ordinals d stem) = ?f ` set ?xs"
    using stem_of_ordinal [OF assms(1)] by (force simp: set_ordinals)
  then have ne: "ordinals d stem \<noteq> []" using False by (metis image_is_empty set_empty)
  obtain k where k: "segment_ordinal (last (sort_key ?f ?xs)) stem = Some k"
    using last_sort_key_in [OF False, of ?f] stem_of_ordinal [OF assms(1)] by auto
  then have "k = Max (set (ordinals d stem))" using last_sort_key [OF False, of ?f] img by simp
  with segment_name_of_ordinal [OF k] ne False show ?thesis
    by (simp add: active_def trail_names_def) (metis last_appendR set_empty set_sort)
qed

lemma next_ordinal_above:
  assumes "segment_ordinal n stem = Some k" "n \<in> fst ` set d"
  shows "k < next_ordinal d stem"
proof -
  have "k \<in> set (ordinals d stem)" using assms by (auto simp: set_ordinals)
  then show ?thesis using Max_ge [of "set (ordinals d stem)" k] by (auto simp: next_ordinal_def)
qed

lemma new_segment_fresh:
  assumes "segment_name stem (next_ordinal d stem) = Inr new"
  shows "new \<notin> fst ` set d"
  using next_ordinal_above [OF segment_ordinal_name [OF assms], of d] by auto

lemma trail_names_snoc:
  assumes "stem \<noteq> []" "segment_name stem (next_ordinal d stem) = Inr new"
  shows "trail_names (d @ [(new, f)]) stem = trail_names d stem @ [new]"
proof -
  have "sort_key (\<lambda>n. the (segment_ordinal n stem)) (filter (\<lambda>n. stem_of n = Some stem) (map fst d) @ [new]) =
      sort_key (\<lambda>n. the (segment_ordinal n stem)) (filter (\<lambda>n. stem_of n = Some stem) (map fst d)) @ [new]"
  proof (rule sort_key_snoc)
    fix n assume "n \<in> set (filter (\<lambda>n. stem_of n = Some stem) (map fst d))"
    then obtain k where "segment_ordinal n stem = Some k" "n \<in> fst ` set d" using stem_of_ordinal [OF assms(1)] by auto
    then show "the (segment_ordinal n stem) \<le> the (segment_ordinal new stem)"
      using next_ordinal_above segment_ordinal_name [OF assms(2)] by fastforce
  qed
  then show ?thesis
    using segment_name_stem(1,3) [OF assms(2,1)] by (simp add: trail_names_def)
qed

section \<open>What rotation leaves alone\<close>

lemma anchor_backend: "anchor sha cfg env lg = (r, lg') \<Longrightarrow> lg_backend lg' = lg_backend lg"
  by (auto simp: anchor_def split: option.splits if_splits sum.splits prod.splits)

lemma open_log_backend: "open_log rt kw d name = Inr (cfg, lg) \<Longrightarrow> lg_backend lg = open_trail d name"
  by (auto simp: open_log_def new_log_def split: if_splits)

lemma map_of_dir_put: "map_of (dir_put d name f) n = (if n = name then Some f else map_of d n)"
proof (cases "name \<in> fst ` set d")
  case True
  have "map_of (map (\<lambda>(m, g). (m, if m = name then f else g)) xs) n =
      (if n = name then map_option (\<lambda>_. f) (map_of xs n) else map_of xs n)" for xs
    by (cases "n = name"; induction xs) (simp_all add: case_prod_beta)
  moreover have "map_of d name \<noteq> None" using True by (simp add: map_of_eq_None_iff)
  ultimately show ?thesis using True by (simp add: dir_put_def)
next
  case False
  then have "map_of d name = None" by (simp add: map_of_eq_None_iff)
  with False show ?thesis by (auto simp: dir_put_def map_add_def split: option.splits)
qed

lemma map_fst_dir_put: "map fst (dir_put d name f) = (if name \<in> fst ` set d then map fst d else map fst d @ [name])"
  by (auto simp: dir_put_def comp_def case_prod_beta)

text \<open>Closing a segment changes its anchor records and nothing else.\<close>

lemma final_checkpoint_same:
  assumes "final_checkpoint sha rt kw env d act = (d1, notes)" "act \<in> fst ` set d"
  shows "map fst d1 = map fst d" and "open_trail d1 n = open_trail d n" and "Rotated a b c \<notin> set notes"
proof -
  have "d1 = d \<or> (\<exists>lg. lg_backend lg = open_trail d act \<and> d1 = store_back d act lg)"
    using assms(1) anchor_backend open_log_backend
    by (fastforce simp: final_checkpoint_def split: if_splits sum.splits prod.splits)
  moreover obtain f where "map_of d act = Some f" using assms(2) by (metis map_of_eq_None_iff not_None_eq)
  ultimately show "map fst d1 = map fst d" "open_trail d1 n = open_trail d n"
    using assms(2) map_fst_dir_put [of d act] by (force simp: store_back_def open_trail_def map_of_dir_put)+
  show "Rotated a b c \<notin> set notes"
    using assms(1) by (auto simp: final_checkpoint_def split: if_splits sum.splits prod.splits)
qed

lemma names_determine:
  assumes "map fst d1 = map fst d"
  shows "ordinals d1 stem = ordinals d stem" "next_ordinal d1 stem = next_ordinal d stem" "trail_names d1 stem = trail_names d stem"
proof -
  have "ordinals x stem = List.map_filter (\<lambda>n. segment_ordinal n stem) (map fst x)" for x
    by (induction x) (auto simp: ordinals_def List.map_filter_def)
  then show o: "ordinals d1 stem = ordinals d stem" using assms by simp
  then show "next_ordinal d1 stem = next_ordinal d stem" by (simp add: next_ordinal_def)
  have "fst ` set x = set (map fst x)" for x :: directory by simp
  then show "trail_names d1 stem = trail_names d stem" using assms unfolding trail_names_def by metis
qed

lemma read_segment_cong:
  "open_trail d1 n = open_trail d n \<Longrightarrow> read_segment sha rt loads reg d1 n = read_segment sha rt loads reg d n"
  by (simp add: read_segment_def open_log_def new_log_def maybe_record_anchor_sink_def verify_and_entries_def log_entries_def)

lemma read_segment_eq:
  "read_segment sha rt loads reg d n =
     (case res_bind (jsonl_entries rt (open_trail d n)) (\<lambda>es. res_map (\<lambda>r. (r, es)) (verify_chain sha reg es)) of
        Inl e \<Rightarrow> if is_ValueError e \<or> e = KeyError \<or> e = TypeError \<or> e = OSError
                 then Inr \<lparr>sr_identity = segment_identity n, sr_chain = None, sr_hashes = [],
                           genesis_payload_type = None, genesis_payload = None\<rparr> else Inl e
      | Inr (r, es) \<Rightarrow>
          res_map (\<lambda>g. \<lparr>sr_identity = segment_identity n, sr_chain = Some r, sr_hashes = map entry_hash es,
                       genesis_payload_type = (if es = [] then None else Some (payload_type (header (hd es)))),
                       genesis_payload = g\<rparr>)
            (if es = [] then Inr None else decode_genesis loads (payload (hd es))))"
  using fun_cong [OF jsonl_ops_eq(2), of rt "open_trail d n"]
  by (simp add: read_segment_def open_log_def new_log_def verify_and_entries_def log_entries_def)

lemma read_segment_identity: "read_segment sha rt loads reg d n = Inr s \<Longrightarrow> sr_identity s = segment_identity n"
  by (auto simp: read_segment_eq res_elims split: sum.splits if_splits)

text \<open>A chain that verifies with nothing left unverifiable numbers its rows in order and holds digests.\<close>

lemma verify_from_unverifiable:
  "verify_from sha reg i c u prev es = Inr r \<Longrightarrow> \<exists>v. vr_unverifiable r = u @ v"
proof (induction es arbitrary: i c u prev)
  case (Cons e es)
  then show ?case
    by (cases "recomputable reg (hash_version (header e))"; cases "encoder_for reg (hash_version (header e))")
      (fastforce simp: verify_from.simps broken_def Let_def split: if_split_asm sum.split_asm option.split_asm)+
qed auto

lemma verify_from_rows:
  "verify_from sha reg i c u prev es = Inr r \<Longrightarrow> vr_ok r \<Longrightarrow> vr_unverifiable r = [] \<Longrightarrow> k < length es \<Longrightarrow>
     seq (header (es ! k)) = i + int k \<and> (\<exists>d. entry_hash (es ! k) = hex (sha d))"
proof (induction es arbitrary: i c u prev k)
  case (Cons e es)
  obtain c' u' where v: "verify_from sha reg (i + 1) c' u' (entry_hash e) es = Inr r" "seq (header e) = i"
    "u' \<noteq> [] \<or> (\<exists>d. entry_hash e = hex (sha d))"
    using Cons.prems(1,2)
    by (cases "recomputable reg (hash_version (header e))"; cases "encoder_for reg (hash_version (header e))")
      (auto simp: verify_from.simps broken_def Let_def compute_entry_hash_def res_elims
        split: if_split_asm sum.split_asm option.split_asm)
  have "u' = []" using verify_from_unverifiable [OF v(1)] Cons.prems(3) by simp
  with Cons.IH [OF v(1) Cons.prems(2,3), of "k - 1"] v(2,3) Cons.prems(4) show ?case by (cases k) auto
qed simp

lemma from_payload_map_of: "map_of gs = map_of fs \<Longrightarrow> from_payload (JObj gs) = from_payload (JObj fs)"
  by (simp add: from_payload_def jindex_def jget_def)

section \<open>One rotation\<close>

text \<open>
  What the reader relies on from \<^verbatim>\<open>json.loads\<close>: a binding of Unicode text written in canonical form reads back with the
  same fields.
\<close>

definition text_binding :: "handoff_binding \<Rightarrow> bool" where
  "text_binding b \<longleftrightarrow> (\<forall>c \<in> set (hb_chain_id b). scalar c) \<and> hex64 (hb_head_hash b)"

definition reads_bindings :: "(bytes \<Rightarrow> json res) \<Rightarrow> bool" where
  "reads_bindings loads \<longleftrightarrow>
     (\<forall>b pb. text_binding b \<longrightarrow> canonical_json (to_payload b) = Inr pb \<longrightarrow>
        (\<exists>gs. loads pb = Inr (JObj gs) \<and> map_of gs = map_of (to_payload b)))"

definition passes_bindings :: "open_kwargs \<Rightarrow> bool" where
  "passes_bindings kw \<longleftrightarrow>
     (\<forall>rd b. kw_redactor kw = Some rd \<longrightarrow> rd (to_payload b) = Inr (to_payload b)) \<and> (\<forall>n. kw_every kw = Some n \<longrightarrow> 1 \<le> n)"

lemma rotated_trail_snoc:
  assumes "rotated_trail segs" "segs \<noteq> []" "sr_identity s \<notin> sr_identity ` set segs"
    and "sr_chain s = Some chain" "vr_ok chain" "vr_unverifiable chain = []"
    and "genesis_payload_type s = Some ROTATION_PAYLOAD_TYPE" "genesis_payload s = Some p" "from_payload p = Inr b"
    and "named_predecessor b = sr_identity (last segs)" "binding_holds b (sr_hashes (last segs))"
  shows "rotated_trail (segs @ [s])"
  unfolding rotated_trail_def
proof (intro conjI allI impI)
  fix i assume i: "Suc i < length (segs @ [s])"
  have "genesis_payload_type ((segs @ [s]) ! Suc i) = Some ROTATION_PAYLOAD_TYPE
      \<and> (\<exists>p b. genesis_payload ((segs @ [s]) ! Suc i) = Some p \<and> from_payload p = Inr b
        \<and> named_predecessor b = sr_identity ((segs @ [s]) ! i) \<and> binding_holds b (sr_hashes ((segs @ [s]) ! i)))"
  proof (cases "Suc i = length segs")
    case True
    then have "i = length segs - 1" by simp
    with True assms(2,7-11) show ?thesis by (auto simp: nth_append last_conv_nth)
  next
    case False
    with i assms(1) show ?thesis by (simp add: nth_append rotated_trail_def)
  qed
  then show "genesis_payload_type ((segs @ [s]) ! Suc i) = Some ROTATION_PAYLOAD_TYPE"
    "\<exists>p b. genesis_payload ((segs @ [s]) ! Suc i) = Some p \<and> from_payload p = Inr b
      \<and> named_predecessor b = sr_identity ((segs @ [s]) ! i) \<and> binding_holds b (sr_hashes ((segs @ [s]) ! i))"
    by blast+
qed (use assms in \<open>auto simp: rotated_trail_def hd_append\<close>)

lemma text_binding_plain: "text_binding b \<Longrightarrow> plain {} (JObj (to_payload b))"
  by (auto simp: text_binding_def to_payload_def hex64_def hex_lower_def scalar_def str_def)

lemma to_payload_canonical:
  assumes "text_binding b"
  shows "\<exists>pb. canonical_json (to_payload b) = Inr pb"
proof -
  have "\<forall>c \<in> set (dumps (JObj (to_payload b))). c < 128" using dumps_ascii [OF text_binding_plain [OF assms]] by blast
  then show ?thesis by (auto simp: canonical_json_def ascii_encode_def)
qed

lemma to_payload_canonical_inj:
  assumes "text_binding b" "text_binding b'" "canonical_json (to_payload b) = Inr pb" "canonical_json (to_payload b') = Inr pb"
  shows "b = b'"
proof -
  have "dumps (JObj (to_payload b)) = dumps (JObj (to_payload b'))"
    using assms(3,4) ascii_encode_inj unfolding canonical_json_def by metis
  then have "norm (JObj (to_payload b)) = norm (JObj (to_payload b'))"
    using norm_dumps_inj [of "{}", OF _ text_binding_plain [OF assms(1)] text_binding_plain [OF assms(2)]] by simp
  then show ?thesis by (simp add: to_payload_def str_def)
qed

lemma reads_bindings_exist: "\<exists>loads. reads_bindings loads"
proof -
  let ?b = "\<lambda>pb. SOME b. text_binding b \<and> canonical_json (to_payload b) = Inr pb"
  have "?b pb = b" if "text_binding b" "canonical_json (to_payload b) = Inr pb" for b pb
    using that to_payload_canonical_inj by (intro some_equality) auto
  then have "reads_bindings (\<lambda>pb. Inr (JObj (to_payload (?b pb))))" unfolding reads_bindings_def by blast
  then show ?thesis by blast
qed

lemma open_log_total: "passes_bindings kw \<Longrightarrow> \<exists>cfg lg. open_log rt kw d name = Inr (cfg, lg)"
  by (auto simp: open_log_def new_log_def passes_bindings_def split: option.splits)

lemma rotation_type_ok: "ROTATION_PAYLOAD_TYPE \<notin> set REJECTED_PAYLOAD_TYPES" "encodable ROTATION_PAYLOAD_TYPE"
  unfolding ROTATION_PAYLOAD_TYPE_def by (simp add: REJECTED_PAYLOAD_TYPES_def str_def) (rule encodable_str; simp)

lemma create_segment_ok:
  assumes "digest32 sha" "new_registry sha = Inr (kw_registry kw)" "passes_bindings kw" "encodable (en_now env)"
    and "segment_name stem (next_ordinal d stem) = Inr new"
    and "make_binding (JStr (segment_chain_id dname (segment_identity act))) (JInt (fst tip)) (JStr (snd tip)) = Inr b"
    and "canonical_json (to_payload b) = Inr pb"
  shows "\<exists>cfg lg f e. create_segment sha rt kw env dname d stem act tip = (Inr (new, cfg, lg), d @ [(new, f)])
    \<and> jsonl_entries rt (open_trail (d @ [(new, f)]) new) = Inr [e] \<and> known_chain sha (kw_registry kw) [e]
    \<and> payload e = Some pb \<and> payload_type (header e) = ROTATION_PAYLOAD_TYPE"
proof -
  note fresh = new_segment_fresh [OF assms(5)]
  then have none: "map_of d new = None" by (simp add: map_of_eq_None_iff)
  obtain cfg lg where o: "open_log rt kw d new = Inr (cfg, lg)" using open_log_total [OF assms(3)] by blast
  then have nl: "new_log (jsonl_ops rt) empty_trail (kw_redactor kw) (kw_registry kw) None no_files None (kw_sink kw)
      (kw_every kw) None True (stored_anchors d new) = Inr (cfg, lg)" using none by (simp add: open_log_def open_trail_def)
  note n = new_log_ok [OF nl new_registry_own [OF assms(2)] empty_trail(1,2,3)]
  have cp: "canonical_payload cfg (PDict (to_payload b)) = Inr pb"
    using assms(3,7) n(3) by (auto simp: canonical_payload_def passes_bindings_def split: option.splits)
  have "encodable (str_int (int (length ([] :: entry list))))" by (auto intro!: encodable_str_int simp: length_str_int_digit)
  from jsonl_log.log_append_total [OF assms(1) n(2,1,8) cp rotation_type_ok(1) assms(4) rotation_type_ok(2) this]
  obtain e lg' where a: "log_append sha cfg env lg (PDict (to_payload b)) ROTATION_PAYLOAD_TYPE = (Inr e, lg')" by blast
  from jsonl_log.log_append_cases [OF n(2,1) a] cp
  have k: "build_entry sha (en_now env) ROTATION_PAYLOAD_TYPE pb (next_seq []) (next_prev []) = Inr e"
    "log_ok sha terminated cfg lg' [e]" by auto
  have je: "jsonl_entries rt (lg_backend lg') = Inr [e]"
    using k(2) n(2) fun_cong [OF jsonl_ops_eq(2), of rt "lg_backend lg'"] by (simp add: log_ok_def log_entries_def)
  then have ne: "jl_lines (lg_backend lg') \<noteq> []" by (auto simp: jsonl_entries_def)
  define f where "f = \<lparr>sf_lines = jl_lines (lg_backend lg'), sf_open = jl_open (lg_backend lg'), sf_anchors = lg_anchors lg'\<rparr>"
  have "create_segment sha rt kw env dname d stem act tip = (Inr (new, cfg, lg'), d @ [(new, f)])"
    using assms(5,6) o a ne fresh by (simp add: create_segment_def store_back_def dir_put_def f_def)
  moreover have "jsonl_entries rt (open_trail (d @ [(new, f)]) new) = Inr [e]"
    using je none by (simp add: open_trail_def jsonl_entries_def f_def map_add_def)
  ultimately show ?thesis
    using known_chain_snoc(1,3,5) [OF new_registry_own [OF assms(2)] empty_trail(3) k(1)] by auto
qed

text \<open>What the reader reports of a segment that verifies, and of the segment rotation has just created.\<close>

lemma read_segment_intact:
  assumes "read_segment sha rt loads reg d n = Inr s" "sr_chain s = Some chain" "vr_ok chain" "vr_unverifiable chain = []"
    and "jl_lines (open_trail d n) \<noteq> []"
  obtains es :: "entry list" and m where "es \<noteq> []" "sr_hashes s = map entry_hash es" "seq (header (last es)) = int (length es - 1)"
    "entry_hash (last es) = hex (sha m)"
    "res_bind (last (jl_lines (open_trail d n))) (tail_fields rt) = Inr (seq (header (last es)), entry_hash (last es))"
proof -
  obtain es where es: "jsonl_entries rt (open_trail d n) = Inr es" "verify_chain sha reg es = Inr chain" "sr_hashes s = map entry_hash es"
    using assms(1,2) by (auto simp: read_segment_eq res_elims split: sum.splits if_splits)
  note m = es(1) [unfolded jsonl_entries_def]
  have l: "length es = length (jl_lines (open_trail d n))" by (rule res_mapM_length [OF m])
  then have ne: "es \<noteq> []" using assms(5) by auto
  then have i: "length es - 1 < length es" by simp
  from res_mapM_nth [OF m, of "length es - 1"] l ne obtain v where
    "last (jl_lines (open_trail d n)) = Inr v" "from_obj rt v = Inr (last es)"
    by (auto simp: last_conv_nth assms(5) res_elims)
  moreover obtain m where "seq (header (last es)) = int (length es - 1)" "entry_hash (last es) = hex (sha m)"
    using verify_from_rows [OF es(2) [unfolded verify_chain_def] assms(3,4) i] ne by (auto simp: last_conv_nth)
  ultimately show thesis using that [of es m] es(3) ne tail_fields_from_obj [of rt v "last es"] by simp
qed

lemma read_segment_new:
  assumes "registry_ok sha reg" "jsonl_entries rt (open_trail d n) = Inr [e]" "known_chain sha reg [e]" "payload e = Some pb"
    and "loads pb = Inr (JObj gs)"
  shows "\<exists>s chain. read_segment sha rt loads reg d n = Inr s \<and> sr_identity s = segment_identity n \<and> sr_chain s = Some chain
    \<and> vr_ok chain \<and> vr_unverifiable chain = [] \<and> genesis_payload_type s = Some (payload_type (header e))
    \<and> genesis_payload s = Some (JObj gs)"
  using assms(2,4,5) by (simp add: read_segment_eq verify_known_chain [OF assms(1,3)] decode_genesis_def)

text \<open>What a rotation that went through did to the directory.\<close>

lemma open_segmented_rotated:
  assumes "open_segmented sha rt size_of kw env dname archive d0 d base max_bytes = (Inr ((new, cfg, lg), notes), d')"
    and "Rotated act new flag \<in> set notes"
  obtains d1 tip where "create_segment sha rt kw env dname d1 (dir_stem base) act tip = (Inr (new, cfg, lg), d')"
proof -
  have "Rotated act new flag \<notin> set ns" if "final_checkpoint sha rt kw env d x = (d1, ns)" for x d1 ns
    using that by (auto simp: final_checkpoint_def split: if_splits sum.splits prod.splits)
  with assms show thesis
    by (auto simp: open_segmented_def Let_def res_elims intro: that split: sum.split_asm if_split_asm prod.split_asm)
qed

lemma create_segment_dir:
  assumes "create_segment sha rt kw env dname d stem act tip = (Inr (new, cfg, lg), d')"
  shows "segment_name stem (next_ordinal d stem) = Inr new \<and> (d' = d \<or> (\<exists>f. d' = d @ [(new, f)]))"
proof -
  obtain new' where n: "segment_name stem (next_ordinal d stem) = Inr new'"
    using assms by (auto simp: create_segment_def split: sum.splits)
  then show ?thesis
    using assms new_segment_fresh [OF n]
    by (auto simp: create_segment_def store_back_def dir_put_def res_elims split: sum.splits prod.splits if_splits)
qed

lemma active_snoc:
  assumes "segment_name stem (next_ordinal d stem) = Inr new"
  shows "active (d @ [(new, f)]) stem base = Inr new"
proof -
  let ?k = "next_ordinal d stem"
  have o: "ordinals (d @ [(new, f)]) stem = ordinals d stem @ [?k]"
    using segment_ordinal_name [OF assms] by (simp add: ordinals_def List.map_filter_def)
  have "k < ?k" if "k \<in> set (ordinals d stem)" for k
    using that next_ordinal_above unfolding set_ordinals by blast
  then have "Max (set (ordinals d stem @ [?k])) = ?k" by (intro Max_eqI) (auto intro: less_imp_le)
  then show ?thesis using assms o by (simp add: active_def)
qed

text \<open>A directory that holds one trail in order.\<close>

definition trail_in_order ::
  "(bytes \<Rightarrow> bytes) \<Rightarrow> runtime \<Rightarrow> (bytes \<Rightarrow> json res) \<Rightarrow> version_registry \<Rightarrow> directory \<Rightarrow> pystr \<Rightarrow> segment_read list \<Rightarrow> bool" where
  "trail_in_order sha rt loads reg d stem segs \<longleftrightarrow>
     stem \<noteq> [] \<and> (\<forall>c \<in> set stem. scalar c \<and> c \<noteq> 47) \<and> (\<forall>n \<in> fst ` set d. stem_of n = None \<or> stem_of n = Some stem)
     \<and> res_mapM (read_segment sha rt loads reg d) (trail_names d stem) = Inr segs \<and> segs \<noteq> [] \<and> rotated_trail segs"

lemma trail_names_identity:
  assumes "n \<in> set (trail_names d stem)" "stem \<noteq> []"
  shows "segment_identity n @ SEGMENT_SUFFIX = n" and "n \<in> fst ` set d"
    and "\<forall>c \<in> set (segment_identity n). c \<in> set stem \<or> 46 \<le> c \<and> c \<le> 57 \<and> c \<noteq> 47"
proof -
  consider "n = stem @ SEGMENT_SUFFIX" "n \<in> fst ` set d" | "stem_of n = Some stem" "n \<in> fst ` set d"
    using assms(1) by (auto simp: trail_names_def split: if_splits)
  then have "segment_identity n @ SEGMENT_SUFFIX = n \<and> n \<in> fst ` set d
    \<and> (\<forall>c \<in> set (segment_identity n). c \<in> set stem \<or> 46 \<le> c \<and> c \<le> 57 \<and> c \<noteq> 47)"
  proof cases
    case 1
    then show ?thesis by (simp add: segment_identity_def endswith_def)
  next
    case 2
    then obtain k where k: "segment_name stem k = Inr n" using stem_of_ordinal [OF assms(2)] segment_name_of_ordinal by blast
    note n = segment_name_Inr [OF k]
    have "segment_identity n = stem @ [46] @ zero_padded SEGMENT_DIGITS (nat k)"
      using n by (simp add: segment_identity_def endswith_def)
    moreover have "\<forall>c \<in> set (zero_padded SEGMENT_DIGITS (nat k)). 48 \<le> c \<and> c \<le> 57"
      using n zero_padded [of "nat k" SEGMENT_DIGITS] by (simp add: SEGMENT_DIGITS_def)
    ultimately show ?thesis using segment_name_stem(2) [OF k assms(2)] 2(2) by auto
  qed
  then show "segment_identity n @ SEGMENT_SUFFIX = n" "n \<in> fst ` set d"
    "\<forall>c \<in> set (segment_identity n). c \<in> set stem \<or> 46 \<le> c \<and> c \<le> 57 \<and> c \<noteq> 47" by blast+
qed

lemma discover_one_stem:
  assumes "\<forall>n \<in> fst ` set d. stem_of n = None \<or> stem_of n = Some stem" "n \<in> fst ` set d" "stem_of n = Some stem"
  shows "discover_segments d = trail_names d stem"
proof -
  have "set (List.map_filter (\<lambda>(n, _). stem_of n) d) = {stem}"
    using assms by (force simp: List.map_filter_def)
  then show ?thesis by (simp add: discover_segments_def sorted_list_of_set_sort_remdups [symmetric])
qed

lemma open_trail_snoc: "open_trail (d @ [(new, f)]) n = (if n = new \<and> map_of d n = None then open_trail [(new, f)] n else open_trail d n)"
  by (auto simp: open_trail_def map_add_def split: option.splits)

lemma trail_in_order_snoc:
  assumes t: "trail_in_order sha rt loads reg d stem segs" and names: "map fst d1 = map fst d"
    and same: "\<And>n. open_trail d1 n = open_trail d n"
    and new: "segment_name stem (next_ordinal d1 stem) = Inr new"
    and read: "read_segment sha rt loads reg (d1 @ [(new, f)]) new = Inr s" and snoc: "rotated_trail (segs @ [s])"
  shows "trail_in_order sha rt loads reg (d1 @ [(new, f)]) stem (segs @ [s])"
    and "trail_names (d1 @ [(new, f)]) stem = trail_names d stem @ [new]"
    and "discover_segments (d1 @ [(new, f)]) = trail_names d stem @ [new]"
    and "segments_command sha rt loads reg (d1 @ [(new, f)]) = Inr 0"
proof -
  note o = t [unfolded trail_in_order_def]
  have st: "stem \<noteq> []" using o by blast
  show tn: "trail_names (d1 @ [(new, f)]) stem = trail_names d stem @ [new]"
    using trail_names_snoc [OF st new] names_determine(3) [OF names] by simp
  have fn: "fst ` set d1 = fst ` set d" using names by (metis set_map)
  have "new \<notin> fst ` set d" using new_segment_fresh [OF new] fn by simp
  then have "read_segment sha rt loads reg (d1 @ [(new, f)]) n = read_segment sha rt loads reg d n" if "n \<in> set (trail_names d stem)" for n
    using trail_names_identity(2) [OF that st] same by (intro read_segment_cong) (auto simp: open_trail_snoc)
  then have m: "res_mapM (read_segment sha rt loads reg (d1 @ [(new, f)])) (trail_names (d1 @ [(new, f)]) stem) = Inr (segs @ [s])"
    using o read by (simp add: tn res_mapM_append cong: res_mapM_cong)
  have sn: "stem_of new = Some stem" by (rule segment_name_stem(1) [OF new st])
  then have all: "\<forall>n \<in> fst ` set (d1 @ [(new, f)]). stem_of n = None \<or> stem_of n = Some stem"
    using o by (simp add: image_Un fn)
  then show "trail_in_order sha rt loads reg (d1 @ [(new, f)]) stem (segs @ [s])" using o m snoc by (simp add: trail_in_order_def)
  show ds: "discover_segments (d1 @ [(new, f)]) = trail_names d stem @ [new]"
    using discover_one_stem [OF all _ sn] tn by (simp add: image_Un)
  show "segments_command sha rt loads reg (d1 @ [(new, f)]) = Inr 0"
    using m rotated_trail_verifies [OF snoc] by (simp add: segments_command_def ds tn)
qed

lemma new_identity_fresh:
  assumes t: "trail_in_order sha rt loads reg d stem segs" and "fst ` set d1 = fst ` set d"
    and new: "segment_name stem (next_ordinal d1 stem) = Inr new"
  shows "segment_identity new \<notin> sr_identity ` set segs"
proof
  note o = t [unfolded trail_in_order_def]
  have st: "stem \<noteq> []" and m: "res_mapM (read_segment sha rt loads reg d) (trail_names d stem) = Inr segs" using o by blast+
  assume "segment_identity new \<in> sr_identity ` set segs"
  then obtain i where i: "i < length segs" "segment_identity new = sr_identity (segs ! i)" by (metis imageE in_set_conv_nth)
  have len: "length segs = length (trail_names d stem)" by (rule res_mapM_length [OF m])
  then have "trail_names d stem ! i \<in> set (trail_names d stem)" using i(1) by simp
  note n = trail_names_identity [OF this st]
  have "segment_identity new = segment_identity (trail_names d stem ! i)"
    using read_segment_identity [OF res_mapM_nth [OF m]] i len by simp
  then have "new = trail_names d stem ! i" using n(1) segment_name_stem(2) [OF new st] by simp
  then show False using n(2) new_segment_fresh [OF new] assms(2) by simp
qed

lemma next_ordinal_name:
  assumes "next_ordinal d stem \<le> 99999"
  shows "\<exists>new. segment_name stem (next_ordinal d stem) = Inr new"
proof -
  have "0 \<le> k" if "k \<in> set (ordinals d stem)" for k
    using that segment_name_Inr [OF segment_name_of_ordinal] by (auto simp: set_ordinals)
  then have "0 \<le> next_ordinal d stem"
    using Max_in [of "set (ordinals d stem)"] by (force simp: next_ordinal_def)
  with assms show ?thesis by (simp add: segment_name_def SEGMENT_DIGITS_def)
qed

text \<open>The binding rotation writes: it can be built and written, names the newest segment and holds of it.\<close>

lemma trail_tail_binding:
  assumes "digest32 sha" "trail_in_order sha rt loads reg d stem segs" "\<forall>c \<in> set dname. scalar c"
    and "act = last (trail_names d stem)" "jl_lines (open_trail d act) \<noteq> []"
  shows "active d stem base = Inr act" and "act \<in> fst ` set d"
    and "\<exists>tip b pb. res_bind (last (jl_lines (open_trail d act))) (tail_fields rt) = Inr tip
      \<and> make_binding (JStr (segment_chain_id dname (segment_identity act))) (JInt (fst tip)) (JStr (snd tip)) = Inr b
      \<and> named_predecessor b = sr_identity (last segs) \<and> binding_holds b (sr_hashes (last segs))
      \<and> text_binding b \<and> canonical_json (to_payload b) = Inr pb"
proof -
  note o = assms(2) [unfolded trail_in_order_def]
  have st: "stem \<noteq> []" and m: "res_mapM (read_segment sha rt loads reg d) (trail_names d stem) = Inr segs"
    and rot: "rotated_trail segs" using o by blast+
  note len = res_mapM_length [OF m]
  have ne: "trail_names d stem \<noteq> []" "segs \<noteq> []" using o len by auto
  then show "active d stem base = Inr act" using active_last [OF st] assms(4) by simp
  have "act \<in> set (trail_names d stem)" using assms(4) ne(1) by simp
  note idn = trail_names_identity [OF this st]
  then show "act \<in> fst ` set d" by blast
  have rs: "read_segment sha rt loads reg d act = Inr (last segs)"
    using res_mapM_nth [OF m, of "length segs - 1"] ne len by (simp add: assms(4) last_conv_nth)
  obtain chain where c: "sr_chain (last segs) = Some chain" "vr_ok chain" "vr_unverifiable chain = []"
    using rot last_in_set [OF ne(2)] unfolding rotated_trail_def by blast
  obtain es :: "entry list" and m where es: "es \<noteq> []" "sr_hashes (last segs) = map entry_hash es" "seq (header (last es)) = int (length es - 1)"
    "res_bind (last (jl_lines (open_trail d act))) (tail_fields rt) = Inr (seq (header (last es)), entry_hash (last es))"
    "entry_hash (last es) = hex (sha m)"
    by (rule read_segment_intact [OF rs c assms(5)])
  then have h: "hex64 (entry_hash (last es))" by (simp only: hex64_hex [OF digest32.digest_length [OF assms(1)]])
  let ?id = "segment_identity act" and ?b = "\<lparr>hb_chain_id = segment_chain_id dname (segment_identity act),
    hb_seq = seq (header (last es)), hb_head_hash = entry_hash (last es)\<rparr>"
  have "make_binding (JStr (hb_chain_id ?b)) (JInt (hb_seq ?b)) (JStr (hb_head_hash ?b)) = Inr ?b"
    using es(3) h by (simp add: make_binding_Inr segment_chain_id_def)
  moreover have "47 \<notin> set ?id" "\<forall>c \<in> set ?id. scalar c" using idn(3) o by (auto simp: scalar_def)
  then have "named_predecessor ?b = sr_identity (last segs)" "text_binding ?b"
    using named_predecessor_chain_id [of ?id ?b dname] read_segment_identity [OF rs] assms(3) h
    by (auto simp: segment_chain_id_def scalar_def text_binding_def)
  moreover have "binding_holds ?b (sr_hashes (last segs))" using es(1-3) by (simp add: binding_holds_nth last_conv_nth)
  moreover have "\<exists>pb. canonical_json (to_payload ?b) = Inr pb" using to_payload_canonical calculation(3) by blast
  ultimately show "\<exists>tip b pb. res_bind (last (jl_lines (open_trail d act))) (tail_fields rt) = Inr tip
      \<and> make_binding (JStr (segment_chain_id dname ?id)) (JInt (fst tip)) (JStr (snd tip)) = Inr b
      \<and> named_predecessor b = sr_identity (last segs) \<and> binding_holds b (sr_hashes (last segs))
      \<and> text_binding b \<and> canonical_json (to_payload b) = Inr pb"
    using es(4) by fastforce
qed

lemma rotation_step:
  assumes "digest32 sha" "new_registry sha = Inr (kw_registry kw)" "passes_bindings kw" "encodable (en_now env)"
    and "reads_bindings loads" "\<forall>c \<in> set dname. scalar c"
    and t: "trail_in_order sha rt loads (kw_registry kw) d (dir_stem base) segs"
    and act0: "active d0 (dir_stem base) base = Inr act0" "map_of d0 act0 = Some f0" "max_bytes \<le> size_of f0"
    and act: "act = last (trail_names d (dir_stem base))" "map_of d act = Some f" "max_bytes \<le> size_of f" "sf_lines f \<noteq> []"
    and room: "next_ordinal d (dir_stem base) \<le> 99999"
  shows "\<exists>new cfg lg notes d' s. open_segmented sha rt size_of kw env dname archive d0 d base max_bytes = (Inr ((new, cfg, lg), notes), d')
    \<and> Rotated act new (max_bytes = DEFAULT_MAX_SEGMENT_BYTES) \<in> set notes \<and> (\<forall>n. n \<noteq> new \<longrightarrow> open_trail d' n = open_trail d n)
    \<and> (\<exists>e. jsonl_entries rt (open_trail d' new) = Inr [e] \<and> payload_type (header e) = ROTATION_PAYLOAD_TYPE)
    \<and> discover_segments d' = trail_names d (dir_stem base) @ [new]
    \<and> trail_in_order sha rt loads (kw_registry kw) d' (dir_stem base) (segs @ [s])
    \<and> segments_command sha rt loads (kw_registry kw) d' = Inr 0"
proof -
  let ?stem = "dir_stem base" and ?reg = "kw_registry kw"
  note o = t [unfolded trail_in_order_def]
  have lines: "jl_lines (open_trail d act) \<noteq> []" using act by (simp add: open_trail_def)
  note tt = trail_tail_binding [OF assms(1) t assms(6) act(1) lines]
  obtain tip b pb where b: "res_bind (last (jl_lines (open_trail d act))) (tail_fields rt) = Inr tip"
    "make_binding (JStr (segment_chain_id dname (segment_identity act))) (JInt (fst tip)) (JStr (snd tip)) = Inr b"
    "named_predecessor b = sr_identity (last segs)" "binding_holds b (sr_hashes (last segs))" "canonical_json (to_payload b) = Inr pb"
    "text_binding b" using tt(3) by blast
  obtain d1 ns where fc: "final_checkpoint sha rt kw env d act = (d1, ns)" by force
  note same = final_checkpoint_same [OF fc tt(2)]
  obtain new where new: "segment_name ?stem (next_ordinal d1 ?stem) = Inr new"
    using next_ordinal_name room names_determine(2) [OF same(1)] by metis
  from create_segment_ok [OF assms(1-4) new b(2,5), where rt = rt] obtain cfg lg nf e where
    cs: "create_segment sha rt kw env dname d1 ?stem act tip = (Inr (new, cfg, lg), d1 @ [(new, nf)])"
    and e: "jsonl_entries rt (open_trail (d1 @ [(new, nf)]) new) = Inr [e]" "known_chain sha ?reg [e]" "payload e = Some pb"
      "payload_type (header e) = ROTATION_PAYLOAD_TYPE" by blast
  obtain gs where gs: "loads pb = Inr (JObj gs)" "map_of gs = map_of (to_payload b)"
    using assms(5) b(5,6) unfolding reads_bindings_def by blast
  have "from_payload (JObj gs) = Inr b"
    using from_payload_map_of [OF gs(2)] from_payload_to_payload [of b] b(2) by (simp add: make_binding_Inr)
  moreover obtain s chain where s: "read_segment sha rt loads ?reg (d1 @ [(new, nf)]) new = Inr s" "sr_identity s = segment_identity new"
    "sr_chain s = Some chain" "vr_ok chain" "vr_unverifiable chain = []" "genesis_payload_type s = Some ROTATION_PAYLOAD_TYPE"
    "genesis_payload s = Some (JObj gs)"
    using read_segment_new [where loads = loads, OF new_registry_ok [OF assms(2)] e(1-3) gs(1)] e(4) by auto
  ultimately have snoc: "rotated_trail (segs @ [s])"
    using rotated_trail_snoc [of segs s chain "JObj gs" b] o b(3,4) new_identity_fresh [OF t _ new] same(1)
    by (metis set_map)
  note r = trail_in_order_snoc [OF t same(1,2) new s(1) snoc]
  have "open_segmented sha rt size_of kw env dname archive d0 d base max_bytes =
      (Inr ((new, cfg, lg), ns @ [Rotated act new (max_bytes = DEFAULT_MAX_SEGMENT_BYTES),
         Archived (archive_sealed_report (d1 @ [(new, nf)]) act archive)]), d1 @ [(new, nf)])"
    using act0 act(2,3) tt(1) lines b(1) fc cs by (simp add: open_segmented_def Let_def)
  with r same(2) e show ?thesis by (auto simp: open_trail_snoc)
qed

text \<open>A directory with one segment of two rows, at a threshold of two lines.\<close>

definition sample_kwargs :: open_kwargs where
  "sample_kwargs = \<lparr>kw_redactor = None, kw_registry = sample_registry sha256, kw_sink = None, kw_every = None\<rparr>"

definition line_count :: "stored_file \<Rightarrow> int" where
  "line_count f = int (length (sf_lines f))"

lemma sample_rows:
  obtains e1 e2 where "known_chain sha256 (sample_registry sha256) [e1, e2]" "payload e1 = Some [1]" "payload e2 \<noteq> None"
    "payload_type (header e1) = str ''a/b''"
proof -
  note own = new_registry_own [OF sample_registry_new [of sha256]]
  obtain e1 where e1: "build_entry sha256 (str ''now'') (str ''a/b'') [1] 0 GENESIS_PREV_HASH = Inr e1"
    using sha256.build_sample [OF encodable_genesis, of 0] by auto
  note k1 = known_chain_snoc [OF own empty_trail(3), of "str ''now''" "str ''a/b''" "[1]" e1]
  have n1: "known_chain sha256 (sample_registry sha256) [e1]" "payload e1 = Some [1]" "payload_type (header e1) = str ''a/b''"
    using k1(1,3,5) e1 by (simp_all add: next_seq_def next_prev_def)
  obtain e2 where e2: "build_entry sha256 (str ''now'') (str ''a/b'') [1] 1 (next_prev [e1]) = Inr e2"
    using sha256.build_sample [OF known_chain_prev_encodable [OF sha256.digest32_axioms n1(1)], of 1] by auto
  have "seq (header e1) = 0" using k1(2) e1 by (simp add: next_seq_def next_prev_def)
  then have "known_chain sha256 (sample_registry sha256) ([e1] @ [e2])" "payload e2 = Some [1]"
    using known_chain_snoc(1,3) [OF own n1(1), of "str ''now''" "str ''a/b''" "[1]" e2] e2 by (simp_all add: next_seq_def)
  with n1 show thesis using that [of e1 e2] by simp
qed

lemma sample_stem:
  "dir_stem (str ''t.jsonl'') = str ''t''" "trail_names [(str ''t.jsonl'', f)] (str ''t'') = [str ''t.jsonl'']"
  "next_ordinal [(str ''t.jsonl'', f)] (str ''t'') = 0" "active [(str ''t.jsonl'', f)] (str ''t'') base = Inr (str ''t.jsonl'')"
  by (simp_all add: dir_stem_def stem_of_def segment_identity_def endswith_def SEGMENT_SUFFIX_def str_def before_last_def
      trail_names_def next_ordinal_def ordinals_def List.map_filter_def segment_ordinal_def Let_def SEGMENT_DIGITS_def
      startswith_def active_def)

lemma sample_directory:
  obtains loads f segs where "reads_bindings loads" "line_count f = 2"
    "trail_in_order sha256 ascii_runtime loads (kw_registry sample_kwargs) [(str ''t.jsonl'', f)] (dir_stem (str ''t.jsonl'')) segs"
proof -
  obtain loads0 where r0: "reads_bindings loads0" using reads_bindings_exist by blast
  let ?l = "\<lambda>pb. if pb = [1] then Inr (JObj []) else loads0 pb"
  have "canonical_json (to_payload b) \<noteq> Inr [1]" for b
    by (auto simp: canonical_json_def ascii_encode_def to_payload_def split: if_splits)
  then have r: "reads_bindings ?l" using r0 unfolding reads_bindings_def by auto
  obtain e1 e2 where e: "known_chain sha256 (sample_registry sha256) [e1, e2]" "payload e1 = Some [1]" "payload e2 \<noteq> None"
    "payload_type (header e1) = str ''a/b''" by (rule sample_rows)
  obtain v w where v: "to_obj e1 = Inr v" "to_obj e2 = Inr w" using e(2,3) to_obj_total by (metis option.discI)
  let ?f = "\<lparr>sf_lines = [Inr v, Inr w], sf_open = False, sf_anchors = []\<rparr>" and ?n = "str ''t.jsonl''"
  have j: "jsonl_entries ascii_runtime (open_trail [(?n, ?f)] ?n) = Inr [e1, e2]"
    by (simp add: open_trail_def jsonl_entries_def from_obj_to_obj [OF v(1)] from_obj_to_obj [OF v(2)])
  then obtain s chain where s: "read_segment sha256 ascii_runtime ?l (sample_registry sha256) [(?n, ?f)] ?n = Inr s"
      "sr_chain s = Some chain" "vr_ok chain" "vr_unverifiable chain = []" "genesis_payload_type s = Some (str ''a/b'')"
    using e(2,4) by (simp add: read_segment_eq verify_known_chain [OF new_registry_ok [OF sample_registry_new] e(1)] decode_genesis_def)
  then have "rotated_trail [s]" by (simp add: rotated_trail_def ROTATION_PAYLOAD_TYPE_def str_def)
  moreover have "stem_of ?n = None"
    by (simp add: stem_of_def segment_identity_def endswith_def SEGMENT_SUFFIX_def str_def before_last_def)
  ultimately have "trail_in_order sha256 ascii_runtime ?l (kw_registry sample_kwargs) [(?n, ?f)] (dir_stem ?n) [s]"
    using s(1) by (simp add: trail_in_order_def sample_stem sample_kwargs_def) (simp add: scalar_def str_def)
  with r show thesis by (intro that [of ?l ?f "[s]"]) (simp_all add: line_count_def)
qed

lemma sample_open_ok: "passes_bindings sample_kwargs" "encodable (en_now some_environment)" "\<forall>c \<in> set (str ''p''). scalar c"
    "new_registry sha256 = Inr (kw_registry sample_kwargs)"
proof -
  show "encodable (en_now some_environment)" by (auto simp: some_environment_def intro!: encodable_str)
qed (simp_all add: passes_bindings_def sample_kwargs_def sample_registry_new scalar_def str_def)

section \<open>Properties\<close>

text \<open>C17. Rotation keeps a trail in order. Take a directory that holds one trail in order, whose newest segment has a line
  and has reached the threshold both before and under the lock, and room for one more ordinal. Then opening the trail
  rotates: it returns a log on a new segment, no other file's lines change, the segments found are the old ones and the
  new one, and the directory is again one trail in order, on which \<^verbatim>\<open>waxseal segments\<close> exits with 0.\<close>

theorem rotation_keeps_trail_in_order:
  assumes "digest32 sha" "new_registry sha = Inr (kw_registry kw)" "passes_bindings kw" "encodable (en_now env)"
    and "reads_bindings loads" "\<forall>c \<in> set dname. scalar c"
    and t: "trail_in_order sha rt loads (kw_registry kw) d (dir_stem base) segs"
    and act0: "active d0 (dir_stem base) base = Inr act0" "map_of d0 act0 = Some f0" "max_bytes \<le> size_of f0"
    and act: "act = last (trail_names d (dir_stem base))" "map_of d act = Some f" "max_bytes \<le> size_of f" "sf_lines f \<noteq> []"
    and room: "next_ordinal d (dir_stem base) \<le> 99999"
  shows "\<exists>new cfg lg notes d' s. open_segmented sha rt size_of kw env dname archive d0 d base max_bytes = (Inr ((new, cfg, lg), notes), d')
    \<and> Rotated act new (max_bytes = DEFAULT_MAX_SEGMENT_BYTES) \<in> set notes \<and> (\<forall>n. n \<noteq> new \<longrightarrow> open_trail d' n = open_trail d n)
    \<and> (\<exists>e. jsonl_entries rt (open_trail d' new) = Inr [e] \<and> payload_type (header e) = ROTATION_PAYLOAD_TYPE)
    \<and> discover_segments d' = trail_names d (dir_stem base) @ [new]
    \<and> trail_in_order sha rt loads (kw_registry kw) d' (dir_stem base) (segs @ [s])
    \<and> segments_command sha rt loads (kw_registry kw) d' = Inr 0"
  using rotation_step [OF assms] .

theorem rotation_keeps_trail_in_order_witness:
  "\<exists>loads d new cfg lg ns d'. open_segmented sha256 ascii_runtime line_count sample_kwargs some_environment (str ''p'') None d d
      (str ''t.jsonl'') 2 = (Inr ((new, cfg, lg), ns), d')
    \<and> segments_command sha256 ascii_runtime loads (kw_registry sample_kwargs) d' = Inr 0"
proof -
  obtain loads f segs where d: "reads_bindings loads" "line_count f = 2"
    "trail_in_order sha256 ascii_runtime loads (kw_registry sample_kwargs) [(str ''t.jsonl'', f)] (dir_stem (str ''t.jsonl'')) segs"
    by (rule sample_directory)
  have "sf_lines f \<noteq> []" using d(2) by (auto simp: line_count_def)
  then show ?thesis
    using rotation_keeps_trail_in_order [OF sha256.digest32_axioms sample_open_ok(4,1,2) d(1) sample_open_ok(3) d(3),
        of "[(str ''t.jsonl'', f)]" "str ''t.jsonl''" f 2 line_count "str ''t.jsonl''" f None] d(2)
    unfolding sample_stem by force
qed

text \<open>Writers that race to the threshold rotate once: after one of them has rotated, and as long as the new segment is
  under the threshold, every other writer that saw the old segment full before it got the lock opens the new segment and
  leaves the directory as it is.\<close>

theorem racing_writers_rotate_once:
  assumes "open_segmented sha rt size_of kw env dname archive d0 d base max_bytes = (Inr ((new, cfg, lg), notes), d')"
    and "Rotated act new flag \<in> set notes" "map_of d' new = Some f" "size_of f < max_bytes"
    and "active e0 (dir_stem base) base = Inr act0" "map_of e0 act0 = Some f0" "max_bytes \<le> size_of f0"
  shows "open_segmented sha rt size_of kw' env' dname archive' e0 d' base max_bytes =
    (res_map (\<lambda>(cfg, lg). ((new, cfg, lg), [])) (open_log rt kw' d' new), d')"
proof -
  obtain d1 where n: "segment_name (dir_stem base) (next_ordinal d1 (dir_stem base)) = Inr new" "d' = d1 \<or> (\<exists>f. d' = d1 @ [(new, f)])"
    by (rule open_segmented_rotated [OF assms(1,2)]) (use create_segment_dir in blast)
  have "new \<in> fst ` set d'" using assms(3) by (metis map_of_eq_None_iff option.discI)
  with n(2) new_segment_fresh [OF n(1)] obtain nf where "d' = d1 @ [(new, nf)]" by blast
  then have "active d' (dir_stem base) base = Inr new" using active_snoc [OF n(1)] by simp
  with assms(3-7) show ?thesis by (simp add: open_segmented_def Let_def)
qed

theorem racing_writers_rotate_once_witness:
  "\<exists>d new cfg lg d'. open_segmented sha256 ascii_runtime line_count sample_kwargs some_environment (str ''p'') None d d'
      (str ''t.jsonl'') 2 = (Inr ((new, cfg, lg), []), d')"
proof -
  obtain loads f segs where d: "reads_bindings loads" "line_count f = 2"
    "trail_in_order sha256 ascii_runtime loads (kw_registry sample_kwargs) [(str ''t.jsonl'', f)] (dir_stem (str ''t.jsonl'')) segs"
    by (rule sample_directory)
  let ?d = "[(str ''t.jsonl'', f)]" and ?open = "open_segmented sha256 ascii_runtime line_count sample_kwargs some_environment (str ''p'') None"
  have ne: "sf_lines f \<noteq> []" using d(2) by (auto simp: line_count_def)
  have a: "active ?d (dir_stem (str ''t.jsonl'')) (str ''t.jsonl'') = Inr (str ''t.jsonl'')" by (simp add: sample_stem)
  obtain new cfg lg ns d' where o: "?open ?d ?d (str ''t.jsonl'') 2 = (Inr ((new, cfg, lg), ns), d')"
      "Rotated (str ''t.jsonl'') new (2 = DEFAULT_MAX_SEGMENT_BYTES) \<in> set ns" "\<exists>e. jsonl_entries ascii_runtime (open_trail d' new) = Inr [e]"
    using rotation_step [OF sha256.digest32_axioms sample_open_ok(4,1,2) d(1) sample_open_ok(3) d(3) a,
        of f 2 line_count "str ''t.jsonl''" f None] d(2) ne unfolding sample_stem by force
  then have l: "length (jl_lines (open_trail d' new)) = 1" using res_mapM_length by (fastforce simp: jsonl_entries_def)
  then obtain g where g: "map_of d' new = Some g" by (auto simp: open_trail_def empty_trail_def split: option.splits)
  then have "line_count g < 2" using l by (simp add: open_trail_def line_count_def)
  from racing_writers_rotate_once [OF o(1,2) g this a, of f sample_kwargs some_environment None] d(2)
  have "?open ?d d' (str ''t.jsonl'') 2 = (res_map (\<lambda>(cfg, lg). ((new, cfg, lg), [])) (open_log ascii_runtime sample_kwargs d' new), d')"
    by simp
  moreover obtain cfg' lg' where "open_log ascii_runtime sample_kwargs d' new = Inr (cfg', lg')"
    using open_log_total [OF sample_open_ok(1)] by blast
  ultimately show ?thesis by (intro exI) simp
qed

text \<open>A newest row that reads but is not one of the format's (a hash that is not 64 lowercase hex digits, or a negative
  number) stops every later append: past the threshold the trail cannot be opened any more, although an unreadable
  newest row is reported and appending goes on.\<close>

theorem rotation_raises_on_foreign_tail:
  assumes "active d0 (dir_stem base) base = Inr act0" "map_of d0 act0 = Some f0" "max_bytes \<le> size_of f0"
    and "active d (dir_stem base) base = Inr act" "map_of d act = Some f" "max_bytes \<le> size_of f" "sf_lines f \<noteq> []"
    and "res_bind (last (sf_lines f)) (tail_fields rt) = Inr tip" "\<not> hex64 (snd tip) \<or> fst tip < 0"
    and "passes_bindings kw" "next_ordinal d (dir_stem base) \<le> 99999"
  shows "fst (open_segmented sha rt size_of kw env dname archive d0 d base max_bytes) = Inl ValueError"
proof -
  obtain d1 ns where fc: "final_checkpoint sha rt kw env d act = (d1, ns)" by force
  have "act \<in> fst ` set d" using assms(5) by (metis map_of_eq_None_iff option.discI)
  note same = final_checkpoint_same [OF fc this]
  obtain new where new: "segment_name (dir_stem base) (next_ordinal d1 (dir_stem base)) = Inr new"
    using next_ordinal_name assms(11) names_determine(2) [OF same(1)] by metis
  obtain cfg lg where o: "open_log rt kw d1 new = Inr (cfg, lg)" using open_log_total [OF assms(10)] by blast
  have "make_binding (JStr c) (JInt (fst tip)) (JStr (snd tip)) = Inl ValueError" for c
    using assms(9) by (auto simp: make_binding_def)
  with new o have "create_segment sha rt kw env dname d1 (dir_stem base) act tip = (Inl ValueError, d1)"
    by (simp add: create_segment_def)
  then show ?thesis using assms(1-8) fc by (simp add: open_segmented_def Let_def open_trail_def)
qed

theorem rotation_raises_on_foreign_tail_witness:
  "\<exists>d. fst (open_segmented sha256 ascii_runtime line_count sample_kwargs some_environment (str ''p'') None d d (str ''t.jsonl'') 1)
     = Inl ValueError"
proof -
  let ?o = "\<lparr>header = sample_header 0 [], entry_hash = str ''zz'', payload = Some []\<rparr>"
  obtain v where v: "to_obj ?o = Inr v" using to_obj_total [of ?o] by auto
  let ?f = "\<lparr>sf_lines = [Inr v], sf_open = False, sf_anchors = []\<rparr>"
  have a: "active [(str ''t.jsonl'', ?f)] (dir_stem (str ''t.jsonl'')) (str ''t.jsonl'') = Inr (str ''t.jsonl'')"
    by (simp add: sample_stem)
  have "res_bind (last (sf_lines ?f)) (tail_fields ascii_runtime) = Inr (0, str ''zz'')"
    using tail_fields_from_obj [OF from_obj_to_obj [OF v]] by (simp add: sample_header_def)
  moreover have "\<not> hex64 (str ''zz'')" by (simp add: hex64_def str_def)
  ultimately show ?thesis
    using rotation_raises_on_foreign_tail [OF a _ _ a, of ?f 1 line_count ?f ascii_runtime "(0, str ''zz'')" sample_kwargs sha256
        some_environment "str ''p''" None] sample_open_ok(1)
    by (auto simp: line_count_def sample_stem)
qed

end
