(* ===== verification/ChainServer.thy ===== *)
theory ChainServer
  imports Rotation Export
begin

text \<open>
  The chain server (\<^verbatim>\<open>server/waxseal_server/\<close>): identifier checks and the envelope (\<^verbatim>\<open>domain/identifiers.py\<close>,
  \<^verbatim>\<open>domain/envelope.py\<close>), the receipt chain (\<^verbatim>\<open>domain/receipts.py\<close>, \<^verbatim>\<open>storage/_chain_receipts.py\<close>), paging and segments
  (\<^verbatim>\<open>storage/_chain_paging.py\<close>, \<^verbatim>\<open>storage/_chain_paths.py\<close>), the store (\<^verbatim>\<open>storage/chains.py\<close>) and the status codes of its
  routes (\<^verbatim>\<open>api/_chains_writes.py\<close>, \<^verbatim>\<open>api/views.py\<close>). An append runs through three critical sections, each under a lock of
  its own: rotation, the compare-and-set append to the active segment, and the acknowledgement. Requests interleave
  between them, so the server is a step relation on one chain's files and the requests in flight.
\<close>

section \<open>Identifiers\<close>

text \<open>
  A pattern anchored by \<^verbatim>\<open>^\<close> and \<^verbatim>\<open>$\<close> under \<^verbatim>\<open>re.match\<close>: the end anchor also matches before one final newline.
\<close>

definition anchored :: "(pystr \<Rightarrow> bool) \<Rightarrow> pystr \<Rightarrow> bool" where
  "anchored body s \<longleftrightarrow> body s \<or> s \<noteq> [] \<and> last s = 10 \<and> body (butlast s)"

definition alnum :: "nat \<Rightarrow> bool" where
  "alnum c \<longleftrightarrow> 48 \<le> c \<and> c \<le> 57 \<or> 65 \<le> c \<and> c \<le> 90 \<or> 97 \<le> c \<and> c \<le> 122"

definition SAFE_NAME_RE :: "pystr \<Rightarrow> bool" where
  "SAFE_NAME_RE = anchored (\<lambda>s. s \<noteq> [] \<and> length s \<le> 64 \<and> alnum (hd s)
     \<and> (\<forall>c \<in> set (tl s). alnum c \<or> c = 45 \<or> c = 46 \<or> c = 95))"

definition IMPORT_ID_RE :: "pystr \<Rightarrow> bool" where
  "IMPORT_ID_RE = anchored (\<lambda>s. length s = 32 \<and> (\<forall>c \<in> set s. hex_lower c))"

definition HEX64_RE :: "pystr \<Rightarrow> bool" where
  "HEX64_RE = anchored hex64"

definition WHOLE_NUMBER_RE :: "pystr \<Rightarrow> bool" where
  "WHOLE_NUMBER_RE = anchored (\<lambda>s. s = [48] \<or> s \<noteq> [] \<and> length s \<le> 18 \<and> 49 \<le> hd s \<and> (\<forall>c \<in> set s. 48 \<le> c \<and> c \<le> 57))"

definition require_chain_id :: "pystr \<Rightarrow> pystr res" where
  "require_chain_id s = (if SAFE_NAME_RE s then Inr s else Inl InvalidIdentifier)"

definition require_witness_id :: "pystr \<Rightarrow> pystr res" where
  "require_witness_id s = (if SAFE_NAME_RE s then Inr s else Inl InvalidIdentifier)"

definition is_import_id :: "pystr \<Rightarrow> bool" where
  "is_import_id = IMPORT_ID_RE"

definition require_import_id :: "pystr \<Rightarrow> pystr res" where
  "require_import_id s = (if is_import_id s then Inr s else Inl InvalidIdentifier)"

definition is_hex64 :: "json \<Rightarrow> bool" where
  "is_hex64 v = (case v of JStr s \<Rightarrow> HEX64_RE s | _ \<Rightarrow> False)"

definition require_hex64 :: "json \<Rightarrow> pystr res" where
  "require_hex64 v = (case v of JStr s \<Rightarrow> if HEX64_RE s then Inr s else Inl MalformedEnvelope | _ \<Rightarrow> Inl MalformedEnvelope)"

definition require_root :: "pystr \<Rightarrow> pystr res" where
  "require_root s = (if is_hex64 (JStr s) then Inr s else Inl InvalidIdentifier)"

definition require_whole_number :: "pystr \<Rightarrow> pystr res" where
  "require_whole_number s = (if WHOLE_NUMBER_RE s then Inr s else Inl InvalidIdentifier)"

definition require_positive_int :: "pystr \<Rightarrow> pystr res" where
  "require_positive_int s = (if \<not> WHOLE_NUMBER_RE s \<or> s = [48] then Inl InvalidIdentifier else Inr s)"

section \<open>The envelope\<close>

definition str_field :: "jobj \<Rightarrow> string \<Rightarrow> pystr res" where
  "str_field fs name = (case jget fs name of Some (JStr s) \<Rightarrow> Inr s | _ \<Rightarrow> Inl MalformedEnvelope)"

definition hex_field :: "jobj \<Rightarrow> string \<Rightarrow> pystr res" where
  "hex_field fs name = (case jget fs name of Some v \<Rightarrow> require_hex64 v | None \<Rightarrow> Inl MalformedEnvelope)"

definition parse_header :: "jobj \<Rightarrow> entry_header res" where
  "parse_header hs =
     (case jget hs ''seq'' of
        Some (JInt n) \<Rightarrow>
          if n < 0 then Inl MalformedEnvelope
          else res_bind (str_field hs ''ts'') (\<lambda>t. res_bind (str_field hs ''payload_type'') (\<lambda>pt.
               res_bind (hex_field hs ''hash_version'') (\<lambda>hv. res_bind (hex_field hs ''payload_hash'') (\<lambda>ph.
               res_map (\<lambda>prev. \<lparr>seq = n, ts = t, hash_version = hv, payload_type = pt, payload_hash = ph, prev_hash = prev\<rparr>)
                 (hex_field hs ''prev_hash'')))))
      | _ \<Rightarrow> Inl MalformedEnvelope)"

definition parse_envelope :: "json \<Rightarrow> entry res" where
  "parse_envelope v =
     (case v of
        JObj fs \<Rightarrow>
          (case jget fs ''header'' of
             Some (JObj hs) \<Rightarrow>
               res_bind (parse_header hs) (\<lambda>h. res_bind (hex_field fs ''entry_hash'') (\<lambda>eh.
               res_bind (str_field fs ''payload_b64'') (\<lambda>b.
                 (case b64_strict [] 0 b of
                    Inl _ \<Rightarrow> Inl MalformedEnvelope
                  | Inr p \<Rightarrow> Inr \<lparr>header = h, entry_hash = eh, payload = Some p\<rparr>))))
           | _ \<Rightarrow> Inl MalformedEnvelope)
      | _ \<Rightarrow> Inl MalformedEnvelope)"

section \<open>The receipt chain\<close>

definition RECEIPT_FRAME_PREFIX :: bytes where
  "RECEIPT_FRAME_PREFIX = asc ''waxseal-receipt-v1'' @ [10]"

definition RECEIPT_GENESIS :: pystr where
  "RECEIPT_GENESIS = replicate 64 48"

definition require_link_hash :: "pystr \<Rightarrow> pystr res" where
  "require_link_hash s = (if hex64 s then Inr s else Inl ValueError)"

definition receipt_frame :: "int \<Rightarrow> pystr \<Rightarrow> pystr \<Rightarrow> bytes res" where
  "receipt_frame n prev eh =
     res_bind (pack_Q 3) (\<lambda>q. res_bind (lp (Str (str_int n))) (\<lambda>a. res_bind (lp (Str prev)) (\<lambda>b.
       res_map (\<lambda>c. RECEIPT_FRAME_PREFIX @ q @ a @ b @ c) (lp (Str eh)))))"

definition receipt_head :: "(bytes \<Rightarrow> bytes) \<Rightarrow> int \<Rightarrow> pystr \<Rightarrow> pystr \<Rightarrow> pystr res" where
  "receipt_head sha n prev eh = res_map (\<lambda>f. hex (sha f)) (receipt_frame n prev eh)"

record receipt_chain =
  rch_seq :: int
  rch_head :: pystr

definition new_chain :: receipt_chain where
  "new_chain = \<lparr>rch_seq = - 1, rch_head = RECEIPT_GENESIS\<rparr>"

definition resume_chain :: "int \<Rightarrow> pystr \<Rightarrow> receipt_chain res" where
  "resume_chain n h =
     (if n < 0 then Inl ValueError else res_map (\<lambda>h. \<lparr>rch_seq = n, rch_head = h\<rparr>) (require_link_hash h))"

definition chain_acknowledge :: "(bytes \<Rightarrow> bytes) \<Rightarrow> receipt_chain \<Rightarrow> pystr \<Rightarrow> receipt_chain res" where
  "chain_acknowledge sha c eh =
     res_bind (require_link_hash eh) (\<lambda>_.
       res_map (\<lambda>h. \<lparr>rch_seq = rch_seq c + 1, rch_head = h\<rparr>) (receipt_head sha (rch_seq c + 1) (rch_head c) eh))"

definition chain_head :: "receipt_chain \<Rightarrow> (int \<times> pystr) option" where
  "chain_head c = (if rch_seq c < 0 then None else Some (rch_seq c, rch_head c))"

section \<open>The receipt log\<close>

type_synonym receipt_log = "json res list option"

definition RECEIPT_VERSION :: int where
  "RECEIPT_VERSION = 1"

definition version_is :: "json \<Rightarrow> bool" where
  "version_is v = (case v of JInt n \<Rightarrow> n = RECEIPT_VERSION | JBool b \<Rightarrow> b | JFloat f \<Rightarrow> f_integral f = Some RECEIPT_VERSION
                   | _ \<Rightarrow> False)"

definition log_lines :: "receipt_log \<Rightarrow> json res list" where
  "log_lines log = (case log of None \<Rightarrow> [] | Some ls \<Rightarrow> ls)"

definition read_receipt_head :: "runtime \<Rightarrow> receipt_log \<Rightarrow> (int \<times> pystr) option res" where
  "read_receipt_head rt log =
     (if log_lines log = [] then Inr None
      else res_bind (last (log_lines log)) (\<lambda>v. res_bind (res_bind (jsub v ''receipt_seq'') (py_int rt)) (\<lambda>n.
             res_map (\<lambda>h. Some (n, py_str rt h)) (jsub v ''receipt_head''))))"

definition load_receipt_records :: "receipt_log \<Rightarrow> json list option res" where
  "load_receipt_records log =
     (case log of
        None \<Rightarrow> Inr None
      | Some ls \<Rightarrow> (case res_mapM (\<lambda>l. l) ls of
                     Inr vs \<Rightarrow> Inr (Some vs)
                   | Inl e \<Rightarrow> Inl (if e = JSONDecodeError then DamagedReceiptLog else e)))"

record receipt_log_report =
  rl_verdict :: verdict
  rl_checked :: "nat option"
  rl_reason :: "string option"
  rl_broken :: "int option"

definition log_report :: "verdict \<Rightarrow> nat \<Rightarrow> string \<Rightarrow> int option \<Rightarrow> receipt_log_report" where
  "log_report v n reason broken_at = \<lparr>rl_verdict = v, rl_checked = Some n, rl_reason = Some reason, rl_broken = broken_at\<rparr>"

fun verify_log_loop ::
  "(bytes \<Rightarrow> bytes) \<Rightarrow> runtime \<Rightarrow> receipt_chain \<Rightarrow> nat \<Rightarrow> json res list \<Rightarrow> receipt_log_report res" where
  "verify_log_loop sha rt c n [] = Inr \<lparr>rl_verdict = OK, rl_checked = Some n, rl_reason = None, rl_broken = None\<rparr>"
| "verify_log_loop sha rt c n (l # ls) =
     (case res_bind l (\<lambda>v. res_map (Pair v) (jsub v ''v'')) of
        Inl e \<Rightarrow> if e = JSONDecodeError \<or> e = TypeError \<or> e = KeyError
                 then Inr (log_report BROKEN n ''malformed_receipt_record'' None) else Inl e
      | Inr (v, version) \<Rightarrow>
          if \<not> version_is version then Inr (log_report UNVERIFIABLE n ''unreadable_record_version'' None)
          else (case res_bind (res_bind (jsub v ''receipt_seq'') (py_int rt)) (\<lambda>stored_seq.
                       res_bind (jsub v ''receipt_head'') (\<lambda>stored_head. res_bind (jsub v ''entry_hash'') (\<lambda>eh.
                         res_map (\<lambda>c'. (stored_seq, py_str rt stored_head, c')) (chain_acknowledge sha c (py_str rt eh))))) of
                  Inl e \<Rightarrow> if e = KeyError \<or> e = TypeError \<or> is_ValueError e
                           then Inr (log_report BROKEN n ''malformed_receipt_record'' None) else Inl e
                | Inr (stored_seq, stored_head, c') \<Rightarrow>
                    if stored_seq \<noteq> rch_seq c' then Inr (log_report BROKEN n ''receipt_seq_gap'' (Some stored_seq))
                    else if stored_head \<noteq> rch_head c' then Inr (log_report BROKEN n ''receipt_head_mismatch'' (Some stored_seq))
                    else verify_log_loop sha rt c' (Suc n) ls))"

definition verify_receipt_log :: "(bytes \<Rightarrow> bytes) \<Rightarrow> runtime \<Rightarrow> receipt_log \<Rightarrow> receipt_log_report res" where
  "verify_receipt_log sha rt log =
     (case log of
        None \<Rightarrow> Inr \<lparr>rl_verdict = OK, rl_checked = None, rl_reason = Some ''not_recorded'', rl_broken = None\<rparr>
      | Some ls \<Rightarrow> verify_log_loop sha rt new_chain 0 ls)"

fun cross_check_loop :: "runtime \<Rightarrow> (int \<times> pystr) list \<Rightarrow> nat \<Rightarrow> json list \<Rightarrow> receipt_log_report res" where
  "cross_check_loop rt stored n [] = Inr \<lparr>rl_verdict = OK, rl_checked = Some n, rl_reason = None, rl_broken = None\<rparr>"
| "cross_check_loop rt stored n (v # vs) =
     (case (case v of JObj fs \<Rightarrow> jget fs ''v'' | _ \<Rightarrow> None) of
        None \<Rightarrow> Inr (log_report BROKEN n ''malformed_receipt_record'' None)
      | Some version \<Rightarrow>
          if \<not> version_is version then Inr (log_report UNVERIFIABLE n ''unreadable_record_version'' None)
          else (case res_bind (res_bind (jsub v ''seq'') (py_int rt)) (\<lambda>sq. res_map (\<lambda>eh. (sq, py_str rt eh)) (jsub v ''entry_hash'')) of
                  Inl e \<Rightarrow> if e = KeyError \<or> e = TypeError \<or> is_ValueError e
                           then Inr (log_report BROKEN n ''malformed_receipt_record'' None) else Inl e
                | Inr (sq, eh) \<Rightarrow>
                    if sq \<notin> fst ` set stored then Inr (log_report BROKEN n ''receipt_beyond_head'' (Some sq))
                    else if (sq, eh) \<notin> set stored then Inr (log_report BROKEN n ''receipt_mismatch'' (Some sq))
                    else cross_check_loop rt stored (Suc n) vs))"

definition cross_check_records :: "runtime \<Rightarrow> json list option \<Rightarrow> json list \<Rightarrow> receipt_log_report res" where
  "cross_check_records rt records stored =
     (case records of
        None \<Rightarrow> Inr \<lparr>rl_verdict = OK, rl_checked = None, rl_reason = Some ''not_recorded'', rl_broken = None\<rparr>
      | Some vs \<Rightarrow> res_bind (res_mapM (tail_fields rt) stored) (\<lambda>by_seq. cross_check_loop rt by_seq 0 vs))"

definition acknowledgement :: "entry \<Rightarrow> receipt_chain \<Rightarrow> json" where
  "acknowledgement e c =
     JObj [(str ''entry_hash'', JStr (entry_hash e)), (str ''receipt_head'', JStr (rch_head c)),
           (str ''receipt_seq'', JInt (rch_seq c)), (str ''seq'', JInt (seq (header e))),
           (str ''ts'', JStr (ts (header e))), (str ''v'', JInt RECEIPT_VERSION)]"

definition acknowledge :: "(bytes \<Rightarrow> bytes) \<Rightarrow> runtime \<Rightarrow> receipt_log \<Rightarrow> entry \<Rightarrow> (int \<times> pystr) res \<times> receipt_log" where
  "acknowledge sha rt log e =
     (case res_bind (read_receipt_head rt log) (\<lambda>prior.
             res_bind (case prior of None \<Rightarrow> Inr new_chain | Some (n, h) \<Rightarrow> resume_chain n h) (\<lambda>c.
               chain_acknowledge sha c (entry_hash e))) of
        Inl x \<Rightarrow> (Inl x, log)
      | Inr c \<Rightarrow> (Inr (rch_seq c, rch_head c), Some (log_lines log @ [Inr (acknowledgement e c)])))"

section \<open>The files of a chain\<close>

definition TRAIL_NAME :: pystr where
  "TRAIL_NAME = str ''trail.jsonl''"

definition TRAIL_STEM :: pystr where
  "TRAIL_STEM = str ''trail''"

definition segments_in :: "directory \<Rightarrow> pystr list" where
  "segments_in d =
     (let found = filter (\<lambda>n. takeWhile (\<lambda>c. c \<noteq> 46) (segment_identity n) = TRAIL_STEM) (discover_segments d) in
      if found \<noteq> [] then found else if TRAIL_NAME \<in> fst ` set d then [TRAIL_NAME] else [])"

definition active_trail_path :: "directory \<Rightarrow> pystr res" where
  "active_trail_path d = active_segment d TRAIL_NAME"

definition server_head :: "runtime \<Rightarrow> directory \<Rightarrow> (int \<times> pystr) option res" where
  "server_head rt d =
     res_bind (active_trail_path d) (\<lambda>act.
       if jl_lines (open_trail d act) = [] then Inr None
       else res_map Some (res_bind (last (jl_lines (open_trail d act))) (tail_fields rt)))"

definition stored_envelopes :: "directory \<Rightarrow> json list res" where
  "stored_envelopes d = res_mapM (\<lambda>l. l) (concat (map (\<lambda>n. jl_lines (open_trail d n)) (segments_in d)))"

definition cross_check_receipts :: "runtime \<Rightarrow> directory \<Rightarrow> receipt_log \<Rightarrow> receipt_log_report res" where
  "cross_check_receipts rt d log =
     (case load_receipt_records log of
        Inl e \<Rightarrow> if e = DamagedReceiptLog then Inr (log_report BROKEN 0 ''malformed_receipt_record'' None) else Inl e
      | Inr records \<Rightarrow> res_bind (stored_envelopes d) (cross_check_records rt records))"

section \<open>Paging\<close>

definition encode_cursor :: "int \<Rightarrow> pystr \<Rightarrow> pystr" where
  "encode_cursor i identity = [101] @ str_int i @ [126] @ identity"

definition decode_cursor :: "runtime \<Rightarrow> (nat \<Rightarrow> bool) \<Rightarrow> pystr option \<Rightarrow> (int \<times> pystr option) res" where
  "decode_cursor rt isdigit cursor =
     (case cursor of
        None \<Rightarrow> Inr (0, None)
      | Some s \<Rightarrow>
          if \<not> startswith s [101] then Inl ValueError
          else (let rest = drop 1 s; offset = takeWhile (\<lambda>c. c \<noteq> 126) rest; identity = drop (Suc (length offset)) rest in
                if offset = [] \<or> \<not> (\<forall>c \<in> set offset. isdigit c) \<or> identity = [] then Inl ValueError
                else res_map (\<lambda>n. (n, Some identity)) (int_of_str rt offset)))"

text \<open>One page: lines before the offset are not decoded. A line that is not UTF-8 is met when the page reaches it.\<close>

definition page :: "runtime \<Rightarrow> (nat \<Rightarrow> bool) \<Rightarrow> directory \<Rightarrow> pystr option \<Rightarrow> nat \<Rightarrow> (json list \<times> pystr option) res" where
  "page rt isdigit d cursor limit =
     res_bind (decode_cursor rt isdigit cursor) (\<lambda>(start, identity).
       res_bind (case identity of
                   None \<Rightarrow> active_trail_path d
                 | Some ident \<Rightarrow> if ident @ SEGMENT_SUFFIX \<in> set (segments_in d) then Inr (ident @ SEGMENT_SUFFIX) else Inl ValueError)
         (\<lambda>trail.
            let rest = drop (nat start) (jl_lines (open_trail d trail)) in
            res_map (\<lambda>vs. (vs, if limit < length rest then Some (encode_cursor (start + int limit) (segment_identity trail)) else None))
              (res_mapM (\<lambda>l. l) (take limit rest))))"

section \<open>The append\<close>

record server_params =
  sp_sha :: "bytes \<Rightarrow> bytes"
  sp_rt :: runtime
  sp_size :: "stored_file \<Rightarrow> int"
  sp_registry :: version_registry
  sp_dname :: pystr
  sp_archive :: "(pystr \<Rightarrow> stored_file option \<Rightarrow> archive_report res) option"
  sp_max :: int

definition server_kwargs :: "server_params \<Rightarrow> open_kwargs" where
  "server_kwargs p = \<lparr>kw_redactor = None, kw_registry = sp_registry p, kw_sink = None, kw_every = None\<rparr>"

definition rotate_chain :: "server_params \<Rightarrow> environment \<Rightarrow> directory \<Rightarrow> directory \<Rightarrow> unit res \<times> directory" where
  "rotate_chain p env d0 d =
     (case open_segmented (sp_sha p) (sp_rt p) (sp_size p) (server_kwargs p) env (sp_dname p) (sp_archive p) d0 d TRAIL_NAME (sp_max p) of
        (r, d') \<Rightarrow> (res_map (\<lambda>_. ()) r, d'))"

definition cas_build :: "entry \<Rightarrow> builder" where
  "cas_build e n prev =
     (if n \<noteq> seq (header e) \<or> prev \<noteq> prev_hash (header e) then Inl PreconditionFailed else Inr e)"

definition store_entry :: "runtime \<Rightarrow> directory \<Rightarrow> entry \<Rightarrow> (pystr \<times> entry) res \<times> directory" where
  "store_entry rt d e =
     (case active_trail_path d of
        Inl x \<Rightarrow> (Inl x, d)
      | Inr act \<Rightarrow>
          (case jsonl_append rt (open_trail d act) (cas_build e) of
             (Inl x, _) \<Rightarrow> (Inl x, d)
           | (Inr stored, b) \<Rightarrow>
               (Inr (act, stored), dir_put d act \<lparr>sf_lines = jl_lines b, sf_open = jl_open b, sf_anchors = stored_anchors d act\<rparr>)))"

text \<open>The append of one request with no other request in between, and the status code of the route.\<close>

definition chain_append ::
  "server_params \<Rightarrow> environment \<Rightarrow> pystr \<Rightarrow> json \<Rightarrow> directory \<times> receipt_log \<Rightarrow> (entry \<times> int \<times> pystr) res \<times> directory \<times> receipt_log" where
  "chain_append p env chain_id envelope s =
     (case res_bind (require_chain_id chain_id) (\<lambda>_. parse_envelope envelope) of
        Inl x \<Rightarrow> (Inl x, s)
      | Inr e \<Rightarrow>
          (case rotate_chain p env (fst s) (fst s) of
             (Inl x, d) \<Rightarrow> (Inl x, d, snd s)
           | (Inr _, d) \<Rightarrow>
               (case store_entry (sp_rt p) d e of
                  (Inl x, d') \<Rightarrow> (Inl x, d', snd s)
                | (Inr (_, stored), d') \<Rightarrow>
                    (case acknowledge (sp_sha p) (sp_rt p) (snd s) stored of
                       (r, log) \<Rightarrow> (res_map (\<lambda>(n, h). (stored, n, h)) r, d', log)))))"

definition error_status :: "exn \<Rightarrow> int" where
  "error_status x = (if x = InvalidIdentifier \<or> x = MalformedEnvelope then 400 else if x = PreconditionFailed then 409 else 500)"

definition post_entry ::
  "server_params \<Rightarrow> environment \<Rightarrow> pystr \<Rightarrow> json res \<Rightarrow> directory \<times> receipt_log \<Rightarrow> int \<times> (int \<times> pystr) option \<times> directory \<times> receipt_log" where
  "post_entry p env chain_id body s =
     (case body of
        Inl x \<Rightarrow> (if x = JSONDecodeError then 400 else 500, None, s)
      | Inr v \<Rightarrow>
          (case chain_append p env chain_id v s of
             (Inl x, s') \<Rightarrow> (error_status x, None, s')
           | (Inr (_, n, h), s') \<Rightarrow> (201, Some (n, h), s')))"

section \<open>Requests in flight\<close>

datatype request =
    Arrived entry
  | Ready entry
  | Stored pystr entry
  | Acked pystr entry int pystr
  | Refused entry exn
  | Unacknowledged pystr entry exn

record server =
  sv_dir :: directory
  sv_log :: receipt_log
  sv_requests :: "request list"

definition empty_server :: server where
  "empty_server = \<lparr>sv_dir = [], sv_log = None, sv_requests = []\<rparr>"

definition rotate_request :: "server_params \<Rightarrow> environment \<Rightarrow> directory \<Rightarrow> server \<Rightarrow> nat \<Rightarrow> entry \<Rightarrow> server" where
  "rotate_request p env d0 s i e =
     (case rotate_chain p env d0 (sv_dir s) of
        (r, d) \<Rightarrow> s\<lparr>sv_dir := d, sv_requests := (sv_requests s)[i := (case r of Inl x \<Rightarrow> Refused e x | Inr _ \<Rightarrow> Ready e)]\<rparr>)"

definition store_request :: "server_params \<Rightarrow> server \<Rightarrow> nat \<Rightarrow> entry \<Rightarrow> server" where
  "store_request p s i e =
     (case store_entry (sp_rt p) (sv_dir s) e of
        (r, d) \<Rightarrow> s\<lparr>sv_dir := d, sv_requests := (sv_requests s)[i := (case r of Inl x \<Rightarrow> Refused e x | Inr (n, stored) \<Rightarrow> Stored n stored)]\<rparr>)"

definition ack_request :: "server_params \<Rightarrow> server \<Rightarrow> nat \<Rightarrow> pystr \<Rightarrow> entry \<Rightarrow> server" where
  "ack_request p s i n e =
     (case acknowledge (sp_sha p) (sp_rt p) (sv_log s) e of
        (r, log) \<Rightarrow> s\<lparr>sv_log := log, sv_requests := (sv_requests s)[i := (case r of Inl x \<Rightarrow> Unacknowledged n e x | Inr (k, h) \<Rightarrow> Acked n e k h)]\<rparr>)"

text \<open>
  The check before the rotation lock may have seen any directory. A request that another worker serves at the same time
  takes its own steps in between.
\<close>

inductive server_step :: "server_params \<Rightarrow> server \<Rightarrow> server \<Rightarrow> bool" for p where
  arrive: "require_chain_id chain_id = Inr chain_id \<Longrightarrow> parse_envelope v = Inr e \<Longrightarrow>
             server_step p s (s\<lparr>sv_requests := sv_requests s @ [Arrived e]\<rparr>)"
| rotate: "i < length (sv_requests s) \<Longrightarrow> sv_requests s ! i = Arrived e \<Longrightarrow> server_step p s (rotate_request p env d0 s i e)"
| store: "i < length (sv_requests s) \<Longrightarrow> sv_requests s ! i = Ready e \<Longrightarrow> server_step p s (store_request p s i e)"
| ack: "i < length (sv_requests s) \<Longrightarrow> sv_requests s ! i = Stored n e \<Longrightarrow> server_step p s (ack_request p s i n e)"

definition server_reachable :: "server_params \<Rightarrow> server \<Rightarrow> bool" where
  "server_reachable p s \<longleftrightarrow> (server_step p)\<^sup>*\<^sup>* empty_server s"

inductive_cases server_stepE: "server_step p s s'"

section \<open>What the critical sections do to the files\<close>

text \<open>A segment in order: rows numbered from 0, each naming the one before it.\<close>

definition linked :: "entry list \<Rightarrow> bool" where
  "linked es \<longleftrightarrow> (\<forall>i < length es. seq (header (es ! i)) = int i \<and> prev_hash (header (es ! i)) = prev_at es i)"

definition rows_of :: "runtime \<Rightarrow> directory \<Rightarrow> pystr \<Rightarrow> entry list res" where
  "rows_of rt d n = jsonl_entries rt (open_trail d n)"

definition file_ok :: "runtime \<Rightarrow> directory \<Rightarrow> pystr \<Rightarrow> bool" where
  "file_ok rt d n \<longleftrightarrow> terminated (open_trail d n) \<and> (\<exists>es. rows_of rt d n = Inr es \<and> linked es)"

definition files_ok :: "runtime \<Rightarrow> directory \<Rightarrow> bool" where
  "files_ok rt d \<longleftrightarrow> (\<forall>n. file_ok rt d n) \<and> (\<forall>n \<in> fst ` set d. n = TRAIL_NAME \<or> stem_of n = Some TRAIL_STEM)"

text \<open>A section leaves the files as they are or adds one row to one of them.\<close>

definition adds_row :: "runtime \<Rightarrow> directory \<Rightarrow> pystr \<Rightarrow> entry \<Rightarrow> directory \<Rightarrow> bool" where
  "adds_row rt d n e d' \<longleftrightarrow>
     (\<exists>es. rows_of rt d n = Inr es \<and> rows_of rt d' n = Inr (es @ [e]) \<and> seq (header e) = next_seq es \<and> prev_hash (header e) = next_prev es)
     \<and> terminated (open_trail d' n) \<and> (\<forall>m. m \<noteq> n \<longrightarrow> open_trail d' m = open_trail d m)
     \<and> fst ` set d' = insert n (fst ` set d)"

lemma linked_next: "linked es \<Longrightarrow> next_seq es = int (length es) \<and> next_prev es = prev_at es (length es)"
  by (cases "es = []") (auto simp: linked_def next_seq_def next_prev_def prev_at_def last_conv_nth of_nat_diff Suc_leI)

lemma linked_snoc:
  assumes "linked es" "seq (header e) = next_seq es" "prev_hash (header e) = next_prev es"
  shows "linked (es @ [e])"
proof -
  have "prev_at (es @ [e]) i = prev_at es i" if "i \<le> length es" for i using that by (auto simp: prev_at_def nth_append)
  then show ?thesis using assms linked_next [OF assms(1)] by (auto simp: linked_def nth_append less_Suc_eq)
qed

lemma adds_row_files_ok:
  assumes "files_ok rt d" "adds_row rt d n e d'" "n = TRAIL_NAME \<or> stem_of n = Some TRAIL_STEM"
  shows "files_ok rt d'"
proof -
  obtain es where es: "rows_of rt d n = Inr es" "rows_of rt d' n = Inr (es @ [e])" "seq (header e) = next_seq es" "prev_hash (header e) = next_prev es"
    "terminated (open_trail d' n)" "\<forall>m. m \<noteq> n \<longrightarrow> open_trail d' m = open_trail d m" "fst ` set d' = insert n (fst ` set d)"
    using assms(2) unfolding adds_row_def by blast
  have f: "file_ok rt d m" for m using assms(1) by (simp add: files_ok_def)
  have "linked es" using f [of n] es(1) by (simp add: file_ok_def)
  then have "file_ok rt d' n" using es(2-5) linked_snoc by (auto simp: file_ok_def)
  moreover have "file_ok rt d' m" if "m \<noteq> n" for m using f [of m] es(6) that by (simp add: file_ok_def rows_of_def)
  ultimately have "file_ok rt d' m" for m by (cases "m = n") simp_all
  moreover have "m = TRAIL_NAME \<or> stem_of m = Some TRAIL_STEM" if "m \<in> fst ` set d'" for m
    using that assms(1,3) unfolding files_ok_def es(7) by blast
  ultimately show ?thesis by (simp add: files_ok_def)
qed

lemma empty_files: "rows_of rt [] n = Inr []" "files_ok rt []"
proof -
  show r: "rows_of rt [] n = Inr []" for n by (simp add: rows_of_def open_trail_def empty_trail(2))
  have "terminated (open_trail [] n)" for n by (simp add: open_trail_def empty_trail(1))
  with r show "files_ok rt []" by (simp add: files_ok_def file_ok_def linked_def)
qed

lemma trail_stem: "TRAIL_STEM \<noteq> []" "dir_stem TRAIL_NAME = TRAIL_STEM" "TRAIL_STEM @ SEGMENT_SUFFIX = TRAIL_NAME" "stem_of TRAIL_NAME = None"
  by (simp_all add: TRAIL_STEM_def TRAIL_NAME_def SEGMENT_SUFFIX_def dir_stem_def stem_of_def segment_identity_def endswith_def
      before_last_def str_def)

lemma active_trail_name:
  assumes "active_trail_path d = Inr act"
  shows "act = TRAIL_NAME \<or> stem_of act = Some TRAIL_STEM"
proof (cases "ordinals d TRAIL_STEM = []")
  case True
  with assms show ?thesis by (simp add: active_trail_path_def active_segment_def active_def trail_stem split: if_splits)
next
  case False
  then have "segment_name TRAIL_STEM (Max (set (ordinals d TRAIL_STEM))) = Inr act"
    using assms by (simp add: active_trail_path_def active_segment_def active_def trail_stem)
  from segment_name_stem(1) [OF this trail_stem(1)] show ?thesis by simp
qed

lemma store_entry_adds:
  assumes "files_ok rt d" "store_entry rt d e = (r, d')"
  shows "(\<exists>x. r = Inl x \<and> d' = d)
    \<or> (\<exists>n. r = Inr (n, e) \<and> (n = TRAIL_NAME \<or> stem_of n = Some TRAIL_STEM) \<and> adds_row rt d n e d')"
proof (cases "active_trail_path d")
  case (Inr act)
  obtain q b where q: "jsonl_append rt (open_trail d act) (cas_build e) = (q, b)" by force
  have f: "file_ok rt d act" using assms(1) by (simp add: files_ok_def)
  then obtain es where es: "terminated (open_trail d act)" "jsonl_entries rt (open_trail d act) = Inr es"
    by (auto simp: file_ok_def rows_of_def)
  show ?thesis
  proof (cases q)
    case (Inr e')
    from jsonl.append_stores [OF es q [unfolded Inr]]
    have a: "terminated b" "jsonl_entries rt b = Inr (es @ [e'])" "cas_build e (next_seq es) (next_prev es) = Inr e'" by blast+
    then have e': "e' = e" "seq (header e) = next_seq es" "prev_hash (header e) = next_prev es"
      by (auto simp: cas_build_def split: if_splits)
    let ?f = "\<lparr>sf_lines = jl_lines b, sf_open = jl_open b, sf_anchors = stored_anchors d act\<rparr>"
    have d': "r = Inr (act, e)" "d' = dir_put d act ?f"
      using assms(2) q Inr \<open>active_trail_path d = Inr act\<close> e' by (simp_all add: store_entry_def)
    have "adds_row rt d act e d'"
      using a es e' d' map_fst_dir_put [of d act ?f]
      by (auto simp: adds_row_def rows_of_def open_trail_def map_of_dir_put jsonl_entries_def terminated_def simp flip: set_map split: if_splits)
    with d' active_trail_name [OF \<open>active_trail_path d = Inr act\<close>] show ?thesis by blast
  qed (use assms(2) q Inr in \<open>auto simp: store_entry_def\<close>)
qed (use assms(2) in \<open>auto simp: store_entry_def\<close>)

text \<open>A rotation adds row 0 of the next segment.\<close>

lemma create_segment_adds:
  assumes "new_registry sha = Inr (kw_registry kw)" "kw_redactor kw = None"
    and "create_segment sha rt kw env dname d stem act tip = (r, d')"
  shows "d' = d \<or> (\<exists>new e. segment_name stem (next_ordinal d stem) = Inr new \<and> adds_row rt d new e d')"
proof (cases "d' = d")
  case False
  then obtain new cfg lg b where o: "segment_name stem (next_ordinal d stem) = Inr new" "open_log rt kw d new = Inr (cfg, lg)"
    "make_binding (JStr (segment_chain_id dname (segment_identity act))) (JInt (fst tip)) (JStr (snd tip)) = Inr b"
    using assms(3) by (auto simp: create_segment_def split: sum.splits)
  obtain q lg' where a: "log_append sha cfg env lg (PDict (to_payload b)) ROTATION_PAYLOAD_TYPE = (q, lg')" by force
  have d': "jl_lines (lg_backend lg') \<noteq> []" "d' = store_back d new lg'"
    using assms(3) o a False by (auto simp: create_segment_def split: if_splits)
  have fresh: "new \<notin> fst ` set d" by (rule new_segment_fresh [OF o(1)])
  then have none: "map_of d new = None" by (simp add: map_of_eq_None_iff)
  then have "new_log (jsonl_ops rt) empty_trail (kw_redactor kw) (kw_registry kw) None no_files None (kw_sink kw)
      (kw_every kw) None True (stored_anchors d new) = Inr (cfg, lg)" using o(2) by (simp add: open_log_def open_trail_def)
  note n = new_log_ok [OF this new_registry_own [OF assms(1)] empty_trail(1,2,3)]
  have "canonical_payload cfg (PDict (to_payload b)) \<noteq> Inl AttestationFailure"
    using canonical_payload_errors assms(2) n(3) by (metis option.discI redactor_ok_def)
  from jsonl_log.log_append_cases [OF n(2,1) a this]
  obtain es where es: "log_ok sha terminated cfg lg' es"
    "es = [] \<or> (\<exists>e pb. es = [e] \<and> build_entry sha (en_now env) ROTATION_PAYLOAD_TYPE pb (next_seq []) (next_prev []) = Inr e)" by fastforce
  have je: "terminated (lg_backend lg')" "jsonl_entries rt (lg_backend lg') = Inr es"
    using es(1) n(2) fun_cong [OF jsonl_ops_eq(2), of rt "lg_backend lg'"] by (simp_all add: log_ok_def log_entries_def)
  then have "es \<noteq> []" using d'(1) res_mapM_length by (fastforce simp: jsonl_entries_def)
  then obtain e where e: "es = [e]" "seq (header e) = next_seq []" "prev_hash (header e) = next_prev []"
    using es(2) by (auto simp: build_entry_def res_elims Let_def)
  have "adds_row rt d new e d'"
    using none fresh d'(2) je e
    by (auto simp: adds_row_def rows_of_def store_back_def dir_put_def open_trail_def map_add_def jsonl_entries_def terminated_def
        empty_trail_def split: option.splits)
  with o(1) show ?thesis by blast
qed simp

lemma rotate_chain_adds:
  assumes "new_registry (sp_sha p) = Inr (sp_registry p)" "rotate_chain p env d0 d = (r, d')"
  shows "d' = d \<or> (\<exists>n e. stem_of n = Some TRAIL_STEM \<and> adds_row (sp_rt p) d n e d')"
proof -
  have fc: "final_checkpoint (sp_sha p) (sp_rt p) (server_kwargs p) env d act = (d, [])" for act
    by (simp add: final_checkpoint_def server_kwargs_def)
  have "d' = d \<or> (\<exists>act tip q. create_segment (sp_sha p) (sp_rt p) (server_kwargs p) env (sp_dname p) d TRAIL_STEM act tip = (q, d'))"
    using assms(2) by (auto simp: rotate_chain_def open_segmented_def Let_def fc trail_stem split: sum.splits if_splits prod.splits)
  moreover have "new_registry (sp_sha p) = Inr (kw_registry (server_kwargs p))" "kw_redactor (server_kwargs p) = None"
    using assms(1) by (simp_all add: server_kwargs_def)
  ultimately show ?thesis
    using create_segment_adds segment_name_stem(1) [OF _ trail_stem(1)] by metis
qed

section \<open>The receipt log of a server that only acknowledges\<close>

inductive acknowledged :: "(bytes \<Rightarrow> bytes) \<Rightarrow> json list \<Rightarrow> entry list \<Rightarrow> receipt_chain \<Rightarrow> bool" for sha where
  none: "acknowledged sha [] [] new_chain"
| one_more: "acknowledged sha vs es c \<Longrightarrow> chain_acknowledge sha c (entry_hash e) = Inr c' \<Longrightarrow>
     acknowledged sha (vs @ [acknowledgement e c']) (es @ [e]) c'"

lemma acknowledgement_fields:
  "jsub (acknowledgement e c) ''v'' = Inr (JInt 1)" "jsub (acknowledgement e c) ''receipt_seq'' = Inr (JInt (rch_seq c))"
  "jsub (acknowledgement e c) ''receipt_head'' = Inr (JStr (rch_head c))" "jsub (acknowledgement e c) ''entry_hash'' = Inr (JStr (entry_hash e))"
  "jsub (acknowledgement e c) ''seq'' = Inr (JInt (seq (header e)))"
  by (simp_all add: acknowledgement_def jsub_def jindex_def jget_def RECEIPT_VERSION_def str_def)

lemma acknowledged_length: "acknowledged sha vs es c \<Longrightarrow> length vs = length es \<and> rch_seq c = int (length es) - 1"
  by (induction rule: acknowledged.induct) (auto simp: new_chain_def chain_acknowledge_def res_elims)

text \<open>The last record is where the chain resumes.\<close>

lemma acknowledged_resume:
  assumes "acknowledged sha vs es c" "digest32 sha"
  shows "res_bind (read_receipt_head rt (Some (map Inr vs)))
    (\<lambda>prior. case prior of None \<Rightarrow> Inr new_chain | Some (n, h) \<Rightarrow> resume_chain n h) = Inr c"
  using assms(1)
proof cases
  case (one_more us fs c0 e)
  then have "0 \<le> rch_seq c" using acknowledged_length [OF assms(1)] by simp
  moreover have "hex64 (rch_head c)"
    using one_more(4) hex64_hex digest32.digest_length [OF assms(2)]
    by (auto simp: chain_acknowledge_def receipt_head_def res_elims)
  ultimately show ?thesis
    using one_more(1) by (simp add: read_receipt_head_def log_lines_def acknowledgement_fields resume_chain_def require_link_hash_def)
qed (simp add: read_receipt_head_def log_lines_def)

lemma acknowledged_verifies:
  "acknowledged sha vs es c \<Longrightarrow>
     verify_log_loop sha rt new_chain 0 (map Inr vs @ ls) = verify_log_loop sha rt c (length vs) ls"
proof (induction arbitrary: ls rule: acknowledged.induct)
  case (one_more vs es c e c')
  then show ?case by (simp add: acknowledgement_fields version_is_def RECEIPT_VERSION_def)
qed simp

lemma acknowledged_cross_checks:
  assumes "acknowledged sha vs es c" "\<forall>e \<in> set es. (seq (header e), entry_hash e) \<in> set stored"
  shows "cross_check_loop rt stored k vs = Inr \<lparr>rl_verdict = OK, rl_checked = Some (k + length vs), rl_reason = None, rl_broken = None\<rparr>"
proof -
  have v: "(case acknowledgement e c of JObj fs \<Rightarrow> jget fs ''v'' | _ \<Rightarrow> None) = Some (JInt 1)" for e c
    by (simp add: acknowledgement_def jget_def RECEIPT_VERSION_def str_def)
  have "cross_check_loop rt stored k (vs @ us) = cross_check_loop rt stored (k + length vs) us" for us
    using assms
  proof (induction arbitrary: us rule: acknowledged.induct)
    case (one_more vs es c e c')
    then have "(seq (header e), entry_hash e) \<in> set stored" by simp
    moreover from this have "seq (header e) \<in> fst ` set stored" by force
    ultimately show ?case
      using one_more by (simp add: v acknowledgement_fields version_is_def RECEIPT_VERSION_def del: One_nat_def)
  qed simp
  from this [of "[]"] show ?thesis by simp
qed

lemma acknowledge_cases:
  assumes "acknowledged sha vs es c" "digest32 sha" "log = None \<and> vs = [] \<or> log = Some (map Inr vs)"
    and "acknowledge sha rt log e = (r, log')"
  shows "(\<exists>x. r = Inl x \<and> log' = log)
    \<or> (\<exists>c'. r = Inr (rch_seq c', rch_head c') \<and> log' = Some (map Inr (vs @ [acknowledgement e c']))
         \<and> acknowledged sha (vs @ [acknowledgement e c']) (es @ [e]) c')"
proof -
  have l: "log_lines log = map Inr vs" using assms(3) by (auto simp: log_lines_def)
  then have "read_receipt_head rt log = read_receipt_head rt (Some (map Inr vs))" by (simp add: read_receipt_head_def log_lines_def)
  then have "res_bind (read_receipt_head rt log) (\<lambda>prior.
      res_bind (case prior of None \<Rightarrow> Inr new_chain | Some (n, h) \<Rightarrow> resume_chain n h) (\<lambda>c. chain_acknowledge sha c (entry_hash e)))
    = chain_acknowledge sha c (entry_hash e)"
    using acknowledged_resume [OF assms(1,2), of rt] by (auto simp: res_elims)
  with assms(4) l show ?thesis
    using acknowledged.one_more [OF assms(1), of e] by (auto simp: acknowledge_def split: sum.splits)
qed

section \<open>What holds of every state\<close>

text \<open>The slot an entry was stored at.\<close>

fun slot_of :: "request \<Rightarrow> (pystr \<times> entry) option" where
  "slot_of (Stored n e) = Some (n, e)"
| "slot_of (Acked n e k h) = Some (n, e)"
| "slot_of (Unacknowledged n e x) = Some (n, e)"
| "slot_of _ = None"

fun is_acked :: "request \<Rightarrow> bool" where
  "is_acked (Acked n e k h) = True"
| "is_acked _ = False"

definition holds_at :: "runtime \<Rightarrow> directory \<Rightarrow> pystr \<Rightarrow> entry \<Rightarrow> bool" where
  "holds_at rt d n e \<longleftrightarrow>
     n \<in> fst ` set d \<and> 0 \<le> seq (header e)
     \<and> (\<exists>es. rows_of rt d n = Inr es \<and> nat (seq (header e)) < length es \<and> es ! nat (seq (header e)) = e)"

definition slots_apart :: "request list \<Rightarrow> bool" where
  "slots_apart rs \<longleftrightarrow>
     (\<forall>i < length rs. \<forall>j < length rs. i \<noteq> j \<longrightarrow> (\<forall>n e e'. slot_of (rs ! i) = Some (n, e) \<longrightarrow> slot_of (rs ! j) = Some (n, e') \<longrightarrow>
        seq (header e) \<noteq> seq (header e')))"

definition requests_ok :: "runtime \<Rightarrow> directory \<Rightarrow> request list \<Rightarrow> bool" where
  "requests_ok rt d rs \<longleftrightarrow> slots_apart rs \<and> (\<forall>r \<in> set rs. \<forall>n e. slot_of r = Some (n, e) \<longrightarrow> holds_at rt d n e)"

definition log_ok_for :: "(bytes \<Rightarrow> bytes) \<Rightarrow> runtime \<Rightarrow> directory \<Rightarrow> receipt_log \<Rightarrow> request list \<Rightarrow> bool" where
  "log_ok_for sha rt d log rs \<longleftrightarrow>
     (\<exists>vs es c. acknowledged sha vs es c \<and> (log = None \<and> vs = [] \<or> log = Some (map Inr vs))
        \<and> (\<forall>e \<in> set es. \<exists>n. holds_at rt d n e) \<and> length vs = length (filter is_acked rs))"

definition server_ok :: "server_params \<Rightarrow> server \<Rightarrow> bool" where
  "server_ok p s \<longleftrightarrow> files_ok (sp_rt p) (sv_dir s) \<and> requests_ok (sp_rt p) (sv_dir s) (sv_requests s)
     \<and> log_ok_for (sp_sha p) (sp_rt p) (sv_dir s) (sv_log s) (sv_requests s)"

lemma adds_row_holds:
  assumes "adds_row rt d n e d'" "holds_at rt d m x"
  shows "holds_at rt d' m x"
proof (cases "m = n")
  case True
  with assms show ?thesis by (auto simp: adds_row_def holds_at_def nth_append)
next
  case False
  with assms show ?thesis by (auto simp: adds_row_def holds_at_def rows_of_def)
qed

lemma adds_row_new:
  assumes "adds_row rt d n e d'" "files_ok rt d"
  shows "holds_at rt d' n e" and "holds_at rt d n x \<Longrightarrow> seq (header x) \<noteq> seq (header e)"
proof -
  obtain es where es: "rows_of rt d n = Inr es" "rows_of rt d' n = Inr (es @ [e])" "seq (header e) = next_seq es"
    "fst ` set d' = insert n (fst ` set d)"
    using assms(1) unfolding adds_row_def by blast
  have "linked es" using assms(2) es(1) unfolding files_ok_def file_ok_def by (metis sum.inject(2))
  then have sq: "seq (header e) = int (length es)" using linked_next es(3) by simp
  then show "holds_at rt d' n e" using es by (simp add: holds_at_def)
  show "holds_at rt d n x \<Longrightarrow> seq (header x) \<noteq> seq (header e)" using es(1) sq by (auto simp: holds_at_def)
qed

lemma length_filter_update:
  assumes "i < length xs" "\<not> P (xs ! i)"
  shows "length (filter P (xs[i := x])) = length (filter P xs) + (if P x then 1 else 0)"
proof -
  have "xs = take i xs @ xs ! i # drop (Suc i) xs" using assms(1) by (rule id_take_nth_drop)
  then have "length (filter P xs) = length (filter P (take i xs)) + length (filter P (drop (Suc i) xs))"
    using assms(2) by (metis filter.simps(2) filter_append length_append)
  then show ?thesis using assms(1) by (simp add: upd_conv_take_nth_drop)
qed

lemma requests_ok_mono:
  "requests_ok rt d rs \<Longrightarrow> (\<And>m x. holds_at rt d m x \<Longrightarrow> holds_at rt d' m x) \<Longrightarrow> requests_ok rt d' rs"
  by (auto simp: requests_ok_def)

lemma log_ok_for_mono:
  "log_ok_for sha rt d log rs \<Longrightarrow> (\<And>m x. holds_at rt d m x \<Longrightarrow> holds_at rt d' m x) \<Longrightarrow>
     length (filter is_acked rs') = length (filter is_acked rs) \<Longrightarrow> log_ok_for sha rt d' log rs'"
  unfolding log_ok_for_def by metis

lemma requests_ok_update:
  assumes "requests_ok rt d rs" "i < length rs"
    and "slot_of r = slot_of (rs ! i) \<or> slot_of r = None
      \<or> (\<exists>n e. slot_of r = Some (n, e) \<and> holds_at rt d n e \<and> (\<forall>q \<in> set rs. \<forall>e'. slot_of q = Some (n, e') \<longrightarrow> seq (header e') \<noteq> seq (header e)))"
  shows "requests_ok rt d (rs[i := r])"
proof -
  have m: "rs ! j \<in> set rs" if "j < length rs" for j using that by simp
  have old: "seq (header e) \<noteq> seq (header e')"
    if "slot_of (rs ! a) = Some (n, e)" "slot_of (rs ! b) = Some (n, e')" "a < length rs" "b < length rs" "a \<noteq> b" for a b n e e'
    using assms(1) that unfolding requests_ok_def slots_apart_def by blast
  have new: "seq (header e) \<noteq> seq (header e')"
    if "slot_of r = Some (n, e)" "slot_of (rs ! b) = Some (n, e')" "b < length rs" "i \<noteq> b" for b n e e'
  proof (cases "slot_of r = slot_of (rs ! i)")
    case True
    with that old [of i n e b e'] assms(2) show ?thesis by simp
  next
    case False
    then have "\<forall>q \<in> set rs. \<forall>e'. slot_of q = Some (n, e') \<longrightarrow> seq (header e') \<noteq> seq (header e)" using assms(3) that(1) by simp
    with m [OF that(3)] that(2) show ?thesis by metis
  qed
  have "seq (header e) \<noteq> seq (header e')"
    if "slot_of (rs[i := r] ! a) = Some (n, e)" "slot_of (rs[i := r] ! b) = Some (n, e')" "a < length rs" "b < length rs" "a \<noteq> b" for a b n e e'
  proof (cases "a = i \<or> b = i")
    case True
    with that assms(2) show ?thesis using new [of n e b e'] new [of n e' a e] by (elim disjE) (simp_all add: eq_commute)
  next
    case False
    with that show ?thesis using old [of a n e b e'] by simp
  qed
  then have "slots_apart (rs[i := r])" by (simp add: slots_apart_def)
  moreover have "holds_at rt d n e" if q: "q \<in> set (rs[i := r])" and sl: "slot_of q = Some (n, e)" for q n e
  proof -
    have "q = r \<or> q \<in> set rs" using q set_update_subset_insert [of rs i r] by blast
    moreover have "holds_at rt d n e" if "slot_of x = Some (n, e)" "x \<in> set rs" for x using assms(1) that by (simp add: requests_ok_def)
    ultimately show ?thesis using assms(3) m [OF assms(2)] sl by force
  qed
  ultimately show ?thesis by (simp add: requests_ok_def)
qed

lemma rotate_request_ok:
  assumes "new_registry (sp_sha p) = Inr (sp_registry p)" "server_ok p s" "i < length (sv_requests s)" "sv_requests s ! i = Arrived e"
  shows "server_ok p (rotate_request p env d0 s i e)"
proof -
  note o = assms(2) [unfolded server_ok_def]
  obtain r d where r: "rotate_chain p env d0 (sv_dir s) = (r, d)" by force
  let ?q = "case r of Inl x \<Rightarrow> Refused e x | Inr _ \<Rightarrow> Ready e"
  have q: "slot_of ?q = None" "\<not> is_acked ?q" by (simp_all split: sum.splits)
  have "files_ok (sp_rt p) d \<and> (\<forall>m x. holds_at (sp_rt p) (sv_dir s) m x \<longrightarrow> holds_at (sp_rt p) d m x)"
    using rotate_chain_adds [OF assms(1) r] o adds_row_files_ok adds_row_holds by blast
  moreover from this have "requests_ok (sp_rt p) d ((sv_requests s)[i := ?q])"
    using requests_ok_update [OF requests_ok_mono assms(3)] o q(1) by blast
  moreover have "length (filter is_acked ((sv_requests s)[i := ?q])) = length (filter is_acked (sv_requests s))"
    using length_filter_update [OF assms(3), of is_acked ?q] assms(4) q(2) by simp
  ultimately show ?thesis using o log_ok_for_mono r by (fastforce simp: server_ok_def rotate_request_def)
qed

lemma store_request_ok:
  assumes "server_ok p s" "i < length (sv_requests s)" "sv_requests s ! i = Ready e"
  shows "server_ok p (store_request p s i e)"
proof -
  note o = assms(1) [unfolded server_ok_def]
  obtain r d where r: "store_entry (sp_rt p) (sv_dir s) e = (r, d)" by force
  let ?q = "case r of Inl x \<Rightarrow> Refused e x | Inr (n, stored) \<Rightarrow> Stored n stored"
  have q: "\<not> is_acked ?q" by (simp split: sum.splits prod.splits)
  have l: "length (filter is_acked ((sv_requests s)[i := ?q])) = length (filter is_acked (sv_requests s))"
    using length_filter_update [OF assms(2), of is_acked ?q] assms(3) q by simp
  have "files_ok (sp_rt p) d \<and> (\<forall>m x. holds_at (sp_rt p) (sv_dir s) m x \<longrightarrow> holds_at (sp_rt p) d m x)
      \<and> requests_ok (sp_rt p) d ((sv_requests s)[i := ?q])"
  proof (cases r)
    case (Inl x)
    then have "d = sv_dir s" using store_entry_adds [OF conjunct1 [OF o] r] by auto
    then show ?thesis using o requests_ok_update [OF _ assms(2), of _ _ ?q] Inl by auto
  next
    case (Inr ne)
    then obtain n where n: "r = Inr (n, e)" "n = TRAIL_NAME \<or> stem_of n = Some TRAIL_STEM" "adds_row (sp_rt p) (sv_dir s) n e d"
      using store_entry_adds [OF conjunct1 [OF o] r] by auto
    have h: "holds_at (sp_rt p) d m x" if "holds_at (sp_rt p) (sv_dir s) m x" for m x by (rule adds_row_holds [OF n(3) that])
    have "requests_ok (sp_rt p) d ((sv_requests s)[i := ?q])"
    proof (rule requests_ok_update [OF requests_ok_mono assms(2)])
      show "requests_ok (sp_rt p) (sv_dir s) (sv_requests s)" using o by blast
      have "\<forall>q \<in> set (sv_requests s). \<forall>e'. slot_of q = Some (n, e') \<longrightarrow> seq (header e') \<noteq> seq (header e)"
        using o adds_row_new(2) [OF n(3)] by (auto simp: requests_ok_def)
      then show "slot_of ?q = slot_of (sv_requests s ! i) \<or> slot_of ?q = None \<or> (\<exists>n e. slot_of ?q = Some (n, e) \<and> holds_at (sp_rt p) d n e
          \<and> (\<forall>q \<in> set (sv_requests s). \<forall>e'. slot_of q = Some (n, e') \<longrightarrow> seq (header e') \<noteq> seq (header e)))"
        using adds_row_new(1) [OF n(3) conjunct1 [OF o]] n(1) by simp
    qed (rule h)
    then show ?thesis using h adds_row_files_ok [OF conjunct1 [OF o] n(3,2)] by blast
  qed
  then show ?thesis using o l log_ok_for_mono r by (fastforce simp: server_ok_def store_request_def)
qed

lemma ack_request_ok:
  assumes "digest32 (sp_sha p)" "server_ok p s" "i < length (sv_requests s)" "sv_requests s ! i = Stored n e"
  shows "server_ok p (ack_request p s i n e)"
proof -
  note o = assms(2) [unfolded server_ok_def]
  obtain vs es c where l: "acknowledged (sp_sha p) vs es c" "sv_log s = None \<and> vs = [] \<or> sv_log s = Some (map Inr vs)"
    "\<forall>e \<in> set es. \<exists>n. holds_at (sp_rt p) (sv_dir s) n e" "length vs = length (filter is_acked (sv_requests s))"
    using o unfolding log_ok_for_def by blast
  obtain r log where r: "acknowledge (sp_sha p) (sp_rt p) (sv_log s) e = (r, log)" by force
  let ?q = "case r of Inl x \<Rightarrow> Unacknowledged n e x | Inr (k, h) \<Rightarrow> Acked n e k h"
  have q: "slot_of ?q = slot_of (sv_requests s ! i)" "is_acked ?q = (\<exists>y. r = Inr y)"
    using assms(4) by (auto split: sum.splits prod.splits)
  have rq: "requests_ok (sp_rt p) (sv_dir s) ((sv_requests s)[i := ?q])"
    using requests_ok_update [OF _ assms(3)] o q(1) by blast
  have f: "length (filter is_acked ((sv_requests s)[i := ?q])) = length vs + (if \<exists>y. r = Inr y then 1 else 0)"
    using length_filter_update [OF assms(3), of is_acked ?q] assms(4) q(2) l(4) by simp
  have "holds_at (sp_rt p) (sv_dir s) n e" using o assms(3,4) nth_mem by (fastforce simp: requests_ok_def)
  then have "log_ok_for (sp_sha p) (sp_rt p) (sv_dir s) log ((sv_requests s)[i := ?q])"
    using acknowledge_cases [OF l(1) assms(1) l(2) r] l f unfolding log_ok_for_def by fastforce
  with o rq r show ?thesis by (simp add: server_ok_def ack_request_def)
qed

lemma server_reachable_ok:
  assumes "digest32 (sp_sha p)" "new_registry (sp_sha p) = Inr (sp_registry p)" "server_reachable p s"
  shows "server_ok p s"
  using assms(3) unfolding server_reachable_def
proof (induction rule: rtranclp_induct)
  case base
  have "log_ok_for (sp_sha p) (sp_rt p) [] None []"
    unfolding log_ok_for_def using acknowledged.none by (intro exI [of _ "[]"] exI [of _ new_chain]) auto
  then show ?case by (simp add: server_ok_def empty_server_def empty_files requests_ok_def slots_apart_def)
next
  case (step s s')
  from step(2) show ?case
  proof cases
    case (arrive cid v e)
    have "slots_apart (sv_requests s @ [Arrived e])"
      using step(3) by (auto simp: server_ok_def requests_ok_def slots_apart_def nth_append less_Suc_eq)
    then show ?thesis using step(3) arrive by (auto simp: server_ok_def requests_ok_def log_ok_for_def)
  qed (use step(3) assms rotate_request_ok store_request_ok ack_request_ok in auto)
qed

text \<open>Every segment of the chain is among those the store reads back.\<close>

lemma files_in_segments:
  assumes "files_ok rt d" "n \<in> fst ` set d"
  shows "n \<in> set (segments_in d)"
proof (cases "\<exists>m \<in> fst ` set d. stem_of m = Some TRAIL_STEM")
  case True
  have a: "\<forall>m \<in> fst ` set d. stem_of m = None \<or> stem_of m = Some TRAIL_STEM"
    using assms(1) trail_stem(4) by (auto simp: files_ok_def)
  obtain m where "m \<in> fst ` set d" "stem_of m = Some TRAIL_STEM" using True by blast
  note ds = discover_one_stem [OF a this]
  have "takeWhile (\<lambda>c. c \<noteq> 46) (segment_identity m) = TRAIL_STEM" if "m \<in> set (trail_names d TRAIL_STEM)" for m
  proof (cases "m = TRAIL_NAME")
    case True
    then show ?thesis by (simp add: TRAIL_NAME_def TRAIL_STEM_def segment_identity_def endswith_def SEGMENT_SUFFIX_def str_def)
  next
    case False
    then have "stem_of m = Some TRAIL_STEM" using that by (auto simp: trail_names_def trail_stem split: if_splits)
    then obtain k where "segment_name TRAIL_STEM k = Inr m" using stem_of_ordinal [OF trail_stem(1)] segment_name_of_ordinal by blast
    from segment_name_Inr [OF this] have "segment_identity m = TRAIL_STEM @ 46 # zero_padded SEGMENT_DIGITS (nat k)"
      by (simp add: segment_identity_def endswith_def)
    then show ?thesis by (simp add: TRAIL_STEM_def str_def)
  qed
  then have "filter (\<lambda>n. takeWhile (\<lambda>c. c \<noteq> 46) (segment_identity n) = TRAIL_STEM) (discover_segments d) = trail_names d TRAIL_STEM"
    unfolding ds by (simp add: filter_id_conv)
  moreover have "n = TRAIL_NAME \<or> stem_of n = Some TRAIL_STEM" using assms unfolding files_ok_def by blast
  then have "n \<in> set (trail_names d TRAIL_STEM)" using assms(2) by (cases "n = TRAIL_NAME") (simp_all add: trail_names_def trail_stem)
  ultimately show ?thesis by (auto simp: segments_in_def Let_def)
next
  case False
  then have "n = TRAIL_NAME" using assms by (auto simp: files_ok_def)
  moreover have "\<forall>x \<in> set d. stem_of (fst x) = None"
    using False assms(1) trail_stem(4) unfolding files_ok_def by (metis imageI)
  then have "List.map_filter (\<lambda>(n, _). stem_of n) d = []"
    by (auto simp: List.map_filter_def filter_empty_conv case_prod_beta)
  ultimately show ?thesis using assms(2) by (simp add: segments_in_def discover_segments_def)
qed

lemma stored_envelopes_fields:
  assumes "files_ok rt d"
  shows "\<exists>vs fs. stored_envelopes d = Inr vs \<and> res_mapM (tail_fields rt) vs = Inr fs
    \<and> (\<forall>n e. holds_at rt d n e \<longrightarrow> (seq (header e), entry_hash e) \<in> set fs)"
proof -
  have line: "\<exists>v e. l = Inr v \<and> from_obj rt v = Inr e" if "l \<in> set (jl_lines (open_trail d n))" for l n
  proof -
    obtain es where "jsonl_entries rt (open_trail d n) = Inr es" using assms by (auto simp: files_ok_def file_ok_def rows_of_def)
    then have "res_bind l (from_obj rt) \<noteq> Inl x" for x
      using that res_mapM_nth [of "\<lambda>l. res_bind l (from_obj rt)" "jl_lines (open_trail d n)" es]
      by (auto simp: jsonl_entries_def in_set_conv_nth)
    then show ?thesis by (cases l; cases "from_obj rt (projr l)") auto
  qed
  let ?ls = "concat (map (\<lambda>n. jl_lines (open_trail d n)) (segments_in d))"
  let ?e = "\<lambda>l. projr (from_obj rt (projr l))"
  have ok: "l = Inr (projr l) \<and> from_obj rt (projr l) = Inr (?e l)" if "l \<in> set ?ls" for l
    using that line by (fastforce dest: line)
  have v: "stored_envelopes d = Inr (map projr ?ls)"
    unfolding stored_envelopes_def using ok by (intro res_mapM_total) blast
  have t: "res_mapM (tail_fields rt) (map projr ?ls) = Inr (map (\<lambda>w. (seq (header (projr (from_obj rt w))), entry_hash (projr (from_obj rt w)))) (map projr ?ls))"
    using ok by (intro res_mapM_total) (fastforce dest: tail_fields_from_obj)
  have "(seq (header e), entry_hash e) \<in> set (map (\<lambda>w. (seq (header (projr (from_obj rt w))), entry_hash (projr (from_obj rt w)))) (map projr ?ls))"
    if h: "holds_at rt d n e" for n e
  proof -
    obtain es where n: "n \<in> fst ` set d" "res_mapM (\<lambda>l. res_bind l (from_obj rt)) (jl_lines (open_trail d n)) = Inr es"
        "nat (seq (header e)) < length es" "es ! nat (seq (header e)) = e"
      using h unfolding holds_at_def rows_of_def jsonl_entries_def by blast
    let ?l = "jl_lines (open_trail d n) ! nat (seq (header e))"
    have "?l \<in> set (jl_lines (open_trail d n))" "res_bind ?l (from_obj rt) = Inr e"
      using res_mapM_nth [OF n(2)] res_mapM_length [OF n(2)] n(3,4) by auto
    moreover from this have "?l \<in> set ?ls" using files_in_segments [OF assms n(1)] by auto
    ultimately show ?thesis by (force simp: res_elims)
  qed
  with v t show ?thesis by blast
qed

section \<open>Properties\<close>

text \<open>C11. No interleaving of requests forks a chain. However many requests are served at once, in whatever order their
  rotations, stores and acknowledgements come, every segment reads back as rows numbered from 0 that each name the row
  before; every entry that was stored stands at its number in its segment; and no two requests were given the same place.\<close>

theorem server_never_forks:
  assumes "digest32 (sp_sha p)" "new_registry (sp_sha p) = Inr (sp_registry p)" "server_reachable p s"
  shows "(\<forall>n \<in> fst ` set (sv_dir s). \<exists>es. jsonl_entries (sp_rt p) (open_trail (sv_dir s) n) = Inr es \<and> linked es)
    \<and> (\<forall>r \<in> set (sv_requests s). \<forall>n e. slot_of r = Some (n, e) \<longrightarrow> holds_at (sp_rt p) (sv_dir s) n e)
    \<and> slots_apart (sv_requests s)"
  using server_reachable_ok [OF assms] by (auto simp: server_ok_def files_ok_def file_ok_def rows_of_def requests_ok_def)

text \<open>C12. What the server acknowledged it keeps. In every state its receipt log verifies link by link, has one record for
  each acknowledged request, and agrees with the stored rows: the cross-check finds every acknowledged entry.\<close>

theorem server_keeps_acknowledged:
  assumes "digest32 (sp_sha p)" "new_registry (sp_sha p) = Inr (sp_registry p)" "server_reachable p s"
    and "report = \<lparr>rl_verdict = OK, rl_checked = map_option length (sv_log s),
      rl_reason = (if sv_log s = None then Some ''not_recorded'' else None), rl_broken = None\<rparr>"
  shows "verify_receipt_log (sp_sha p) (sp_rt p) (sv_log s) = Inr report
    \<and> cross_check_receipts (sp_rt p) (sv_dir s) (sv_log s) = Inr report
    \<and> length (log_lines (sv_log s)) = length (filter is_acked (sv_requests s))"
proof -
  note o = server_reachable_ok [OF assms(1-3), unfolded server_ok_def]
  obtain vs es c where l: "acknowledged (sp_sha p) vs es c" "sv_log s = None \<and> vs = [] \<or> sv_log s = Some (map Inr vs)"
    "\<forall>e \<in> set es. \<exists>n. holds_at (sp_rt p) (sv_dir s) n e" "length vs = length (filter is_acked (sv_requests s))"
    using o unfolding log_ok_for_def by blast
  obtain ws fs where w: "stored_envelopes (sv_dir s) = Inr ws" "res_mapM (tail_fields (sp_rt p)) ws = Inr fs"
    "\<forall>n e. holds_at (sp_rt p) (sv_dir s) n e \<longrightarrow> (seq (header e), entry_hash e) \<in> set fs"
    using stored_envelopes_fields [of "sp_rt p" "sv_dir s"] o by blast
  have "\<forall>e \<in> set es. (seq (header e), entry_hash e) \<in> set fs" using l(3) w(3) by blast
  note x = acknowledged_cross_checks [OF l(1) this, of "sp_rt p" 0]
  have v: "verify_receipt_log (sp_sha p) (sp_rt p) (sv_log s) = Inr report"
    using l(2) acknowledged_verifies [OF l(1), of "sp_rt p" "[]"] assms(4) by (auto simp: verify_receipt_log_def)
  have "cross_check_receipts (sp_rt p) (sv_dir s) (sv_log s) = Inr report"
    using l(2) w x assms(4) by (auto simp: cross_check_receipts_def load_receipt_records_def cross_check_records_def)
  with v l(2,4) show ?thesis by (auto simp: log_lines_def)
qed

text \<open>A run: one request arrives, finds the empty chain below its threshold, is stored and acknowledged.\<close>

definition zeros :: pystr where
  "zeros = replicate 64 48"

definition sample_params :: server_params where
  "sample_params = \<lparr>sp_sha = sha256, sp_rt = ascii_runtime, sp_size = line_count, sp_registry = sample_registry sha256,
     sp_dname = str ''p'', sp_archive = None, sp_max = 2\<rparr>"

definition envelope_of :: "pystr \<Rightarrow> json" where
  "envelope_of eh = JObj [(str ''header'', JObj [(str ''seq'', JInt 0), (str ''ts'', JStr []), (str ''hash_version'', JStr zeros),
       (str ''payload_type'', JStr []), (str ''payload_hash'', JStr zeros), (str ''prev_hash'', JStr GENESIS_PREV_HASH)]),
     (str ''entry_hash'', JStr eh), (str ''payload_b64'', JStr [])]"

definition entry_of :: "pystr \<Rightarrow> entry" where
  "entry_of eh = \<lparr>header = \<lparr>seq = 0, ts = [], hash_version = zeros, payload_type = [], payload_hash = zeros, prev_hash = GENESIS_PREV_HASH\<rparr>,
     entry_hash = eh, payload = Some []\<rparr>"

lemma zeros_hex: "hex64 zeros" "hex64 GENESIS_PREV_HASH"
  by (simp_all add: zeros_def GENESIS_PREV_HASH_def hex64_def hex_lower_def)

lemma parse_envelope_of: "HEX64_RE eh \<Longrightarrow> parse_envelope (envelope_of eh) = Inr (entry_of eh)"
  using zeros_hex
  by (simp add: parse_envelope_def envelope_of_def entry_of_def parse_header_def str_field_def hex_field_def jget_def str_def
      require_hex64_def HEX64_RE_def anchored_def)

lemma rotate_empty: "0 < sp_max p \<Longrightarrow> rotate_chain p env [] [] = (Inr (), [])"
  by (simp add: rotate_chain_def open_segmented_def active_def ordinals_def List.map_filter_def open_log_def new_log_def server_kwargs_def)

lemma active_empty: "active_trail_path [] = Inr TRAIL_NAME"
  by (simp add: active_trail_path_def active_segment_def active_def ordinals_def List.map_filter_def)

lemma store_empty:
  assumes "seq (header e) = 0" "prev_hash (header e) = GENESIS_PREV_HASH" "payload e \<noteq> None"
  shows "\<exists>v. to_obj e = Inr v \<and> store_entry rt [] e =
    (Inr (TRAIL_NAME, e), [(TRAIL_NAME, \<lparr>sf_lines = [Inr v], sf_open = False, sf_anchors = []\<rparr>)])"
  using to_obj_total [OF assms(3)] assms(1,2)
  by (auto simp: store_entry_def active_empty open_trail_def empty_trail_def jsonl_append_def tail_locked_def scan_due_def
      cas_build_def jsonl_write_def dir_put_def stored_anchors_def)

lemma acknowledge_first:
  assumes "hex64 eh"
  shows "\<exists>c. chain_acknowledge sha new_chain eh = Inr c"
proof -
  have "encodable s" if "hex64 s" for s
    using that by (intro encodable_ascii) (auto simp: hex64_def hex_lower_def)
  then have "encodable eh" "encodable RECEIPT_GENESIS" using assms zeros_hex(1) by (simp_all add: RECEIPT_GENESIS_def zeros_def)
  moreover have "encodable (str_int 0)" by (auto intro!: encodable_str_int simp: length_str_int_digit)
  ultimately obtain a b c where "lp (Str (str_int 0)) = Inr a" "lp (Str RECEIPT_GENESIS) = Inr b" "lp (Str eh) = Inr c"
    using lp_encodable by meson
  then show ?thesis
    using assms pack_Q_small [of 3]
    by (simp add: chain_acknowledge_def require_link_hash_def receipt_head_def receipt_frame_def new_chain_def)
qed

lemma sample_run:
  "\<exists>s v. server_reachable sample_params s \<and> length (filter is_acked (sv_requests s)) = 1
     \<and> to_obj (entry_of zeros) = Inr v \<and> sv_dir s = [(TRAIL_NAME, \<lparr>sf_lines = [Inr v], sf_open = False, sf_anchors = []\<rparr>)]"
proof -
  let ?e = "entry_of zeros" and ?p = sample_params
  have "require_chain_id (str ''c'') = Inr (str ''c'')"
    by (simp add: require_chain_id_def SAFE_NAME_RE_def anchored_def alnum_def str_def)
  moreover have "parse_envelope (envelope_of zeros) = Inr ?e" using zeros_hex by (simp add: parse_envelope_of HEX64_RE_def anchored_def)
  ultimately have 1: "server_step ?p empty_server (empty_server\<lparr>sv_requests := [Arrived ?e]\<rparr>)"
    using server_step.arrive [of _ _ _ ?p empty_server] by (simp add: empty_server_def)
  have 2: "server_step ?p (empty_server\<lparr>sv_requests := [Arrived ?e]\<rparr>) (empty_server\<lparr>sv_requests := [Ready ?e]\<rparr>)"
    using server_step.rotate [of 0 "empty_server\<lparr>sv_requests := [Arrived ?e]\<rparr>" ?e ?p some_environment "[]"]
    by (simp add: rotate_request_def empty_server_def rotate_empty sample_params_def)
  obtain v where v: "to_obj ?e = Inr v" and d: "store_entry (sp_rt ?p) [] ?e =
      (Inr (TRAIL_NAME, ?e), [(TRAIL_NAME, \<lparr>sf_lines = [Inr v], sf_open = False, sf_anchors = []\<rparr>)])" (is "_ = (_, ?d)")
    using store_empty [of ?e] by (auto simp: entry_of_def)
  then have 3: "server_step ?p (empty_server\<lparr>sv_requests := [Ready ?e]\<rparr>) \<lparr>sv_dir = ?d, sv_log = None, sv_requests = [Stored TRAIL_NAME ?e]\<rparr>"
    using server_step.store [of 0 "empty_server\<lparr>sv_requests := [Ready ?e]\<rparr>" ?e ?p] by (simp add: store_request_def empty_server_def)
  obtain c where "chain_acknowledge (sp_sha ?p) new_chain (entry_hash ?e) = Inr c"
    using acknowledge_first zeros_hex by (fastforce simp: entry_of_def)
  then have "acknowledge (sp_sha ?p) (sp_rt ?p) None ?e = (Inr (rch_seq c, rch_head c), Some [Inr (acknowledgement ?e c)])"
    by (simp add: acknowledge_def read_receipt_head_def log_lines_def)
  then have 4: "server_step ?p \<lparr>sv_dir = ?d, sv_log = None, sv_requests = [Stored TRAIL_NAME ?e]\<rparr>
      \<lparr>sv_dir = ?d, sv_log = Some [Inr (acknowledgement ?e c)], sv_requests = [Acked TRAIL_NAME ?e (rch_seq c) (rch_head c)]\<rparr>"
    using server_step.ack [of 0 "\<lparr>sv_dir = ?d, sv_log = None, sv_requests = [Stored TRAIL_NAME ?e]\<rparr>" TRAIL_NAME ?e ?p]
    by (simp add: ack_request_def)
  have "server_reachable ?p \<lparr>sv_dir = ?d, sv_log = Some [Inr (acknowledgement ?e c)], sv_requests = [Acked TRAIL_NAME ?e (rch_seq c) (rch_head c)]\<rparr>"
    unfolding server_reachable_def
    by (rule converse_rtranclp_into_rtranclp [where r = "server_step ?p"], rule 1,
        rule converse_rtranclp_into_rtranclp [where r = "server_step ?p"], rule 2,
        rule converse_rtranclp_into_rtranclp [where r = "server_step ?p"], rule 3, rule r_into_rtranclp [where r = "server_step ?p"], rule 4)
  then show ?thesis using v by (intro exI [of _ v] exI conjI) auto
qed

theorem server_never_forks_witness:
  "\<exists>s :: server. length (filter is_acked (sv_requests s)) = 1 \<and> slots_apart (sv_requests s)
    \<and> (\<forall>n \<in> fst ` set (sv_dir s). \<exists>es. jsonl_entries ascii_runtime (open_trail (sv_dir s) n) = Inr es \<and> linked es)"
proof -
  obtain s where s: "server_reachable sample_params s" "length (filter is_acked (sv_requests s)) = 1" using sample_run by blast
  have p: "digest32 (sp_sha sample_params)" "new_registry (sp_sha sample_params) = Inr (sp_registry sample_params)"
    "sp_rt sample_params = ascii_runtime"
    by (simp_all add: sample_params_def sha256.digest32_axioms sample_registry_new)
  show ?thesis using server_never_forks [OF p(1,2) s(1)] s(2) unfolding p(3) by blast
qed

theorem server_keeps_acknowledged_witness:
  "\<exists>s :: server. length (filter is_acked (sv_requests s)) = 1
    \<and> cross_check_receipts ascii_runtime (sv_dir s) (sv_log s) = Inr \<lparr>rl_verdict = OK, rl_checked = Some 1, rl_reason = None, rl_broken = None\<rparr>"
proof -
  obtain s where s: "server_reachable sample_params s" "length (filter is_acked (sv_requests s)) = 1" using sample_run by blast
  have p: "digest32 (sp_sha sample_params)" "new_registry (sp_sha sample_params) = Inr (sp_registry sample_params)"
    "sp_rt sample_params = ascii_runtime"
    by (simp_all add: sample_params_def sha256.digest32_axioms sample_registry_new)
  note k = server_keeps_acknowledged [OF p(1,2) s(1) refl, unfolded p(3)]
  then obtain ls where "sv_log s = Some ls" "length ls = 1" using s(2) by (cases "sv_log s") (auto simp: log_lines_def)
  with k s(2) show ?thesis by auto
qed

text \<open>C40. The server can store an entry and refuse the request that sent it. The end anchor of the pattern for hashes also
  matches before a final newline, so an entry hash of 64 digits and a newline passes the envelope check and is stored;
  the receipt chain then rejects the hash, and the client gets status 500 for an entry that is on the chain. Once that file has
  reached the threshold, rotation rejects the hash as well: every later request is answered with an error and stores
  nothing.\<close>

theorem newline_hash_stored_then_refused:
  assumes "hex64 h" "SAFE_NAME_RE chain_id" "0 < sp_max p"
  shows "\<exists>f. post_entry p env chain_id (Inr (envelope_of (h @ [10]))) ([], None) = (500, None, [(TRAIL_NAME, f)], None)
    \<and> jsonl_entries (sp_rt p) (open_trail [(TRAIL_NAME, f)] TRAIL_NAME) = Inr [entry_of (h @ [10])]
    \<and> (sp_max p \<le> sp_size p f \<longrightarrow>
         (\<forall>body. \<exists>status \<ge> 400. post_entry p env chain_id body ([(TRAIL_NAME, f)], None) = (status, None, [(TRAIL_NAME, f)], None)))"
proof -
  let ?e = "entry_of (h @ [10])"
  have nh: "\<not> hex64 (h @ [10])" using assms(1) by (simp add: hex64_def)
  have pe: "parse_envelope (envelope_of (h @ [10])) = Inr ?e"
    using assms(1) by (intro parse_envelope_of) (simp add: HEX64_RE_def anchored_def)
  obtain v where v: "to_obj ?e = Inr v" "store_entry (sp_rt p) [] ?e =
      (Inr (TRAIL_NAME, ?e), [(TRAIL_NAME, \<lparr>sf_lines = [Inr v], sf_open = False, sf_anchors = []\<rparr>)])"
    using store_empty [of ?e] by (auto simp: entry_of_def)
  let ?f = "\<lparr>sf_lines = [Inr v], sf_open = False, sf_anchors = []\<rparr>" and ?d = "[(TRAIL_NAME, \<lparr>sf_lines = [Inr v], sf_open = False, sf_anchors = []\<rparr>)]"
  have "acknowledge (sp_sha p) (sp_rt p) None ?e = (Inl ValueError, None)"
    using nh by (simp add: acknowledge_def read_receipt_head_def log_lines_def chain_acknowledge_def require_link_hash_def entry_of_def)
  then have "post_entry p env chain_id (Inr (envelope_of (h @ [10]))) ([], None) = (500, None, ?d, None)"
    using pe v(2) assms(2,3) by (simp add: post_entry_def chain_append_def require_chain_id_def rotate_empty error_status_def)
  moreover have "jsonl_entries (sp_rt p) (open_trail ?d TRAIL_NAME) = Inr [?e]"
    by (simp add: open_trail_def jsonl_entries_def from_obj_to_obj [OF v(1)])
  moreover have "\<exists>status \<ge> 400. post_entry p env chain_id body (?d, None) = (status, None, ?d, None)" if "sp_max p \<le> sp_size p ?f" for body
  proof -
    have "tail_fields (sp_rt p) v = Inr (0, h @ [10])" using tail_fields_from_obj [OF from_obj_to_obj [OF v(1)]] by (simp add: entry_of_def)
    moreover have "active ?d TRAIL_STEM TRAIL_NAME = Inr TRAIL_NAME" "next_ordinal ?d TRAIL_STEM = 0"
      by (simp_all add: active_def next_ordinal_def ordinals_def List.map_filter_def segment_ordinal_def Let_def TRAIL_NAME_def
          TRAIL_STEM_def startswith_def endswith_def SEGMENT_SUFFIX_def SEGMENT_DIGITS_def str_def)
    ultimately have "rotate_chain p env ?d ?d = (Inl ValueError, ?d)"
      using that nh
      by (simp add: rotate_chain_def open_segmented_def trail_stem Let_def open_trail_def final_checkpoint_def server_kwargs_def
          create_segment_def segment_name_def SEGMENT_DIGITS_def open_log_def new_log_def make_binding_def segment_chain_id_def)
    then show ?thesis
      by (auto simp: post_entry_def chain_append_def error_status_def split: sum.splits)
  qed
  ultimately show ?thesis by blast
qed

theorem newline_hash_stored_then_refused_witness:
  "\<exists>f. post_entry (sample_params\<lparr>sp_max := 1\<rparr>) some_environment (str ''c'') (Inr (envelope_of (zeros @ [10]))) ([], None)
      = (500, None, [(TRAIL_NAME, f)], None)"
proof -
  have "SAFE_NAME_RE (str ''c'')" by (simp add: SAFE_NAME_RE_def anchored_def alnum_def str_def)
  moreover have "0 < sp_max (sample_params\<lparr>sp_max := 1\<rparr>)" by simp
  ultimately show ?thesis using newline_hash_stored_then_refused [OF zeros_hex(1)] by blast
qed

end
