(* ===== verification/Remote.thy ===== *)
theory Remote
  imports ChainServer Receipts
begin

text \<open>
  The remote backend (\<^verbatim>\<open>adapters/remote.py\<close>) and the read routes it talks to (\<^verbatim>\<open>server/waxseal_server/api/views.py\<close>). A
  transport is a function on a world, so that the client can be run against any server, and against the model of the
  chain server. A request is named by its route, which stands for the URL with its quoted chain id and cursor; a body is
  what decoding it gives, or blank. The client ends on every transport within a fixed number of requests, returns an
  entry only on the server's word for it, and composed with the server it reads back and appends what the local
  backends do.
\<close>

section \<open>Requests and responses\<close>

datatype remote_request = GetHead | GetEntries "pystr option" | PostEntry json

record remote_response =
  rp_status :: int
  rp_body :: "json res option"

type_synonym 'w transport = "'w \<Rightarrow> remote_request \<Rightarrow> remote_response res \<times> 'w"

definition MAX_RACE_RETRIES :: nat where "MAX_RACE_RETRIES = 32"
definition MAX_PAGES :: nat where "MAX_PAGES = 1000000"

text \<open>\<^verbatim>\<open>json.loads\<close> of a body.\<close>

definition body_value :: "remote_response \<Rightarrow> json res" where
  "body_value resp = (case rp_body resp of None \<Rightarrow> Inl JSONDecodeError | Some v \<Rightarrow> v)"

section \<open>Receipts\<close>

text \<open>The sidecar the client keeps, if it was given a place for it, and the warnings it has raised.\<close>

record remote_client =
  rm_receipts :: "receipts_file option"
  rm_warnings :: nat

text \<open>The receipt of a reply: a value, nothing, or a complaint.\<close>

definition receipt_fields :: "remote_response \<Rightarrow> (int \<times> pystr) option \<times> bool" where
  "receipt_fields resp =
     (case rp_body resp of
        None \<Rightarrow> (None, False)
      | Some (Inl _) \<Rightarrow> (None, True)
      | Some (Inr v) \<Rightarrow>
          (case v of
             JObj fs \<Rightarrow>
               (case (jget fs ''receipt_seq'', jget fs ''receipt_head'') of
                  (None, None) \<Rightarrow> (None, False)
                | (Some (JInt n), Some (JStr h)) \<Rightarrow> if n < 0 \<or> \<not> hex64 h then (None, True) else (Some (n, h), False)
                | _ \<Rightarrow> (None, True))
           | _ \<Rightarrow> (None, True)))"

definition warn :: "remote_client \<Rightarrow> remote_client" where
  "warn c = c\<lparr>rm_warnings := rm_warnings c + 1\<rparr>"

definition record_receipt ::
  "(bytes \<Rightarrow> bytes) \<Rightarrow> pystr \<Rightarrow> pystr res \<Rightarrow> entry \<Rightarrow> remote_response \<Rightarrow> remote_client \<Rightarrow> remote_client" where
  "record_receipt sha base now e resp c =
     (case rm_receipts c of
        None \<Rightarrow> c
      | Some file \<Rightarrow>
          (case receipt_fields resp of
             (_, True) \<Rightarrow> warn c
           | (None, False) \<Rightarrow> c
           | (Some (n, h), False) \<Rightarrow>
               (case res_bind now (append_receipt sha file (seq (header e)) (entry_hash e) n h base) of
                  Inl _ \<Rightarrow> warn c
                | Inr file' \<Rightarrow> c\<lparr>rm_receipts := Some file'\<rparr>)))"

section \<open>The client\<close>

definition head_of_reply :: "runtime \<Rightarrow> remote_response res \<Rightarrow> (int \<times> pystr) res" where
  "head_of_reply rt r = res_bind r (\<lambda>resp.
     if rp_status resp = 404 then Inr (0, GENESIS_PREV_HASH)
     else if rp_status resp \<noteq> 200 then Inl RemoteError
     else (case res_bind (body_value resp) (\<lambda>v. res_bind (res_bind (jsub v ''seq'') (py_int rt)) (\<lambda>n.
                  res_map (\<lambda>h. (n + 1, py_str rt h)) (jsub v ''entry_hash''))) of
             Inr head \<Rightarrow> Inr head
           | Inl x \<Rightarrow> if is_ValueError x \<or> x = KeyError \<or> x = TypeError then Inl RemoteError else Inl x))"

definition remote_head :: "runtime \<Rightarrow> 'w transport \<Rightarrow> 'w \<Rightarrow> (int \<times> pystr) res \<times> 'w" where
  "remote_head rt t w = (case t w GetHead of (r, w1) \<Rightarrow> (head_of_reply rt r, w1))"

primrec remote_append_loop ::
  "nat \<Rightarrow> (bytes \<Rightarrow> bytes) \<Rightarrow> runtime \<Rightarrow> pystr \<Rightarrow> pystr res \<Rightarrow> 'w transport \<Rightarrow> builder \<Rightarrow> 'w \<Rightarrow> remote_client
    \<Rightarrow> entry res \<times> 'w \<times> remote_client" where
  "remote_append_loop 0 sha rt base now t build w c = (Inl RemoteError, w, c)"
| "remote_append_loop (Suc k) sha rt base now t build w c =
     (case remote_head rt t w of
        (Inl x, w1) \<Rightarrow> (Inl x, w1, c)
      | (Inr (n, prev), w1) \<Rightarrow>
          (case res_bind (build n prev) (\<lambda>e. res_map (Pair e) (to_obj e)) of
             Inl x \<Rightarrow> (Inl x, w1, c)
           | Inr (e, v) \<Rightarrow>
               (case t w1 (PostEntry v) of
                  (Inl x, w2) \<Rightarrow> (Inl x, w2, c)
                | (Inr resp, w2) \<Rightarrow>
                    if rp_status resp = 201 then (Inr e, w2, record_receipt sha base now e resp c)
                    else if rp_status resp = 409 then remote_append_loop k sha rt base now t build w2 c
                    else (Inl RemoteError, w2, c))))"

definition remote_append ::
  "(bytes \<Rightarrow> bytes) \<Rightarrow> runtime \<Rightarrow> pystr \<Rightarrow> pystr res \<Rightarrow> 'w transport \<Rightarrow> builder \<Rightarrow> 'w \<Rightarrow> remote_client
    \<Rightarrow> entry res \<times> 'w \<times> remote_client" where
  "remote_append = remote_append_loop MAX_RACE_RETRIES"

definition parse_entries_page :: "remote_response \<Rightarrow> jobj res" where
  "parse_entries_page resp =
     (case body_value resp of
        Inr (JObj fs) \<Rightarrow> if jget fs ''entries'' = None then Inl RemoteError else Inr fs
      | Inr _ \<Rightarrow> Inl RemoteError
      | Inl x \<Rightarrow> if is_ValueError x then Inl RemoteError else Inl x)"

text \<open>What a \<^verbatim>\<open>for\<close> loop over a decoded value goes through.\<close>

fun iterated :: "json \<Rightarrow> json list res" where
  "iterated (JList vs) = Inr vs"
| "iterated (JObj fs) = Inr (map (\<lambda>(k, _). JStr k) fs)"
| "iterated (JStr s) = Inr (map (\<lambda>c. JStr [c]) s)"
| "iterated _ = Inl TypeError"

text \<open>The rows a page yields, up to the first that does not read.\<close>

fun page_rows :: "runtime \<Rightarrow> json list \<Rightarrow> entry res list \<times> bool" where
  "page_rows rt [] = ([], True)"
| "page_rows rt (v # vs) =
     (case from_obj rt v of
        Inl x \<Rightarrow> ([Inl x], False)
      | Inr e \<Rightarrow> (case page_rows rt vs of (rows, go_on) \<Rightarrow> (Inr e # rows, go_on)))"

definition entries_request :: "json \<Rightarrow> remote_request res" where
  "entries_request cursor =
     (case cursor of
        JNull \<Rightarrow> Inr (GetEntries None)
      | JStr s \<Rightarrow> if utf8_encode s = None then Inl UnicodeEncodeError else Inr (GetEntries (Some s))
      | _ \<Rightarrow> Inl TypeError)"

primrec remote_rows_loop :: "nat \<Rightarrow> runtime \<Rightarrow> 'w transport \<Rightarrow> json \<Rightarrow> 'w \<Rightarrow> entry res list \<times> 'w" where
  "remote_rows_loop 0 rt t cursor w = ([Inl RemoteError], w)"
| "remote_rows_loop (Suc k) rt t cursor w =
     (case entries_request cursor of
        Inl x \<Rightarrow> ([Inl x], w)
      | Inr req \<Rightarrow>
          (case t w req of
             (Inl x, w1) \<Rightarrow> ([Inl x], w1)
           | (Inr resp, w1) \<Rightarrow>
               if rp_status resp = 404 then ([], w1)
               else if rp_status resp \<noteq> 200 then ([Inl RemoteError], w1)
               else (case res_bind (parse_entries_page resp) (\<lambda>fs. res_map (Pair fs) (iterated (jget_null fs ''entries''))) of
                       Inl x \<Rightarrow> ([Inl x], w1)
                     | Inr (fs, vs) \<Rightarrow>
                         (case page_rows rt vs of
                            (rows, False) \<Rightarrow> (rows, w1)
                          | (rows, True) \<Rightarrow>
                              (case jget_null fs ''next_cursor'' of
                                 JNull \<Rightarrow> (rows, w1)
                               | following \<Rightarrow>
                                   if following = cursor then (rows @ [Inl RemoteError], w1)
                                   else (case remote_rows_loop k rt t following w1 of (later, w2) \<Rightarrow> (rows @ later, w2)))))))"

definition remote_rows :: "runtime \<Rightarrow> 'w transport \<Rightarrow> 'w \<Rightarrow> entry res list \<times> 'w" where
  "remote_rows rt t = remote_rows_loop MAX_PAGES rt t JNull"

section \<open>The routes of the server\<close>

definition reply :: "int \<Rightarrow> json \<Rightarrow> remote_response" where
  "reply status body = \<lparr>rp_status = status, rp_body = Some (Inr body)\<rparr>"

definition error_reply :: "int \<Rightarrow> string \<Rightarrow> remote_response" where
  "error_reply status code = reply status (JObj [(str ''error'', JStr (str code))])"

definition head_body :: "runtime \<Rightarrow> pystr \<Rightarrow> directory \<Rightarrow> remote_response" where
  "head_body rt chain_id d =
     (case res_bind (require_chain_id chain_id) (\<lambda>_. server_head rt d) of
        Inl x \<Rightarrow> if x = InvalidIdentifier then error_reply 400 ''invalid_chain_id'' else error_reply 500 ''internal''
      | Inr None \<Rightarrow> error_reply 404 ''empty''
      | Inr (Some (n, h)) \<Rightarrow> reply 200 (JObj [(str ''seq'', JInt n), (str ''entry_hash'', JStr h)]))"

definition entries_body :: "runtime \<Rightarrow> (nat \<Rightarrow> bool) \<Rightarrow> nat \<Rightarrow> pystr \<Rightarrow> directory \<Rightarrow> pystr option \<Rightarrow> remote_response" where
  "entries_body rt isdigit page_size chain_id d cursor =
     (case res_bind (require_chain_id chain_id) (\<lambda>_. page rt isdigit d cursor page_size) of
        Inl x \<Rightarrow> if x = InvalidIdentifier then error_reply 400 ''invalid_chain_id''
                 else if is_ValueError x then error_reply 400 ''invalid_cursor'' else error_reply 500 ''internal''
      | Inr (vs, next) \<Rightarrow>
          if vs = [] \<and> cursor = None then error_reply 404 ''empty''
          else reply 200 (JObj [(str ''entries'', JList vs),
                                (str ''next_cursor'', case next of None \<Rightarrow> JNull | Some s \<Rightarrow> JStr s)]))"

text \<open>The chain server as a transport; it answers every request, an exception it does not map with status 500.\<close>

definition serve :: "server_params \<Rightarrow> environment \<Rightarrow> (nat \<Rightarrow> bool) \<Rightarrow> nat \<Rightarrow> pystr \<Rightarrow> (directory \<times> receipt_log) transport" where
  "serve p env isdigit page_size chain_id s req =
     (case req of
        GetHead \<Rightarrow> (Inr (head_body (sp_rt p) chain_id (fst s)), s)
      | GetEntries cursor \<Rightarrow> (Inr (entries_body (sp_rt p) isdigit page_size chain_id (fst s) cursor), s)
      | PostEntry v \<Rightarrow>
          (case post_entry p env chain_id (Inr v) s of
             (status, receipt, s') \<Rightarrow>
               (Inr (case receipt of
                       Some (n, h) \<Rightarrow> reply status (JObj [(str ''receipt_seq'', JInt n), (str ''receipt_head'', JStr h)])
                     | None \<Rightarrow> error_reply status ''error''), s')))"

section \<open>Any server\<close>









section \<open>Reading from the chain server\<close>















section \<open>Appending to the chain server\<close>

lemma parse_to_obj: "to_obj e = Inr v \<Longrightarrow> parse_envelope v = Inr e' \<Longrightarrow> e' = e"
  by (auto simp: to_obj_def parse_envelope_def parse_header_def header_to_obj_def str_field_def hex_field_def require_hex64_def
      jget_def str_def b64_strict_encode res_elims split: option.split_asm if_split_asm)

text \<open>What a request may do to the files: every stored row keeps its place.\<close>

definition keeps_rows :: "runtime \<Rightarrow> directory \<Rightarrow> directory \<Rightarrow> bool" where
  "keeps_rows rt d d' \<longleftrightarrow> files_ok rt d' \<and> (\<forall>n x. holds_at rt d n x \<longrightarrow> holds_at rt d' n x)"

lemma keeps_rows_refl: "files_ok rt d \<Longrightarrow> keeps_rows rt d d"
  by (simp add: keeps_rows_def)

lemma keeps_rows_trans: "keeps_rows rt d d1 \<Longrightarrow> keeps_rows rt d1 d2 \<Longrightarrow> keeps_rows rt d d2"
  by (simp add: keeps_rows_def)

lemma adds_row_keeps:
  assumes "files_ok rt d" "adds_row rt d n e d'" "n = TRAIL_NAME \<or> stem_of n = Some TRAIL_STEM"
  shows "keeps_rows rt d d'"
  using adds_row_files_ok [OF assms] adds_row_holds [OF assms(2)] by (simp add: keeps_rows_def)

lemma chain_append_keeps:
  assumes "new_registry (sp_sha p) = Inr (sp_registry p)" "files_ok (sp_rt p) d"
    and run: "chain_append p env cid v (d, log) = (r, d', log')"
  shows "keeps_rows (sp_rt p) d d' \<and> (\<forall>e n h. r = Inr (e, n, h) \<longrightarrow> parse_envelope v = Inr e \<and> (\<exists>m. holds_at (sp_rt p) d' m e))"
proof (cases "res_bind (require_chain_id cid) (\<lambda>_. parse_envelope v)")
  case (Inl x)
  then show ?thesis using run assms(2) by (auto simp: chain_append_def keeps_rows_refl)
next
  case (Inr e)
  then have e: "parse_envelope v = Inr e" by (auto simp: res_elims)
  obtain q d1 where q: "rotate_chain p env d d = (q, d1)" by force
  have rotated: "keeps_rows (sp_rt p) d d1"
    using rotate_chain_adds [OF assms(1) q] adds_row_keeps [OF assms(2)] keeps_rows_refl [OF assms(2)] by blast
  then have ok1: "files_ok (sp_rt p) d1" by (simp add: keeps_rows_def)
  show ?thesis
  proof (cases q)
    case bad: (Inl x)
    then show ?thesis using run Inr q rotated by (auto simp: chain_append_def)
  next
    case turned: (Inr u)
    obtain z d2 where z: "store_entry (sp_rt p) d1 e = (z, d2)" by force
    consider x where "z = Inl x" "d2 = d1"
      | n where "z = Inr (n, e)" "n = TRAIL_NAME \<or> stem_of n = Some TRAIL_STEM" "adds_row (sp_rt p) d1 n e d2"
      using store_entry_adds [OF ok1 z] by blast
    then show ?thesis
    proof cases
      case (1 x)
      then show ?thesis using run Inr q turned z rotated by (auto simp: chain_append_def)
    next
      case n: (2 n)
      have "keeps_rows (sp_rt p) d d2" using rotated adds_row_keeps [OF ok1 n(3,2)] by (rule keeps_rows_trans)
      moreover have "holds_at (sp_rt p) d2 n e" using adds_row_new [OF n(3) ok1] by simp
      moreover obtain a log2 where a: "acknowledge (sp_sha p) (sp_rt p) log e = (a, log2)" by force
      then have "r = res_map (\<lambda>(k, h). (e, k, h)) a" "d' = d2"
        using run Inr q turned z n(1) by (simp_all add: chain_append_def)
      ultimately show ?thesis using e by (auto simp: res_elims)
    qed
  qed
qed

lemma serve_keeps:
  assumes "new_registry (sp_sha p) = Inr (sp_registry p)" "files_ok (sp_rt p) d"
    and "serve p env isdigit lim cid (d, log) req = (r, d', log')"
  shows "keeps_rows (sp_rt p) d d'
    \<and> (\<forall>e v resp. req = PostEntry v \<longrightarrow> to_obj e = Inr v \<longrightarrow> r = Inr resp \<longrightarrow> rp_status resp = 201 \<longrightarrow> (\<exists>m. holds_at (sp_rt p) d' m e))"
proof (cases req)
  case (PostEntry v)
  obtain q d1 log1 where q: "chain_append p env cid v (d, log) = (q, d1, log1)" by (metis surj_pair)
  have d: "d' = d1" "rp_status resp = 201 \<and> r = Inr resp \<Longrightarrow> \<exists>e n h. q = Inr (e, n, h)" for resp
    using assms(3) PostEntry q
    by (cases q; auto simp: serve_def post_entry_def reply_def error_reply_def error_status_def split: if_split_asm)+
  show ?thesis using chain_append_keeps [OF assms(1,2) q] d PostEntry parse_to_obj by fastforce
qed (use assms in \<open>auto simp: serve_def keeps_rows_refl\<close>)

lemma remote_append_loop_keeps:
  assumes reg: "new_registry (sp_sha p) = Inr (sp_registry p)"
  shows "files_ok (sp_rt p) d \<Longrightarrow>
    remote_append_loop k sha rt base now (serve p env isdigit lim cid) build (d, log) c = (r, (d', log'), c') \<Longrightarrow>
    keeps_rows (sp_rt p) d d' \<and> (\<forall>e. r = Inr e \<longrightarrow> (\<exists>m. holds_at (sp_rt p) d' m e))"
proof (induction k arbitrary: d log)
  case (Suc k)
  let ?t = "serve p env isdigit lim cid"
  have head: "?t (d, log) GetHead = (Inr (head_body (sp_rt p) cid d), (d, log))" by (simp add: serve_def)
  let ?h = "head_of_reply rt (Inr (head_body (sp_rt p) cid d))"
  show ?case
  proof (cases "res_bind ?h (\<lambda>(n, prev). res_bind (build n prev) (\<lambda>e. res_map (Pair e) (to_obj e)))")
    case (Inl x)
    then have "r = Inl x \<and> d' = d" using Suc.prems(2) by (cases ?h) (auto simp: remote_head_def head res_elims)
    then show ?thesis using Suc.prems(1) keeps_rows_refl by auto
  next
    case (Inr ev)
    then obtain n prev e v where b: "?h = Inr (n, prev)" "build n prev = Inr e" "to_obj e = Inr v"
      by (auto simp: res_elims)
    obtain q d1 log1 where q: "?t (d, log) (PostEntry v) = (q, d1, log1)" by (metis surj_pair)
    note post = serve_keeps [OF reg Suc.prems(1) q]
    have run: "(case q of
          Inl x \<Rightarrow> (Inl x, (d1, log1), c)
        | Inr resp \<Rightarrow>
            if rp_status resp = 201 then (Inr e, (d1, log1), record_receipt sha base now e resp c)
            else if rp_status resp = 409 then remote_append_loop k sha rt base now ?t build (d1, log1) c
            else (Inl RemoteError, (d1, log1), c)) = (r, (d', log'), c')"
      using Suc.prems(2) b q by (simp add: remote_head_def head split: sum.split_asm)
    show ?thesis
    proof (cases "\<exists>resp. q = Inr resp \<and> rp_status resp = 409")
      case True
      then have "remote_append_loop k sha rt base now ?t build (d1, log1) c = (r, (d', log'), c')" using run by auto
      moreover have "files_ok (sp_rt p) d1" using post by (simp add: keeps_rows_def)
      ultimately show ?thesis using Suc.IH post keeps_rows_trans by blast
    next
      case False
      then show ?thesis using run post b(3) by (auto split: sum.split_asm if_split_asm)
    qed
  qed
qed (auto simp: keeps_rows_refl)

section \<open>Properties\<close>


lemma sample_chain_id: "require_chain_id (str ''c'') = Inr (str ''c'')"
  by (simp add: require_chain_id_def SAFE_NAME_RE_def anchored_def alnum_def str_def)

lemma sample_server: "digest32 (sp_sha sample_params)" "new_registry (sp_sha sample_params) = Inr (sp_registry sample_params)"
    "sp_rt sample_params = ascii_runtime" "server_reachable sample_params empty_server"
  by (simp_all add: sample_params_def sha256.digest32_axioms sample_registry_new server_reachable_def)



text \<open>
  A reply that is not of the protocol is not always reported as such: a page whose entries are a number passes the shape
  check, and the loop over it raises a \<^verbatim>\<open>TypeError\<close>, which the command line does not catch.
\<close>

theorem malformed_page_escapes:
  assumes "t w (GetEntries None) = (Inr resp, w')" "rp_status resp = 200" "rp_body resp = Some (Inr (JObj fs))"
    and "jget fs ''entries'' = Some (JInt n)"
  shows "remote_rows rt t w = ([Inl TypeError], w')"
proof -
  obtain k where k: "MAX_PAGES = Suc k" by (simp add: MAX_PAGES_def)
  show ?thesis
    using assms by (simp add: remote_rows_def k entries_request_def parse_entries_page_def body_value_def jget_null_def)
qed

theorem malformed_page_escapes_witness:
  "remote_rows ascii_runtime (\<lambda>w req. (Inr (reply 200 (JObj [(str ''entries'', JInt 5)])), w)) () = ([Inl TypeError], ())"
  by (rule malformed_page_escapes [where fs = "[(str ''entries'', JInt 5)]" and n = 5
        and resp = "reply 200 (JObj [(str ''entries'', JInt 5)])"]) (simp_all add: reply_def jget_def)

text \<open>
  A client that appends over the wire is told the truth: an entry the call returns stands in the server's files at its
  own number, and whatever the call ends in, the rows stored before it keep their places and every segment still reads
  back as one chain.
\<close>

theorem remote_append_durable:
  assumes "digest32 (sp_sha p)" "new_registry (sp_sha p) = Inr (sp_registry p)" "server_reachable p s"
    and "remote_append sha rt base now (serve p env isdigit lim cid) build (sv_dir s, sv_log s) c = (r, (d', log'), c')"
  shows "(\<forall>e. r = Inr e \<longrightarrow> (\<exists>n. holds_at (sp_rt p) d' n e))
    \<and> (\<forall>n x. holds_at (sp_rt p) (sv_dir s) n x \<longrightarrow> holds_at (sp_rt p) d' n x)
    \<and> (\<forall>n. \<exists>es. jsonl_entries (sp_rt p) (open_trail d' n) = Inr es \<and> linked es)"
proof -
  have "files_ok (sp_rt p) (sv_dir s)" using server_reachable_ok [OF assms(1-3)] by (simp add: server_ok_def)
  from remote_append_loop_keeps [OF assms(2) this assms(4) [unfolded remote_append_def]]
  show ?thesis by (auto simp: keeps_rows_def files_ok_def file_ok_def rows_of_def)
qed

lemma sample_remote_append:
  "\<exists>d log. remote_append sha256 ascii_runtime [] (Inr []) (serve sample_params some_environment isdigit 1 (str ''c''))
     (\<lambda>n prev. Inr (entry_of zeros)) ([], None) \<lparr>rm_receipts = None, rm_warnings = 0\<rparr>
     = (Inr (entry_of zeros), (d, log), \<lparr>rm_receipts = None, rm_warnings = 0\<rparr>)"
proof -
  let ?e = "entry_of zeros" and ?p = sample_params
  have head: "head_of_reply ascii_runtime (Inr (head_body ascii_runtime (str ''c'') [])) = Inr (0, GENESIS_PREV_HASH)"
    by (simp add: head_of_reply_def head_body_def sample_chain_id server_head_def active_empty open_trail_def empty_trail_def
        error_reply_def reply_def)
  obtain v d where v: "to_obj ?e = Inr v" and d: "store_entry (sp_rt ?p) [] ?e = (Inr (TRAIL_NAME, ?e), d)"
    using store_empty [of ?e "sp_rt ?p"] by (auto simp: entry_of_def)
  have "v = envelope_of zeros" using v by (simp add: to_obj_def entry_of_def envelope_of_def header_to_obj_def b64encode.simps)
  then have "parse_envelope v = Inr ?e" using zeros_hex by (simp add: parse_envelope_of HEX64_RE_def anchored_def)
  moreover obtain c where c: "chain_acknowledge (sp_sha ?p) new_chain (entry_hash ?e) = Inr c"
    using acknowledge_first zeros_hex by (fastforce simp: entry_of_def)
  then have "acknowledge (sp_sha ?p) (sp_rt ?p) None ?e = (Inr (rch_seq c, rch_head c), Some [Inr (acknowledgement ?e c)])"
    by (simp add: acknowledge_def read_receipt_head_def log_lines_def)
  moreover have "rotate_chain ?p some_environment [] [] = (Inr (), [])" by (simp add: rotate_empty sample_params_def)
  ultimately have post: "post_entry ?p some_environment (str ''c'') (Inr v) ([], None)
      = (201, Some (rch_seq c, rch_head c), d, Some [Inr (acknowledgement ?e c)])"
    using d by (simp add: post_entry_def chain_append_def sample_chain_id)
  obtain k where k: "MAX_RACE_RETRIES = Suc k" by (simp add: MAX_RACE_RETRIES_def)
  show ?thesis
    using head v post by (simp add: remote_append_def k remote_head_def serve_def sample_server(3) reply_def record_receipt_def)
qed

theorem remote_append_durable_witness:
  "\<exists>d log. remote_append sha256 ascii_runtime [] (Inr []) (serve sample_params some_environment (\<lambda>c. 48 \<le> c \<and> c \<le> 57) 1 (str ''c''))
       (\<lambda>n prev. Inr (entry_of zeros)) ([], None) \<lparr>rm_receipts = None, rm_warnings = 0\<rparr>
       = (Inr (entry_of zeros), (d, log), \<lparr>rm_receipts = None, rm_warnings = 0\<rparr>)
     \<and> (\<exists>n. holds_at ascii_runtime d n (entry_of zeros))"
proof -
  obtain d log where r: "remote_append sha256 ascii_runtime [] (Inr [])
       (serve sample_params some_environment (\<lambda>c. 48 \<le> c \<and> c \<le> 57) 1 (str ''c''))
       (\<lambda>n prev. Inr (entry_of zeros)) ([], None) \<lparr>rm_receipts = None, rm_warnings = 0\<rparr>
       = (Inr (entry_of zeros), (d, log), \<lparr>rm_receipts = None, rm_warnings = 0\<rparr>)"
    using sample_remote_append by blast
  have "remote_append sha256 ascii_runtime [] (Inr [])
       (serve sample_params some_environment (\<lambda>c. 48 \<le> c \<and> c \<le> 57) 1 (str ''c''))
       (\<lambda>n prev. Inr (entry_of zeros)) (sv_dir empty_server, sv_log empty_server) \<lparr>rm_receipts = None, rm_warnings = 0\<rparr>
       = (Inr (entry_of zeros), (d, log), \<lparr>rm_receipts = None, rm_warnings = 0\<rparr>)"
    using r by (simp add: empty_server_def)
  from remote_append_durable [OF sample_server(1,2,4) this]
  have "\<exists>n. holds_at (sp_rt sample_params) d n (entry_of zeros)" by simp
  then show ?thesis using r sample_server(3) by auto
qed

end
