(* ===== verification/Stores.thy ===== *)
theory Stores
  imports ChainServer
begin

text \<open>
  Backends without a local file: one object per entry in an object store (\<^verbatim>\<open>adapters/s3/backend.py\<close>, \<^verbatim>\<open>adapters/s3/_errors.py\<close>)
  and one row per entry in a database table (\<^verbatim>\<open>adapters/sqlite.py\<close>, \<^verbatim>\<open>adapters/postgres.py\<close>). The object store has no lock: a writer
  looks for the tail with one request after another while others write, and the conditional put decides. So the append is
  a machine that makes one request per step, run alone or among other writers. The client of the store is a parameter;
  the behaviour the code relies on is locale \<open>object_store\<close>, interpreted at a store held in a map, and the table is locale
  \<open>sql_table\<close>, interpreted at the table of the SQLite backend.
\<close>

section \<open>The object store\<close>

text \<open>
  What the code calls of the injected client. A failed request is the error code \<^verbatim>\<open>_error_code\<close> finds in it. A body read
  back is what decoding it gives. A page of a listing has the keys and, if there are more, the token of the next page.
\<close>

record 'w s3_client =
  s3_get :: "'w \<Rightarrow> pystr \<Rightarrow> pystr + json res"
  s3_put_new :: "'w \<Rightarrow> pystr \<Rightarrow> json \<Rightarrow> pystr option \<times> 'w"
  s3_put :: "'w \<Rightarrow> pystr \<Rightarrow> json \<Rightarrow> pystr option \<times> 'w"
  s3_list :: "'w \<Rightarrow> pystr \<Rightarrow> pystr option \<Rightarrow> pystr + pystr list \<times> pystr option"

definition is_precondition_failed :: "pystr \<Rightarrow> bool" where
  "is_precondition_failed code \<longleftrightarrow> code = str ''PreconditionFailed'' \<or> code = str ''412''"

definition is_not_found :: "pystr \<Rightarrow> bool" where
  "is_not_found code \<longleftrightarrow> code = str ''NoSuchKey'' \<or> code = str ''404'' \<or> code = str ''NotFound''"

definition S3_RACE_RETRIES :: nat where "S3_RACE_RETRIES = 32"
definition SEQ_WIDTH :: nat where "SEQ_WIDTH = 20"

text \<open>Python's \<^verbatim>\<open>{seq:020d}\<close>: the sign counts for the width.\<close>

definition padded_int :: "nat \<Rightarrow> int \<Rightarrow> pystr" where
  "padded_int w n = (if n < 0 then 45 # zero_padded (w - 1) (nat (- n)) else zero_padded w (nat n))"

definition entries_prefix :: "pystr \<Rightarrow> pystr" where
  "entries_prefix prefix = prefix @ str ''/entries/''"

definition entry_key :: "pystr \<Rightarrow> int \<Rightarrow> pystr" where
  "entry_key prefix n = entries_prefix prefix @ padded_int SEQ_WIDTH n @ str ''.json''"

definition head_key :: "pystr \<Rightarrow> pystr" where
  "head_key prefix = prefix @ str ''/head.json''"

text \<open>
  Where a writer is: at the start of an attempt, asking for the object after \<open>s\<close> whose predecessor has hash \<open>h\<close>, about to
  put the entry it built for number \<open>n\<close>, about to leave the hint, or done.
\<close>

datatype s3_pc =
    Begin nat
  | Probe nat int pystr
  | Put nat int entry json
  | Hint entry
  | Finished "entry res"

text \<open>The hint is believed only if it reads; whatever goes wrong, the search starts from the beginning.\<close>

definition read_hint :: "runtime \<Rightarrow> pystr + json res \<Rightarrow> int \<times> pystr" where
  "read_hint rt r =
     (case r of
        Inr (Inr v) \<Rightarrow>
          (case res_bind (jsub v ''seq'') (py_int rt) of
             Inr n \<Rightarrow> (case jsub v ''entry_hash'' of Inr h \<Rightarrow> (n, py_str rt h) | Inl _ \<Rightarrow> (-1, GENESIS_PREV_HASH))
           | Inl _ \<Rightarrow> (-1, GENESIS_PREV_HASH))
      | _ \<Rightarrow> (-1, GENESIS_PREV_HASH))"

text \<open>A tail was found: the entry is built on it.\<close>

definition found_tail :: "builder \<Rightarrow> nat \<Rightarrow> int \<Rightarrow> pystr \<Rightarrow> s3_pc" where
  "found_tail build k n prev =
     (case res_bind (build n prev) (\<lambda>e. res_map (Pair e) (to_obj e)) of
        Inl x \<Rightarrow> Finished (Inl x)
      | Inr (e, v) \<Rightarrow> Put k n e v)"

definition hint_body :: "entry \<Rightarrow> json" where
  "hint_body e = JObj [(str ''seq'', JInt (seq (header e))), (str ''entry_hash'', JStr (entry_hash e))]"

fun s3_step :: "runtime \<Rightarrow> 'w s3_client \<Rightarrow> pystr \<Rightarrow> builder \<Rightarrow> s3_pc \<Rightarrow> 'w \<Rightarrow> s3_pc \<times> 'w" where
  "s3_step rt cl p build (Begin 0) w = (Finished (Inl RuntimeError), w)"
| "s3_step rt cl p build (Begin (Suc k)) w =
     (case read_hint rt (s3_get cl w (head_key p)) of (s, h) \<Rightarrow> (Probe k s h, w))"
| "s3_step rt cl p build (Probe k s h) w =
     (case s3_get cl w (entry_key p (s + 1)) of
        Inl code \<Rightarrow> (if is_not_found code then found_tail build k (s + 1) h else Finished (Inl ClientError), w)
      | Inr body \<Rightarrow>
          (case res_bind body (\<lambda>v. jsub v ''entry_hash'') of
             Inl x \<Rightarrow> (Finished (Inl x), w)
           | Inr h' \<Rightarrow> (Probe k (s + 1) (py_str rt h'), w)))"
| "s3_step rt cl p build (Put k n e v) w =
     (case s3_put_new cl w (entry_key p n) v of
        (None, w') \<Rightarrow> (Hint e, w')
      | (Some code, w') \<Rightarrow> (if is_precondition_failed code then Begin k else Finished (Inl ClientError), w'))"
| "s3_step rt cl p build (Hint e) w = (Finished (Inr e), snd (s3_put cl w (head_key p) (hint_body e)))"
| "s3_step rt cl p build (Finished r) w = (Finished r, w)"

text \<open>An append that nobody interrupts, cut after a number of requests.\<close>

primrec s3_run :: "nat \<Rightarrow> runtime \<Rightarrow> 'w s3_client \<Rightarrow> pystr \<Rightarrow> builder \<Rightarrow> s3_pc \<Rightarrow> 'w \<Rightarrow> s3_pc \<times> 'w" where
  "s3_run 0 rt cl p build pc w = (pc, w)"
| "s3_run (Suc k) rt cl p build pc w = (case s3_step rt cl p build pc w of (pc', w') \<Rightarrow> s3_run k rt cl p build pc' w')"

definition s3_append :: "nat \<Rightarrow> runtime \<Rightarrow> 'w s3_client \<Rightarrow> pystr \<Rightarrow> builder \<Rightarrow> 'w \<Rightarrow> entry res option \<times> 'w" where
  "s3_append k rt cl p build w =
     (case s3_run k rt cl p build (Begin S3_RACE_RETRIES) w of
        (Finished r, w') \<Rightarrow> (Some r, w')
      | (_, w') \<Rightarrow> (None, w'))"

text \<open>The rows of a listing, up to the first that cannot be read; the code follows the tokens without a bound.\<close>

fun key_rows :: "runtime \<Rightarrow> 'w s3_client \<Rightarrow> 'w \<Rightarrow> pystr list \<Rightarrow> entry res list \<times> bool" where
  "key_rows rt cl w [] = ([], True)"
| "key_rows rt cl w (k # ks) =
     (case s3_get cl w k of
        Inl _ \<Rightarrow> ([Inl ClientError], False)
      | Inr body \<Rightarrow>
          (case res_bind body (from_obj rt) of
             Inl x \<Rightarrow> ([Inl x], False)
           | Inr e \<Rightarrow> (case key_rows rt cl w ks of (rows, go_on) \<Rightarrow> (Inr e # rows, go_on))))"

primrec s3_rows_loop :: "nat \<Rightarrow> runtime \<Rightarrow> 'w s3_client \<Rightarrow> pystr \<Rightarrow> 'w \<Rightarrow> pystr option \<Rightarrow> entry res list option" where
  "s3_rows_loop 0 rt cl p w token = None"
| "s3_rows_loop (Suc k) rt cl p w token =
     (case s3_list cl w (entries_prefix p) token of
        Inl _ \<Rightarrow> Some [Inl ClientError]
      | Inr (ks, more_at) \<Rightarrow>
          (case key_rows rt cl w ks of
             (rows, False) \<Rightarrow> Some rows
           | (rows, True) \<Rightarrow>
               (case more_at of
                  None \<Rightarrow> Some rows
                | Some t \<Rightarrow> map_option ((@) rows) (s3_rows_loop k rt cl p w (Some t)))))"

definition s3_rows :: "nat \<Rightarrow> runtime \<Rightarrow> 'w s3_client \<Rightarrow> pystr \<Rightarrow> 'w \<Rightarrow> entry res list option" where
  "s3_rows k rt cl p w = s3_rows_loop k rt cl p w None"

section \<open>Writers at once\<close>

text \<open>A builder as the facade passes it: the entry has the number and the predecessor it was asked for.\<close>

definition honest :: "builder \<Rightarrow> bool" where
  "honest build \<longleftrightarrow> (\<forall>n prev e. build n prev = Inr e \<longrightarrow> seq (header e) = n \<and> prev_hash (header e) = prev)"

record 'w s3_system =
  sy_world :: 'w
  sy_writers :: "(builder \<times> s3_pc) list"

inductive s3_system_step :: "runtime \<Rightarrow> 'w s3_client \<Rightarrow> pystr \<Rightarrow> 'w s3_system \<Rightarrow> 'w s3_system \<Rightarrow> bool" for rt cl p where
  join: "honest build \<Longrightarrow> s3_system_step rt cl p s (s\<lparr>sy_writers := sy_writers s @ [(build, Begin S3_RACE_RETRIES)]\<rparr>)"
| move: "i < length (sy_writers s) \<Longrightarrow> sy_writers s ! i = (build, pc) \<Longrightarrow> s3_step rt cl p build pc (sy_world s) = (pc', w') \<Longrightarrow>
    s3_system_step rt cl p s (s\<lparr>sy_world := w', sy_writers := (sy_writers s)[i := (build, pc')]\<rparr>)"

definition s3_reachable :: "runtime \<Rightarrow> 'w s3_client \<Rightarrow> pystr \<Rightarrow> 'w \<Rightarrow> 'w s3_system \<Rightarrow> bool" where
  "s3_reachable rt cl p w = (s3_system_step rt cl p)\<^sup>*\<^sup>* \<lparr>sy_world = w, sy_writers = []\<rparr>"

inductive_cases s3_system_stepE: "s3_system_step rt cl p s s'"

section \<open>Keys\<close>

lemma padded_int_inj:
  assumes "padded_int w m = padded_int w n"
  shows "m = n"
proof -
  have "digits_val (zero_padded w k) = k" for w k by (simp add: zero_padded_def digits_val_zeros digits_val_digits)
  then have z: "zero_padded w a = zero_padded w b \<longleftrightarrow> a = b" for w a b by metis
  have "45 \<notin> set (zero_padded w k)" for w k using digits_range [of 45 k] by (auto simp: zero_padded_def)
  then have "45 # xs \<noteq> zero_padded w k" "zero_padded w k \<noteq> 45 # xs" for xs w k by (metis list.set_intros(1))+
  then show ?thesis using assms by (auto simp: padded_int_def z split: if_split_asm)
qed

lemma entry_key_inj: "entry_key p m = entry_key p n \<longleftrightarrow> m = n"
  using padded_int_inj by (auto simp: entry_key_def)

lemma head_key_apart: "head_key p \<noteq> entry_key p n"
  by (simp add: head_key_def entry_key_def entries_prefix_def str_def)

lemma head_key_outside: "\<not> startswith (head_key p) (entries_prefix p)"
  by (simp add: head_key_def entries_prefix_def startswith_def str_def)

lemma entry_key_under: "startswith (entry_key p n) (entries_prefix p)"
  by (simp add: entry_key_def startswith_def)

lemma entry_key_order:
  assumes "m < 10 ^ SEQ_WIDTH" "n < 10 ^ SEQ_WIDTH"
  shows "entry_key p (int m) < entry_key p (int n) \<longleftrightarrow> m < n"
proof -
  have w: "0 < SEQ_WIDTH" by (simp add: SEQ_WIDTH_def)
  note zm = zero_padded [OF assms(1) w] and zn = zero_padded [OF assms(2) w]
  have "zero_padded SEQ_WIDTH m < zero_padded SEQ_WIDTH n \<longleftrightarrow> m < n"
    using digits_order [of "zero_padded SEQ_WIDTH m" "zero_padded SEQ_WIDTH n"] zm zn by auto
  then show ?thesis using zm(1) zn(1) by (simp add: entry_key_def padded_int_def less_common_prefix less_common_suffix)
qed

section \<open>What the writers keep\<close>

text \<open>
  What the code relies on: a body read is the one stored, \<^verbatim>\<open>not found\<close> is said of absent keys only, a conditional put that
  succeeds found the key free, one that is refused did nothing. A request that fails with any other error may or may not
  have been carried out.
\<close>

locale object_store =
  fixes cl :: "'w s3_client" and view :: "'w \<Rightarrow> pystr \<Rightarrow> json option"
  assumes get_found: "s3_get cl w k = Inr body \<Longrightarrow> \<exists>v. body = Inr v \<and> view w k = Some v"
    and get_missing: "s3_get cl w k = Inl code \<Longrightarrow> is_not_found code \<Longrightarrow> view w k = None"
    and put_new_done: "s3_put_new cl w k v = (None, w') \<Longrightarrow> view w k = None \<and> view w' = (view w)(k \<mapsto> v)"
    and put_new_refused: "s3_put_new cl w k v = (Some code, w') \<Longrightarrow> is_precondition_failed code \<Longrightarrow> view w' = view w"
    and put_new_unsure: "s3_put_new cl w k v = (Some code, w') \<Longrightarrow> view w' = view w \<or> view w k = None \<and> view w' = (view w)(k \<mapsto> v)"
    and put_unsure: "s3_put cl w k v = (r, w') \<Longrightarrow> view w' = view w \<or> view w' = (view w)(k \<mapsto> v)"

text \<open>The objects under a prefix are one chain and nothing else; the hint, if there is one, names an entry of it.\<close>

definition stored_object :: "entry list \<Rightarrow> int \<Rightarrow> json option" where
  "stored_object es n = (if 0 \<le> n \<and> n < int (length es) then Some (projr (to_obj (es ! nat n))) else None)"

definition holds_chain :: "(pystr \<Rightarrow> json option) \<Rightarrow> pystr \<Rightarrow> entry list \<Rightarrow> bool" where
  "holds_chain m p es \<longleftrightarrow>
     linked es \<and> (\<forall>e \<in> set es. payload e \<noteq> None) \<and> (\<forall>n. m (entry_key p n) = stored_object es n)
     \<and> (\<forall>k. m k \<noteq> None \<longrightarrow> startswith k (entries_prefix p) \<longrightarrow> (\<exists>n. k = entry_key p n))
     \<and> (m (head_key p) = None \<or> (\<exists>e \<in> set es. m (head_key p) = Some (hint_body e)))"

text \<open>What a writer knows at each point of its append.\<close>

fun writer_ok :: "entry list \<Rightarrow> s3_pc \<Rightarrow> bool" where
  "writer_ok es (Begin k) = True"
| "writer_ok es (Probe k s h) = (- 1 \<le> s \<and> s < int (length es) \<and> h = prev_at es (nat (s + 1)))"
| "writer_ok es (Put k n e v) =
     (0 \<le> n \<and> n \<le> int (length es) \<and> seq (header e) = n \<and> prev_hash (header e) = prev_at es (nat n) \<and> to_obj e = Inr v)"
| "writer_ok es (Hint e) = (e \<in> set es)"
| "writer_ok es (Finished r) = (\<forall>e. r = Inr e \<longrightarrow> e \<in> set es)"

fun won :: "s3_pc \<Rightarrow> entry option" where
  "won (Hint e) = Some e"
| "won (Finished (Inr e)) = Some e"
| "won _ = None"

lemma prev_at_grows: "i \<le> length es \<Longrightarrow> prev_at (es @ new) i = prev_at es i"
  by (auto simp: prev_at_def nth_append)

lemma writer_ok_grows: "writer_ok es pc \<Longrightarrow> writer_ok (es @ new) pc"
  by (cases pc) (auto simp: prev_at_grows nat_le_iff)

lemma linked_seq: "linked es \<Longrightarrow> e \<in> set es \<Longrightarrow> 0 \<le> seq (header e) \<and> seq (header e) < int (length es) \<and> es ! nat (seq (header e)) = e"
  by (auto simp: linked_def in_set_conv_nth)

lemma stored_object_snoc:
  "stored_object (es @ [e]) n = (if n = int (length es) then Some (projr (to_obj e)) else stored_object es n)"
  by (auto simp: stored_object_def nth_append nat_less_iff)

text \<open>The core of it: a put that finds its key free can only be the next entry of the chain.\<close>

lemma put_extends:
  assumes "holds_chain m p es" "m (entry_key p n) = None" "writer_ok es (Put k n e v)"
  shows "n = int (length es)" "holds_chain (m(entry_key p n \<mapsto> v)) p (es @ [e])"
proof -
  have es: "linked es" "\<forall>n. m (entry_key p n) = stored_object es n" using assms(1) by (simp_all add: holds_chain_def)
  show n: "n = int (length es)" using assms(2,3) es(2) by (auto simp: stored_object_def split: if_split_asm)
  have "linked (es @ [e])" using es(1) assms(3) n linked_next [OF es(1)] by (intro linked_snoc) auto
  moreover have "\<exists>i. k = entry_key p i" if "(m(entry_key p n \<mapsto> v)) k \<noteq> None" "startswith k (entries_prefix p)" for k
    using that assms(1) by (cases "k = entry_key p n") (auto simp: holds_chain_def)
  ultimately show "holds_chain (m(entry_key p n \<mapsto> v)) p (es @ [e])"
    using assms(1,3) es(2) n to_obj_payload
    by (auto simp: holds_chain_def stored_object_snoc entry_key_inj head_key_apart)
qed

lemma hint_keeps:
  assumes "holds_chain m p es" "e \<in> set es"
  shows "holds_chain (m(head_key p \<mapsto> hint_body e)) p es"
  using assms head_key_outside [of p] by (auto simp: holds_chain_def head_key_apart [symmetric])

lemma read_hint_chain:
  assumes "holds_chain m p es" "r = Inl c \<or> (\<exists>v. r = Inr (Inr v) \<and> m (head_key p) = Some v)"
  shows "writer_ok es (Probe k (fst (read_hint rt r)) (snd (read_hint rt r)))"
proof -
  consider "read_hint rt r = (-1, GENESIS_PREV_HASH)"
    | e where "e \<in> set es" "read_hint rt r = (seq (header e), entry_hash e)"
  proof (cases r)
    case (Inr body)
    then obtain e where e: "e \<in> set es" "r = Inr (Inr (hint_body e))" using assms by (auto simp: holds_chain_def)
    then show thesis using that(2) [OF e(1)] by (simp add: read_hint_def hint_body_def jsub_def jlookup)
  qed (use that(1) in \<open>simp add: read_hint_def\<close>)
  then show ?thesis
  proof cases
    case (2 e)
    have "linked es" using assms(1) by (simp add: holds_chain_def)
    from linked_seq [OF this 2(1)] show ?thesis using 2(2) by (auto simp: prev_at_def nat_add_distrib)
  qed (simp add: prev_at_def)
qed

lemma stored_hash: "payload e \<noteq> None \<Longrightarrow> jsub (projr (to_obj e)) ''entry_hash'' = Inr (JStr (entry_hash e))"
  by (auto simp: to_obj_def jsub_def jlookup)

text \<open>Every state of the writers: one chain, and each writer that won holds an entry of its own in it.\<close>

definition system_ok :: "('w \<Rightarrow> pystr \<Rightarrow> json option) \<Rightarrow> pystr \<Rightarrow> 'w s3_system \<Rightarrow> entry list \<Rightarrow> bool" where
  "system_ok view p s es \<longleftrightarrow>
     holds_chain (view (sy_world s)) p es
     \<and> (\<forall>(build, pc) \<in> set (sy_writers s). honest build \<and> writer_ok es pc)
     \<and> (\<forall>i < length (sy_writers s). \<forall>j < length (sy_writers s). i \<noteq> j \<longrightarrow>
          won (snd (sy_writers s ! i)) = None \<or> won (snd (sy_writers s ! i)) \<noteq> won (snd (sy_writers s ! j)))"

lemma writer_won: "writer_ok es pc \<Longrightarrow> won pc = Some e \<Longrightarrow> e \<in> set es"
  by (cases pc rule: won.cases) auto

context object_store
begin

lemma probe_keeps:
  assumes "holds_chain (view w) p es" "writer_ok es (Probe k s h)" "honest build"
  shows "writer_ok es (fst (s3_step rt cl p build (Probe k s h) w))" "snd (s3_step rt cl p build (Probe k s h) w) = w"
    "won (fst (s3_step rt cl p build (Probe k s h) w)) = None"
proof -
  have m: "view w (entry_key p (s + 1)) = stored_object es (s + 1)" "\<forall>e \<in> set es. payload e \<noteq> None"
    using assms(1) by (simp_all add: holds_chain_def)
  let ?r = "s3_step rt cl p build (Probe k s h) w"
  have "writer_ok es (fst ?r) \<and> snd ?r = w \<and> won (fst ?r) = None"
  proof (cases "s3_get cl w (entry_key p (s + 1))")
    case (Inl code)
    show ?thesis
    proof (cases "is_not_found code")
      case True
      then have "stored_object es (s + 1) = None" using get_missing [OF Inl] m(1) by simp
      then have "s + 1 = int (length es)" using assms(2) by (auto simp: stored_object_def split: if_split_asm)
      then show ?thesis using Inl True assms(2,3)
        by (auto simp: found_tail_def honest_def res_elims split: sum.splits prod.splits)
    qed (use Inl in simp)
  next
    case (Inr body)
    then obtain v where v: "body = Inr v" "stored_object es (s + 1) = Some v" using get_found m(1) by force
    then have n: "s + 1 < int (length es)" "v = projr (to_obj (es ! nat (s + 1)))"
      by (auto simp: stored_object_def split: if_split_asm)
    have "payload (es ! nat (s + 1)) \<noteq> None" "nat (2 + s) - Suc 0 = nat (s + 1)" using n(1) assms(2) m(2) by auto
    then show ?thesis using Inr v(1) n assms(2) stored_hash
      by (auto simp: prev_at_def nat_add_distrib)
  qed
  then show "writer_ok es (fst ?r)" "snd ?r = w" "won (fst ?r) = None" by simp_all
qed

lemma step_keeps:
  assumes "holds_chain (view w) p es" "writer_ok es pc" "honest build" "s3_step rt cl p build pc w = (pc', w')"
  shows "\<exists>new. holds_chain (view w') p (es @ new) \<and> writer_ok (es @ new) pc'
    \<and> (won pc' = won pc \<or> (\<exists>e. won pc' = Some e \<and> new = [e]))"
proof (cases pc)
  case (Begin k)
  show ?thesis
  proof (cases k)
    case (Suc j)
    let ?r = "s3_get cl w (head_key p)"
    have "?r = Inl (projl ?r) \<or> (\<exists>v. ?r = Inr (Inr v) \<and> view w (head_key p) = Some v)"
      using get_found [of w "head_key p"] by (cases ?r) auto
    from read_hint_chain [OF assms(1) this, of j rt] show ?thesis
      using assms(1,4) Begin Suc by (intro exI [of _ "[]"]) (auto split: prod.split_asm)
  qed (use assms Begin in \<open>auto intro!: exI [of _ "[]"]\<close>)
next
  case (Probe k s h)
  then show ?thesis using probe_keeps [of w p es k s h build rt] assms by (intro exI [of _ "[]"]) simp
next
  case (Put k n e v)
  obtain r w1 where r: "s3_put_new cl w (entry_key p n) v = (r, w1)" by force
  note ext = put_extends [OF assms(1) _ assms(2) [unfolded Put]]
  show ?thesis
  proof (cases r)
    case None
    then have "view w (entry_key p n) = None" "view w1 = (view w)(entry_key p n \<mapsto> v)" using put_new_done r by auto
    then show ?thesis using ext(2) None r assms(4) Put by (intro exI [of _ "[e]"]) auto
  next
    case (Some code)
    then consider "view w1 = view w"
      | "\<not> is_precondition_failed code" "view w (entry_key p n) = None" "view w1 = (view w)(entry_key p n \<mapsto> v)"
      using put_new_refused put_new_unsure r by metis
    then show ?thesis
    proof cases
      case 1
      then show ?thesis using Some r assms(1,4) Put by (intro exI [of _ "[]"]) (auto split: if_split_asm)
    next
      case 2
      then show ?thesis using ext(2) Some r assms(4) Put by (intro exI [of _ "[e]"]) auto
    qed
  qed
next
  case (Hint e)
  obtain r w1 where r: "s3_put cl w (head_key p) (hint_body e) = (r, w1)" by force
  have "holds_chain (view w1) p es"
    using put_unsure [OF r] assms(1,2) hint_keeps Hint by auto
  then show ?thesis using r assms(2,4) Hint by (intro exI [of _ "[]"]) auto
qed (use assms in \<open>auto intro!: exI [of _ "[]"]\<close>)

lemma system_step_ok:
  assumes "system_ok view p s es" "s3_system_step rt cl p s s'"
  shows "\<exists>new. system_ok view p s' (es @ new)"
  using assms(2)
proof cases
  case (join build)
  have "system_ok view p s' es"
    using assms(1) join by (auto simp: system_ok_def nth_append less_Suc_eq)
  then show ?thesis by (intro exI [of _ "[]"]) simp
next
  case (move i build pc pc' w')
  note s = assms(1) [unfolded system_ok_def]
  have i: "honest build" "writer_ok es pc" using s move(2,3) nth_mem by fastforce+
  obtain new where new: "holds_chain (view w') p (es @ new)" "writer_ok (es @ new) pc'"
    "won pc' = won pc \<or> (\<exists>e. won pc' = Some e \<and> new = [e])"
    using step_keeps [OF conjunct1 [OF s] i(2,1) move(4)] by blast
  have "distinct (es @ new)" using new(1) unfolding holds_chain_def distinct_conv_nth linked_def by (metis of_nat_eq_iff)
  have apart: "won (snd (sy_writers s ! j)) \<noteq> won pc'" if "j < length (sy_writers s)" "j \<noteq> i" "won (snd (sy_writers s ! j)) \<noteq> None" for j
  proof -
    have w: "writer_ok es (snd (sy_writers s ! j))" using s nth_mem [OF that(1)] by fastforce
    show ?thesis
    proof (cases "won pc' = won pc")
      case True
      then show ?thesis using s that move(2,3) by (metis snd_conv)
    next
      case False
      then obtain e where "won pc' = Some e" "new = [e]" using new(3) by blast
      then show ?thesis using writer_won [OF w] \<open>distinct (es @ new)\<close> by auto
    qed
  qed
  have "system_ok view p s' (es @ new)"
    unfolding system_ok_def
  proof (intro conjI)
    show "\<forall>(build, pc) \<in> set (sy_writers s'). honest build \<and> writer_ok (es @ new) pc"
      using s new(2) i(1) writer_ok_grows move(1) by (auto dest!: set_update_subset_insert [THEN subsetD])
    show "\<forall>j < length (sy_writers s'). \<forall>k < length (sy_writers s'). j \<noteq> k \<longrightarrow>
          won (snd (sy_writers s' ! j)) = None \<or> won (snd (sy_writers s' ! j)) \<noteq> won (snd (sy_writers s' ! k))"
    proof (intro allI impI)
      fix j k assume jk: "j < length (sy_writers s')" "k < length (sy_writers s')" "j \<noteq> k"
      then have l: "j < length (sy_writers s)" "k < length (sy_writers s)" using move(1) by auto
      have at: "snd (sy_writers s' ! l) = (if l = i then pc' else snd (sy_writers s ! l))" if "l < length (sy_writers s)" for l
        using that move(1) by (simp add: nth_list_update)
      show "won (snd (sy_writers s' ! j)) = None \<or> won (snd (sy_writers s' ! j)) \<noteq> won (snd (sy_writers s' ! k))"
      proof (cases "j = i \<or> k = i")
        case True
        then show ?thesis using apart [OF l(1)] apart [OF l(2)] jk(3) at [OF l(1)] at [OF l(2)]
          by (cases "won (snd (sy_writers s' ! k)) = None") auto
      next
        case False
        then show ?thesis using s l jk(3) at [OF l(1)] at [OF l(2)] by auto
      qed
    qed
  qed (use new(1) move(1) in simp)
  then show ?thesis by blast
qed

lemma reachable_ok:
  assumes "s3_reachable rt cl p w s" "holds_chain (view w) p es"
  shows "\<exists>new. system_ok view p s (es @ new)"
  using assms(1) unfolding s3_reachable_def
proof (induction rule: rtranclp_induct)
  case base
  show ?case using assms(2) by (intro exI [of _ "[]"]) (simp add: system_ok_def)
next
  case (step s s')
  then show ?case using system_step_ok by (metis append_assoc)
qed

end

section \<open>A writer alone\<close>

text \<open>
  A store in which no request fails for a reason of its own. \<open>rest\<close> are the keys a listing has still to return from a token
  on: all keys under the prefix in order at first, and every page but the last has at least one of them.
\<close>

locale reliable_store = object_store cl view
  for cl :: "'w s3_client" and view :: "'w \<Rightarrow> pystr \<Rightarrow> json option" +
  fixes rest :: "'w \<Rightarrow> pystr \<Rightarrow> pystr option \<Rightarrow> pystr list"
  assumes get_hit: "view w k = Some v \<Longrightarrow> s3_get cl w k = Inr (Inr v)"
    and get_miss: "view w k = None \<Longrightarrow> \<exists>code. s3_get cl w k = Inl code \<and> is_not_found code"
    and put_new_free: "view w k = None \<Longrightarrow> \<exists>w'. s3_put_new cl w k v = (None, w')"
    and rest_all: "rest w q None = sorted_list_of_set {k. view w k \<noteq> None \<and> startswith k q}"
    and list_page: "\<exists>ks following. s3_list cl w q token = Inr (ks, following)
      \<and> rest w q token = ks @ (case following of None \<Rightarrow> [] | Some t \<Rightarrow> rest w q (Some t))
      \<and> (following \<noteq> None \<longrightarrow> ks \<noteq> [])"

lemma s3_run_Suc: "s3_run (Suc k) rt cl p build pc w = s3_run k rt cl p build (fst (s3_step rt cl p build pc w)) (snd (s3_step rt cl p build pc w))"
  by (simp add: case_prod_beta)

declare s3_run.simps(2) [simp del]

lemma s3_run_Finished: "s3_run k rt cl p build (Finished r) w = (Finished r, w)"
  by (induction k) (simp_all add: s3_run_Suc)

lemma s3_run_add:
  "s3_run (a + b) rt cl p build pc w = (case s3_run a rt cl p build pc w of (pc', w') \<Rightarrow> s3_run b rt cl p build pc' w')"
  by (induction a arbitrary: pc w) (simp_all add: s3_run_Suc)

lemma s3_run_finishes:
  "s3_run j rt cl p build pc w = (Finished r, w') \<Longrightarrow> j \<le> k \<Longrightarrow> s3_run k rt cl p build pc w = (Finished r, w')"
proof (induction j arbitrary: k pc w)
  case 0
  then show ?case by (simp add: s3_run_Finished)
next
  case (Suc j)
  then obtain i where "k = Suc i" "j \<le> i" by (cases k) auto
  then show ?case using Suc.IH Suc.prems(1) by (simp add: s3_run_Suc)
qed

context reliable_store
begin

lemma probe_found:
  assumes "holds_chain (view w) p es" "writer_ok es (Probe k s h)" "s + 1 < int (length es)"
  shows "s3_step rt cl p build (Probe k s h) w = (Probe k (s + 1) (entry_hash (es ! nat (s + 1))), w)"
proof -
  let ?e = "es ! nat (s + 1)"
  have "view w (entry_key p (s + 1)) = Some (projr (to_obj ?e))" "payload ?e \<noteq> None"
    using assms by (auto simp: holds_chain_def stored_object_def)
  then show ?thesis using get_hit stored_hash by simp
qed

lemma probe_missed:
  assumes "holds_chain (view w) p es" "writer_ok es (Probe k s h)" "s + 1 = int (length es)"
  shows "s3_step rt cl p build (Probe k s h) w = (found_tail build k (int (length es)) (prev_at es (length es)), w)"
proof -
  have "view w (entry_key p (s + 1)) = None" using assms by (auto simp: holds_chain_def stored_object_def)
  then show ?thesis using get_miss [of w "entry_key p (s + 1)"] assms(2,3) by auto
qed

lemma run_probe:
  assumes "holds_chain (view w) p es" "writer_ok es (Probe k s h)" "nat (int (length es) - s) = Suc n"
  shows "s3_run (Suc n) rt cl p build (Probe k s h) w = (found_tail build k (int (length es)) (prev_at es (length es)), w)"
  using assms(2,3)
proof (induction n arbitrary: s h)
  case 0
  then have "s + 1 = int (length es)" by simp
  from probe_missed [OF assms(1) 0(1) this] show ?case by (simp add: s3_run_Suc)
next
  case (Suc n)
  then have n: "s + 1 < int (length es)" "nat (int (length es) - (s + 1)) = Suc n" by auto
  have "nat (2 + s) - Suc 0 = nat (s + 1)" using Suc.prems(1) by simp
  then have "writer_ok es (Probe k (s + 1) (entry_hash (es ! nat (s + 1))))"
    using Suc.prems(1) n(1) by (simp add: prev_at_def)
  from Suc.IH [OF this n(2)] show ?case
    using probe_found [OF assms(1) Suc.prems(1) n(1)] by (simp add: s3_run_Suc [of "Suc n"])
qed

lemma lone_append:
  assumes "holds_chain (view w) p es" "honest build" "length es + 4 \<le> k"
  shows "\<exists>w'. s3_append k rt cl p build w = (Some (fst (memory_append es build)), w')
    \<and> holds_chain (view w') p (snd (memory_append es build))"
proof -
  let ?n = "int (length es)" and ?prev = "prev_at es (length es)"
  have es: "linked es" "view w (entry_key p ?n) = None" using assms(1) by (simp_all add: holds_chain_def stored_object_def)
  obtain m where m: "S3_RACE_RETRIES = Suc m" by (simp add: S3_RACE_RETRIES_def)
  let ?r = "s3_get cl w (head_key p)"
  obtain s h where sh: "read_hint rt ?r = (s, h)" by force
  have "?r = Inl (projl ?r) \<or> (\<exists>v. ?r = Inr (Inr v) \<and> view w (head_key p) = Some v)"
    using get_found [of w "head_key p"] by (cases ?r) auto
  from read_hint_chain [OF assms(1) this, of m rt] have ok: "writer_ok es (Probe m s h)" using sh by simp
  define j where "j = nat (?n - s) - 1"
  have j: "nat (?n - s) = Suc j" "j \<le> length es" using ok by (auto simp: j_def)
  note probe = run_probe [OF assms(1) ok j(1), of rt build]
  have start: "s3_run (Suc (Suc j + i)) rt cl p build (Begin S3_RACE_RETRIES) w = s3_run i rt cl p build (found_tail build m ?n ?prev) w" for i
  proof -
    have "s3_step rt cl p build (Begin S3_RACE_RETRIES) w = (Probe m s h, w)" using sh by (simp add: m)
    then have "s3_run (Suc (Suc j + i)) rt cl p build (Begin S3_RACE_RETRIES) w = s3_run (Suc j + i) rt cl p build (Probe m s h) w"
      by (simp only: s3_run_Suc [of "Suc j + i"] fst_conv snd_conv)
    then show ?thesis using probe by (simp only: s3_run_add [of "Suc j" i] prod.case)
  qed
  note nx = linked_next [OF es(1)]
  show ?thesis
  proof (cases "res_bind (build ?n ?prev) (\<lambda>e. res_map (Pair e) (to_obj e))")
    case (Inl x)
    have "s3_run (Suc (Suc j + 0)) rt cl p build (Begin S3_RACE_RETRIES) w = (Finished (Inl x), w)"
      unfolding start using Inl by (simp add: found_tail_def)
    from s3_run_finishes [OF this, of k] have "s3_append k rt cl p build w = (Some (Inl x), w)"
      using j(2) assms(3) by (simp add: s3_append_def)
    moreover have "memory_append es build = (Inl x, es)"
      using Inl nx by (auto simp: memory_append_def next_seq_def next_prev_def res_elims to_obj_def split: option.split_asm if_splits)
    ultimately show ?thesis using assms(1) by simp
  next
    case (Inr ev)
    then obtain e v where e: "build ?n ?prev = Inr e" "to_obj e = Inr v" "ev = (e, v)" by (auto simp: res_elims)
    have put: "writer_ok es (Put m ?n e v)" using assms(2) e by (simp add: honest_def)
    obtain w1 where w1: "s3_put_new cl w (entry_key p ?n) v = (None, w1)" using put_new_free [OF es(2)] by blast
    then have 1: "holds_chain (view w1) p (es @ [e])" using put_extends(2) [OF assms(1) es(2) put] put_new_done by simp
    obtain r w2 where w2: "s3_put cl w1 (head_key p) (hint_body e) = (r, w2)" by force
    have 2: "holds_chain (view w2) p (es @ [e])" using put_unsure [OF w2] 1 hint_keeps [OF 1] by auto
    have "s3_run (Suc (Suc j + 2)) rt cl p build (Begin S3_RACE_RETRIES) w = (Finished (Inr e), w2)"
      unfolding start using Inr e w1 w2 by (simp add: found_tail_def numeral_2_eq_2 s3_run_Suc)
    from s3_run_finishes [OF this, of k] have "s3_append k rt cl p build w = (Some (Inr e), w2)"
      using j(2) assms(3) by (simp add: s3_append_def)
    moreover have "memory_append es build = (Inr e, es @ [e])"
      using e(1) nx to_obj_payload [OF e(2)] by (auto simp: memory_append_def next_seq_def next_prev_def)
    ultimately show ?thesis using 2 by simp
  qed
qed

lemma chain_keys:
  assumes "holds_chain (view w) p es" "length es \<le> 10 ^ SEQ_WIDTH"
  shows "rest w (entries_prefix p) None = map (\<lambda>i. entry_key p (int i)) [0..<length es]"
proof -
  let ?ks = "map (\<lambda>i. entry_key p (int i)) [0..<length es]"
  have "{k. view w k \<noteq> None \<and> startswith k (entries_prefix p)} = set ?ks"
  proof (intro set_eqI iffI)
    fix k assume k: "k \<in> {k. view w k \<noteq> None \<and> startswith k (entries_prefix p)}"
    then obtain n where n: "k = entry_key p n" using assms(1) by (auto simp: holds_chain_def)
    then have "stored_object es n \<noteq> None" using k assms(1) by (simp add: holds_chain_def)
    then have "0 \<le> n" "nat n < length es" by (auto simp: stored_object_def split: if_split_asm)
    then show "k \<in> set ?ks" using n by (auto intro!: image_eqI [of _ _ "nat n"])
  qed (use assms(1) in \<open>auto simp: holds_chain_def stored_object_def entry_key_under\<close>)
  moreover have "sorted ?ks"
    using assms(2) entry_key_order [of _ _ p] by (auto simp: sorted_wrt_iff_nth_less intro!: order.strict_implies_order)
  moreover have "distinct ?ks" by (simp add: distinct_map inj_on_def entry_key_inj)
  ultimately show ?thesis using rest_all sorted_list_of_set.idem_if_sorted_distinct [of ?ks] by simp
qed

lemma key_rows_chain:
  assumes "holds_chain (view w) p es" "set is \<subseteq> {..<length es}"
  shows "key_rows rt cl w (map (\<lambda>i. entry_key p (int i)) is) = (map (\<lambda>i. Inr (es ! i)) is, True)"
  using assms(2)
proof (induction "is")
  case (Cons i "is")
  have "payload (es ! i) \<noteq> None" "view w (entry_key p (int i)) = Some (projr (to_obj (es ! i)))"
    using assms(1) Cons.prems by (auto simp: holds_chain_def stored_object_def)
  moreover then obtain v where "to_obj (es ! i) = Inr v" using to_obj_total by blast
  ultimately have "s3_get cl w (entry_key p (int i)) = Inr (Inr v)" "from_obj rt v = Inr (es ! i)"
    using get_hit from_obj_to_obj by simp_all
  then show ?case using Cons by simp
qed simp

lemma rows_chain:
  assumes "holds_chain (view w) p es"
  shows "rest w (entries_prefix p) token = map (\<lambda>i. entry_key p (int i)) is \<Longrightarrow> set is \<subseteq> {..<length es} \<Longrightarrow> length is < k \<Longrightarrow>
    s3_rows_loop k rt cl p w token = Some (map (\<lambda>i. Inr (es ! i)) is)"
proof (induction k arbitrary: token "is")
  case (Suc k)
  obtain ks following where pg: "s3_list cl w (entries_prefix p) token = Inr (ks, following)"
    "rest w (entries_prefix p) token = ks @ (case following of None \<Rightarrow> [] | Some t \<Rightarrow> rest w (entries_prefix p) (Some t))"
    "following \<noteq> None \<longrightarrow> ks \<noteq> []" using list_page by blast
  have "map (\<lambda>i. entry_key p (int i)) is = ks @ (case following of None \<Rightarrow> [] | Some t \<Rightarrow> rest w (entries_prefix p) (Some t))"
    using pg(2) Suc.prems(1) by simp
  then obtain js ls where jl: "is = js @ ls" "ks = map (\<lambda>i. entry_key p (int i)) js"
    "(case following of None \<Rightarrow> [] | Some t \<Rightarrow> rest w (entries_prefix p) (Some t)) = map (\<lambda>i. entry_key p (int i)) ls"
    unfolding map_eq_append_conv by (elim exE conjE)
  have rows: "key_rows rt cl w ks = (map (\<lambda>i. Inr (es ! i)) js, True)"
    using key_rows_chain [OF assms, of js rt] Suc.prems(2) jl(1,2) by simp
  show ?case
  proof (cases following)
    case None
    then show ?thesis using pg(1) rows jl by simp
  next
    case (Some t)
    then have "0 < length js" using pg(3) jl(2) by auto
    then have "length ls < k" using Suc.prems(3) unfolding jl(1) length_append by linarith
    then have "s3_rows_loop k rt cl p w (Some t) = Some (map (\<lambda>i. Inr (es ! i)) ls)"
      using Suc.IH [of "Some t" ls] Suc.prems(2) jl Some by simp
    then show ?thesis using pg(1) rows jl(1) Some by simp
  qed
qed simp

lemma lone_rows:
  assumes "holds_chain (view w) p es" "length es \<le> 10 ^ SEQ_WIDTH" "length es < k"
  shows "s3_rows k rt cl p w = Some (map Inr es)"
proof -
  have "s3_rows_loop k rt cl p w None = Some (map (\<lambda>i. Inr (es ! i)) [0..<length es])"
    using rows_chain [OF assms(1) chain_keys [OF assms(1,2)]] assms(3) by (simp add: atLeast_upt)
  moreover have "map (\<lambda>i. Inr (es ! i)) [0..<length es] = map Inr (map ((!) es) [0..<length es])" by simp
  ultimately show ?thesis by (simp add: s3_rows_def map_nth del: map_map)
qed

end

section \<open>A store in a list\<close>

text \<open>An instance of the laws: objects in an association list, listed in key order in pages of a given size.\<close>

definition listed :: "(pystr \<times> json) list \<Rightarrow> pystr \<Rightarrow> pystr option \<Rightarrow> pystr list" where
  "listed w q token =
     filter (\<lambda>k. case token of None \<Rightarrow> True | Some t \<Rightarrow> t < k) (sort (remdups (filter (\<lambda>k. startswith k q) (map fst w))))"

definition list_client :: "nat \<Rightarrow> (pystr \<times> json) list s3_client" where
  "list_client n =
     \<lparr>s3_get = (\<lambda>w k. case map_of w k of None \<Rightarrow> Inl (str ''NoSuchKey'') | Some v \<Rightarrow> Inr (Inr v)),
      s3_put_new = (\<lambda>w k v. if map_of w k = None then (None, (k, v) # w) else (Some (str ''PreconditionFailed''), w)),
      s3_put = (\<lambda>w k v. (None, (k, v) # w)),
      s3_list = (\<lambda>w q token. Inr (take (Suc n) (listed w q token),
                   if length (listed w q token) \<le> Suc n then None else Some (listed w q token ! n)))\<rparr>"

lemma filter_above:
  fixes xs :: "pystr list"
  assumes "sorted xs" "distinct xs" "n < length xs"
  shows "filter ((<) (xs ! n)) xs = drop (Suc n) xs"
proof -
  have lt: "xs ! i < xs ! j" if "i < j" "j < length xs" for i j
    using that assms(1,2) by (simp add: sorted_iff_nth_mono_less nth_eq_iff_index_eq order.strict_iff_order)
  have "filter ((<) (xs ! n)) (take (Suc n) xs) = []"
    using lt assms(3) by (auto simp: filter_empty_conv in_set_conv_nth less_Suc_eq not_less_iff_gr_or_eq)
  moreover have "filter ((<) (xs ! n)) (drop (Suc n) xs) = drop (Suc n) xs"
    using lt assms(3) by (auto simp: filter_id_conv in_set_conv_nth)
  ultimately show ?thesis by (metis append_Nil append_take_drop_id filter_append)
qed

lemma sorted_keys: "sorted xs \<Longrightarrow> sorted (filter P xs)" for xs :: "pystr list"
  by (simp add: sorted_wrt_filter)

lemma listed_from:
  assumes "n < length (listed w q token)"
  shows "listed w q (Some (listed w q token ! n)) = drop (Suc n) (listed w q token)"
proof -
  let ?r = "listed w q token"
  have "sorted ?r" "distinct ?r" by (simp_all add: listed_def sorted_keys)
  note above = filter_above [OF this assms]
  have "\<forall>t. token = Some t \<longrightarrow> t < ?r ! n" using nth_mem [OF assms] by (auto simp: listed_def)
  then have "filter ((<) (?r ! n)) ?r = listed w q (Some (?r ! n))"
    by (cases token) (auto simp: listed_def intro!: filter_cong dest: order.strict_trans)
  with above show ?thesis by simp
qed

interpretation list_store: reliable_store "list_client n" map_of listed for n
proof
  show "listed w q None = sorted_list_of_set {k. map_of w k \<noteq> None \<and> startswith k q}" for w q
  proof -
    have "{k. map_of w k \<noteq> None \<and> startswith k q} = set (filter (\<lambda>k. startswith k q) (map fst w))"
      by (auto simp: map_of_eq_None_iff)
    then show ?thesis by (simp only: sorted_list_of_set_sort_remdups) (simp add: listed_def)
  qed
  show "\<exists>ks following. s3_list (list_client n) w q token = Inr (ks, following)
      \<and> listed w q token = ks @ (case following of None \<Rightarrow> [] | Some t \<Rightarrow> listed w q (Some t))
      \<and> (following \<noteq> None \<longrightarrow> ks \<noteq> [])" for w q token
    using listed_from [of n w q token] by (cases "length (listed w q token) \<le> Suc n") (auto simp: list_client_def)
qed (auto simp: list_client_def is_precondition_failed_def is_not_found_def str_def split: option.split_asm if_split_asm)

section \<open>Properties of the object store backend\<close>

text \<open>C15. 
  Writers that share a store and no lock never fork the chain. Any number of them, each making its requests between
  those of the others in any order, some failing halfway with the write done or not done, leave one chain under the
  prefix, which continues the one that was there; every append that returned has its entry in that chain, and no two
  writers were given the same entry.
\<close>

theorem s3_writers_never_fork:
  assumes "object_store cl view" "holds_chain (view w) p es" "s3_reachable rt cl p w s"
  shows "\<exists>new. linked (es @ new)
    \<and> (\<forall>n. view (sy_world s) (entry_key p n) = stored_object (es @ new) n)
    \<and> (\<forall>build e. (build, Finished (Inr e)) \<in> set (sy_writers s) \<longrightarrow> e \<in> set (es @ new))
    \<and> (\<forall>i < length (sy_writers s). \<forall>j < length (sy_writers s). i \<noteq> j \<longrightarrow>
         won (snd (sy_writers s ! i)) = None \<or> won (snd (sy_writers s ! i)) \<noteq> won (snd (sy_writers s ! j)))"
proof -
  obtain new where ok: "system_ok view p s (es @ new)" using object_store.reachable_ok [OF assms(1,3,2)] by blast
  then have "\<forall>build e. (build, Finished (Inr e)) \<in> set (sy_writers s) \<longrightarrow> e \<in> set (es @ new)"
    by (fastforce simp: system_ok_def)
  with ok show ?thesis by (intro exI [of _ new]) (simp add: system_ok_def holds_chain_def)
qed

text \<open>C16. 
  Alone on a store that answers, the backend is the in-memory backend. An append ends within \<open>length es + 4\<close> requests, with
  the result and the new rows the in-memory append has, errors of the builder included; and a read then goes through the
  listing, whatever its page size, and gives those rows in order, as long as the numbers fit the width of the keys.
\<close>

theorem s3_refines_memory:
  assumes "reliable_store cl view rest" "holds_chain (view w) p es" "honest build" "length es + 4 \<le> k" "length es < 10 ^ SEQ_WIDTH"
  shows "\<exists>w'. s3_append k rt cl p build w = (Some (fst (memory_append es build)), w')
    \<and> holds_chain (view w') p (snd (memory_append es build))
    \<and> s3_rows k rt cl p w' = Some (map Inr (snd (memory_append es build)))"
proof -
  obtain w' where w': "s3_append k rt cl p build w = (Some (fst (memory_append es build)), w')"
    "holds_chain (view w') p (snd (memory_append es build))"
    using reliable_store.lone_append [OF assms(1-4)] by blast
  have "length (snd (memory_append es build)) \<le> Suc (length es)" by (auto simp: memory_append_def split: sum.split)
  then have "s3_rows k rt cl p w' = Some (map Inr (snd (memory_append es build)))"
    using assms(4,5) by (intro reliable_store.lone_rows [OF assms(1) w'(2)]) auto
  with w' show ?thesis by blast
qed

text \<open>One writer on an empty store.\<close>

definition sample_build :: builder where
  "sample_build n prev = Inr ((entry_of zeros)\<lparr>header := (header (entry_of zeros))\<lparr>seq := n, prev_hash := prev\<rparr>\<rparr>)"

lemma sample_build_honest: "honest sample_build"
  by (auto simp: honest_def sample_build_def)

lemma sample_build_first: "memory_append [] sample_build = (Inr (entry_of zeros), [entry_of zeros])"
  by (simp add: memory_append_def sample_build_def entry_of_def)

lemma empty_store: "holds_chain (map_of []) p []"
  by (simp add: holds_chain_def linked_def stored_object_def)

theorem s3_refines_memory_witness:
  "\<exists>w'. s3_append 4 ascii_runtime (list_client 0) (str ''p'') sample_build [] = (Some (Inr (entry_of zeros)), w')
    \<and> s3_rows 4 ascii_runtime (list_client 0) (str ''p'') w' = Some [Inr (entry_of zeros)]"
  using s3_refines_memory [OF list_store.reliable_store_axioms [of 0] empty_store sample_build_honest,
      of 4 ascii_runtime "str ''p''"] sample_build_first
  by auto

lemma s3_run_reachable:
  assumes "honest build" "s3_run k rt cl p build (Begin S3_RACE_RETRIES) w = (pc, w')"
  shows "s3_reachable rt cl p w \<lparr>sy_world = w', sy_writers = [(build, pc)]\<rparr>"
proof -
  have run: "(s3_system_step rt cl p)\<^sup>*\<^sup>* \<lparr>sy_world = w, sy_writers = [(build, pc0)]\<rparr> \<lparr>sy_world = w', sy_writers = [(build, pc)]\<rparr>"
    if "s3_run k rt cl p build pc0 w = (pc, w')" for k pc0 w
    using that
  proof (induction k arbitrary: pc0 w)
    case (Suc k)
    obtain pc1 w1 where 1: "s3_step rt cl p build pc0 w = (pc1, w1)" by force
    have "s3_system_step rt cl p \<lparr>sy_world = w, sy_writers = [(build, pc0)]\<rparr> \<lparr>sy_world = w1, sy_writers = [(build, pc1)]\<rparr>"
      using s3_system_step.move [of 0 "\<lparr>sy_world = w, sy_writers = [(build, pc0)]\<rparr>" build pc0 rt cl p pc1 w1] 1 by simp
    moreover have "s3_run k rt cl p build pc1 w1 = (pc, w')" using Suc.prems 1 by (simp add: s3_run_Suc)
    then have "(s3_system_step rt cl p)\<^sup>*\<^sup>* \<lparr>sy_world = w1, sy_writers = [(build, pc1)]\<rparr> \<lparr>sy_world = w', sy_writers = [(build, pc)]\<rparr>"
      by (rule Suc.IH)
    ultimately show ?case by (rule converse_rtranclp_into_rtranclp)
  qed simp
  have "s3_system_step rt cl p \<lparr>sy_world = w, sy_writers = []\<rparr> \<lparr>sy_world = w, sy_writers = [(build, Begin S3_RACE_RETRIES)]\<rparr>"
    using s3_system_step.join [OF assms(1), of rt cl p "\<lparr>sy_world = w, sy_writers = []\<rparr>"] by simp
  then show ?thesis unfolding s3_reachable_def using run [OF assms(2)] by (rule converse_rtranclp_into_rtranclp)
qed

theorem s3_writers_never_fork_witness:
  "\<exists>s :: (pystr \<times> json) list s3_system. sy_writers s = [(sample_build, Finished (Inr (entry_of zeros)))]
     \<and> (\<exists>new. linked new \<and> entry_of zeros \<in> set new \<and> (\<forall>n. map_of (sy_world s) (entry_key (str ''p'') n) = stored_object new n))"
proof -
  obtain w' where w': "s3_append 4 ascii_runtime (list_client 0) (str ''p'') sample_build [] = (Some (Inr (entry_of zeros)), w')"
    using list_store.lone_append [where k = 4 and n = 0 and rt = ascii_runtime and p = "str ''p''", OF empty_store sample_build_honest]
      sample_build_first by auto
  then have "s3_run 4 ascii_runtime (list_client 0) (str ''p'') sample_build (Begin S3_RACE_RETRIES) [] = (Finished (Inr (entry_of zeros)), w')"
    by (auto simp: s3_append_def split: prod.split_asm s3_pc.split_asm)
  from s3_writers_never_fork [OF list_store.object_store_axioms [of 0] empty_store s3_run_reachable [OF sample_build_honest this]]
  show ?thesis
    by (intro exI [of _ "\<lparr>sy_world = w', sy_writers = [(sample_build, Finished (Inr (entry_of zeros)))]\<rparr>"]) auto
qed

end
