(* ===== verification/Tables.thy ===== *)
theory Tables
  imports Stores
begin

text \<open>
  The database backends (\<^verbatim>\<open>adapters/sqlite.py\<close>, \<^verbatim>\<open>adapters/postgres.py\<close>, \<^verbatim>\<open>entry_from_fields\<close> of \<^verbatim>\<open>adapters/_envelope.py\<close>). A transaction reads the
  tail, builds and inserts, and either commits all of it or leaves the table as it was. The connection is a parameter; what
  the code relies on is locale \<open>sql_table\<close>: the tail query finds the row with the highest number, and the primary key
  refuses a number that is taken. SQLite is of the standard library and its table is an instance. Rows are typed as
  the table declares them; a file lock or a wait for another writer shows as the order of the transactions.
\<close>

section \<open>Transactions\<close>

text \<open>A row in column order, and the statements the code runs.\<close>

type_synonym row = "int \<times> pystr \<times> pystr \<times> pystr \<times> pystr \<times> pystr \<times> pystr \<times> bytes"

fun entry_from_fields :: "row \<Rightarrow> entry" where
  "entry_from_fields (n, t, hv, pt, ph, prev, eh, p) =
     \<lparr>header = \<lparr>seq = n, ts = t, hash_version = hv, payload_type = pt, payload_hash = ph, prev_hash = prev\<rparr>,
      entry_hash = eh, payload = Some p\<rparr>"

definition insert_values :: "entry \<Rightarrow> bytes \<Rightarrow> row" where
  "insert_values e p =
     (seq (header e), ts (header e), hash_version (header e), payload_type (header e), payload_hash (header e),
      prev_hash (header e), entry_hash e, p)"

record 'w sql_conn =
  q_lock :: "'w \<Rightarrow> unit res"
  q_tail :: "'w \<Rightarrow> (int \<times> pystr) option res"
  q_insert :: "'w \<Rightarrow> row \<Rightarrow> unit res \<times> 'w"
  q_rows :: "'w \<Rightarrow> row list res"

definition next_of :: "(int \<times> pystr) option \<Rightarrow> int \<times> pystr" where
  "next_of row = (case row of None \<Rightarrow> (0, GENESIS_PREV_HASH) | Some (n, h) \<Rightarrow> (n + 1, h))"

text \<open>The entry a writer makes of the tail it read.\<close>

definition build_on :: "builder \<Rightarrow> (int \<times> pystr) option \<Rightarrow> (entry \<times> row) res" where
  "build_on build row =
     res_bind (case next_of row of (n, prev) \<Rightarrow> build n prev) (\<lambda>e.
       case payload e of None \<Rightarrow> Inl ValueError | Some p \<Rightarrow> Inr (e, insert_values e p))"

definition sql_append :: "'w sql_conn \<Rightarrow> 'w \<Rightarrow> builder \<Rightarrow> entry res \<times> 'w" where
  "sql_append cn w build =
     (case res_bind (q_lock cn w) (\<lambda>_. res_bind (q_tail cn w) (build_on build)) of
        Inl x \<Rightarrow> (Inl x, w)
      | Inr (e, row) \<Rightarrow>
          (case q_insert cn w row of
             (Inl x, _) \<Rightarrow> (Inl x, w)
           | (Inr _, w') \<Rightarrow> (Inr e, w')))"

definition sql_entries :: "'w sql_conn \<Rightarrow> 'w \<Rightarrow> entry list res" where
  "sql_entries cn w = res_map (map entry_from_fields) (q_rows cn w)"

text \<open>Postgres runs them on the connection it was given.\<close>

definition postgres_append :: "'w sql_conn \<Rightarrow> 'w \<Rightarrow> builder \<Rightarrow> entry res \<times> 'w" where
  "postgres_append cn w build = sql_append cn w build"

definition postgres_entries :: "'w sql_conn \<Rightarrow> 'w \<Rightarrow> entry list res" where
  "postgres_entries cn w = sql_entries cn w"

section \<open>The table of SQLite\<close>

text \<open>
  The rows in the order of their numbers, which \<^verbatim>\<open>INTEGER PRIMARY KEY\<close> makes the row ids. A value is bound before the key is
  checked: a number must fit 64 bits and a text must encode.
\<close>

type_synonym table = "row list"

definition texts :: "row \<Rightarrow> pystr list" where
  "texts row = (case row of (n, t, hv, pt, ph, prev, eh, p) \<Rightarrow> [t, hv, pt, ph, prev, eh])"

definition fits_int64 :: "int \<Rightarrow> bool" where
  "fits_int64 n \<longleftrightarrow> - (2 ^ 63) \<le> n \<and> n < 2 ^ 63"

definition sqlite_insert :: "table \<Rightarrow> row \<Rightarrow> unit res \<times> table" where
  "sqlite_insert t row =
     (if \<not> fits_int64 (fst row) then (Inl OverflowError, t)
      else if \<exists>s \<in> set (texts row). utf8_encode s = None then (Inl UnicodeEncodeError, t)
      else if fst row \<in> fst ` set t then (Inl IntegrityError, t)
      else (Inr (), takeWhile (\<lambda>r. fst r < fst row) t @ row # dropWhile (\<lambda>r. fst r < fst row) t))"

fun row_hash :: "row \<Rightarrow> pystr" where
  "row_hash (n, t, hv, pt, ph, prev, eh, p) = eh"

definition sqlite_conn :: "table sql_conn" where
  "sqlite_conn =
     \<lparr>q_lock = (\<lambda>_. Inr ()),
      q_tail = (\<lambda>t. Inr (if t = [] then None else Some (fst (last t), row_hash (last t)))),
      q_insert = sqlite_insert,
      q_rows = (\<lambda>t. Inr t)\<rparr>"

definition sqlite_append :: "table \<Rightarrow> builder \<Rightarrow> entry res \<times> table" where
  "sqlite_append t build = sql_append sqlite_conn t build"

definition sqlite_entries :: "table \<Rightarrow> entry list res" where
  "sqlite_entries t = sql_entries sqlite_conn t"

lemma entry_of_row: "payload e = Some p \<Longrightarrow> entry_from_fields (insert_values e p) = e"
  by (simp add: insert_values_def)

lemma row_seq: "seq (header (entry_from_fields r)) = fst r"
  by (cases r rule: entry_from_fields.cases) simp

lemma row_hash_entry: "row_hash r = entry_hash (entry_from_fields r)"
  by (cases r rule: entry_from_fields.cases) simp

lemma linked_rows: "linked (map entry_from_fields rs) \<Longrightarrow> j < length rs \<Longrightarrow> fst (rs ! j) = int j"
  by (simp add: linked_def row_seq)

lemma build_on_Inr:
  assumes "build_on build row = Inr (e, r)" "honest build"
  shows "entry_from_fields r = e" "fst r = fst (next_of row)" "prev_hash (header e) = snd (next_of row)"
    "build (fst (next_of row)) (snd (next_of row)) = Inr e" "payload e \<noteq> None"
  using assms by (auto simp: build_on_def res_elims honest_def entry_of_row insert_values_def case_prod_beta split: option.split_asm)

section \<open>What the database promises\<close>

locale sql_table =
  fixes cn :: "'w sql_conn" and rows :: "'w \<Rightarrow> row list" and proper :: "'w \<Rightarrow> bool"
  assumes tail_highest: "proper w \<Longrightarrow> q_tail cn w = Inr None \<Longrightarrow> rows w = []"
    and tail_row: "proper w \<Longrightarrow> q_tail cn w = Inr (Some (n, h)) \<Longrightarrow>
      \<exists>r \<in> set (rows w). fst r = n \<and> entry_hash (entry_from_fields r) = h \<and> (\<forall>r' \<in> set (rows w). fst r' \<le> n)"
    and insert_fresh: "proper w \<Longrightarrow> q_insert cn w r = (Inr u, w') \<Longrightarrow> proper w' \<and> fst r \<notin> fst ` set (rows w)"
    and insert_last: "proper w \<Longrightarrow> q_insert cn w r = (Inr u, w') \<Longrightarrow> (\<forall>r' \<in> set (rows w). fst r' < fst r) \<Longrightarrow> rows w' = rows w @ [r]"
    and select_all: "proper w \<Longrightarrow> q_rows cn w = Inr rs \<Longrightarrow> rs = rows w"
begin

abbreviation stored :: "'w \<Rightarrow> entry list" where
  "stored w \<equiv> map entry_from_fields (rows w)"

lemma tail_next:
  assumes "proper w" "linked (stored w)" "q_tail cn w = Inr row"
  shows "next_of row = (int (length (rows w)), prev_at (stored w) (length (rows w)))"
proof (cases row)
  case None
  then show ?thesis using tail_highest assms by (simp add: next_of_def prev_at_def)
next
  case (Some nh)
  then obtain n h where nh: "row = Some (n, h)" by force
  then obtain r where r: "r \<in> set (rows w)" "fst r = n" "entry_hash (entry_from_fields r) = h" "\<forall>r' \<in> set (rows w). fst r' \<le> n"
    using tail_row assms(1,3) by blast
  then obtain i where i: "i < length (rows w)" "rows w ! i = r" by (auto simp: in_set_conv_nth)
  have at: "fst (rows w ! j) = int j" if "j < length (rows w)" for j
    using linked_rows [OF assms(2) that] .
  have l: "length (rows w) - 1 < length (rows w)" using i(1) by simp
  have "int (length (rows w) - 1) \<le> n" using bspec [OF r(4) nth_mem [OF l]] at [OF l] by simp
  then have "length (rows w) = Suc i" using at [OF i(1)] i r(2) by auto
  then show ?thesis using nh i r at [OF i(1)] by (simp add: next_of_def prev_at_def)
qed

text \<open>A writer that read the tail and inserts later, with the table grown in between.\<close>

lemma stale_insert:
  assumes "proper w0" "proper w1" "linked (stored w0)" "linked (stored w1)" "stored w1 = stored w0 @ new" "honest build"
    and "q_tail cn w0 = Inr row" "build_on build row = Inr (e, r)" "q_insert cn w1 r = (Inr u, w2)"
  shows "new = []" "stored w2 = stored w0 @ [e]" "linked (stored w2)" "proper w2"
    "memory_append (stored w0) build = (Inr e, stored w0 @ [e])"
proof -
  let ?n = "length (rows w0)"
  note nx = tail_next [OF assms(1,3,7)] and e = build_on_Inr [OF assms(8,6)]
  have len: "length (rows w1) = ?n + length new" using arg_cong [OF assms(5), of length] by simp
  have at: "fst (rows w1 ! j) = int j" if "j < length (rows w1)" for j
    using linked_rows [OF assms(4) that] .
  have "fst r \<notin> fst ` set (rows w1)" using insert_fresh [OF assms(2,9)] by simp
  then have "\<not> ?n < length (rows w1)" using at [of ?n] e(2) nx by (metis fst_conv image_eqI nth_mem)
  then show new: "new = []" using len by simp
  have "fst r' < fst r" if r': "r' \<in> set (rows w1)" for r'
  proof -
    obtain j where "j < length (rows w1)" "r' = rows w1 ! j" using r' by (metis in_set_conv_nth)
    then show ?thesis using at len new e(2) nx by simp
  qed
  then have "\<forall>r' \<in> set (rows w1). fst r' < fst r" by blast
  from insert_last [OF assms(2,9) this] show st: "stored w2 = stored w0 @ [e]" using assms(5) new e(1) by simp
  note ln = linked_next [OF assms(3)]
  have "seq (header e) = int ?n" using e(1,2) nx row_seq [of r] by simp
  then show "linked (stored w2)" unfolding st using e(3) nx ln by (intro linked_snoc [OF assms(3)]) auto
  show "proper w2" using insert_fresh [OF assms(2,9)] by simp
  show "memory_append (stored w0) build = (Inr e, stored w0 @ [e])"
    using e(4,5) nx ln by (auto simp: memory_append_def next_seq_def next_prev_def split: if_split_asm)
qed

lemma append_chain:
  assumes "proper w" "linked (stored w)" "honest build" "sql_append cn w build = (r, w')"
  shows "case r of
      Inl _ \<Rightarrow> w' = w
    | Inr e \<Rightarrow> memory_append (stored w) build = (Inr e, stored w') \<and> linked (stored w') \<and> proper w'"
proof (cases "res_bind (q_lock cn w) (\<lambda>_. res_bind (q_tail cn w) (build_on build))")
  case (Inl x)
  then show ?thesis using assms(4) by (auto simp: sql_append_def)
next
  case (Inr er)
  then obtain e row q where er: "er = (e, row)" "q_tail cn w = Inr q" "build_on build q = Inr (e, row)"
    by (cases er) (auto simp: res_elims)
  obtain a w1 where a: "q_insert cn w row = (a, w1)" by force
  show ?thesis
  proof (cases a)
    case bad: (Inl x)
    then show ?thesis using Inr er(1) a assms(4) by (auto simp: sql_append_def)
  next
    case good: (Inr u)
    note ins = stale_insert [OF assms(1,1,2,2) _ assms(3) er(2,3) a [unfolded good], of "[]"]
    have "r = Inr e \<and> w' = w1" using Inr er(1) a good assms(4) by (simp add: sql_append_def)
    then show ?thesis using ins by simp
  qed
qed

end

section \<open>SQLite\<close>

definition by_number :: "table \<Rightarrow> bool" where
  "by_number t \<longleftrightarrow> sorted_wrt (<) (map fst t)"

lemma by_number_insert:
  assumes "by_number t" "fst row \<notin> fst ` set t"
  shows "by_number (takeWhile (\<lambda>r. fst r < fst row) t @ row # dropWhile (\<lambda>r. fst r < fst row) t)"
  using assms
proof (induction t)
  case (Cons r t)
  then show ?case
    by (cases "fst r < fst row") (auto simp: by_number_def dest: set_takeWhileD set_dropWhileD)
qed (simp add: by_number_def)

lemma insert_place_last:
  "\<forall>r' \<in> set t. fst r' < fst row \<Longrightarrow> takeWhile (\<lambda>r. fst r < fst row) t @ row # dropWhile (\<lambda>r. fst r < fst row) t = t @ [row]"
  by (induction t) auto

interpretation sqlite: sql_table sqlite_conn "\<lambda>t. t" by_number
proof
  show "\<exists>r \<in> set t. fst r = n \<and> entry_hash (entry_from_fields r) = h \<and> (\<forall>r' \<in> set t. fst r' \<le> n)"
    if "by_number t" "q_tail sqlite_conn t = Inr (Some (n, h))" for t n h
  proof -
    have t: "t \<noteq> []" "fst (last t) = n" "entry_hash (entry_from_fields (last t)) = h"
      using that(2) by (simp_all add: sqlite_conn_def row_hash_entry split: if_split_asm)
    moreover have "fst r' \<le> fst (last t)" if "r' \<in> set t" for r'
      using \<open>by_number t\<close> that t(1) by (induction t) (auto simp: by_number_def intro: less_imp_le)
    ultimately show ?thesis by (metis last_in_set)
  qed
  show "by_number t' \<and> fst r \<notin> fst ` set t" if "by_number t" "q_insert sqlite_conn t r = (Inr u, t')" for t r u t'
    using that by_number_insert [of t r] by (simp add: sqlite_conn_def sqlite_insert_def split: if_split_asm)
  show "t' = t @ [r]" if "by_number t" "q_insert sqlite_conn t r = (Inr u, t')" "\<forall>r' \<in> set t. fst r' < fst r" for t r u t'
    using that(2) insert_place_last [OF that(3)] by (simp add: sqlite_conn_def sqlite_insert_def split: if_split_asm)
qed (simp_all add: sqlite_conn_def split: if_split_asm)

section \<open>Properties\<close>

text \<open>
  The primary key is enough to keep the chain whole. Let a writer read the tail and build its entry, and let others extend
  the table before it inserts, as if there were no lock: the insert succeeds only if nobody did, and then the table is
  the chain with this one entry more.
\<close>

theorem primary_key_prevents_forks:
  assumes "sql_table cn rows proper" "proper w0" "proper w1"
    and "linked (map entry_from_fields (rows w0))" "linked (map entry_from_fields (rows w1))"
    and "map entry_from_fields (rows w1) = map entry_from_fields (rows w0) @ new" "honest build"
    and "q_tail cn w0 = Inr row" "build_on build row = Inr (e, r)" "q_insert cn w1 r = (Inr u, w2)"
  shows "new = [] \<and> map entry_from_fields (rows w2) = map entry_from_fields (rows w1) @ [e]
    \<and> linked (map entry_from_fields (rows w2))"
  using sql_table.stale_insert [OF assms] assms(6) by simp

text \<open>
  A Postgres append is the in-memory append or nothing: when it returns, the rows are those of the in-memory backend after
  the same append, and when it raises, for whatever reason of the builder, the lock or the database, the table is the one
  it found. What is read back is what is stored, in that order.
\<close>

theorem postgres_refines_memory:
  assumes "sql_table cn rows proper" "proper w" "linked (map entry_from_fields (rows w))" "honest build"
    and "postgres_append cn w build = (r, w')"
  shows "(case r of
      Inl _ \<Rightarrow> w' = w
    | Inr e \<Rightarrow> memory_append (map entry_from_fields (rows w)) build = (Inr e, map entry_from_fields (rows w'))
        \<and> linked (map entry_from_fields (rows w')))
    \<and> (\<forall>es. postgres_entries cn w' = Inr es \<longrightarrow> es = map entry_from_fields (rows w'))"
proof -
  note a = sql_table.append_chain [OF assms(1-4), of r w'] assms(5) [unfolded postgres_append_def]
  then have "proper w'" using assms(2) by (cases r) auto
  then have "\<forall>es. postgres_entries cn w' = Inr es \<longrightarrow> es = map entry_from_fields (rows w')"
    using sql_table.select_all [OF assms(1)] by (auto simp: postgres_entries_def sql_entries_def res_elims)
  then show ?thesis using a by (cases r) auto
qed

text \<open>C23. 
  A SQLite append is the in-memory append, result and rows alike, errors of the builder included, for every entry whose number
  fits the column and whose texts encode; and what is read back is the rows of the in-memory backend.
\<close>

theorem sqlite_refines_memory:
  assumes "sqlite_entries t = Inr es" "linked es" "honest build" "int (length es) < 2 ^ 63"
    and "\<And>e p s. build (next_seq es) (next_prev es) = Inr e \<Longrightarrow> payload e = Some p \<Longrightarrow> s \<in> set (texts (insert_values e p)) \<Longrightarrow> utf8_encode s \<noteq> None"
  shows "fst (sqlite_append t build) = fst (memory_append es build)
    \<and> sqlite_entries (snd (sqlite_append t build)) = Inr (snd (memory_append es build))"
proof -
  have es: "es = map entry_from_fields t" using assms(1) by (simp add: sqlite_entries_def sql_entries_def sqlite_conn_def)
  have at: "fst (t ! j) = int j" if "j < length t" for j using linked_rows [of t j] assms(2) es that by simp
  have t: "by_number t" unfolding by_number_def using at by (auto simp: sorted_wrt_iff_nth_less)
  obtain q where q: "q_tail sqlite_conn t = Inr q" by (simp add: sqlite_conn_def)
  note nx = sqlite.tail_next [OF t _ q] linked_next [OF assms(2)]
  have q2: "next_of q = (next_seq es, next_prev es)" using nx assms(2) es by simp
  have app: "sqlite_append t build = (case build_on build q of
        Inl x \<Rightarrow> (Inl x, t)
      | Inr (e, row) \<Rightarrow> (case sqlite_insert t row of (Inl x, _) \<Rightarrow> (Inl x, t) | (Inr _, t') \<Rightarrow> (Inr e, t')))"
    using q by (cases "build_on build q") (simp_all add: sqlite_append_def sql_append_def sqlite_conn_def case_prod_beta)
  have mem: "memory_append es build = (case build (next_seq es) (next_prev es) of
        Inl x \<Rightarrow> (Inl x, es)
      | Inr e \<Rightarrow> if payload e = None then (Inl ValueError, es) else (Inr e, es @ [e]))"
    by (simp add: memory_append_def next_seq_def next_prev_def)
  have read: "sqlite_entries t' = Inr (map entry_from_fields t')" for t' by (simp add: sqlite_entries_def sql_entries_def sqlite_conn_def)
  show ?thesis
  proof (cases "build_on build q")
    case (Inl x)
    then have "memory_append es build = (Inl x, es)"
      using q2 by (auto simp: mem build_on_def res_elims split: option.split_asm)
    then show ?thesis using Inl app assms(1) by simp
  next
    case (Inr er)
    then obtain e row where er: "build_on build q = Inr (e, row)" by (cases er) auto
    note b = build_on_Inr [OF er assms(3)]
    obtain p where p: "payload e = Some p" "row = insert_values e p" using er by (auto simp: build_on_def res_elims split: option.split_asm)
    have n: "fst row = int (length t)" using b(2) q2 nx es assms(2) by simp
    have below: "\<forall>r \<in> set t. fst r < fst row" using n at by (metis in_set_conv_nth of_nat_less_iff)
    then have "fst row \<notin> fst ` set t" by fastforce
    moreover have "fits_int64 (fst row)" using n assms(4) es by (simp add: fits_int64_def)
    moreover have "\<forall>s \<in> set (texts row). utf8_encode s \<noteq> None" using assms(5) b(4) q2 p by simp
    ultimately have "sqlite_insert t row = (Inr (), t @ [row])"
      using insert_place_last [OF below] by (simp add: sqlite_insert_def)
    then have "sqlite_append t build = (Inr e, t @ [row])" using app er by simp
    moreover have "memory_append es build = (Inr e, es @ [e])" using b(4) q2 p(1) by (simp add: mem)
    ultimately show ?thesis using b(1) read es by simp
  qed
qed

text \<open>The first entry of an empty table.\<close>

lemma sample_first: "build_on sample_build None = Inr (entry_of zeros, insert_values (entry_of zeros) [])"
  by (simp add: build_on_def next_of_def sample_build_def entry_of_def)

lemma sample_texts: "s \<in> set (texts (insert_values (entry_of zeros) [])) \<Longrightarrow> utf8_encode s \<noteq> None"
  using ascii_utf8 [of "replicate 64 48"]
  by (auto simp: texts_def insert_values_def entry_of_def zeros_def GENESIS_PREV_HASH_def)

lemma sample_sqlite_append:
  "sqlite_append [] sample_build = (Inr (entry_of zeros), [insert_values (entry_of zeros) []])"
  using sample_first sample_texts
  by (auto simp: sqlite_append_def sql_append_def sqlite_conn_def sqlite_insert_def fits_int64_def insert_values_def entry_of_def)

theorem primary_key_prevents_forks_witness:
  "\<exists>t. q_insert sqlite_conn [] (insert_values (entry_of zeros) []) = (Inr (), t) \<and> map entry_from_fields t = [entry_of zeros]"
proof -
  have ins: "q_insert sqlite_conn [] (insert_values (entry_of zeros) []) = (Inr (), [insert_values (entry_of zeros) []])"
    using sample_texts by (auto simp: sqlite_conn_def sqlite_insert_def fits_int64_def insert_values_def entry_of_def)
  have tail: "q_tail sqlite_conn [] = Inr None" by (simp add: sqlite_conn_def)
  have e: "by_number []" "linked (map entry_from_fields [])" by (simp_all add: by_number_def linked_def)
  have "map entry_from_fields [insert_values (entry_of zeros) []] = [entry_of zeros]"
    using primary_key_prevents_forks [OF sqlite.sql_table_axioms e(1,1,2,2) _ sample_build_honest tail sample_first ins, of "[]"]
    by simp
  then show ?thesis using ins by (intro exI conjI)
qed

theorem postgres_refines_memory_witness:
  "\<exists>t. postgres_append sqlite_conn [] sample_build = (Inr (entry_of zeros), t)
    \<and> memory_append [] sample_build = (Inr (entry_of zeros), map entry_from_fields t)"
proof -
  have run: "postgres_append sqlite_conn [] sample_build = (Inr (entry_of zeros), [insert_values (entry_of zeros) []])"
    using sample_sqlite_append by (simp add: sqlite_append_def postgres_append_def)
  show ?thesis
    using postgres_refines_memory [OF sqlite.sql_table_axioms _ _ sample_build_honest run] run
    by (intro exI [of _ "[insert_values (entry_of zeros) []]"]) (simp add: by_number_def linked_def)
qed

theorem sqlite_refines_memory_witness:
  "fst (sqlite_append [] sample_build) = Inr (entry_of zeros) \<and> sqlite_entries (snd (sqlite_append [] sample_build)) = Inr [entry_of zeros]"
proof -
  have b: "sample_build (next_seq []) (next_prev []) = Inr (entry_of zeros)" "payload (entry_of zeros) = Some []"
    by (simp_all add: sample_build_def next_seq_def next_prev_def entry_of_def)
  have "sqlite_entries [] = Inr []" by (simp add: sqlite_entries_def sql_entries_def sqlite_conn_def)
  moreover have "utf8_encode s \<noteq> None"
    if "sample_build (next_seq []) (next_prev []) = Inr e" "payload e = Some p" "s \<in> set (texts (insert_values e p))" for e p s
    using that b sample_texts by simp
  ultimately show ?thesis
    using sqlite_refines_memory [of "[]" "[]" sample_build] sample_build_honest sample_build_first by (simp add: linked_def)
qed

end
