(* ===== verification/Records.thy ===== *)
theory Records
  imports AuditLog
begin

text \<open>
  The payload schemas the package defines on top of the chain: decisions (\<^verbatim>\<open>domain/decision.py\<close>), human interventions
  (\<^verbatim>\<open>domain/intervention.py\<close>) and incidents (\<^verbatim>\<open>domain/incident.py\<close>), with the readers that walk a trail for them (\<^verbatim>\<open>sources/decisions.py\<close>,
  \<^verbatim>\<open>sources/interventions.py\<close>, \<^verbatim>\<open>sources/incidents.py\<close>) and the reading of an incident against a reporting window. What \<^verbatim>\<open>json.loads\<close> makes of a
  payload is the argument \<open>loads\<close>; what the rules ask of a float is the record \<open>floats\<close>; a timestamp is what \<^verbatim>\<open>fromisoformat\<close> makes of
  its text, a local time in microseconds and, if it has one, its offset. Texts of reasons and of listings are not modelled.
\<close>

section \<open>Fields\<close>

definition require_nonempty :: "json \<Rightarrow> pystr res" where
  "require_nonempty v = (case v of JStr s \<Rightarrow> if s = [] then Inl ValueError else Inr s | _ \<Rightarrow> Inl ValueError)"

definition require_digest :: "json \<Rightarrow> pystr res" where
  "require_digest v = (case v of JStr s \<Rightarrow> if hex64 s then Inr s else Inl ValueError | _ \<Rightarrow> Inl ValueError)"

definition decision_optional_str :: "json \<Rightarrow> pystr option res" where
  "decision_optional_str v = (case v of JNull \<Rightarrow> Inr None | JStr s \<Rightarrow> Inr (Some s) | _ \<Rightarrow> Inl ValueError)"

definition or_null :: "pystr option \<Rightarrow> json" where
  "or_null v = (case v of None \<Rightarrow> JNull | Some s \<Rightarrow> JStr s)"

section \<open>Decisions\<close>

text \<open>\<^verbatim>\<open>float(n)\<close> of an integer, and the test for a finite number from 0 to 1.\<close>

record floats =
  fl_of_int :: "int \<Rightarrow> pyfloat res"
  fl_unit :: "pyfloat \<Rightarrow> bool"

datatype number = NInt int | NFloat pyfloat

record model_ref =
  mr_name :: pystr
  mr_version :: pystr
  mr_digest :: "pystr option"

record human_oversight =
  ho_mode :: pystr
  ho_reviewer :: "pystr option"
  ho_action :: "pystr option"

record decision_record =
  dr_id :: pystr
  dr_type :: pystr
  dr_system :: pystr
  dr_model :: model_ref
  dr_commitment :: pystr
  dr_outcome :: pystr
  dr_rationale :: "pystr option"
  dr_policy :: "pystr option"
  dr_confidence :: "number option"
  dr_oversight :: "human_oversight option"
  dr_subject :: "pystr option"
  dr_trace :: "pystr option"
  dr_risk :: "pystr option"
  dr_classification :: "pystr option"

definition DECISION_PAYLOAD_TYPE :: pystr where
  "DECISION_PAYLOAD_TYPE = str ''application/vnd.waxseal.ai-decision.v1+json''"

definition make_model_ref :: "json \<Rightarrow> json \<Rightarrow> json \<Rightarrow> model_ref res" where
  "make_model_ref nm v d =
     res_bind (require_nonempty nm) (\<lambda>nm. res_bind (require_nonempty v) (\<lambda>v.
     res_map (\<lambda>d. \<lparr>mr_name = nm, mr_version = v, mr_digest = d\<rparr>)
       (if d = JNull then Inr None else res_map Some (require_digest d))))"

definition make_oversight :: "json \<Rightarrow> json \<Rightarrow> json \<Rightarrow> human_oversight res" where
  "make_oversight m r a =
     res_bind (require_nonempty m) (\<lambda>m. res_bind (decision_optional_str r) (\<lambda>r.
     res_map (\<lambda>a. \<lparr>ho_mode = m, ho_reviewer = r, ho_action = a\<rparr>) (decision_optional_str a)))"

text \<open>A number given to the constructor: the finiteness test converts an integer to a float first.\<close>

definition check_confidence :: "floats \<Rightarrow> number option \<Rightarrow> unit res" where
  "check_confidence fl c =
     (case c of
        None \<Rightarrow> Inr ()
      | Some (NInt n) \<Rightarrow> res_bind (fl_of_int fl n) (\<lambda>_. if 0 \<le> n \<and> n \<le> 1 then Inr () else Inl ValueError)
      | Some (NFloat f) \<Rightarrow> if fl_unit fl f then Inr () else Inl ValueError)"

definition make_decision :: "floats \<Rightarrow> jobj \<Rightarrow> model_ref \<Rightarrow> number option \<Rightarrow> human_oversight option \<Rightarrow> decision_record res" where
  "make_decision fl fs md conf ov =
     res_bind (require_nonempty (jget_null fs ''decision_id'')) (\<lambda>i.
     res_bind (require_nonempty (jget_null fs ''decision_type'')) (\<lambda>ty.
     res_bind (require_nonempty (jget_null fs ''system_id'')) (\<lambda>sy.
     res_bind (require_digest (jget_null fs ''input_commitment'')) (\<lambda>ic.
     res_bind (require_nonempty (jget_null fs ''outcome'')) (\<lambda>oc.
     res_bind (decision_optional_str (jget_null fs ''rationale'')) (\<lambda>ra.
     res_bind (decision_optional_str (jget_null fs ''policy_version'')) (\<lambda>po.
     res_bind (decision_optional_str (jget_null fs ''subject_ref'')) (\<lambda>su.
     res_bind (decision_optional_str (jget_null fs ''trace_id'')) (\<lambda>tr.
     res_bind (decision_optional_str (jget_null fs ''risk_tier'')) (\<lambda>ri.
     res_bind (decision_optional_str (jget_null fs ''classification_ref'')) (\<lambda>cl.
     res_map (\<lambda>_. \<lparr>dr_id = i, dr_type = ty, dr_system = sy, dr_model = md, dr_commitment = ic, dr_outcome = oc, dr_rationale = ra,
                dr_policy = po, dr_confidence = conf, dr_oversight = ov, dr_subject = su, dr_trace = tr, dr_risk = ri,
                dr_classification = cl\<rparr>)
       (check_confidence fl conf))))))))))))"

definition number_json :: "number option \<Rightarrow> json" where
  "number_json c = (case c of None \<Rightarrow> JNull | Some (NInt n) \<Rightarrow> JInt n | Some (NFloat f) \<Rightarrow> JFloat f)"

definition decision_to_payload :: "decision_record \<Rightarrow> jobj" where
  "decision_to_payload r =
     [(str ''decision_id'', JStr (dr_id r)), (str ''decision_type'', JStr (dr_type r)), (str ''system_id'', JStr (dr_system r)),
      (str ''model'', JObj [(str ''name'', JStr (mr_name (dr_model r))), (str ''version'', JStr (mr_version (dr_model r))),
                          (str ''digest'', or_null (mr_digest (dr_model r)))]),
      (str ''input_commitment'', JStr (dr_commitment r)), (str ''outcome'', JStr (dr_outcome r)),
      (str ''rationale'', or_null (dr_rationale r)), (str ''policy_version'', or_null (dr_policy r)),
      (str ''confidence'', number_json (dr_confidence r)),
      (str ''human_oversight'', case dr_oversight r of
         None \<Rightarrow> JNull
       | Some o1 \<Rightarrow> JObj [(str ''mode'', JStr (ho_mode o1)), (str ''reviewer_ref'', or_null (ho_reviewer o1)), (str ''action'', or_null (ho_action o1))]),
      (str ''subject_ref'', or_null (dr_subject r)), (str ''trace_id'', or_null (dr_trace r)),
      (str ''risk_tier'', or_null (dr_risk r)), (str ''classification_ref'', or_null (dr_classification r))]"

text \<open>The confidence read back is a float; an integer too large for one raises here.\<close>

definition read_confidence :: "floats \<Rightarrow> json \<Rightarrow> number option res" where
  "read_confidence fl v =
     (case v of
        JNull \<Rightarrow> Inr None
      | JInt n \<Rightarrow> res_map (\<lambda>f. Some (NFloat f)) (fl_of_int fl n)
      | JFloat f \<Rightarrow> Inr (Some (NFloat f))
      | _ \<Rightarrow> Inl ValueError)"

definition read_oversight :: "json \<Rightarrow> human_oversight option res" where
  "read_oversight v =
     (case v of
        JNull \<Rightarrow> Inr None
      | JObj os \<Rightarrow> res_map Some (make_oversight (jget_null os ''mode'') (jget_null os ''reviewer_ref'') (jget_null os ''action''))
      | _ \<Rightarrow> Inl ValueError)"

definition decision_from_payload :: "floats \<Rightarrow> json \<Rightarrow> decision_record res" where
  "decision_from_payload fl v =
     (case v of
        JObj fs \<Rightarrow>
          (case jget_null fs ''model'' of
             JObj ms \<Rightarrow>
               res_bind (case jget_null fs ''human_oversight'' of JNull \<Rightarrow> Inr () | JObj _ \<Rightarrow> Inr () | _ \<Rightarrow> Inl ValueError) (\<lambda>_.
               res_bind (read_confidence fl (jget_null fs ''confidence'')) (\<lambda>conf.
               res_bind (make_model_ref (jget_null ms ''name'') (jget_null ms ''version'') (jget_null ms ''digest'')) (\<lambda>md.
               res_bind (read_oversight (jget_null fs ''human_oversight'')) (make_decision fl fs md conf))))
           | _ \<Rightarrow> Inl ValueError)
      | _ \<Rightarrow> Inl ValueError)"

section \<open>Interventions\<close>

record intervention_record =
  iv_id :: pystr
  iv_system :: pystr
  iv_actor :: pystr
  iv_action :: pystr
  iv_decision :: "pystr option"
  iv_rationale :: "pystr option"
  iv_trace :: "pystr option"

definition INTERVENTION_PAYLOAD_TYPE :: pystr where
  "INTERVENTION_PAYLOAD_TYPE = str ''application/vnd.waxseal.human-intervention.v1+json''"

definition intervention_to_payload :: "intervention_record \<Rightarrow> jobj" where
  "intervention_to_payload r =
     [(str ''intervention_id'', JStr (iv_id r)), (str ''system_id'', JStr (iv_system r)), (str ''actor_ref'', JStr (iv_actor r)),
      (str ''action'', JStr (iv_action r)), (str ''decision_ref'', or_null (iv_decision r)), (str ''rationale'', or_null (iv_rationale r)),
      (str ''trace_id'', or_null (iv_trace r))]"

definition intervention_from_payload :: "json \<Rightarrow> intervention_record res" where
  "intervention_from_payload v =
     (case v of
        JObj fs \<Rightarrow>
          res_bind (require_nonempty (jget_null fs ''intervention_id'')) (\<lambda>i.
          res_bind (require_nonempty (jget_null fs ''system_id'')) (\<lambda>sy.
          res_bind (require_nonempty (jget_null fs ''actor_ref'')) (\<lambda>ar.
          res_bind (require_nonempty (jget_null fs ''action'')) (\<lambda>ac.
          res_bind (decision_optional_str (jget_null fs ''decision_ref'')) (\<lambda>d.
          res_bind (decision_optional_str (jget_null fs ''rationale'')) (\<lambda>ra.
          res_map (\<lambda>tr. \<lparr>iv_id = i, iv_system = sy, iv_actor = ar, iv_action = ac, iv_decision = d, iv_rationale = ra, iv_trace = tr\<rparr>)
            (decision_optional_str (jget_null fs ''trace_id''))))))))
      | _ \<Rightarrow> Inl ValueError)"

section \<open>Incidents\<close>

record incident_record =
  in_id :: pystr
  in_system :: pystr
  in_detected :: pystr
  in_severity :: pystr
  in_confirmed :: "pystr option"
  in_summary :: "pystr option"
  in_kinds :: "pystr list"
  in_status :: "pystr option"
  in_report :: "pystr option"
  in_reported :: "pystr option"
  in_trace :: "pystr option"

definition INCIDENT_PAYLOAD_TYPE :: pystr where
  "INCIDENT_PAYLOAD_TYPE = str ''application/vnd.waxseal.ai-incident.v1+json''"

definition incident_to_payload :: "incident_record \<Rightarrow> jobj" where
  "incident_to_payload r =
     [(str ''incident_id'', JStr (in_id r)), (str ''system_id'', JStr (in_system r)), (str ''detected_at'', JStr (in_detected r)),
      (str ''severity'', JStr (in_severity r)), (str ''confirmed_at'', or_null (in_confirmed r)), (str ''summary'', or_null (in_summary r)),
      (str ''consequence_kinds'', JList (map JStr (in_kinds r))), (str ''operating_status'', or_null (in_status r)),
      (str ''report_ref'', or_null (in_report r)), (str ''reported_at'', or_null (in_reported r)), (str ''trace_id'', or_null (in_trace r))]"

definition read_kinds :: "json \<Rightarrow> json list res" where
  "read_kinds v = (case v of JNull \<Rightarrow> Inr [] | JList vs \<Rightarrow> Inr vs | _ \<Rightarrow> Inl ValueError)"

definition incident_from_payload :: "json \<Rightarrow> incident_record res" where
  "incident_from_payload v =
     (case v of
        JObj fs \<Rightarrow>
          res_bind (read_kinds (jget_null fs ''consequence_kinds'')) (\<lambda>kinds.
          res_bind (require_nonempty (jget_null fs ''incident_id'')) (\<lambda>i.
          res_bind (require_nonempty (jget_null fs ''system_id'')) (\<lambda>sy.
          res_bind (require_nonempty (jget_null fs ''detected_at'')) (\<lambda>de.
          res_bind (require_nonempty (jget_null fs ''severity'')) (\<lambda>se.
          res_bind (decision_optional_str (jget_null fs ''confirmed_at'')) (\<lambda>co.
          res_bind (decision_optional_str (jget_null fs ''summary'')) (\<lambda>su.
          res_bind (decision_optional_str (jget_null fs ''operating_status'')) (\<lambda>op.
          res_bind (decision_optional_str (jget_null fs ''report_ref'')) (\<lambda>rr.
          res_bind (decision_optional_str (jget_null fs ''reported_at'')) (\<lambda>ra.
          res_bind (decision_optional_str (jget_null fs ''trace_id'')) (\<lambda>tr.
          res_map (\<lambda>ks. \<lparr>in_id = i, in_system = sy, in_detected = de, in_severity = se, in_confirmed = co, in_summary = su,
                     in_kinds = ks, in_status = op, in_report = rr, in_reported = ra, in_trace = tr\<rparr>)
            (res_mapM require_nonempty kinds))))))))))))
      | _ \<Rightarrow> Inl ValueError)"

section \<open>Reading a trail\<close>

text \<open>
  One row of a payload type: the record, or nothing if its payload is not at hand or does not read. The readers catch
  \<^verbatim>\<open>ValueError\<close> and \<^verbatim>\<open>TypeError\<close>.
\<close>

definition read_row :: "(bytes \<Rightarrow> json res) \<Rightarrow> (json \<Rightarrow> 'r res) \<Rightarrow> entry \<Rightarrow> 'r option res" where
  "read_row loads parse e =
     (case payload e of
        None \<Rightarrow> Inr None
      | Some p \<Rightarrow>
          (case res_bind (loads p) parse of
             Inr r \<Rightarrow> Inr (Some r)
           | Inl x \<Rightarrow> if is_ValueError x \<or> x = TypeError then Inr None else Inl x))"

text \<open>The walks of \<^verbatim>\<open>sources/\<close>: the rows of a type, those that match the filter if there is one.\<close>

fun iter_rows :: "(bytes \<Rightarrow> json res) \<Rightarrow> pystr \<Rightarrow> (json \<Rightarrow> 'r res) \<Rightarrow> ('r \<Rightarrow> bool) option \<Rightarrow> entry list \<Rightarrow> (entry \<times> 'r option) res list" where
  "iter_rows loads ptype parse matching [] = []"
| "iter_rows loads ptype parse matching (e # es) =
     (if payload_type (header e) \<noteq> ptype then iter_rows loads ptype parse matching es
      else (case read_row loads parse e of
              Inl x \<Rightarrow> [Inl x]
            | Inr r \<Rightarrow>
                (if (case matching of None \<Rightarrow> True | Some ok \<Rightarrow> (case r of None \<Rightarrow> False | Some rec \<Rightarrow> ok rec)) then [Inr (e, r)] else [])
                @ iter_rows loads ptype parse matching es))"

definition iter_decisions :: "floats \<Rightarrow> (bytes \<Rightarrow> json res) \<Rightarrow> pystr option \<Rightarrow> entry list \<Rightarrow> (entry \<times> decision_record option) res list" where
  "iter_decisions fl loads ty = iter_rows loads DECISION_PAYLOAD_TYPE (decision_from_payload fl) (map_option (\<lambda>t r. dr_type r = t) ty)"

definition iter_interventions :: "(bytes \<Rightarrow> json res) \<Rightarrow> pystr option \<Rightarrow> entry list \<Rightarrow> (entry \<times> intervention_record option) res list" where
  "iter_interventions loads dref = iter_rows loads INTERVENTION_PAYLOAD_TYPE intervention_from_payload (map_option (\<lambda>d r. iv_decision r = Some d) dref)"

definition iter_incidents :: "(bytes \<Rightarrow> json res) \<Rightarrow> pystr option \<Rightarrow> entry list \<Rightarrow> (entry \<times> incident_record option) res list" where
  "iter_incidents loads i = iter_rows loads INCIDENT_PAYLOAD_TYPE incident_from_payload (map_option (\<lambda>k r. in_id r = k) i)"

record intervention_scan =
  is_records :: "(int \<times> intervention_record) list"
  is_unreadable :: "int list"

fun scan_interventions_from :: "(bytes \<Rightarrow> json res) \<Rightarrow> intervention_scan \<Rightarrow> entry list \<Rightarrow> intervention_scan res" where
  "scan_interventions_from loads sc [] = Inr sc"
| "scan_interventions_from loads sc (e # es) =
     (if payload_type (header e) \<noteq> INTERVENTION_PAYLOAD_TYPE then scan_interventions_from loads sc es
      else (case read_row loads intervention_from_payload e of
              Inl x \<Rightarrow> Inl x
            | Inr None \<Rightarrow> scan_interventions_from loads (sc\<lparr>is_unreadable := is_unreadable sc @ [seq (header e)]\<rparr>) es
            | Inr (Some r) \<Rightarrow> scan_interventions_from loads (sc\<lparr>is_records := is_records sc @ [(seq (header e), r)]\<rparr>) es))"

definition scan_interventions :: "(bytes \<Rightarrow> json res) \<Rightarrow> entry list \<Rightarrow> intervention_scan res" where
  "scan_interventions loads es = scan_interventions_from loads \<lparr>is_records = [], is_unreadable = []\<rparr> es"

record incident_view =
  vw_id :: pystr
  vw_first :: int
  vw_latest_seq :: int
  vw_rows :: nat
  vw_latest :: incident_record

record incident_scan =
  ic_views :: "incident_view list"
  ic_unreadable :: "int list"

text \<open>The fold keeps the ids in the order they appear and the view of each.\<close>

definition fold_row :: "int \<Rightarrow> incident_record \<Rightarrow> pystr list \<Rightarrow> (pystr \<Rightarrow> incident_view option) \<Rightarrow> pystr list \<times> (pystr \<Rightarrow> incident_view option)" where
  "fold_row n r order folded =
     (case folded (in_id r) of
        None \<Rightarrow> (order @ [in_id r], folded(in_id r \<mapsto> \<lparr>vw_id = in_id r, vw_first = n, vw_latest_seq = n, vw_rows = 1, vw_latest = r\<rparr>))
      | Some w \<Rightarrow> (order, folded(in_id r \<mapsto> \<lparr>vw_id = vw_id w, vw_first = vw_first w, vw_latest_seq = n, vw_rows = vw_rows w + 1, vw_latest = r\<rparr>)))"

fun scan_incidents_from ::
  "(bytes \<Rightarrow> json res) \<Rightarrow> pystr list \<Rightarrow> (pystr \<Rightarrow> incident_view option) \<Rightarrow> int list \<Rightarrow> entry list \<Rightarrow> incident_scan res" where
  "scan_incidents_from loads order folded bad [] = Inr \<lparr>ic_views = map (\<lambda>i. the (folded i)) order, ic_unreadable = bad\<rparr>"
| "scan_incidents_from loads order folded bad (e # es) =
     (if payload_type (header e) \<noteq> INCIDENT_PAYLOAD_TYPE then scan_incidents_from loads order folded bad es
      else (case read_row loads incident_from_payload e of
              Inl x \<Rightarrow> Inl x
            | Inr None \<Rightarrow> scan_incidents_from loads order folded (bad @ [seq (header e)]) es
            | Inr (Some r) \<Rightarrow>
                (case fold_row (seq (header e)) r order folded of
                   (order', folded') \<Rightarrow> scan_incidents_from loads order' folded' bad es)))"

definition scan_incidents :: "(bytes \<Rightarrow> json res) \<Rightarrow> entry list \<Rightarrow> incident_scan res" where
  "scan_incidents loads es = scan_incidents_from loads [] (\<lambda>_. None) [] es"

section \<open>Recording\<close>

definition record_decision :: "(bytes \<Rightarrow> bytes) \<Rightarrow> 'b config \<Rightarrow> environment \<Rightarrow> 'b log \<Rightarrow> decision_record \<Rightarrow> entry res \<times> 'b log" where
  "record_decision sha cfg env lg r = log_append sha cfg env lg (PDict (decision_to_payload r)) DECISION_PAYLOAD_TYPE"

definition record_intervention :: "(bytes \<Rightarrow> bytes) \<Rightarrow> 'b config \<Rightarrow> environment \<Rightarrow> 'b log \<Rightarrow> intervention_record \<Rightarrow> entry res \<times> 'b log" where
  "record_intervention sha cfg env lg r = log_append sha cfg env lg (PDict (intervention_to_payload r)) INTERVENTION_PAYLOAD_TYPE"

definition record_incident :: "(bytes \<Rightarrow> bytes) \<Rightarrow> 'b config \<Rightarrow> environment \<Rightarrow> 'b log \<Rightarrow> incident_record \<Rightarrow> entry res \<times> 'b log" where
  "record_incident sha cfg env lg r = log_append sha cfg env lg (PDict (incident_to_payload r)) INCIDENT_PAYLOAD_TYPE"

definition commit_input :: "(bytes \<Rightarrow> bytes) \<Rightarrow> (jobj \<Rightarrow> jobj res) option \<Rightarrow> log_payload \<Rightarrow> pystr res" where
  "commit_input sha redactor p =
     (case p of
        PBytes b \<Rightarrow> if redactor \<noteq> None then Inl ValueError else Inr (hex (sha b))
      | POther \<Rightarrow> Inl TypeError
      | PDict d \<Rightarrow> res_map (\<lambda>b. hex (sha b)) (res_bind (case redactor of None \<Rightarrow> Inr d | Some rd \<Rightarrow> rd d) canonical_json))"

section \<open>The reporting window\<close>

record moment =
  mo_local :: int
  mo_offset :: "int option"

datatype window_outcome = WithinWindow | AfterWindow | WindowOpen | NoReportPastWindow | Unmeasured

text \<open>The reading with the elapsed time, in microseconds, that the hours are computed from.\<close>

record window_reading =
  wr_status :: window_outcome
  wr_elapsed :: "int option"

definition unmeasured :: window_reading where
  "unmeasured = \<lparr>wr_status = Unmeasured, wr_elapsed = None\<rparr>"

definition reading :: "window_outcome \<Rightarrow> int \<Rightarrow> window_reading" where
  "reading st t = \<lparr>wr_status = st, wr_elapsed = Some t\<rparr>"

text \<open>An instant, if the text parses and names its offset.\<close>

definition instant :: "moment \<Rightarrow> int option" where
  "instant m = map_option (\<lambda>o1. mo_local m - o1) (mo_offset m)"

definition parse_offset_aware :: "(pystr \<Rightarrow> moment option) \<Rightarrow> pystr \<Rightarrow> int option" where
  "parse_offset_aware fromiso raw = (case fromiso raw of None \<Rightarrow> None | Some m \<Rightarrow> instant m)"

definition window_status :: "(pystr \<Rightarrow> moment option) \<Rightarrow> int \<Rightarrow> moment \<Rightarrow> incident_view \<Rightarrow> window_reading" where
  "window_status fromiso window now w =
     (case in_confirmed (vw_latest w) of
        None \<Rightarrow> unmeasured
      | Some raw \<Rightarrow>
          (case parse_offset_aware fromiso raw of
             None \<Rightarrow> unmeasured
           | Some confirmed \<Rightarrow>
               (case in_reported (vw_latest w) of
                  None \<Rightarrow>
                    (if in_report (vw_latest w) \<noteq> None then unmeasured
                     else (case instant now of
                             None \<Rightarrow> unmeasured
                           | Some t \<Rightarrow>
                               if t < confirmed then unmeasured
                               else if t - confirmed \<le> window then reading WindowOpen (t - confirmed)
                               else reading NoReportPastWindow (t - confirmed)))
                | Some raw' \<Rightarrow>
                    (case parse_offset_aware fromiso raw' of
                       None \<Rightarrow> unmeasured
                     | Some reported \<Rightarrow>
                         if reported < confirmed then unmeasured
                         else if reported - confirmed \<le> window then reading WithinWindow (reported - confirmed)
                         else reading AfterWindow (reported - confirmed)))))"

section \<open>Reading back what was written\<close>

lemmas field_defs = require_nonempty_def require_digest_def decision_optional_str_def or_null_def

lemma jget_null_Cons: "jget_null ((str a, v) # fs) k = (if a = k then v else jget_null fs k)"
  by (simp add: jget_null_def jget_Cons)

text \<open>A canonical payload comes back with its keys sorted, which the parsers do not see.\<close>

lemma norm_obj:
  assumes "distinct (map fst fs)"
  obtains gs where "norm (JObj fs) = JObj gs" "\<And>k. jget_null gs k = norm (jget_null fs k)"
proof -
  let ?h = "map (\<lambda>(k, v). (k, norm v)) fs" and ?gs = "sort_key fst (map (\<lambda>(k, v). (k, norm v)) fs)"
  have d: "distinct (map fst ?h)" using assms by (simp add: case_prod_beta comp_def)
  then have "distinct ?h" "inj_on fst (set ?h)" by (simp_all only: distinct_map)
  then have "distinct (map fst ?gs)" by (simp only: distinct_map distinct_sort set_sort)
  with d have "map_of ?gs = map_of ?h" by (intro map_of_inject_set [THEN iffD2]) simp_all
  moreover have "map_of ?h k = map_option norm (map_of fs k)" for k by (induction fs) auto
  ultimately have "jget_null ?gs k = norm (jget_null fs k)" for k
    by (cases "map_of fs (str k)") (simp_all add: jget_null_def jget_def)
  then show thesis using that [of ?gs] by simp
qed

lemma norm_or_null: "norm (or_null v) = or_null v"
  by (cases v) (simp_all add: or_null_def)

lemma optional_or_null [simp]: "decision_optional_str (or_null v) = Inr v"
  by (cases v) (simp_all add: field_defs)

lemma nonempty_JStr [simp]: "require_nonempty (JStr s) = (if s = [] then Inl ValueError else Inr s)"
  by (simp add: require_nonempty_def)

lemma digest_JStr [simp]: "require_digest (JStr s) = (if hex64 s then Inr s else Inl ValueError)"
  by (simp add: require_digest_def)

definition incident_ok :: "incident_record \<Rightarrow> bool" where
  "incident_ok r \<longleftrightarrow> in_id r \<noteq> [] \<and> in_system r \<noteq> [] \<and> in_detected r \<noteq> [] \<and> in_severity r \<noteq> [] \<and> [] \<notin> set (in_kinds r)"

lemma incident_round_trip:
  assumes "incident_ok r"
  shows "incident_from_payload (norm (JObj (incident_to_payload r))) = Inr r"
proof -
  have "distinct (map fst (incident_to_payload r))" by (simp add: incident_to_payload_def str_def)
  then obtain gs where gs: "norm (JObj (incident_to_payload r)) = JObj gs" "\<And>k. jget_null gs k = norm (jget_null (incident_to_payload r) k)"
    using norm_obj by blast
  have "res_mapM require_nonempty (map (norm \<circ> JStr) ks) = Inr ks" if "[] \<notin> set ks" for ks
    using that by (induction ks) auto
  then show ?thesis
    using assms gs by (simp add: incident_from_payload_def incident_to_payload_def jget_null_Cons norm_or_null read_kinds_def incident_ok_def)
qed

definition intervention_ok :: "intervention_record \<Rightarrow> bool" where
  "intervention_ok r \<longleftrightarrow> iv_id r \<noteq> [] \<and> iv_system r \<noteq> [] \<and> iv_actor r \<noteq> [] \<and> iv_action r \<noteq> []"

lemma intervention_round_trip:
  assumes "intervention_ok r"
  shows "intervention_from_payload (norm (JObj (intervention_to_payload r))) = Inr r"
proof -
  have "distinct (map fst (intervention_to_payload r))" by (simp add: intervention_to_payload_def str_def)
  then obtain gs where gs: "norm (JObj (intervention_to_payload r)) = JObj gs" "\<And>k. jget_null gs k = norm (jget_null (intervention_to_payload r) k)"
    using norm_obj by blast
  then show ?thesis
    using assms by (simp add: intervention_from_payload_def intervention_to_payload_def jget_null_Cons norm_or_null intervention_ok_def)
qed

text \<open>What the constructors let through; a confidence is a float once it was stored.\<close>

definition decision_ok :: "floats \<Rightarrow> decision_record \<Rightarrow> bool" where
  "decision_ok fl r \<longleftrightarrow>
     dr_id r \<noteq> [] \<and> dr_type r \<noteq> [] \<and> dr_system r \<noteq> [] \<and> hex64 (dr_commitment r) \<and> dr_outcome r \<noteq> []
     \<and> mr_name (dr_model r) \<noteq> [] \<and> mr_version (dr_model r) \<noteq> [] \<and> (\<forall>d. mr_digest (dr_model r) = Some d \<longrightarrow> hex64 d)
     \<and> (\<forall>w. dr_oversight r = Some w \<longrightarrow> ho_mode w \<noteq> [])
     \<and> (\<forall>c. dr_confidence r = Some c \<longrightarrow> (\<exists>f. c = NFloat f \<and> fl_unit fl f))"

lemma decision_round_trip:
  assumes "decision_ok fl r"
  shows "decision_from_payload fl (norm (JObj (decision_to_payload r))) = Inr r"
proof -
  let ?ms = "[(str ''name'', JStr (mr_name (dr_model r))), (str ''version'', JStr (mr_version (dr_model r))),
                          (str ''digest'', or_null (mr_digest (dr_model r)))]"
  have "distinct (map fst (decision_to_payload r))" by (simp add: decision_to_payload_def str_def)
  then obtain gs where gs: "norm (JObj (decision_to_payload r)) = JObj gs" "\<And>k. jget_null gs k = norm (jget_null (decision_to_payload r) k)"
    using norm_obj by blast
  have "distinct (map fst ?ms)" by (simp add: str_def)
  then obtain ms where ms: "norm (JObj ?ms) = JObj ms" "\<And>k. jget_null ms k = norm (jget_null ?ms k)" using norm_obj by blast
  have md: "make_model_ref (jget_null ms ''name'') (jget_null ms ''version'') (jget_null ms ''digest'') = Inr (dr_model r)"
    using assms by (cases "mr_digest (dr_model r)") (auto simp: ms(2) jget_null_Cons norm_or_null make_model_ref_def decision_ok_def or_null_def)
  have conf: "read_confidence fl (norm (number_json (dr_confidence r))) = Inr (dr_confidence r)" "check_confidence fl (dr_confidence r) = Inr ()"
    using assms by (auto simp: decision_ok_def read_confidence_def number_json_def check_confidence_def split: option.split)
  have ov: "\<exists>v. norm (jget_null (decision_to_payload r) ''human_oversight'') = v \<and> (v = JNull \<or> (\<exists>os. v = JObj os))
      \<and> read_oversight v = Inr (dr_oversight r)"
  proof (cases "dr_oversight r")
    case None
    then show ?thesis by (simp add: decision_to_payload_def jget_null_Cons read_oversight_def)
  next
    case (Some w)
    let ?os = "[(str ''mode'', JStr (ho_mode w)), (str ''reviewer_ref'', or_null (ho_reviewer w)), (str ''action'', or_null (ho_action w))]"
    have "distinct (map fst ?os)" by (simp add: str_def)
    then obtain os where os: "norm (JObj ?os) = JObj os" "\<And>k. jget_null os k = norm (jget_null ?os k)" using norm_obj by blast
    have "ho_mode w \<noteq> []" using assms Some by (simp add: decision_ok_def)
    then have "read_oversight (JObj os) = Inr (Some w)"
      by (simp add: read_oversight_def os(2) jget_null_Cons norm_or_null make_oversight_def)
    then show ?thesis using Some os(1) by (simp add: decision_to_payload_def jget_null_Cons del: norm.simps)
  qed
  then obtain v where v: "norm (jget_null (decision_to_payload r) ''human_oversight'') = v" "v = JNull \<or> (\<exists>os. v = JObj os)"
    "read_oversight v = Inr (dr_oversight r)" by blast
  have m: "norm (jget_null (decision_to_payload r) ''model'') = JObj ms" using ms(1) by (simp add: decision_to_payload_def jget_null_Cons del: norm.simps)
  have "make_decision fl gs (dr_model r) (dr_confidence r) (dr_oversight r) = Inr r"
    using assms conf(2) by (simp add: make_decision_def gs(2)) (simp add: decision_to_payload_def jget_null_Cons norm_or_null decision_ok_def)
  moreover have "norm (jget_null (decision_to_payload r) ''confidence'') = norm (number_json (dr_confidence r))"
    by (simp add: decision_to_payload_def jget_null_Cons)
  ultimately show ?thesis
    unfolding gs(1) using v m md conf(1) by (auto simp: gs(2) decision_from_payload_def)
qed

lemma nonempty_Inr: "require_nonempty v = Inr s \<Longrightarrow> s \<noteq> []"
  by (auto simp: require_nonempty_def split: json.split_asm if_split_asm)

lemma digest_Inr: "require_digest v = Inr s \<Longrightarrow> hex64 s"
  by (auto simp: require_digest_def split: json.split_asm if_split_asm)

lemma nonempty_all: "res_mapM require_nonempty vs = Inr ks \<Longrightarrow> [] \<notin> set ks"
  by (induction vs arbitrary: ks) (auto simp: res_elims dest: nonempty_Inr)

lemma incident_parsed_ok: "incident_from_payload v = Inr r \<Longrightarrow> incident_ok r"
  by (auto simp: incident_from_payload_def res_elims incident_ok_def dest: nonempty_Inr nonempty_all split: json.split_asm)

lemma intervention_parsed_ok: "intervention_from_payload v = Inr r \<Longrightarrow> intervention_ok r"
  by (auto simp: intervention_from_payload_def res_elims intervention_ok_def dest: nonempty_Inr split: json.split_asm)

lemma model_ref_parsed: "make_model_ref a b d = Inr m \<Longrightarrow> mr_name m \<noteq> [] \<and> mr_version m \<noteq> [] \<and> (\<forall>d. mr_digest m = Some d \<longrightarrow> hex64 d)"
  by (auto simp: make_model_ref_def res_elims dest: nonempty_Inr digest_Inr split: if_split_asm)

lemma oversight_parsed: "read_oversight v = Inr w \<Longrightarrow> w = Some u \<Longrightarrow> ho_mode u \<noteq> []"
  by (auto simp: read_oversight_def make_oversight_def res_elims dest: nonempty_Inr split: json.split_asm)

lemma confidence_parsed:
  "read_confidence fl v = Inr c \<Longrightarrow> check_confidence fl c = Inr u \<Longrightarrow> c = Some n \<Longrightarrow> \<exists>f. n = NFloat f \<and> fl_unit fl f"
  by (auto simp: read_confidence_def check_confidence_def res_elims split: json.split_asm if_split_asm)

lemma decision_parsed_ok:
  assumes "decision_from_payload fl v = Inr r"
  shows "decision_ok fl r"
proof -
  obtain fs ms conf md ov where p: "read_confidence fl (jget_null fs ''confidence'') = Inr conf"
    "make_model_ref (jget_null ms ''name'') (jget_null ms ''version'') (jget_null ms ''digest'') = Inr md"
    "read_oversight (jget_null fs ''human_oversight'') = Inr ov" "make_decision fl fs md conf ov = Inr r"
    using assms by (auto simp: decision_from_payload_def res_elims split: json.split_asm)
  have d: "dr_id r \<noteq> []" "dr_type r \<noteq> []" "dr_system r \<noteq> []" "hex64 (dr_commitment r)" "dr_outcome r \<noteq> []" "dr_model r = md"
    "dr_oversight r = ov" "dr_confidence r = conf" "check_confidence fl conf = Inr ()"
    using p(4) by (auto simp: make_decision_def res_elims dest: nonempty_Inr digest_Inr)
  show ?thesis
    unfolding decision_ok_def using d model_ref_parsed [OF p(2)] oversight_parsed [OF p(3)] confidence_parsed [OF p(1) d(9)] by blast
qed

section \<open>The fold of a trail\<close>

text \<open>
  The reference: the readable rows of the type in chain order; the ids in the order they first appear; and for each id the
  first and the last of its rows and how many there are.
\<close>

definition readable_row :: "(bytes \<Rightarrow> json res) \<Rightarrow> pystr \<Rightarrow> (json \<Rightarrow> 'r res) \<Rightarrow> entry \<Rightarrow> (int \<times> 'r) option" where
  "readable_row loads ptype parse e =
     (if payload_type (header e) = ptype
      then (case read_row loads parse e of Inr (Some r) \<Rightarrow> Some (seq (header e), r) | _ \<Rightarrow> None) else None)"

definition rows_of_type :: "(bytes \<Rightarrow> json res) \<Rightarrow> pystr \<Rightarrow> (json \<Rightarrow> 'r res) \<Rightarrow> entry list \<Rightarrow> (int \<times> 'r) list" where
  "rows_of_type loads ptype parse es = List.map_filter (readable_row loads ptype parse) es"

definition unread_of_type :: "(bytes \<Rightarrow> json res) \<Rightarrow> pystr \<Rightarrow> (json \<Rightarrow> 'r res) \<Rightarrow> entry list \<Rightarrow> int list" where
  "unread_of_type loads ptype parse es =
     map (seq \<circ> header) (filter (\<lambda>e. payload_type (header e) = ptype \<and> readable_row loads ptype parse e = None) es)"

definition firsts :: "'a list \<Rightarrow> 'a list" where
  "firsts xs = rev (remdups (rev xs))"

definition view_of :: "(int \<times> incident_record) list \<Rightarrow> pystr \<Rightarrow> incident_view" where
  "view_of rows i =
     (let mine = filter (\<lambda>(n, r). in_id r = i) rows in
      \<lparr>vw_id = i, vw_first = fst (hd mine), vw_latest_seq = fst (last mine), vw_rows = length mine, vw_latest = snd (last mine)\<rparr>)"

lemma firsts_snoc: "firsts (xs @ [x]) = (if x \<in> set xs then firsts xs else firsts xs @ [x])"
  by (simp add: firsts_def)

lemma set_firsts: "set (firsts xs) = set xs"
  by (simp add: firsts_def)

lemma incident_errors: "incident_from_payload v = Inl x \<Longrightarrow> x = ValueError"
proof -
  have f: "require_nonempty u = Inl x \<Longrightarrow> x = ValueError" "decision_optional_str u = Inl x \<Longrightarrow> x = ValueError" "read_kinds u = Inl x \<Longrightarrow> x = ValueError" for u
    by (auto simp: field_defs read_kinds_def split: json.split_asm if_split_asm)
  show "incident_from_payload v = Inl x \<Longrightarrow> x = ValueError"
    by (auto simp: incident_from_payload_def res_elims dest!: f res_mapM_Inl split: json.split_asm)
qed

text \<open>Decoding that fails as \<^verbatim>\<open>json.loads\<close> is documented to: with a \<^verbatim>\<open>ValueError\<close>.\<close>

definition decodes :: "(bytes \<Rightarrow> json res) \<Rightarrow> bool" where
  "decodes loads \<longleftrightarrow> (\<forall>p x. loads p = Inl x \<longrightarrow> is_ValueError x)"

lemma read_row_total:
  assumes "decodes loads" "\<And>v x. parse v = Inl x \<Longrightarrow> is_ValueError x"
  shows "\<exists>r. read_row loads parse e = Inr r"
proof (cases "payload e")
  case (Some p)
  then show ?thesis using assms by (cases "res_bind (loads p) parse") (auto simp: read_row_def res_elims decodes_def)
qed (simp add: read_row_def)

definition ids_of :: "(int \<times> incident_record) list \<Rightarrow> pystr list" where
  "ids_of rows = map (in_id \<circ> snd) rows"

definition folded_of :: "(int \<times> incident_record) list \<Rightarrow> pystr \<Rightarrow> incident_view option" where
  "folded_of rows i = (if i \<in> set (ids_of rows) then Some (view_of rows i) else None)"

lemma fold_row_view:
  assumes "folded = folded_of rows"
    and "fold_row n r (firsts (ids_of rows)) folded = (order', folded')"
  shows "order' = firsts (ids_of (rows @ [(n, r)]))"
    "folded' = folded_of (rows @ [(n, r)])"
proof -
  let ?mine = "\<lambda>i. filter (\<lambda>(n, r). in_id r = i) rows"
  have other: "view_of (rows @ [(n, r)]) i = view_of rows i" if "i \<noteq> in_id r" for i using that by (simp add: view_of_def Let_def)
  have ne: "?mine i \<noteq> []" if "i \<in> set (ids_of rows)" for i using that by (force simp: filter_empty_conv ids_of_def)
  show "order' = firsts (ids_of (rows @ [(n, r)]))"
    using assms by (auto simp: fold_row_def firsts_snoc ids_of_def folded_of_def split: option.split_asm if_split_asm)
  have "folded' = folded(in_id r \<mapsto> view_of (rows @ [(n, r)]) (in_id r))"
  proof (cases "in_id r \<in> set (ids_of rows)")
    case True
    have "view_of (rows @ [(n, r)]) (in_id r) =
        \<lparr>vw_id = vw_id (view_of rows (in_id r)), vw_first = vw_first (view_of rows (in_id r)), vw_latest_seq = n,
         vw_rows = vw_rows (view_of rows (in_id r)) + 1, vw_latest = r\<rparr>"
      using ne [OF True] by (simp add: view_of_def Let_def)
    moreover have "folded (in_id r) = Some (view_of rows (in_id r))" using assms(1) True by (simp add: folded_of_def)
    ultimately show ?thesis using assms(2) by (simp add: fold_row_def)
  next
    case False
    then have "?mine (in_id r) = []" by (force simp: filter_empty_conv ids_of_def)
    then have "view_of (rows @ [(n, r)]) (in_id r) = \<lparr>vw_id = in_id r, vw_first = n, vw_latest_seq = n, vw_rows = 1, vw_latest = r\<rparr>"
      by (simp add: view_of_def Let_def)
    moreover have "folded (in_id r) = None" using assms(1) False by (simp add: folded_of_def)
    ultimately show ?thesis using assms(2) by (simp add: fold_row_def)
  qed
  then show "folded' = folded_of (rows @ [(n, r)])"
    using other by (auto simp: assms(1) fun_eq_iff folded_of_def ids_of_def)
qed

lemma scan_incidents_fold:
  assumes "decodes loads"
  shows "scan_incidents_from loads (firsts (ids_of rows))
      (folded_of rows) bad es
    = (let all = rows @ rows_of_type loads INCIDENT_PAYLOAD_TYPE incident_from_payload es in
       Inr \<lparr>ic_views = map (view_of all) (firsts (ids_of all)),
            ic_unreadable = bad @ unread_of_type loads INCIDENT_PAYLOAD_TYPE incident_from_payload es\<rparr>)"
proof (induction es arbitrary: rows bad)
  case Nil
  show ?case by (simp add: rows_of_type_def unread_of_type_def map_filter_simps set_firsts folded_of_def cong: map_cong)
next
  case (Cons e es)
  have "is_ValueError x" if "incident_from_payload v = Inl x" for v x using incident_errors [OF that] by simp
  then obtain q where q: "read_row loads incident_from_payload e = Inr q" using read_row_total [OF assms] by metis
  show ?case
  proof (cases "payload_type (header e) = INCIDENT_PAYLOAD_TYPE")
    case False
    then show ?thesis using Cons.IH by (simp add: rows_of_type_def unread_of_type_def readable_row_def map_filter_simps)
  next
    case True
    show ?thesis
    proof (cases q)
      case None
      then show ?thesis using Cons.IH True q by (simp add: rows_of_type_def unread_of_type_def readable_row_def map_filter_simps)
    next
      case (Some r)
      obtain order' folded' where f: "fold_row (seq (header e)) r (firsts (ids_of rows))
          (folded_of rows) = (order', folded')" by force
      note fv = fold_row_view [OF refl f]
      have "rows_of_type loads INCIDENT_PAYLOAD_TYPE incident_from_payload (e # es)
          = (seq (header e), r) # rows_of_type loads INCIDENT_PAYLOAD_TYPE incident_from_payload es"
        "unread_of_type loads INCIDENT_PAYLOAD_TYPE incident_from_payload (e # es) = unread_of_type loads INCIDENT_PAYLOAD_TYPE incident_from_payload es"
        using True q Some by (simp_all add: rows_of_type_def unread_of_type_def readable_row_def map_filter_simps)
      then show ?thesis
        using True q Some f Cons.IH [of "rows @ [(seq (header e), r)]" bad] unfolding fv by simp
    qed
  qed
qed

section \<open>Properties\<close>

text \<open>C21. 
  The parsers let through exactly the well-formed records: what a payload parses to has its identifiers, its digests and a
  confidence from 0 to 1, and every such record is what its own payload parses to, also after the canonical form has
  sorted the keys.
\<close>

theorem parsed_records_well_formed:
  "((\<exists>v. decision_from_payload fl v = Inr r) \<longleftrightarrow> decision_ok fl r)
    \<and> ((\<exists>v. intervention_from_payload v = Inr i) \<longleftrightarrow> intervention_ok i)
    \<and> ((\<exists>v. incident_from_payload v = Inr c) \<longleftrightarrow> incident_ok c)
    \<and> (decision_from_payload fl (norm (JObj (decision_to_payload r))) = Inr r \<longleftrightarrow> decision_ok fl r)
    \<and> (intervention_from_payload (norm (JObj (intervention_to_payload i))) = Inr i \<longleftrightarrow> intervention_ok i)
    \<and> (incident_from_payload (norm (JObj (incident_to_payload c))) = Inr c \<longleftrightarrow> incident_ok c)"
  using decision_round_trip decision_parsed_ok intervention_round_trip intervention_parsed_ok incident_round_trip incident_parsed_ok
  by blast

text \<open>
  The listing of incidents is the fold it is meant to be and never fails on a row: each id appears once, in the order of its
  first row, with its first and last row, the number of its rows and its last row as the record, and every row of the
  type that could not be read is named apart. A row restates an incident as a whole: no field of an older row survives.
\<close>

theorem incidents_folded:
  assumes "decodes loads" "rows = rows_of_type loads INCIDENT_PAYLOAD_TYPE incident_from_payload es"
  shows "scan_incidents loads es =
    Inr \<lparr>ic_views = map (view_of rows) (firsts (ids_of rows)),
         ic_unreadable = unread_of_type loads INCIDENT_PAYLOAD_TYPE incident_from_payload es\<rparr>"
proof -
  have "folded_of [] = (\<lambda>_. None)" "firsts (ids_of []) = []" by (simp_all add: fun_eq_iff folded_of_def ids_of_def firsts_def)
  then show ?thesis using scan_incidents_fold [OF assms(1), of "[]" "[]" es] assms(2) by (simp add: scan_incidents_def Let_def)
qed

text \<open>Three rows of one incident, the middle one damaged.\<close>

definition sample_incident :: incident_record where
  "sample_incident = \<lparr>in_id = [105], in_system = [115], in_detected = [100], in_severity = [99], in_confirmed = Some [49], in_summary = None,
     in_kinds = [[107]], in_status = None, in_report = None, in_reported = None, in_trace = None\<rparr>"

definition sample_loads :: "bytes \<Rightarrow> bytes \<Rightarrow> json res" where
  "sample_loads pb p = (if p = pb then Inr (norm (JObj (incident_to_payload sample_incident))) else Inl JSONDecodeError)"

definition incident_row :: "int \<Rightarrow> bytes \<Rightarrow> entry" where
  "incident_row n p = \<lparr>header = \<lparr>seq = n, ts = [], hash_version = [], payload_type = INCIDENT_PAYLOAD_TYPE, payload_hash = [], prev_hash = []\<rparr>,
     entry_hash = [], payload = Some p\<rparr>"

lemma sample_decodes: "decodes (sample_loads pb)"
  by (simp add: decodes_def sample_loads_def)

lemma sample_incident_ok: "incident_ok sample_incident"
  by (simp add: incident_ok_def sample_incident_def)

lemma sample_readable:
  "readable_row (sample_loads pb) INCIDENT_PAYLOAD_TYPE incident_from_payload (incident_row n p) = (if p = pb then Some (n, sample_incident) else None)"
  using incident_round_trip [OF sample_incident_ok]
  by (simp add: readable_row_def read_row_def incident_row_def sample_loads_def del: norm.simps)

theorem incidents_folded_witness:
  "scan_incidents (sample_loads [1]) [incident_row 0 [1], incident_row 1 [2], incident_row 2 [1]] =
    Inr \<lparr>ic_views = [\<lparr>vw_id = [105], vw_first = 0, vw_latest_seq = 2, vw_rows = 2, vw_latest = sample_incident\<rparr>], ic_unreadable = [1]\<rparr>"
proof -
  let ?es = "[incident_row 0 [1], incident_row 1 [2], incident_row 2 [1]]"
  have "rows_of_type (sample_loads [1]) INCIDENT_PAYLOAD_TYPE incident_from_payload ?es = [(0, sample_incident), (2, sample_incident)]"
    by (simp add: rows_of_type_def map_filter_simps sample_readable)
  moreover have "unread_of_type (sample_loads [1]) INCIDENT_PAYLOAD_TYPE incident_from_payload ?es = [1]"
    by (simp add: unread_of_type_def sample_readable) (simp add: incident_row_def)
  moreover have "in_id sample_incident = [105]" by (simp add: sample_incident_def)
  ultimately show ?thesis
    using incidents_folded [OF sample_decodes refl, of "[1]" ?es] by (simp add: view_of_def Let_def ids_of_def firsts_def)
qed

text \<open>
  An incident recorded is an incident read back. On a healthy log the recorded row is stored, and a listing of the trail
  from then on shows the incident with this record as its latest state, under the number of the new row. The hypothesis on
  \<open>loads\<close> is that \<^verbatim>\<open>json.loads\<close> inverts the canonical form of this payload.
\<close>

theorem recorded_incident_read_back:
  assumes "digest32 sha" "new_registry sha = Inr reg" "terminated b" "jsonl_entries rt b = Inr es" "known_chain sha reg es"
    and "new_log (jsonl_ops rt) b None reg None files source s every recorder has_path anchors = Inr (cfg, lg)"
    and "encodable (en_now env)" "encodable (str_int (int (length es)))"
    and "incident_ok r" "canonical_json (incident_to_payload r) = Inr pb"
    and "decodes loads" "loads pb = Inr (norm (JObj (incident_to_payload r)))"
  shows "\<exists>e lg' sc w. record_incident sha cfg env lg r = (Inr e, lg') \<and> jsonl_entries rt (lg_backend lg') = Inr (es @ [e])
    \<and> scan_incidents loads (es @ [e]) = Inr sc \<and> w \<in> set (ic_views sc)
    \<and> vw_id w = in_id r \<and> vw_latest w = r \<and> vw_latest_seq w = int (length es)"
proof -
  have cfg: "cf_redactor cfg = None" using assms(6) by (auto simp: new_log_def res_elims Let_def split: if_split_asm)
  have c: "redactor_ok cfg" "canonical_payload cfg (PDict (incident_to_payload r)) = Inr pb"
    using cfg assms(10) by (simp_all add: redactor_ok_def canonical_payload_def)
  have t: "INCIDENT_PAYLOAD_TYPE \<notin> set REJECTED_PAYLOAD_TYPES" "encodable INCIDENT_PAYLOAD_TYPE"
    by (simp_all add: REJECTED_PAYLOAD_TYPES_def INCIDENT_PAYLOAD_TYPE_def encodable_str)
  obtain e lg' where e: "log_append sha cfg env lg (PDict (incident_to_payload r)) INCIDENT_PAYLOAD_TYPE = (Inr e, lg')"
    "payload e = Some pb" "jsonl_entries rt (lg_backend lg') = Inr (es @ [e])"
    "seq (header e) = int (length es)" "payload_type (header e) = INCIDENT_PAYLOAD_TYPE"
    using healthy_append [OF assms(1-6) c t(1) assms(7) t(2) assms(8)] by metis
  let ?rows = "\<lambda>es. rows_of_type loads INCIDENT_PAYLOAD_TYPE incident_from_payload es"
  have "readable_row loads INCIDENT_PAYLOAD_TYPE incident_from_payload e = Some (int (length es), r)"
    using e assms(12) incident_round_trip [OF assms(9)] by (simp add: readable_row_def read_row_def del: norm.simps)
  then have rows: "?rows (es @ [e]) = ?rows es @ [(int (length es), r)]"
    by (simp add: rows_of_type_def List.map_filter_def)
  let ?w = "view_of (?rows (es @ [e])) (in_id r)"
  have "?w \<in> view_of (?rows (es @ [e])) ` set (firsts (ids_of (?rows (es @ [e]))))"
    unfolding rows set_firsts by (simp add: ids_of_def)
  moreover have "vw_id ?w = in_id r" "vw_latest ?w = r" "vw_latest_seq ?w = int (length es)"
    unfolding rows by (simp_all add: view_of_def Let_def)
  ultimately show ?thesis
    using incidents_folded [OF assms(11) refl, of "es @ [e]"] e(1,3) by (auto simp: record_incident_def)
qed

theorem recorded_incident_read_back_witness:
  "\<exists>(cfg :: jsonl config) lg e lg' pb sc w.
     record_incident sha256 cfg \<lparr>en_now = str ''now'', en_anchor_now = [], en_drop_now = [], en_disk = True\<rparr> lg sample_incident = (Inr e, lg')
     \<and> scan_incidents (sample_loads pb) [e] = Inr sc \<and> w \<in> set (ic_views sc) \<and> vw_latest w = sample_incident"
proof -
  obtain cfg lg where n: "new_log (jsonl_ops ascii_runtime) empty_trail None (sample_registry sha256) None
      \<lparr>ak_key = None, ak_agg = None, ak_lines = []\<rparr> None None None None True [] = Inr (cfg, lg)"
    by (simp add: new_log_def)
  let ?env = "\<lparr>en_now = str ''now'', en_anchor_now = [], en_drop_now = [], en_disk = True\<rparr>"
  have e: "encodable (en_now ?env)" "encodable (str_int (int (length ([] :: entry list))))"
    by (auto intro!: encodable_str encodable_str_int simp: length_str_int_digit)
  have "plain {} (JObj (incident_to_payload sample_incident))"
    by (simp add: incident_to_payload_def sample_incident_def or_null_def str_def scalar_def)
  then obtain pb where pb: "canonical_json (incident_to_payload sample_incident) = Inr pb" using canonical_json_total by blast
  have "sample_loads pb pb = Inr (norm (JObj (incident_to_payload sample_incident)))" by (simp add: sample_loads_def)
  from recorded_incident_read_back [OF sha256.digest32_axioms sample_registry_new empty_trail(1,2) empty_trail(3) n e
      sample_incident_ok pb sample_decodes this]
  obtain e lg' sc w where "record_incident sha256 cfg ?env lg sample_incident = (Inr e, lg')"
    "scan_incidents (sample_loads pb) [e] = Inr sc" "w \<in> set (ic_views sc)" "vw_latest w = sample_incident" by auto
  then show ?thesis by (intro exI conjI)
qed

text \<open>
  A reading of an incident follows the clock one way. As long as no submission is recorded, a window that is past stays
  past and never becomes open again; once a submission time is recorded, the reading no longer depends on when it is
  asked for.
\<close>

theorem window_never_reopens:
  assumes "instant now = Some t" "instant now' = Some t'" "t \<le> t'"
  shows "(wr_status (window_status fromiso window now w) = NoReportPastWindow \<longrightarrow>
      wr_status (window_status fromiso window now' w) = NoReportPastWindow)
    \<and> (wr_status (window_status fromiso window now' w) = WindowOpen \<and> wr_status (window_status fromiso window now w) \<noteq> Unmeasured \<longrightarrow>
      wr_status (window_status fromiso window now w) = WindowOpen)
    \<and> (in_reported (vw_latest w) \<noteq> None \<longrightarrow> window_status fromiso window now w = window_status fromiso window now' w)"
  using assms by (auto simp: window_status_def unmeasured_def reading_def split: option.split if_split_asm)

theorem window_never_reopens_witness:
  "wr_status (window_status (\<lambda>s. Some \<lparr>mo_local = 0, mo_offset = Some 0\<rparr>) 10 \<lparr>mo_local = 30, mo_offset = Some 0\<rparr>
     \<lparr>vw_id = [], vw_first = 0, vw_latest_seq = 0, vw_rows = 1, vw_latest = sample_incident\<rparr>) = NoReportPastWindow"
proof -
  let ?w = "\<lparr>vw_id = [], vw_first = 0, vw_latest_seq = 0, vw_rows = 1, vw_latest = sample_incident\<rparr>"
  let ?iso = "\<lambda>s :: pystr. Some \<lparr>mo_local = 0, mo_offset = Some (0 :: int)\<rparr>"
  have "wr_status (window_status ?iso 10 \<lparr>mo_local = 20, mo_offset = Some 0\<rparr> ?w) = NoReportPastWindow"
    by (simp add: window_status_def parse_offset_aware_def instant_def sample_incident_def reading_def)
  moreover have "instant \<lparr>mo_local = 20, mo_offset = Some 0\<rparr> = Some 20" "instant \<lparr>mo_local = 30, mo_offset = Some 0\<rparr> = Some 30"
    by (simp_all add: instant_def)
  ultimately show ?thesis using window_never_reopens [of "\<lparr>mo_local = 20, mo_offset = Some 0\<rparr>" 20 "\<lparr>mo_local = 30, mo_offset = Some 0\<rparr>" 30 ?iso 10 ?w]
    by simp
qed

text \<open>
  One row can end the walk over the decisions of a trail. A confidence that is an integer too large for a float raises
  \<^verbatim>\<open>OverflowError\<close>, which the parser is documented never to raise and the reader does not catch: the rows after it
  are not reached.
\<close>

theorem oversized_confidence_ends_walk:
  assumes "payload_type (header e) = DECISION_PAYLOAD_TYPE" "payload e = Some p" "loads p = Inr (JObj fs)"
    and "jget_null fs ''model'' = JObj ms" "jget_null fs ''human_oversight'' = JNull"
    and "jget_null fs ''confidence'' = JInt n" "fl_of_int fl n = Inl OverflowError"
  shows "iter_decisions fl loads ty (e # es) = [Inl OverflowError]"
  using assms by (simp add: iter_decisions_def read_row_def decision_from_payload_def read_confidence_def)

theorem oversized_confidence_ends_walk_witness:
  "iter_decisions \<lparr>fl_of_int = (\<lambda>n. Inl OverflowError), fl_unit = (\<lambda>f. True)\<rparr>
     (\<lambda>p. Inr (JObj [(str ''model'', JObj []), (str ''confidence'', JInt (10 ^ 400))])) None
     [(incident_row 0 [])\<lparr>header := (header (incident_row 0 []))\<lparr>payload_type := DECISION_PAYLOAD_TYPE\<rparr>\<rparr>] = [Inl OverflowError]"
  by (rule oversized_confidence_ends_walk [where fs = "[(str ''model'', JObj []), (str ''confidence'', JInt (10 ^ 400))]" and n = "10 ^ 400"
        and ms = "[]" and p = "[]"])
    (simp_all add: incident_row_def jget_null_Cons, simp add: jget_null_def jget_def)

end
