(* ===== verification/Timestamps.thy ===== *)
theory Timestamps
  imports Export Anchors "HOL-Library.Sublist"
begin

text \<open>
  Time-stamp tokens (\<^verbatim>\<open>domain/rfc3161.py\<close>): the request, the DER reader, the parser of a response down to the fields the rules
  read, the structural check and the carrying of a response in an anchor record. A byte is an \<open>8 word\<close>, a position in a buffer
  a number; the reader's loop ends because every element takes at least two bytes. The calendar check and the ISO text of
  a time are written out. The reader inverts the encoder, a response of a time-stamp authority that encodes these fields
  is accepted with exactly them, and an accepted one commits to the message.
\<close>

section \<open>Constants\<close>

definition RFC3161_PREFIX :: pystr where "RFC3161_PREFIX = str ''rfc3161:''"

text \<open>Object identifiers by their arcs; the code writes them dotted.\<close>

definition SHA256_OID :: "nat list" where "SHA256_OID = [2, 16, 840, 1, 101, 3, 4, 2, 1]"
definition OID_SIGNED_DATA :: "nat list" where "OID_SIGNED_DATA = [1, 2, 840, 113549, 1, 7, 2]"
definition OID_TSTINFO :: "nat list" where "OID_TSTINFO = [1, 2, 840, 113549, 1, 9, 16, 1, 4]"

definition dotted :: "nat list \<Rightarrow> pystr" where
  "dotted arcs = (case map digits arcs of [] \<Rightarrow> [] | p # ps \<Rightarrow> p @ concat (map (\<lambda>q. 46 # q) ps))"

definition ACCEPTED_STATUS :: "int list" where "ACCEPTED_STATUS = [0, 1]"

datatype ts_reason = MALFORMED_TOKEN | TIMESTAMP_REJECTED | RECEIPT_IMPRINT_MISMATCH | NONCE_MISMATCH | UNSUPPORTED_DIGEST_ALGORITHM

definition TAG_BOOLEAN :: nat where "TAG_BOOLEAN = 1"
definition TAG_INTEGER :: nat where "TAG_INTEGER = 2"
definition TAG_OCTET_STRING :: nat where "TAG_OCTET_STRING = 4"
definition TAG_NULL :: nat where "TAG_NULL = 5"
definition TAG_OID :: nat where "TAG_OID = 6"
definition TAG_SEQUENCE :: nat where "TAG_SEQUENCE = 48"
definition TAG_GENERALIZED_TIME :: nat where "TAG_GENERALIZED_TIME = 24"
definition TAG_CONTEXT_0 :: nat where "TAG_CONTEXT_0 = 160"
definition TAG_CONTEXT_1 :: nat where "TAG_CONTEXT_1 = 161"

lemmas tag_defs = TAG_BOOLEAN_def TAG_INTEGER_def TAG_OCTET_STRING_def TAG_NULL_def TAG_OID_def TAG_SEQUENCE_def
  TAG_GENERALIZED_TIME_def TAG_CONTEXT_0_def TAG_CONTEXT_1_def

section \<open>Encoding\<close>

fun bit_length :: "nat \<Rightarrow> nat" where
  "bit_length n = (if n = 0 then 0 else Suc (bit_length (n div 2)))"

declare bit_length.simps [simp del]

definition der_len :: "nat \<Rightarrow> bytes" where
  "der_len n =
     (if n < 128 then [of_nat n]
      else (let body = be_bytes ((bit_length n + 7) div 8) n in of_nat (128 + length body) # body))"

definition tlv :: "nat \<Rightarrow> bytes \<Rightarrow> bytes" where
  "tlv tag v = of_nat tag # der_len (length v) @ v"

definition int_body :: "nat \<Rightarrow> bytes" where
  "int_body n = be_bytes (max 1 ((bit_length n + 8) div 8)) n"

definition der_int :: "int \<Rightarrow> bytes res" where
  "der_int n = (if n < 0 then Inl ValueError else Inr (tlv TAG_INTEGER (int_body (nat n))))"

text \<open>An arc in groups of seven bits, the last one without the continuation bit.\<close>

fun arc_high :: "nat \<Rightarrow> bytes" where
  "arc_high n = (if n = 0 then [] else arc_high (n div 128) @ [of_nat (n mod 128 + 128)])"

declare arc_high.simps [simp del]

definition arc_bytes :: "nat \<Rightarrow> bytes" where
  "arc_bytes n = arc_high (n div 128) @ [of_nat (n mod 128)]"

definition oid_body :: "nat list \<Rightarrow> bytes" where
  "oid_body arcs = of_nat (arcs ! 0 * 40 + arcs ! 1) # concat (map arc_bytes (drop 2 arcs))"

definition der_oid :: "nat list \<Rightarrow> bytes" where
  "der_oid arcs = tlv TAG_OID (oid_body arcs)"

definition SHA256_ALGID :: bytes where
  "SHA256_ALGID = tlv TAG_SEQUENCE (der_oid SHA256_OID @ tlv TAG_NULL [])"

definition encode_timestamp_req :: "(bytes \<Rightarrow> bytes) \<Rightarrow> bytes \<Rightarrow> int option \<Rightarrow> bool \<Rightarrow> bytes res" where
  "encode_timestamp_req sha message nonce cert_req =
     (let imprint = tlv TAG_SEQUENCE (SHA256_ALGID @ tlv TAG_OCTET_STRING (sha message)) in
      res_bind (der_int 1) (\<lambda>version.
      res_bind (case nonce of None \<Rightarrow> Inr [] | Some n \<Rightarrow> der_int n) (\<lambda>nonce_bytes.
        Inr (tlv TAG_SEQUENCE (version @ imprint @ nonce_bytes @ (if cert_req then tlv TAG_BOOLEAN [255] else []))))))"

section \<open>The reader\<close>

type_synonym elem = "nat \<times> bytes"

definition read_tlv :: "bytes \<Rightarrow> nat \<Rightarrow> (elem \<times> nat) res" where
  "read_tlv buf offset =
     (if offset + 2 > length buf then Inl DerError
      else (let tag = unat (buf ! offset); len = unat (buf ! (offset + 1)) in
        if tag mod 32 = 31 then Inl DerError
        else if len = 128 then Inl DerError
        else if len \<ge> 128 then
          (let count = len - 128 in
           if count > 4 then Inl DerError
           else if offset + 2 + count > length buf then Inl DerError
           else (let n = be_val (take count (drop (offset + 2) buf)); start = offset + 2 + count in
             if start + n > length buf then Inl DerError else Inr ((tag, take n (drop start buf)), start + n)))
        else if offset + 2 + len > length buf then Inl DerError
        else Inr ((tag, take len (drop (offset + 2) buf)), offset + 2 + len)))"

lemma read_tlv_advances: "read_tlv buf offset = Inr (item, next) \<Longrightarrow> offset < next \<and> next \<le> length buf"
  by (auto simp: read_tlv_def Let_def split: if_splits)

function read_from :: "bytes \<Rightarrow> nat \<Rightarrow> elem list res" where
  "read_from buf offset =
     (if offset \<ge> length buf then Inr []
      else (case read_tlv buf offset of
              Inl x \<Rightarrow> Inl x
            | Inr (item, next) \<Rightarrow> res_map ((#) item) (read_from buf next)))"
  by pat_completeness auto
termination
  by (relation "measure (\<lambda>(buf, offset). length buf - offset)") (auto dest!: read_tlv_advances)

declare read_from.simps [simp del]

definition read_all :: "bytes \<Rightarrow> elem list res" where
  "read_all buf = read_from buf 0"

definition read_one :: "bytes \<Rightarrow> elem res" where
  "read_one buf = res_bind (read_all buf) (\<lambda>items. case items of [item] \<Rightarrow> Inr item | _ \<Rightarrow> Inl DerError)"

definition der_sequence :: "elem \<Rightarrow> elem list res" where
  "der_sequence e = (if fst e \<noteq> TAG_SEQUENCE then Inl DerError else read_all (snd e))"

definition signed_val :: "bytes \<Rightarrow> int" where
  "signed_val bs = (if bs \<noteq> [] \<and> unat (hd bs) \<ge> 128 then int (be_val bs) - 256 ^ length bs else int (be_val bs))"

definition der_integer :: "elem \<Rightarrow> int res" where
  "der_integer e =
     (if fst e \<noteq> TAG_INTEGER then Inl DerError
      else if snd e = [] then Inl DerError
      else Inr (signed_val (snd e)))"

text \<open>
  The arcs after the first byte: the accumulator and whether an arc is open. \<^verbatim>\<open>str\<close> of an integer of more than
  4300 digits raises \<^verbatim>\<open>ValueError\<close>.
\<close>

definition MAX_STR_DIGITS :: nat where "MAX_STR_DIGITS = 4300"

definition str_raises :: "nat \<Rightarrow> bool" where
  "str_raises n \<longleftrightarrow> length (digits n) > MAX_STR_DIGITS"

fun oid_arcs :: "nat \<Rightarrow> bool \<Rightarrow> bytes \<Rightarrow> nat list res" where
  "oid_arcs acc pending [] = (if pending then Inl DerError else Inr [])"
| "oid_arcs acc pending (b # bs) =
     (let acc' = acc * 128 + unat b mod 128 in
      if unat b \<ge> 128 then oid_arcs acc' True bs
      else if str_raises acc' then Inl ValueError
      else res_map ((#) acc') (oid_arcs 0 False bs))"

definition der_oid_of :: "elem \<Rightarrow> pystr res" where
  "der_oid_of e =
     (if fst e \<noteq> TAG_OID \<or> snd e = [] then Inl DerError
      else (let first = unat (hd (snd e)); root = min (first div 40) 2 in
            res_map (\<lambda>arcs. dotted (root # (first - 40 * root) # arcs)) (oid_arcs 0 False (tl (snd e)))))"

section \<open>Times\<close>

definition is_digit :: "nat \<Rightarrow> bool" where
  "is_digit c \<longleftrightarrow> 48 \<le> c \<and> c \<le> 57"

definition leap :: "nat \<Rightarrow> bool" where
  "leap y \<longleftrightarrow> y mod 4 = 0 \<and> (y mod 100 \<noteq> 0 \<or> y mod 400 = 0)"

definition days_in_month :: "nat \<Rightarrow> nat \<Rightarrow> nat" where
  "days_in_month y m = (if m = 2 then (if leap y then 29 else 28) else if m \<in> {4, 6, 9, 11} then 30 else 31)"

text \<open>\<^verbatim>\<open>datetime.strptime(body, "%Y%m%d%H%M%S")\<close> on fourteen digits, every field at its full width.\<close>

definition real_instant :: "pystr \<Rightarrow> bool" where
  "real_instant body =
     (let f = (\<lambda>i n. digits_val (take n (drop i body))) in
      1 \<le> f 0 4 \<and> 1 \<le> f 4 2 \<and> f 4 2 \<le> 12 \<and> 1 \<le> f 6 2 \<and> f 6 2 \<le> days_in_month (f 0 4) (f 4 2)
      \<and> f 8 2 \<le> 23 \<and> f 10 2 \<le> 59 \<and> f 12 2 \<le> 59)"

definition iso_stamp :: "pystr \<Rightarrow> pystr" where
  "iso_stamp body =
     take 4 body @ [45] @ take 2 (drop 4 body) @ [45] @ take 2 (drop 6 body) @ [84] @ take 2 (drop 8 body) @ [58]
     @ take 2 (drop 10 body) @ [58] @ take 2 (drop 12 body)"

definition generalized_time_to_iso :: "pystr \<Rightarrow> pystr res" where
  "generalized_time_to_iso raw =
     (if raw = [] \<or> last raw \<noteq> 90 then Inl DerError
      else (let whole = butlast raw; body = takeWhile (\<lambda>c. c \<noteq> 46) whole; fraction = drop (Suc (length body)) whole in
            if 46 \<in> set whole \<and> (fraction = [] \<or> \<not> list_all is_digit fraction) then Inl DerError
            else if length body \<noteq> 14 \<or> \<not> list_all is_digit body then Inl DerError
            else if \<not> real_instant body then Inl DerError
            else Inr (iso_stamp body @ (if fraction = [] then [] else 46 # fraction) @ str ''+00:00'')))"

section \<open>The response\<close>

record timestamp_token =
  tk_algorithm :: pystr
  tk_imprint :: pystr
  tk_serial :: int
  tk_gen_time :: pystr
  tk_gen_iso :: pystr
  tk_nonce :: "int option"

record timestamp_response =
  tr_status :: int
  tr_token :: "timestamp_token option"

text \<open>The nonce is the first integer after the time, unless a tagged field comes before it.\<close>

fun find_nonce :: "elem list \<Rightarrow> int option res" where
  "find_nonce [] = Inr None"
| "find_nonce (e # es) =
     (if fst e = TAG_INTEGER then res_map Some (der_integer e)
      else if fst e = TAG_CONTEXT_0 \<or> fst e = TAG_CONTEXT_1 then Inr None
      else find_nonce es)"

definition parse_tst_info :: "elem list \<Rightarrow> timestamp_token res" where
  "parse_tst_info tst =
     (if length tst < 5 then Inl DerError
      else res_bind (der_integer (tst ! 0)) (\<lambda>_.
           res_bind (der_oid_of (tst ! 1)) (\<lambda>_.
           res_bind (der_sequence (tst ! 2)) (\<lambda>imprint.
             if length imprint < 2 then Inl DerError
             else res_bind (der_sequence (imprint ! 0)) (\<lambda>algid.
               if algid = [] then Inl DerError
               else res_bind (der_oid_of (algid ! 0)) (\<lambda>alg.
                 if fst (imprint ! 1) \<noteq> TAG_OCTET_STRING then Inl DerError
                 else if fst (tst ! 4) \<noteq> TAG_GENERALIZED_TIME then Inl DerError
                 else if \<exists>b \<in> set (snd (tst ! 4)). unat b \<ge> 128 then Inl DerError
                 else res_bind (find_nonce (drop 5 tst)) (\<lambda>nonce.
                      res_bind (der_integer (tst ! 3)) (\<lambda>serial.
                      res_map (\<lambda>iso_text. \<lparr>tk_algorithm = alg, tk_imprint = hex (snd (imprint ! 1)), tk_serial = serial,
                                 tk_gen_time = map unat (snd (tst ! 4)), tk_gen_iso = iso_text, tk_nonce = nonce\<rparr>)
                        (generalized_time_to_iso (map unat (snd (tst ! 4))))))))))))"

definition parse_token :: "elem \<Rightarrow> timestamp_token res" where
  "parse_token ci =
     res_bind (der_sequence ci) (\<lambda>parts.
       if length parts \<noteq> 2 then Inl DerError
       else res_bind (der_oid_of (parts ! 0)) (\<lambda>ct.
         if ct \<noteq> dotted OID_SIGNED_DATA then Inl DerError
         else if fst (parts ! 1) \<noteq> TAG_CONTEXT_0 then Inl DerError
         else res_bind (res_bind (read_one (snd (parts ! 1))) der_sequence) (\<lambda>sd.
           if length sd < 3 then Inl DerError
           else res_bind (der_sequence (sd ! 2)) (\<lambda>encap.
             if length encap < 2 then Inl DerError
             else res_bind (der_oid_of (encap ! 0)) (\<lambda>et.
               if et \<noteq> dotted OID_TSTINFO then Inl DerError
               else if fst (encap ! 1) \<noteq> TAG_CONTEXT_0 then Inl DerError
               else res_bind (read_one (snd (encap ! 1))) (\<lambda>octets.
                 if fst octets \<noteq> TAG_OCTET_STRING then Inl DerError
                 else res_bind (res_bind (read_one (snd octets)) der_sequence) parse_tst_info))))))"

definition parse_timestamp_resp :: "bytes \<Rightarrow> timestamp_response res" where
  "parse_timestamp_resp der =
     res_bind (res_bind (read_one der) der_sequence) (\<lambda>items.
       if items = [] \<or> length items > 2 then Inl DerError
       else res_bind (der_sequence (items ! 0)) (\<lambda>si.
         if si = [] then Inl DerError
         else res_bind (der_integer (si ! 0)) (\<lambda>status.
           if length items = 1 then Inr \<lparr>tr_status = status, tr_token = None\<rparr>
           else res_map (\<lambda>t. \<lparr>tr_status = status, tr_token = Some t\<rparr>) (parse_token (items ! 1)))))"

definition read_timestamp_resp :: "(bytes \<Rightarrow> bytes) \<Rightarrow> bytes \<Rightarrow> bytes \<Rightarrow> int option \<Rightarrow> timestamp_token option \<times> ts_reason option" where
  "read_timestamp_resp sha der message nonce =
     (case parse_timestamp_resp der of
        Inl _ \<Rightarrow> (None, Some MALFORMED_TOKEN)
      | Inr resp \<Rightarrow>
          if tr_status resp \<notin> set ACCEPTED_STATUS then (None, Some TIMESTAMP_REJECTED)
          else (case tr_token resp of
                  None \<Rightarrow> (None, Some MALFORMED_TOKEN)
                | Some t \<Rightarrow>
                    if tk_algorithm t \<noteq> dotted SHA256_OID then (None, Some UNSUPPORTED_DIGEST_ALGORITHM)
                    else if tk_imprint t \<noteq> hex (sha message) then (None, Some RECEIPT_IMPRINT_MISMATCH)
                    else if nonce \<noteq> None \<and> tk_nonce t \<noteq> nonce then (None, Some NONCE_MISMATCH)
                    else (Some t, None)))"

definition check_timestamp_resp :: "(bytes \<Rightarrow> bytes) \<Rightarrow> bytes \<Rightarrow> bytes \<Rightarrow> int option \<Rightarrow> ts_reason option" where
  "check_timestamp_resp sha der message nonce = snd (read_timestamp_resp sha der message nonce)"

section \<open>Carrying a response\<close>

definition encode_receipt :: "bytes \<Rightarrow> pystr" where
  "encode_receipt der = RFC3161_PREFIX @ b64encode der"

definition decode_receipt :: "pystr \<Rightarrow> bytes option" where
  "decode_receipt receipt =
     (if take (length RFC3161_PREFIX) receipt \<noteq> RFC3161_PREFIX then None
      else (case b64_strict [] 0 (drop (length RFC3161_PREFIX) receipt) of Inl _ \<Rightarrow> None | Inr der \<Rightarrow> Some der))"

text \<open>An OpenTimestamps proof (\<^verbatim>\<open>domain/ots.py\<close>) is opaque and carried the same way.\<close>

definition OTS_PREFIX :: pystr where "OTS_PREFIX = str ''ots:''"

definition ots_digest :: "(bytes \<Rightarrow> bytes) \<Rightarrow> bytes \<Rightarrow> bytes" where
  "ots_digest sha message = sha message"

definition encode_ots_receipt :: "bytes \<Rightarrow> pystr" where
  "encode_ots_receipt proof_bytes = OTS_PREFIX @ b64encode proof_bytes"

definition decode_ots_receipt :: "pystr \<Rightarrow> bytes option" where
  "decode_ots_receipt receipt =
     (if take (length OTS_PREFIX) receipt \<noteq> OTS_PREFIX then None
      else (case b64_strict [] 0 (drop (length OTS_PREFIX) receipt) of Inl _ \<Rightarrow> None | Inr der \<Rightarrow> Some der))"

section \<open>The sinks\<close>

text \<open>A transport answers the bytes of a request with a status and a body or raises; \<open>'w\<close> is the world it acts on.\<close>

record http_reply =
  hr_status :: int
  hr_body :: bytes

type_synonym 'w post = "'w \<Rightarrow> bytes \<Rightarrow> http_reply res \<times> 'w"

definition rfc3161_anchor ::
  "(bytes \<Rightarrow> bytes) \<Rightarrow> 'w post \<Rightarrow> int option \<Rightarrow> checkpoint \<Rightarrow> 'w \<Rightarrow> sink_result res \<times> 'w" where
  "rfc3161_anchor sha post nonce cp w =
     (case res_bind (checkpoint_frame cp) (\<lambda>frame.
             res_map (Pair frame) (encode_timestamp_req sha frame nonce True)) of
        Inl x \<Rightarrow> (Inl x, w)
      | Inr (frame, req) \<Rightarrow>
          let (reply, w') = post w req in
          (res_bind reply (\<lambda>rp.
             if hr_status rp \<noteq> 200 then Inl RuntimeError
             else if check_timestamp_resp sha (hr_body rp) frame nonce \<noteq> None then Inl RuntimeError
             else Inr (SinkReceipt (encode_receipt (hr_body rp)) nonce)), w'))"

definition ots_anchor :: "(bytes \<Rightarrow> bytes) \<Rightarrow> 'w post \<Rightarrow> checkpoint \<Rightarrow> 'w \<Rightarrow> sink_result res \<times> 'w" where
  "ots_anchor sha post cp w =
     (case checkpoint_frame cp of
        Inl x \<Rightarrow> (Inl x, w)
      | Inr frame \<Rightarrow>
          let (reply, w') = post w (ots_digest sha frame) in
          (res_bind reply (\<lambda>rp.
             if hr_status rp \<noteq> 200 then Inl RuntimeError
             else if hr_body rp = [] then Inl RuntimeError
             else Inr (Plain (Some (encode_ots_receipt (hr_body rp))))), w'))"

section \<open>The reader inverts the encoder\<close>

lemma bit_length_bound: "n < 2 ^ bit_length n"
proof (induction n rule: bit_length.induct)
  case (1 n)
  then show ?case by (subst bit_length.simps) (auto split: if_split)
qed

lemma bit_length_le: "n < 2 ^ m \<Longrightarrow> bit_length n \<le> m"
proof (induction n arbitrary: m rule: bit_length.induct)
  case (1 n)
  show ?case
  proof (cases "n = 0")
    case False
    then obtain k where "m = Suc k" using "1.prems" by (cases m) auto
    then show ?thesis using False "1.IH" [of k] "1.prems" by (subst bit_length.simps) auto
  qed (subst bit_length.simps, simp)
qed

lemma byte_value: "n < 256 \<Longrightarrow> unat (of_nat n :: 8 word) = n"
  by (simp add: unat_of_nat take_bit_eq_mod)

lemma fits_bytes: "bit_length n \<le> 8 * k \<Longrightarrow> be_val (be_bytes k n) = n"
proof -
  assume "bit_length n \<le> 8 * k"
  then have "(2 :: nat) ^ bit_length n \<le> 2 ^ (8 * k)" by (intro power_increasing) auto
  then have "n < 256 ^ k" using bit_length_bound [of n] by (simp add: power_mult)
  then show ?thesis by (simp add: be_val_be_bytes)
qed

lemma der_len_cases:
  assumes "n < 2 ^ 32"
  obtains (short) "n < 128" "der_len n = [of_nat n]"
  | (long) k where "1 \<le> k" "k \<le> 4" "der_len n = of_nat (128 + k) # be_bytes k n" "be_val (be_bytes k n) = n"
proof (cases "n < 128")
  case True
  then show thesis using short by (simp add: der_len_def)
next
  case False
  let ?k = "(bit_length n + 7) div 8"
  have "bit_length n \<le> 32" using bit_length_le [OF assms] .
  moreover have "bit_length n \<noteq> 0" using False bit_length_bound [of n] by (cases "bit_length n") auto
  ultimately show thesis using long [of ?k] False fits_bytes [of n ?k] by (simp add: der_len_def Let_def)
qed

text \<open>Elements the reader takes: a tag of one byte and a length of at most four.\<close>

definition elem_ok :: "elem \<Rightarrow> bool" where
  "elem_ok e \<longleftrightarrow> fst e < 256 \<and> fst e mod 32 \<noteq> 31 \<and> length (snd e) < 2 ^ 32"

definition enc :: "elem \<Rightarrow> bytes" where
  "enc e = tlv (fst e) (snd e)"

definition enc_list :: "elem list \<Rightarrow> bytes" where
  "enc_list es = concat (map enc es)"

lemma read_tlv_enc:
  assumes "elem_ok e"
  shows "read_tlv (pre @ enc e @ post) (length pre) = Inr (e, length pre + length (enc e))"
proof -
  obtain tag v where e: "e = (tag, v)" by force
  then have t: "tag < 256" "tag mod 32 \<noteq> 31" "length v < 2 ^ 32" using assms by (simp_all add: elem_ok_def)
  show ?thesis
  proof (cases rule: der_len_cases [OF t(3)])
    case 1
    have "enc e = of_nat tag # of_nat (length v) # v" using 1 e by (simp add: enc_def tlv_def)
    then show ?thesis using 1 e t by (simp add: read_tlv_def nth_append byte_value)
  next
    case (2 k)
    have n: "enc e = of_nat tag # of_nat (128 + k) # be_bytes k (length v) @ v" using 2 e by (simp add: enc_def tlv_def)
    have "unat (of_nat (128 + k) :: 8 word) = 128 + k" using 2 by (intro byte_value) simp
    then show ?thesis unfolding n using 2 e t
      by (simp add: read_tlv_def nth_append byte_value Let_def del: of_nat_add)
  qed
qed

lemma enc_nonempty: "enc e \<noteq> []"
  by (simp add: enc_def tlv_def)

lemma read_from_enc:
  "list_all elem_ok es \<Longrightarrow> read_from (pre @ enc_list es) (length pre) = Inr es"
proof (induction es arbitrary: pre)
  case Nil
  then show ?case by (simp add: enc_list_def read_from.simps)
next
  case (Cons e es)
  have "read_tlv (pre @ enc e @ enc_list es) (length pre) = Inr (e, length (pre @ enc e))"
    using read_tlv_enc [of e pre "enc_list es"] Cons.prems by simp
  moreover have "length pre < length (pre @ enc e @ enc_list es)" using enc_nonempty [of e] by simp
  moreover have "read_from ((pre @ enc e) @ enc_list es) (length (pre @ enc e)) = Inr es"
    using Cons.IH [of "pre @ enc e"] Cons.prems by (simp only: list.pred_inject simp_thms)
  ultimately show ?case by (subst read_from.simps) (simp add: enc_list_def)
qed

lemma read_all_enc: "list_all elem_ok es \<Longrightarrow> read_all (enc_list es) = Inr es"
  using read_from_enc [of es "[]"] by (simp add: read_all_def)

lemma read_one_enc: "elem_ok e \<Longrightarrow> read_one (enc e) = Inr e"
  using read_all_enc [of "[e]"] by (simp add: read_one_def enc_list_def)

section \<open>Integers and object identifiers\<close>

lemma be_val_Cons: "be_val (b # bs) = unat b * 256 ^ length bs + be_val bs"
proof (induction bs rule: rev_induct)
  case Nil
  then show ?case by (simp add: be_val_def)
next
  case (snoc x bs)
  then have "be_val ((b # bs) @ [x]) = (unat b * 256 ^ length bs + be_val bs) * 256 + unat x"
    by (simp only: be_val_simps)
  then show ?case by (simp add: algebra_simps)
qed

lemma int_body_value:
  obtains b bs where "int_body n = b # bs" "unat b < 128" "be_val (int_body n) = n"
proof -
  define k where "k = max 1 ((bit_length n + 8) div 8)"
  have body: "int_body n = be_bytes k n" by (simp add: int_body_def k_def)
  have k: "Suc (bit_length n) \<le> 8 * k" by (auto simp: k_def)
  then have "(2 :: nat) ^ Suc (bit_length n) \<le> 2 ^ (8 * k)" by (intro power_increasing) auto
  then have half: "2 * n < 256 ^ k" using bit_length_bound [of n] by (simp add: power_mult)
  have v: "be_val (be_bytes k n) = n" using k by (intro fits_bytes) auto
  have "length (be_bytes k n) = k" by (rule length_be_bytes)
  moreover have "0 < k" by (simp add: k_def)
  ultimately obtain b bs where b: "be_bytes k n = b # bs" "k = Suc (length bs)" by (cases "be_bytes k n") auto
  have "unat b * 256 ^ length bs \<le> n" using v b(1) be_val_Cons [of b bs] by simp
  moreover have "n < 128 * 256 ^ length bs" using half b(2) by simp
  ultimately have "unat b * 256 ^ length bs < 128 * 256 ^ length bs" by (rule le_less_trans)
  then have "unat b < 128" by (simp only: mult_less_cancel2)
  then show thesis using that b(1) v body by simp
qed

definition int_elem :: "nat \<Rightarrow> elem" where
  "int_elem n = (TAG_INTEGER, int_body n)"

lemma der_integer_elem: "der_integer (int_elem n) = Inr (int n)"
  by (rule int_body_value [of n]) (simp add: der_integer_def int_elem_def signed_val_def)

lemma oid_arcs_high: "oid_arcs 0 p (arc_high n @ bs) = oid_arcs n (p \<or> n \<noteq> 0) bs"
proof (induction n arbitrary: bs rule: arc_high.induct)
  case (1 n)
  show ?case
  proof (cases "n = 0")
    case True
    then show ?thesis by (simp add: arc_high.simps)
  next
    case False
    have "unat (of_nat (n mod 128 + 128) :: 8 word) = n mod 128 + 128"
      using mod_less_divisor [of 128 n] by (intro byte_value) simp
    then show ?thesis using False "1.IH" [OF False] by (subst arc_high.simps) (simp add: Let_def del: of_nat_add)
  qed
qed

lemma oid_arcs_all: "list_all (\<lambda>a. \<not> str_raises a) arcs \<Longrightarrow> oid_arcs 0 False (concat (map arc_bytes arcs)) = Inr arcs"
proof (induction arcs)
  case (Cons a arcs)
  have small: "a mod 128 < 128" by simp
  then have "unat (of_nat (a mod 128) :: 8 word) = a mod 128" by (intro byte_value) linarith
  moreover have "oid_arcs (a div 128) p (b # bs) = res_map ((#) a) (oid_arcs 0 False bs)"
    if "unat b = a mod 128" "\<not> str_raises a" for p b bs using that small by (simp add: Let_def del: mod_less_divisor)
  ultimately show ?case using Cons small by (simp add: arc_bytes_def oid_arcs_high del: oid_arcs.simps)
qed simp

definition arcs_ok :: "nat list \<Rightarrow> bool" where
  "arcs_ok arcs \<longleftrightarrow> 2 \<le> length arcs \<and> (arcs ! 0 < 2 \<and> arcs ! 1 < 40 \<or> arcs ! 0 = 2 \<and> arcs ! 1 < 176)
     \<and> list_all (\<lambda>a. \<not> str_raises a) (drop 2 arcs)"

lemma der_oid_elem: "arcs_ok arcs \<Longrightarrow> der_oid_of (TAG_OID, oid_body arcs) = Inr (dotted arcs)"
proof -
  assume ok: "arcs_ok arcs"
  then obtain a b rest where arcs: "arcs = a # b # rest" by (cases arcs; cases "tl arcs") (auto simp: arcs_ok_def)
  have first: "unat (of_nat (a * 40 + b) :: 8 word) = a * 40 + b" using ok arcs by (intro byte_value) (auto simp: arcs_ok_def)
  have "min ((a * 40 + b) div 40) 2 = a" using ok arcs by (auto simp: arcs_ok_def)
  then show ?thesis using arcs ok first oid_arcs_all [of rest] by (simp add: der_oid_of_def oid_body_def arcs_ok_def Let_def del: of_nat_add of_nat_mult)
qed


text \<open>Reading the bytes an encoder wrote gives back the elements: nothing is lost, merged or reinterpreted.\<close>

theorem der_round_trip: "list_all elem_ok es \<Longrightarrow> read_all (enc_list es) = Inr es"
  by (rule read_all_enc)

theorem der_round_trip_witness:
  "list_all elem_ok [(2, [1]), (4, replicate 200 7), (48, [])]
   \<and> read_all (enc_list [(2, [1]), (4, replicate 200 7), (48, [])]) = Inr [(2, [1]), (4, replicate 200 7), (48, [])]"
proof -
  have "list_all elem_ok [(2, [1]), (4, replicate 200 7), (48, [])]" by (simp add: elem_ok_def)
  then show ?thesis using der_round_trip [of "[(2, [1]), (4, replicate 200 7), (48, [])]"] by simp
qed

section \<open>A response as an authority encodes it\<close>

record tst_fields =
  tf_status :: nat
  tf_status_info :: "elem list"
  tf_version :: nat
  tf_policy :: "nat list"
  tf_params :: "elem list"
  tf_serial :: nat
  tf_time :: bytes
  tf_before :: "elem list"
  tf_nonce :: "nat option"
  tf_after :: "elem list"
  tf_cms_head :: "elem \<times> elem"
  tf_certs :: "elem list"

definition seq_elem :: "elem list \<Rightarrow> elem" where
  "seq_elem es = (TAG_SEQUENCE, enc_list es)"

definition oid_elem :: "nat list \<Rightarrow> elem" where
  "oid_elem arcs = (TAG_OID, oid_body arcs)"

definition imprint_elems :: "elem list \<Rightarrow> bytes \<Rightarrow> elem list" where
  "imprint_elems params digest = [seq_elem (oid_elem SHA256_OID # params), (TAG_OCTET_STRING, digest)]"

definition nonce_elems :: "nat option \<Rightarrow> elem list" where
  "nonce_elems n = (case n of None \<Rightarrow> [] | Some k \<Rightarrow> [int_elem k])"

definition tst_elems :: "tst_fields \<Rightarrow> bytes \<Rightarrow> elem list" where
  "tst_elems f digest =
     [int_elem (tf_version f), oid_elem (tf_policy f), seq_elem (imprint_elems (tf_params f) digest),
      int_elem (tf_serial f), (TAG_GENERALIZED_TIME, tf_time f)]
     @ tf_before f @ nonce_elems (tf_nonce f) @ tf_after f"

definition encap_elems :: "tst_fields \<Rightarrow> bytes \<Rightarrow> elem list" where
  "encap_elems f digest =
     [oid_elem OID_TSTINFO, (TAG_CONTEXT_0, enc (TAG_OCTET_STRING, enc (seq_elem (tst_elems f digest))))]"

definition signed_elems :: "tst_fields \<Rightarrow> bytes \<Rightarrow> elem list" where
  "signed_elems f digest = fst (tf_cms_head f) # snd (tf_cms_head f) # seq_elem (encap_elems f digest) # tf_certs f"

definition token_elems :: "tst_fields \<Rightarrow> bytes \<Rightarrow> elem list" where
  "token_elems f digest = [oid_elem OID_SIGNED_DATA, (TAG_CONTEXT_0, enc (seq_elem (signed_elems f digest)))]"

definition resp_elems :: "tst_fields \<Rightarrow> bytes \<Rightarrow> elem list" where
  "resp_elems f digest =
     [seq_elem (int_elem (tf_status f) # tf_status_info f), seq_elem (token_elems f digest)]"

definition tsa_response :: "tst_fields \<Rightarrow> bytes \<Rightarrow> bytes" where
  "tsa_response f digest = enc (seq_elem (resp_elems f digest))"

definition tag_ok :: "elem \<Rightarrow> bool" where
  "tag_ok e \<longleftrightarrow> fst e < 256 \<and> fst e mod 32 \<noteq> 31"

text \<open>What the standard asks of the fields: the optional ones around the nonce have the tags it gives them.\<close>

definition tsa_fields_ok :: "tst_fields \<Rightarrow> bool" where
  "tsa_fields_ok f \<longleftrightarrow>
     tf_status f \<le> 1 \<and> arcs_ok (tf_policy f) \<and> list_all (\<lambda>b. unat b < 128) (tf_time f)
     \<and> list_all (\<lambda>e. fst e \<in> {TAG_SEQUENCE, TAG_BOOLEAN}) (tf_before f)
     \<and> list_all (\<lambda>e. fst e \<in> {TAG_CONTEXT_0, TAG_CONTEXT_1}) (tf_after f)
     \<and> list_all tag_ok (tf_status_info f @ tf_params f @ tf_certs f @ [fst (tf_cms_head f), snd (tf_cms_head f)])"

lemma length_le_enc: "length (snd e) \<le> length (enc e)"
  by (simp add: enc_def tlv_def)

lemma length_enc_in: "e \<in> set es \<Longrightarrow> length (enc e) \<le> length (enc_list es)"
  by (induction es) (auto simp: enc_list_def)

lemma children_ok:
  "length (enc_list es) < 2 ^ 32 \<Longrightarrow> list_all tag_ok es \<Longrightarrow> list_all elem_ok es"
  using length_enc_in length_le_enc by (fastforce simp: list_all_iff elem_ok_def tag_ok_def intro: le_less_trans)

lemma in_size: "e \<in> set es \<Longrightarrow> length (enc_list es) < k \<Longrightarrow> length (enc e) < k \<and> length (snd e) < k"
  using length_enc_in [of e es] length_le_enc [of e] by simp

lemma tag_ok_built [simp]:
  "tag_ok (int_elem n)" "tag_ok (oid_elem a)" "tag_ok (seq_elem es)" "tag_ok (TAG_OCTET_STRING, v)"
  "tag_ok (TAG_CONTEXT_0, v)" "tag_ok (TAG_GENERALIZED_TIME, v)" "tag_ok (TAG_BOOLEAN, v)"
  by (simp_all add: tag_ok_def int_elem_def oid_elem_def seq_elem_def tag_defs)

lemma der_sequence_seq:
  "list_all tag_ok es \<Longrightarrow> length (snd (seq_elem es)) < 2 ^ 32 \<Longrightarrow> der_sequence (seq_elem es) = Inr es"
  using children_ok [of es] by (simp add: der_sequence_def seq_elem_def read_all_enc)

lemma read_one_tag_ok: "tag_ok e \<Longrightarrow> length (enc e) < 2 ^ 32 \<Longrightarrow> read_one (enc e) = Inr e"
  using length_le_enc [of e] by (intro read_one_enc) (simp add: elem_ok_def tag_ok_def)

lemma find_nonce_written:
  assumes "list_all (\<lambda>e. fst e \<in> {TAG_SEQUENCE, TAG_BOOLEAN}) before"
    and "list_all (\<lambda>e. fst e \<in> {TAG_CONTEXT_0, TAG_CONTEXT_1}) after"
  shows "find_nonce (before @ nonce_elems n @ after) = Inr (map_option int n)"
proof -
  have tail: "find_nonce (nonce_elems n @ after) = Inr (map_option int n)"
  proof (cases n)
    case None
    then show ?thesis using assms(2) by (cases after) (auto simp: nonce_elems_def tag_defs)
  next
    case (Some k)
    then show ?thesis using der_integer_elem [of k] by (simp add: nonce_elems_def int_elem_def)
  qed
  show ?thesis using assms(1) by (induction before) (auto simp: tail tag_defs)
qed

lemma tags_of_fields:
  assumes "tsa_fields_ok f"
  shows "list_all tag_ok (tst_elems f d)" "list_all tag_ok (encap_elems f d)" "list_all tag_ok (signed_elems f d)"
    "list_all tag_ok (token_elems f d)" "list_all tag_ok (resp_elems f d)"
    "list_all tag_ok (imprint_elems (tf_params f) d)" "list_all tag_ok (oid_elem SHA256_OID # tf_params f)"
    "list_all tag_ok (int_elem (tf_status f) # tf_status_info f)"
proof -
  have "list_all tag_ok (tf_before f)" "list_all tag_ok (tf_after f)" "list_all tag_ok (nonce_elems (tf_nonce f))"
    using assms
    by (auto simp: tsa_fields_ok_def list_all_iff tag_ok_def tag_defs nonce_elems_def int_elem_def split: option.splits)
  then show "list_all tag_ok (tst_elems f d)" by (simp add: tst_elems_def)
qed (use assms in \<open>simp_all add: tsa_fields_ok_def encap_elems_def signed_elems_def token_elems_def resp_elems_def imprint_elems_def\<close>)

definition token_of :: "tst_fields \<Rightarrow> bytes \<Rightarrow> pystr \<Rightarrow> timestamp_token" where
  "token_of f digest iso_text =
     \<lparr>tk_algorithm = dotted SHA256_OID, tk_imprint = hex digest, tk_serial = int (tf_serial f),
      tk_gen_time = map unat (tf_time f), tk_gen_iso = iso_text, tk_nonce = map_option int (tf_nonce f)\<rparr>"

lemma oid_elem_read: "arcs_ok arcs \<Longrightarrow> der_oid_of (oid_elem arcs) = Inr (dotted arcs)"
  by (simp add: oid_elem_def der_oid_elem)

lemma known_oids: "arcs_ok SHA256_OID" "arcs_ok OID_SIGNED_DATA" "arcs_ok OID_TSTINFO"
  by (simp_all add: arcs_ok_def SHA256_OID_def OID_SIGNED_DATA_def OID_TSTINFO_def str_raises_def MAX_STR_DIGITS_def digits.simps)

lemma parse_tst_written:
  assumes f: "tsa_fields_ok f" and size: "length (enc_list (tst_elems f d)) < 2 ^ 32"
    and time: "generalized_time_to_iso (map unat (tf_time f)) = Inr iso_text"
  shows "parse_tst_info (tst_elems f d) = Inr (token_of f d iso_text)"
proof -
  have "length (snd (seq_elem (imprint_elems (tf_params f) d))) < 2 ^ 32"
    using in_size [OF _ size, of "seq_elem (imprint_elems (tf_params f) d)"] by (simp add: tst_elems_def)
  then have i: "der_sequence (seq_elem (imprint_elems (tf_params f) d)) = Inr (imprint_elems (tf_params f) d)"
    and isize: "length (enc_list (imprint_elems (tf_params f) d)) < 2 ^ 32"
    using tags_of_fields [OF f] by (simp_all add: der_sequence_seq) (simp add: seq_elem_def)
  have a: "der_sequence (seq_elem (oid_elem SHA256_OID # tf_params f)) = Inr (oid_elem SHA256_OID # tf_params f)"
    using in_size [OF _ isize, of "seq_elem (oid_elem SHA256_OID # tf_params f)"] tags_of_fields(7) [OF f]
    by (intro der_sequence_seq) (simp_all add: imprint_elems_def)
  have n: "find_nonce (tf_before f @ nonce_elems (tf_nonce f) @ tf_after f) = Inr (map_option int (tf_nonce f))"
    using f by (intro find_nonce_written) (simp_all add: tsa_fields_ok_def)
  have t: "\<not> (\<exists>b \<in> set (tf_time f). 128 \<le> unat b)" "arcs_ok (tf_policy f)"
    using f by (auto simp: tsa_fields_ok_def list_all_iff)
  show ?thesis
    using i a n t time by (simp add: parse_tst_info_def tst_elems_def imprint_elems_def der_integer_elem oid_elem_read
        known_oids token_of_def)
qed

lemma parse_token_written:
  assumes f: "tsa_fields_ok f" and size: "length (enc_list (token_elems f d)) < 2 ^ 32"
    and time: "generalized_time_to_iso (map unat (tf_time f)) = Inr iso_text"
  shows "parse_token (seq_elem (token_elems f d)) = Inr (token_of f d iso_text)"
proof -
  note tags = tags_of_fields [OF f]
  have s1: "length (enc (seq_elem (signed_elems f d))) < 2 ^ 32"
    using in_size [OF _ size, of "(TAG_CONTEXT_0, enc (seq_elem (signed_elems f d)))"] by (simp add: token_elems_def)
  have s2: "length (enc_list (signed_elems f d)) < 2 ^ 32"
    using s1 length_le_enc [of "seq_elem (signed_elems f d)"] by (simp add: seq_elem_def)
  have s3: "length (enc_list (encap_elems f d)) < 2 ^ 32"
    using in_size [OF _ s2, of "seq_elem (encap_elems f d)"] by (simp add: signed_elems_def seq_elem_def)
  have s4: "length (enc (TAG_OCTET_STRING, enc (seq_elem (tst_elems f d)))) < 2 ^ 32"
    using in_size [OF _ s3, of "(TAG_CONTEXT_0, enc (TAG_OCTET_STRING, enc (seq_elem (tst_elems f d))))"]
    by (simp add: encap_elems_def)
  have s5: "length (enc (seq_elem (tst_elems f d))) < 2 ^ 32"
    using s4 length_le_enc [of "(TAG_OCTET_STRING, enc (seq_elem (tst_elems f d)))"] by simp
  have s6: "length (enc_list (tst_elems f d)) < 2 ^ 32"
    using s5 length_le_enc [of "seq_elem (tst_elems f d)"] by (simp add: seq_elem_def)
  have "der_sequence (seq_elem (token_elems f d)) = Inr (token_elems f d)"
    using size tags(4) by (intro der_sequence_seq) (simp_all add: seq_elem_def)
  moreover have "der_sequence (seq_elem (signed_elems f d)) = Inr (signed_elems f d)"
    using s2 tags(3) by (intro der_sequence_seq) (simp_all add: seq_elem_def)
  moreover have "der_sequence (seq_elem (encap_elems f d)) = Inr (encap_elems f d)"
    using s3 tags(2) by (intro der_sequence_seq) (simp_all add: seq_elem_def)
  moreover have "der_sequence (seq_elem (tst_elems f d)) = Inr (tst_elems f d)"
    using s6 tags(1) by (intro der_sequence_seq) (simp_all add: seq_elem_def)
  moreover note read_one_tag_ok [OF _ s1] read_one_tag_ok [OF _ s4] read_one_tag_ok [OF _ s5]
    parse_tst_written [OF f s6 time]
  ultimately show ?thesis
    by (simp add: parse_token_def token_elems_def signed_elems_def encap_elems_def oid_elem_read known_oids)
qed

lemma parse_response_written:
  assumes f: "tsa_fields_ok f" and size: "length (tsa_response f d) < 2 ^ 32"
    and time: "generalized_time_to_iso (map unat (tf_time f)) = Inr iso_text"
  shows "parse_timestamp_resp (tsa_response f d)
    = Inr \<lparr>tr_status = int (tf_status f), tr_token = Some (token_of f d iso_text)\<rparr>"
proof -
  note tags = tags_of_fields [OF f]
  let ?st = "int_elem (tf_status f) # tf_status_info f"
  have s1: "length (enc_list (resp_elems f d)) < 2 ^ 32"
    using size length_le_enc [of "seq_elem (resp_elems f d)"] by (simp add: tsa_response_def seq_elem_def)
  have s2: "length (enc_list (token_elems f d)) < 2 ^ 32"
    using in_size [OF _ s1, of "seq_elem (token_elems f d)"] by (simp add: resp_elems_def seq_elem_def)
  have "der_sequence (seq_elem (resp_elems f d)) = Inr (resp_elems f d)"
    using s1 tags(5) by (intro der_sequence_seq) (simp_all add: seq_elem_def)
  moreover have "der_sequence (seq_elem ?st) = Inr ?st"
    using in_size [OF _ s1, of "seq_elem ?st"] tags(8) by (intro der_sequence_seq) (simp_all add: resp_elems_def)
  moreover have "read_one (tsa_response f d) = Inr (seq_elem (resp_elems f d))"
    using size by (simp add: tsa_response_def read_one_tag_ok)
  ultimately show ?thesis using parse_token_written [OF f s2 time]
    by (simp add: parse_timestamp_resp_def resp_elems_def der_integer_elem)
qed

text \<open>C31. 
  A response that an authority encodes as the standard says, for the digest of the message and with the nonce of the request,
  is accepted whatever opaque parts it carries (status text, algorithm parameters, accuracy, certificates), and the
  token holds exactly the fields that were encoded.
\<close>

theorem honest_response_accepted:
  assumes "tsa_fields_ok f" and "length (tsa_response f (sha message)) < 2 ^ 32"
    and "generalized_time_to_iso (map unat (tf_time f)) = Inr iso_text"
    and "nonce = None \<or> nonce = map_option int (tf_nonce f)"
  shows "read_timestamp_resp sha (tsa_response f (sha message)) message nonce
    = (Some (token_of f (sha message) iso_text), None)"
proof -
  have "int (tf_status f) \<in> set ACCEPTED_STATUS" using assms(1) by (auto simp: ACCEPTED_STATUS_def tsa_fields_ok_def)
  then show ?thesis using assms(4) parse_response_written [OF assms(1-3)]
    by (auto simp: read_timestamp_resp_def token_of_def)
qed

definition sample_fields :: tst_fields where
  "sample_fields = \<lparr>tf_status = 1, tf_status_info = [(12, [111, 107])], tf_version = 1, tf_policy = [1, 3, 6, 1, 4, 1, 4146],
     tf_params = [(TAG_NULL, [])], tf_serial = 128, tf_time = map of_nat (str ''20240229235959.5Z''),
     tf_before = [(TAG_SEQUENCE, [2, 1, 1]), (TAG_BOOLEAN, [255])], tf_nonce = Some 255, tf_after = [(TAG_CONTEXT_0, [])],
     tf_cms_head = ((TAG_INTEGER, [3]), (49, [])), tf_certs = [(160, [1, 2, 3])]\<rparr>"

lemma sample_ok: "tsa_fields_ok sample_fields"
  by (simp add: tsa_fields_ok_def sample_fields_def arcs_ok_def str_raises_def MAX_STR_DIGITS_def digits.simps tag_ok_def tag_defs str_def)

lemma sample_time: "generalized_time_to_iso (map unat (tf_time sample_fields)) = Inr (str ''2024-02-29T23:59:59.5+00:00'')"
  by code_simp

lemma sample_response_size: "length (tsa_response sample_fields [1, 2, 9]) < 200"
  by (simp add: tsa_response_def resp_elems_def token_elems_def signed_elems_def encap_elems_def tst_elems_def imprint_elems_def
      nonce_elems_def seq_elem_def oid_elem_def int_elem_def enc_list_def enc_def tlv_def der_len_def int_body_def oid_body_def
      arc_bytes_def arc_high.simps bit_length.simps sample_fields_def SHA256_OID_def OID_SIGNED_DATA_def OID_TSTINFO_def Let_def
      str_def)

theorem honest_response_accepted_witness:
  "read_timestamp_resp (\<lambda>m. m @ [9]) (tsa_response sample_fields [1, 2, 9]) [1, 2] (Some 255)
    = (Some (token_of sample_fields [1, 2, 9] (str ''2024-02-29T23:59:59.5+00:00'')), None)"
proof -
  show ?thesis
    using honest_response_accepted [of sample_fields "\<lambda>m. m @ [9]" "[1, 2]", OF sample_ok _ sample_time, of "Some 255"]
      sample_response_size
    by (simp add: sample_fields_def)
qed

section \<open>What an accepted response commits to\<close>

lemma slice_sublist: "sublist (take n (drop k xs)) xs"
  using sublist_take [of n "drop k xs"] sublist_drop [of k xs] by (rule sublist_order.order_trans)

lemma read_tlv_sublist: "read_tlv buf i = Inr (e, j) \<Longrightarrow> sublist (snd e) buf"
  by (auto simp: read_tlv_def Let_def slice_sublist split: if_splits)

lemma read_from_sublist: "read_from buf i = Inr es \<Longrightarrow> e \<in> set es \<Longrightarrow> sublist (snd e) buf"
proof (induction buf i arbitrary: es rule: read_from.induct)
  case (1 buf i)
  show ?case
  proof (cases "length buf \<le> i")
    case True
    then show ?thesis using "1.prems" by (simp add: read_from.simps)
  next
    case False
    then obtain item j rest where r: "read_tlv buf i = Inr (item, j)" "read_from buf j = Inr rest" "es = item # rest"
      using "1.prems"(1) by (subst (asm) read_from.simps) (auto simp: res_elims split: sum.splits)
    then show ?thesis using "1.IH" [of "(item, j)" item j rest] "1.prems"(2) False read_tlv_sublist [OF r(1)] by auto
  qed
qed

lemma sequence_part: "der_sequence p = Inr es \<Longrightarrow> e \<in> set es \<Longrightarrow> sublist (snd e) (snd p)"
  by (auto simp: der_sequence_def read_all_def split: if_splits dest: read_from_sublist)

lemma one_part: "read_one buf = Inr e \<Longrightarrow> sublist (snd e) buf"
proof -
  assume "read_one buf = Inr e"
  then obtain es where es: "read_from buf 0 = Inr es" "(case es of [x] \<Rightarrow> Inr x | _ \<Rightarrow> Inl DerError) = Inr e"
    unfolding read_one_def read_all_def res_bind_eq_Inr by blast
  then have "es = [e]" by (cases es; cases "tl es") auto
  then show ?thesis using read_from_sublist [OF es(1)] by simp
qed

lemma imprint_part:
  assumes "parse_tst_info tst = Inr t"
  obtains e v where "e \<in> set tst" "sublist v (snd e)" "tk_imprint t = hex v"
proof -
  obtain imp where imp: "length tst \<ge> 5" "der_sequence (tst ! 2) = Inr imp" "length imp \<ge> 2" "tk_imprint t = hex (snd (imp ! 1))"
    using assms by (auto simp: parse_tst_info_def res_elims split: if_splits)
  then have "sublist (snd (imp ! 1)) (snd (tst ! 2))" by (intro sequence_part) auto
  then show thesis using imp by (intro that [of "tst ! 2"]) auto
qed

lemma token_part:
  assumes "parse_token ci = Inr t"
  obtains v where "sublist v (snd ci)" "tk_imprint t = hex v"
proof -
  obtain parts sd0 sd encap octets tst0 tst where
    p: "der_sequence ci = Inr parts" "length parts = 2" "read_one (snd (parts ! 1)) = Inr sd0" "der_sequence sd0 = Inr sd"
    "length sd \<ge> 3" "der_sequence (sd ! 2) = Inr encap" "length encap \<ge> 2" "read_one (snd (encap ! 1)) = Inr octets"
    "read_one (snd octets) = Inr tst0" "der_sequence tst0 = Inr tst" "parse_tst_info tst = Inr t"
    using assms by (auto simp: parse_token_def res_elims split: if_splits)
  obtain e v where v: "e \<in> set tst" "sublist v (snd e)" "tk_imprint t = hex v" using imprint_part [OF p(11)] .
  note sublist_order.order_trans [trans]
  note v(2)
  also have "sublist (snd e) (snd tst0)" using sequence_part [OF p(10) v(1)] .
  also have "sublist (snd tst0) (snd octets)" using one_part [OF p(9)] .
  also have "sublist (snd octets) (snd (encap ! 1))" using one_part [OF p(8)] .
  also have "sublist (snd (encap ! 1)) (snd (sd ! 2))" using sequence_part [OF p(6)] p(7) by simp
  also have "sublist (snd (sd ! 2)) (snd sd0)" using sequence_part [OF p(4)] p(5) by simp
  also have "sublist (snd sd0) (snd (parts ! 1))" using one_part [OF p(3)] .
  also have "sublist (snd (parts ! 1)) (snd ci)" using sequence_part [OF p(1)] p(2) by simp
  finally show thesis using that v(3) by blast
qed

lemma response_part:
  assumes "parse_timestamp_resp der = Inr resp" "tr_token resp = Some t"
  obtains v where "sublist v der" "tk_imprint t = hex v"
proof -
  obtain top items where i: "read_one der = Inr top" "der_sequence top = Inr items" "1 < length items"
    "parse_token (items ! 1) = Inr t"
    using assms by (auto simp: parse_timestamp_resp_def res_elims neq_Nil_conv split: if_splits)
  obtain v where v: "sublist v (snd (items ! 1))" "tk_imprint t = hex v" using token_part [OF i(4)] .
  have "sublist (snd (items ! 1)) (snd top)" using sequence_part [OF i(2)] i(3) by simp
  then show thesis using that v one_part [OF i(1)] by (meson sublist_order.order_trans)
qed

text \<open>C32. 
  A response is accepted only if the digest of the message stands in its bytes, under the name of the one algorithm the
  check knows, with the nonce of the request when one was sent; so one response is never accepted for two messages with different digests.
\<close>

theorem accepted_token_commits:
  assumes "read_timestamp_resp sha der message nonce = (Some t, r)"
  shows "sublist (sha message) der \<and> tk_imprint t = hex (sha message) \<and> tk_algorithm t = dotted SHA256_OID
    \<and> (nonce \<noteq> None \<longrightarrow> tk_nonce t = nonce) \<and> r = None
    \<and> (\<forall>message' nonce'. sha message' \<noteq> sha message \<longrightarrow> fst (read_timestamp_resp sha der message' nonce') = None)"
proof -
  obtain resp where resp: "parse_timestamp_resp der = Inr resp" "tr_token resp = Some t"
    and t: "tk_imprint t = hex (sha message)" "tk_algorithm t = dotted SHA256_OID" "nonce \<noteq> None \<longrightarrow> tk_nonce t = nonce" "r = None"
    using assms by (auto simp: read_timestamp_resp_def split: sum.splits if_splits option.splits)
  obtain v where "sublist v der" "tk_imprint t = hex v" using response_part [OF resp] .
  then have "sublist (sha message) der" using t(1) hex_inj [of v "sha message"] by simp
  moreover have "fst (read_timestamp_resp sha der message' nonce') = None" if "sha message' \<noteq> sha message" for message' nonce'
    using that resp t(1) hex_inj [of "sha message'" "sha message"] by (auto simp: read_timestamp_resp_def)
  ultimately show ?thesis using t by blast
qed

theorem accepted_token_commits_witness:
  "sublist [1, 2, 9] (tsa_response sample_fields [1, 2, 9])
   \<and> fst (read_timestamp_resp (\<lambda>m. m @ [9]) (tsa_response sample_fields [1, 2, 9]) [1, 3] None) = None"
proof -
  have "parse_timestamp_resp (tsa_response sample_fields [1, 2, 9])
    = Inr \<lparr>tr_status = 1, tr_token = Some (token_of sample_fields [1, 2, 9] (str ''2024-02-29T23:59:59.5+00:00''))\<rparr>"
    using parse_response_written [OF sample_ok _ sample_time, of "[1, 2, 9]"] sample_response_size by (simp add: sample_fields_def)
  then have "read_timestamp_resp (\<lambda>m. m @ [9]) (tsa_response sample_fields [1, 2, 9]) [1, 2] None
    = (Some (token_of sample_fields [1, 2, 9] (str ''2024-02-29T23:59:59.5+00:00'')), None)"
    by (simp add: read_timestamp_resp_def ACCEPTED_STATUS_def token_of_def)
  from accepted_token_commits [OF this] show ?thesis by simp
qed

text \<open>The request holds the version, the imprint and the fields asked for, in this order; a reader of the standard finds them there.\<close>

definition req_elems :: "bytes \<Rightarrow> nat option \<Rightarrow> bool \<Rightarrow> elem list" where
  "req_elems digest nonce cert_req =
     [int_elem 1, seq_elem (imprint_elems [(TAG_NULL, [])] digest)] @ nonce_elems nonce
     @ (if cert_req then [(TAG_BOOLEAN, [255])] else [])"

lemma request_bytes:
  "encode_timestamp_req sha message (map_option int nonce) cert_req = Inr (enc (seq_elem (req_elems (sha message) nonce cert_req)))"
  by (simp add: encode_timestamp_req_def der_int_def req_elems_def seq_elem_def imprint_elems_def int_elem_def oid_elem_def enc_def
      enc_list_def SHA256_ALGID_def der_oid_def nonce_elems_def split: option.split)

lemma request_read_back:
  assumes "encode_timestamp_req sha message (map_option int nonce) cert_req = Inr req" and "length req < 2 ^ 32"
  shows "res_bind (read_one req) der_sequence = Inr (req_elems (sha message) nonce cert_req)"
proof -
  let ?es = "req_elems (sha message) nonce cert_req"
  have "req = enc (seq_elem ?es)" using assms(1) by (simp add: request_bytes)
  moreover have "list_all tag_ok ?es"
    by (simp add: req_elems_def nonce_elems_def split: option.split)
  ultimately show ?thesis
    using assms(2) length_le_enc [of "seq_elem ?es"] by (simp add: read_one_tag_ok der_sequence_seq)
qed

text \<open>A proof carried in an anchor record is read back byte for byte, and neither kind of receipt is read as the other.\<close>

theorem receipt_carried:
  "decode_receipt (encode_receipt der) = Some der \<and> decode_ots_receipt (encode_ots_receipt der) = Some der
   \<and> decode_receipt (encode_ots_receipt der) = None \<and> decode_ots_receipt (encode_receipt der) = None"
proof -
  have "take (length RFC3161_PREFIX) (encode_ots_receipt der) \<noteq> RFC3161_PREFIX"
    "take (length OTS_PREFIX) (encode_receipt der) \<noteq> OTS_PREFIX"
    by (simp_all add: encode_ots_receipt_def encode_receipt_def OTS_PREFIX_def RFC3161_PREFIX_def str_def)
  then show ?thesis
    by (simp add: decode_receipt_def decode_ots_receipt_def)
      (simp add: encode_receipt_def encode_ots_receipt_def b64_strict_encode)
qed

text \<open>What the sink files attests the frame of the checkpoint it was given.\<close>

lemma rfc3161_anchor_files:
  assumes "rfc3161_anchor sha post nonce cp w = (Inr result, w')"
  obtains frame der where "checkpoint_frame cp = Inr frame" "result = SinkReceipt (encode_receipt der) nonce"
    "check_timestamp_resp sha der frame nonce = None"
  using assms by (auto simp: rfc3161_anchor_def res_elims split: sum.splits prod.splits if_splits)

end
