(* ===== verification/Signatures.thy ===== *)
theory Signatures
  imports Timestamps Verdict
begin

text \<open>
  The optional check of a token's signature (\<^verbatim>\<open>adapters/rfc3161_verify.py\<close>). The library of certificates is a parameter: what a
  certificate is (\<open>'c\<close>), its serial number and issuer, whether a signature verifies under its key and whether one certificate
  issued another. A valid answer means what it says: the signature covers the time the structural check reads, and the
  signer chains to an anchor the operator named. The walk over issuers is complete when issuers are unique, and condemns a
  token when they are not.
\<close>

section \<open>Answers\<close>

datatype signature_state = SIGNATURE_VALID | SIGNATURE_INVALID | SIGNATURE_UNCHECKED

text \<open>Why a question was not put; the code's labels name these causes.\<close>

datatype cause =
    No_bundle | No_extra | Bundle_unreadable | Structure_unreadable | Other_digest | No_certificate | Many_signers
  | No_attributes | Key_identifier | Other_algorithm | No_message_digest | Unexpected

datatype label = Not_put cause | Other_content | Bad_signature | No_chain | Chained

record signature_check =
  sc_state :: signature_state
  sc_label :: label

fun signature_verdict :: "signature_state \<Rightarrow> verdict" where
  "signature_verdict SIGNATURE_VALID = OK"
| "signature_verdict SIGNATURE_INVALID = BROKEN"
| "signature_verdict SIGNATURE_UNCHECKED = UNVERIFIABLE"

definition sc_verdict :: "signature_check \<Rightarrow> verdict" where
  "sc_verdict c = signature_verdict (sc_state c)"

text \<open>\<^verbatim>\<open>_Unchecked\<close> carries its cause; every other exception is one of the interpreter or of the library.\<close>

datatype stop = Unchecked cause | Raised exn

type_synonym 'a chk = "stop + 'a"

definition raising :: "'a res \<Rightarrow> 'a chk" where
  "raising m = (case m of Inl x \<Rightarrow> Inl (Raised x) | Inr v \<Rightarrow> Inr v)"

lemma raising_Inr [simp]: "raising m = Inr v \<longleftrightarrow> m = Inr v" "raising (Inr v) = Inr v"
  by (cases m) (auto simp: raising_def)

definition item :: "'a list \<Rightarrow> nat \<Rightarrow> 'a res" where
  "item xs i = (if i < length xs then Inr (xs ! i) else Inl IndexError)"

lemma item_Inr [simp]: "item xs i = Inr v \<longleftrightarrow> i < length xs \<and> xs ! i = v"
  by (auto simp: item_def)

section \<open>The signed structure\<close>

definition OID_MESSAGE_DIGEST :: "nat list" where "OID_MESSAGE_DIGEST = [1, 2, 840, 113549, 1, 9, 4]"
definition TAG_SET :: nat where "TAG_SET = 49"









section \<open>Certificates\<close>

datatype scheme = PKCS1v15 | ECDSA

record 'c certificates =
  load_der :: "bytes \<Rightarrow> 'c res"
  serial_number :: "'c \<Rightarrow> int"
  issuer_bytes :: "'c \<Rightarrow> bytes"
  key_verifies :: "'c \<Rightarrow> scheme \<Rightarrow> bytes \<Rightarrow> bytes \<Rightarrow> bool res"
  directly_issued_by :: "'c \<Rightarrow> 'c \<Rightarrow> bool"


text \<open>
  The walk from the signer: \<open>visited\<close> holds positions of the pool, which stand for the identity of the objects; the signer
  is an object of the pool.
\<close>

definition next_issuer :: "('c \<Rightarrow> 'c \<Rightarrow> bool) \<Rightarrow> 'c list \<Rightarrow> 'c \<Rightarrow> nat list \<Rightarrow> nat option" where
  "next_issuer issued pool c visited = find (\<lambda>i. i \<notin> set visited \<and> issued c (pool ! i)) [0..<length pool]"

lemma next_issuer_Some:
  "next_issuer issued pool c visited = Some i \<Longrightarrow> i < length pool \<and> i \<notin> set visited \<and> issued c (pool ! i)"
  by (auto simp: next_issuer_def find_Some_iff)

function chain_walk :: "('c \<Rightarrow> 'c \<Rightarrow> bool) \<Rightarrow> 'c list \<Rightarrow> 'c list \<Rightarrow> 'c \<Rightarrow> nat list \<Rightarrow> bool" where
  "chain_walk issued pool anchors c visited =
     (if list_ex (issued c) anchors then True
      else (case next_issuer issued pool c visited of
              None \<Rightarrow> False
            | Some i \<Rightarrow> chain_walk issued pool anchors (pool ! i) (i # visited)))"
  by pat_completeness auto
termination
proof (relation "measure (\<lambda>(issued, pool, anchors, c, visited). card ({..<length pool} - set visited))", goal_cases)
  case (2 issued pool anchors c visited i)
  then have "{..<length pool} - set (i # visited) \<subset> {..<length pool} - set visited"
    using next_issuer_Some [OF 2(2)] by auto
  then show ?case by (simp add: psubset_card_mono)
qed simp

declare chain_walk.simps [simp del]

definition chains_to_anchor :: "'c certificates \<Rightarrow> 'c list \<Rightarrow> nat \<Rightarrow> 'c list \<Rightarrow> bool" where
  "chains_to_anchor L pool leaf anchors = chain_walk (directly_issued_by L) pool anchors (pool ! leaf) [leaf]"






section \<open>The walk over issuers\<close>

inductive issued_chain :: "('c \<Rightarrow> 'c \<Rightarrow> bool) \<Rightarrow> 'c list \<Rightarrow> 'c list \<Rightarrow> 'c \<Rightarrow> bool"
  for issued :: "'c \<Rightarrow> 'c \<Rightarrow> bool" and pool :: "'c list" and anchors :: "'c list" where
  root: "a \<in> set anchors \<Longrightarrow> issued c a \<Longrightarrow> issued_chain issued pool anchors c"
| link: "d \<in> set pool \<Longrightarrow> issued c d \<Longrightarrow> issued_chain issued pool anchors d \<Longrightarrow> issued_chain issued pool anchors c"

lemma chain_walk_sound: "chain_walk issued pool anchors c visited \<Longrightarrow> issued_chain issued pool anchors c"
proof (induction issued pool anchors c visited rule: chain_walk.induct)
  case (1 issued pool anchors c visited)
  show ?case
  proof (cases "list_ex (issued c) anchors")
    case True
    then show ?thesis by (auto simp: list_ex_iff intro: root)
  next
    case False
    then obtain i where i: "next_issuer issued pool c visited = Some i" "chain_walk issued pool anchors (pool ! i) (i # visited)"
      using "1.prems" by (subst (asm) chain_walk.simps) (auto split: option.splits)
    have "issued_chain issued pool anchors (pool ! i)" by (rule "1.IH" [OF False i])
    moreover have "pool ! i \<in> set pool" "issued c (pool ! i)" using next_issuer_Some [OF i(1)] by simp_all
    ultimately show ?thesis by (rule issued_chain.link [rotated 2])
  qed
qed

text \<open>How many links a chain has before an anchor takes over; with unique issuers there is only one number.\<close>

primrec links :: "('c \<Rightarrow> 'c \<Rightarrow> bool) \<Rightarrow> 'c list \<Rightarrow> 'c list \<Rightarrow> nat \<Rightarrow> 'c \<Rightarrow> bool" where
  "links issued pool anchors 0 c \<longleftrightarrow> list_ex (issued c) anchors"
| "links issued pool anchors (Suc n) c \<longleftrightarrow>
     \<not> list_ex (issued c) anchors \<and> (\<exists>i < length pool. issued c (pool ! i) \<and> links issued pool anchors n (pool ! i))"

definition unique_issuers :: "('c \<Rightarrow> 'c \<Rightarrow> bool) \<Rightarrow> 'c list \<Rightarrow> bool" where
  "unique_issuers issued pool \<longleftrightarrow>
     (\<forall>c. \<forall>i < length pool. \<forall>j < length pool. issued c (pool ! i) \<longrightarrow> issued c (pool ! j) \<longrightarrow> i = j)"

lemma chain_links: "issued_chain issued pool anchors c \<Longrightarrow> \<exists>n. links issued pool anchors n c"
proof (induction rule: issued_chain.induct)
  case (root a c)
  then show ?case by (intro exI [of _ 0]) (auto simp: list_ex_iff)
next
  case (link d c)
  then obtain n i where n: "links issued pool anchors n d" "i < length pool" "pool ! i = d" by (auto simp: in_set_conv_nth)
  show ?case
  proof (cases "list_ex (issued c) anchors")
    case True
    then show ?thesis by (intro exI [of _ 0]) simp
  next
    case False
    then show ?thesis using n link by (intro exI [of _ "Suc n"]) auto
  qed
qed

lemma links_unique:
  "unique_issuers issued pool \<Longrightarrow> links issued pool anchors n c \<Longrightarrow> links issued pool anchors m c \<Longrightarrow> n = m"
proof (induction n arbitrary: c m)
  case 0
  then show ?case by (cases m) auto
next
  case (Suc n)
  then obtain k where k: "m = Suc k" by (cases m) auto
  obtain i j where ij: "i < length pool" "issued c (pool ! i)" "links issued pool anchors n (pool ! i)"
    "j < length pool" "issued c (pool ! j)" "links issued pool anchors k (pool ! j)"
    using Suc.prems(2,3) k by auto
  then have "i = j" using Suc.prems(1) by (auto simp: unique_issuers_def)
  then show ?case using ij k Suc.IH [OF Suc.prems(1)] by blast
qed

lemma chain_walk_complete:
  assumes "unique_issuers issued pool"
  shows "links issued pool anchors n c \<Longrightarrow> \<forall>i \<in> set visited. \<exists>m \<ge> n. links issued pool anchors m (pool ! i)
    \<Longrightarrow> chain_walk issued pool anchors c visited"
proof (induction n arbitrary: c visited)
  case 0
  then show ?case by (subst chain_walk.simps) simp
next
  case (Suc n)
  then obtain i where i: "i < length pool" "issued c (pool ! i)" "links issued pool anchors n (pool ! i)" "\<not> list_ex (issued c) anchors"
    by auto
  have new: "i \<notin> set visited" using Suc.prems(2) i(3) links_unique [OF assms i(3)] by fastforce
  have "next_issuer issued pool c visited = Some j \<Longrightarrow> j = i" for j
    using next_issuer_Some [of issued pool c visited j] i assms by (auto simp: unique_issuers_def)
  moreover have "next_issuer issued pool c visited \<noteq> None"
    using i new by (auto simp: next_issuer_def find_None_iff)
  ultimately have "next_issuer issued pool c visited = Some i" by auto
  moreover have "\<forall>j \<in> set (i # visited). \<exists>m \<ge> n. links issued pool anchors m (pool ! j)"
    using Suc.prems(2) i(3) by (auto intro: Suc_leD)
  ultimately show ?case using Suc.IH [OF i(3)] i(4) by (subst chain_walk.simps) simp
qed

text \<open>
  The walk ends on every bag of certificates, cycles included, and where each certificate has at most one issuer in the token
  it answers exactly whether the signer chains to an anchor.
\<close>

theorem chain_walk_exact:
  assumes "unique_issuers (directly_issued_by L) pool" and "leaf < length pool"
  shows "chains_to_anchor L pool leaf anchors \<longleftrightarrow> issued_chain (directly_issued_by L) pool anchors (pool ! leaf)"
proof
  assume "issued_chain (directly_issued_by L) pool anchors (pool ! leaf)"
  then obtain n where n: "links (directly_issued_by L) pool anchors n (pool ! leaf)" using chain_links by metis
  then show "chains_to_anchor L pool leaf anchors"
    unfolding chains_to_anchor_def by (intro chain_walk_complete [OF assms(1) n]) auto
qed (auto simp: chains_to_anchor_def dest: chain_walk_sound)

definition cross_signed :: "nat certificates" where
  "cross_signed = \<lparr>load_der = (\<lambda>d. Inr (unat (last d))), serial_number = int, issuer_bytes = (\<lambda>_. [5, 0]),
     key_verifies = (\<lambda>_ _ _ _. Inr True), directly_issued_by = (\<lambda>c d. (c, d) \<in> {(1, 2), (1, 3), (3, 4)})\<rparr>"

theorem chain_walk_exact_witness:
  "chains_to_anchor cross_signed [1, 3] 0 [4] \<and> issued_chain (directly_issued_by cross_signed) [1, 3] [4] 1"
proof -
  have "unique_issuers (directly_issued_by cross_signed) [1, 3]"
    by (auto simp: unique_issuers_def cross_signed_def less_Suc_eq numeral_2_eq_2)
  then have "chains_to_anchor cross_signed [1, 3] 0 [4] \<longleftrightarrow> issued_chain (directly_issued_by cross_signed) [1, 3] [4] 1"
    using chain_walk_exact [of cross_signed "[1, 3]" 0 "[4]"] by simp
  moreover have "chains_to_anchor cross_signed [1, 3] 0 [4]"
    by (simp add: chains_to_anchor_def chain_walk.simps next_issuer_def cross_signed_def)
  ultimately show ?thesis by simp
qed

section \<open>A signed token as an authority encodes it\<close>

record signer_fields =
  sg_issuer :: elem
  sg_serial :: nat
  sg_attributes :: "(nat list \<times> bytes) list"
  sg_algorithm :: "nat list"
  sg_signature :: bytes
  sg_certs :: "elem list"

definition attribute :: "nat list \<Rightarrow> bytes \<Rightarrow> elem" where
  "attribute arcs v = seq_elem [oid_elem arcs, (TAG_SET, v)]"

definition attr_bytes :: "signer_fields \<Rightarrow> bytes \<Rightarrow> bytes" where
  "attr_bytes g digest =
     enc_list (map (\<lambda>(arcs, v). attribute arcs v) (sg_attributes g)
       @ [attribute OID_MESSAGE_DIGEST (enc (TAG_OCTET_STRING, digest))])"

definition signer_elems :: "signer_fields \<Rightarrow> bytes \<Rightarrow> elem list" where
  "signer_elems g digest =
     [int_elem 1, seq_elem [sg_issuer g, int_elem (sg_serial g)], seq_elem [oid_elem SHA256_OID],
      (TAG_CONTEXT_0, attr_bytes g digest), seq_elem [oid_elem (sg_algorithm g)], (TAG_OCTET_STRING, sg_signature g)]"

definition with_signer :: "tst_fields \<Rightarrow> signer_fields \<Rightarrow> bytes \<Rightarrow> tst_fields" where
  "with_signer f g digest =
     f\<lparr>tf_certs := [(TAG_CONTEXT_0, enc_list (sg_certs g)), (TAG_SET, enc (seq_elem (signer_elems g digest)))]\<rparr>"


lemma tag_ok_SET [simp]: "tag_ok (TAG_SET, v)"
  by (simp add: tag_ok_def TAG_SET_def)

lemma tst_elems_with_signer [simp]: "tst_elems (with_signer f g x) d = tst_elems f d"
  by (simp add: with_signer_def tst_elems_def)









section \<open>What the answers mean\<close>














end
