(* ===== verification/Ledger.thy ===== *)
theory Ledger
  imports Abi Bond Pins Registry Payload "HOL-Library.Sublist"
begin

text \<open>
  The ledger reader (\<^verbatim>\<open>adapters/evm/reader.py\<close>, \<^verbatim>\<open>adapters/evm/_rpc.py\<close>) and the checks built on it (\<^verbatim>\<open>cli/ledger.py\<close>). What a node answers to a call is a
  parameter: the status and the decoded body of its reply, or an exception of the transport. A run sends one request to one
  node at most once, so a function of the endpoint, the contract and the calldata describes every run. No value an honest
  endpoint contradicts is ever returned; the time of a checkpoint is the exception, and one endpoint can set it alone.
\<close>

section \<open>Failures\<close>

datatype ledger_exn = LedgerUnreachable | RpcRevert bytes | LedgerDisagreement | Escaped exn

text \<open>\<^verbatim>\<open>_RpcRevert\<close> is a \<^verbatim>\<open>LedgerUnreachable\<close>.\<close>

fun is_unreachable :: "ledger_exn \<Rightarrow> bool" where
  "is_unreachable LedgerUnreachable = True"
| "is_unreachable (RpcRevert _) = True"
| "is_unreachable _ = False"

type_synonym 'a asked = "ledger_exn + 'a"

definition escaping :: "'a res \<Rightarrow> 'a asked" where
  "escaping m = (case m of Inl x \<Rightarrow> Inl (Escaped x) | Inr v \<Rightarrow> Inr v)"

text \<open>\<^verbatim>\<open>except AbiError\<close> around a decoder.\<close>

definition unless_abi :: "'a res \<Rightarrow> 'a asked" where
  "unless_abi m = (case m of Inl x \<Rightarrow> Inl (if x = AbiError then LedgerUnreachable else Escaped x) | Inr v \<Rightarrow> Inr v)"

lemma escaping_simps [simp]: "escaping (Inr v) = Inr v" "escaping (Inl x) = Inl (Escaped x)"
  by (simp_all add: escaping_def)

lemma unless_abi_Inr [simp]: "unless_abi (Inr v) = Inr v"
  by (simp add: unless_abi_def)

section \<open>One node\<close>

definition MIN_ENDPOINTS :: nat where "MIN_ENDPOINTS = 2"
definition ERROR_TRAIL_NOT_REGISTERED :: bytes where "ERROR_TRAIL_NOT_REGISTERED = [69, 237, 66, 225]"

record evm_contracts =
  ec_liveness :: "pystr option"
  ec_registry :: "pystr option"
  ec_bond :: "pystr option"

type_synonym node = "pystr \<Rightarrow> pystr \<Rightarrow> bytes \<Rightarrow> (int \<times> json res) res"

record evm_reader =
  rd_urls :: "pystr list"
  rd_contracts :: evm_contracts
  rd_node :: node
  rd_runtime :: runtime
  rd_lower :: "pystr \<Rightarrow> pystr"

definition new_reader :: "pystr list \<Rightarrow> evm_contracts \<Rightarrow> node \<Rightarrow> runtime \<Rightarrow> (pystr \<Rightarrow> pystr) \<Rightarrow> evm_reader res" where
  "new_reader urls contracts n rt lower =
     (if length urls < MIN_ENDPOINTS then Inl ValueError
      else if \<not> distinct urls then Inl ValueError
      else Inr \<lparr>rd_urls = urls, rd_contracts = contracts, rd_node = n, rd_runtime = rt, rd_lower = lower\<rparr>)"

definition hex_bytes :: "json \<Rightarrow> bytes asked" where
  "hex_bytes v =
     (case v of
        JStr s \<Rightarrow> if take 2 s \<noteq> str ''0x'' then Inl LedgerUnreachable
                  else (case fromhex (drop 2 s) of Inl _ \<Rightarrow> Inl LedgerUnreachable | Inr b \<Rightarrow> Inr b)
      | _ \<Rightarrow> Inl LedgerUnreachable)"

definition revert_data :: "json \<Rightarrow> bytes" where
  "revert_data v = (case hex_bytes v of Inl _ \<Rightarrow> [] | Inr b \<Rightarrow> b)"

definition equals_three :: "json \<Rightarrow> bool" where
  "equals_three v = (case v of JInt n \<Rightarrow> n = 3 | JFloat f \<Rightarrow> f_integral f = Some 3 | _ \<Rightarrow> False)"

definition rpc_failure :: "evm_reader \<Rightarrow> json \<Rightarrow> ledger_exn" where
  "rpc_failure rd err =
     (case err of
        JObj fs \<Rightarrow>
          let message = py_str (rd_runtime rd) (case jget fs ''message'' of None \<Rightarrow> err | Some m \<Rightarrow> m) in
          if equals_three (jget_null fs ''code'') \<or> sublist (str ''execution reverted'') (rd_lower rd message)
          then RpcRevert (revert_data (jget_null fs ''data''))
          else LedgerUnreachable
      | _ \<Rightarrow> LedgerUnreachable)"

definition rpc_result :: "evm_reader \<Rightarrow> (int \<times> json res) res \<Rightarrow> json asked" where
  "rpc_result rd answer =
     (case answer of
        Inl _ \<Rightarrow> Inl LedgerUnreachable
      | Inr (status, body) \<Rightarrow>
          if \<not> (200 \<le> status \<and> status < 300) then Inl LedgerUnreachable
          else (case body of
                  Inl x \<Rightarrow> Inl (if is_ValueError x then LedgerUnreachable else Escaped x)
                | Inr (JObj fs) \<Rightarrow>
                    if jget_null fs ''error'' \<noteq> JNull then Inl (rpc_failure rd (jget_null fs ''error''))
                    else (case jget fs ''result'' of None \<Rightarrow> Inl LedgerUnreachable | Some v \<Rightarrow> Inr v)
                | Inr _ \<Rightarrow> Inl LedgerUnreachable))"

definition nonempty :: "bytes \<Rightarrow> bytes asked" where
  "nonempty raw = (if raw = [] then Inl LedgerUnreachable else Inr raw)"

definition eth_call :: "evm_reader \<Rightarrow> pystr \<Rightarrow> bytes \<Rightarrow> pystr \<Rightarrow> bytes asked" where
  "eth_call rd to data url =
     sum_bind (sum_bind (rpc_result rd (rd_node rd url to data)) hex_bytes) nonempty"

definition expected_words :: "nat \<Rightarrow> bytes \<Rightarrow> bytes list asked" where
  "expected_words n raw =
     sum_bind (unless_abi (decode_words raw)) (\<lambda>ws. if length ws \<noteq> n then Inl LedgerUnreachable else Inr ws)"

section \<open>Agreement\<close>

fun ask_all :: "('u \<Rightarrow> 'a asked) \<Rightarrow> 'u list \<Rightarrow> 'a list asked" where
  "ask_all ask [] = Inr []"
| "ask_all ask (u # us) =
     (case ask u of
        Inr v \<Rightarrow> sum_bind (ask_all ask us) (\<lambda>vs. Inr (v # vs))
      | Inl x \<Rightarrow> if is_unreachable x then ask_all ask us else Inl x)"

text \<open>\<^verbatim>\<open>itertools.combinations(answers, 2)\<close> in its order.\<close>

fun all_agree :: "('a \<Rightarrow> 'a \<Rightarrow> bool) \<Rightarrow> 'a list \<Rightarrow> bool" where
  "all_agree agree [] = True"
| "all_agree agree (v # vs) = (list_all (agree v) vs \<and> all_agree agree vs)"

definition agreement :: "('a \<Rightarrow> 'a \<Rightarrow> bool) \<Rightarrow> ('u \<Rightarrow> 'a asked) \<Rightarrow> 'u list \<Rightarrow> 'a asked" where
  "agreement agree ask urls =
     sum_bind (ask_all ask urls) (\<lambda>answers.
       if \<not> all_agree agree answers then Inl LedgerDisagreement
       else if length answers < MIN_ENDPOINTS then Inl LedgerUnreachable
       else Inr (hd answers))"

section \<open>The reader's questions\<close>

record on_chain_checkpoint =
  oc_chain_id :: pystr
  oc_seq :: nat
  oc_entry_hash :: pystr
  oc_root :: pystr
  oc_block_time :: nat

definition checkpoints_agree :: "on_chain_checkpoint option \<Rightarrow> on_chain_checkpoint option \<Rightarrow> bool" where
  "checkpoints_agree a b =
     (case (a, b) of
        (Some x, Some y) \<Rightarrow> oc_chain_id x = oc_chain_id y \<and> oc_seq x = oc_seq y \<and> oc_entry_hash x = oc_entry_hash y \<and> oc_root x = oc_root y
      | _ \<Rightarrow> a = b)"

definition address_of :: "pystr option \<Rightarrow> pystr asked" where
  "address_of a = (case a of None \<Rightarrow> Inl LedgerUnreachable | Some x \<Rightarrow> Inr x)"

definition selector_of :: "string \<Rightarrow> bytes" where
  "selector_of sig = the (map_of SELECTORS sig)"

definition trail_call :: "(bytes \<Rightarrow> bytes) \<Rightarrow> string \<Rightarrow> pystr \<Rightarrow> bytes res" where
  "trail_call sha sig chain_id =
     res_bind (trail_id_for sha chain_id) (\<lambda>tid. res_bind (encode_bytes32 (RawBytes tid)) (\<lambda>w. encode_call (selector_of sig) [Static w]))"

definition absent_on_revert :: "bytes asked \<Rightarrow> (bytes \<Rightarrow> 'a asked) \<Rightarrow> 'a option asked" where
  "absent_on_revert raw f =
     (case raw of
        Inl (RpcRevert d) \<Rightarrow> if take 4 d = ERROR_TRAIL_NOT_REGISTERED then Inr None else Inl (RpcRevert d)
      | Inl x \<Rightarrow> Inl x
      | Inr b \<Rightarrow> sum_bind (f b) (\<lambda>v. Inr (Some v)))"

definition read_checkpoint :: "pystr \<Rightarrow> bytes \<Rightarrow> on_chain_checkpoint asked" where
  "read_checkpoint chain_id raw =
     sum_bind (expected_words 4 raw) (\<lambda>ws.
     sum_bind (escaping (decode_uint (ws ! 0))) (\<lambda>sq.
     sum_bind (escaping (decode_bytes32 (ws ! 1))) (\<lambda>eh.
     sum_bind (escaping (decode_bytes32 (ws ! 2))) (\<lambda>root.
     sum_bind (escaping (decode_uint (ws ! 3))) (\<lambda>t.
       Inr \<lparr>oc_chain_id = chain_id, oc_seq = sq, oc_entry_hash = eh, oc_root = root, oc_block_time = t\<rparr>)))))"

definition latest_checkpoint :: "(bytes \<Rightarrow> bytes) \<Rightarrow> evm_reader \<Rightarrow> pystr \<Rightarrow> on_chain_checkpoint option asked" where
  "latest_checkpoint sha rd chain_id =
     sum_bind (address_of (ec_liveness (rd_contracts rd))) (\<lambda>addr.
     sum_bind (escaping (trail_call sha ''lastSeen(bytes32)'' chain_id)) (\<lambda>data.
       agreement checkpoints_agree (\<lambda>url. absent_on_revert (eth_call rd addr data url) (read_checkpoint chain_id)) (rd_urls rd)))"

definition deadline_of :: "(bytes \<Rightarrow> bytes) \<Rightarrow> evm_reader \<Rightarrow> pystr \<Rightarrow> nat option asked" where
  "deadline_of sha rd chain_id =
     sum_bind (address_of (ec_liveness (rd_contracts rd))) (\<lambda>addr.
     sum_bind (escaping (trail_call sha ''deadlineOf(bytes32)'' chain_id)) (\<lambda>data.
       agreement (=) (\<lambda>url.
         sum_bind (eth_call rd addr data url) (\<lambda>raw.
         sum_bind (expected_words 1 raw) (\<lambda>ws.
         sum_bind (escaping (decode_uint (ws ! 0))) (\<lambda>v. Inr (if v = 0 then None else Some v))))) (rd_urls rd)))"

definition registry_lookup :: "evm_reader \<Rightarrow> pystr \<Rightarrow> bytes option asked" where
  "registry_lookup rd fp =
     sum_bind (address_of (ec_registry (rd_contracts rd))) (\<lambda>addr.
     sum_bind (escaping (res_bind (encode_bytes32 (HexText fp)) (\<lambda>w. encode_call (selector_of ''lookup(bytes32)'') [Static w]))) (\<lambda>data.
       agreement (=) (\<lambda>url.
         sum_bind (eth_call rd addr data url) (\<lambda>raw.
         sum_bind (unless_abi (decode_bytes raw 0)) (\<lambda>d. Inr (if d = [] then None else Some d)))) (rd_urls rd)))"

definition bond_status_of :: "evm_reader \<Rightarrow> pystr \<Rightarrow> bond_status asked" where
  "bond_status_of rd writer =
     sum_bind (address_of (ec_bond (rd_contracts rd))) (\<lambda>addr.
     sum_bind (escaping (res_bind (encode_address writer) (\<lambda>w. encode_call (selector_of ''bondOf(address)'') [Static w]))) (\<lambda>data.
       agreement (=) (\<lambda>url.
         sum_bind (eth_call rd addr data url) (\<lambda>raw.
         sum_bind (expected_words 4 raw) (\<lambda>ws.
         sum_bind (unless_abi (decode_uint (ws ! 0))) (\<lambda>amount.
         sum_bind (unless_abi (decode_bool (ws ! 3))) (\<lambda>slashed.
           Inr (bond_status_for writer (int amount) slashed)))))) (rd_urls rd)))"

definition on_chain_delinquency :: "(bytes \<Rightarrow> bytes) \<Rightarrow> evm_reader \<Rightarrow> pystr \<Rightarrow> bool option asked" where
  "on_chain_delinquency sha rd chain_id =
     sum_bind (address_of (ec_liveness (rd_contracts rd))) (\<lambda>addr.
     sum_bind (escaping (trail_call sha ''isDelinquent(bytes32)'' chain_id)) (\<lambda>data.
       agreement (=) (\<lambda>url. absent_on_revert (eth_call rd addr data url) (\<lambda>raw.
         sum_bind (expected_words 1 raw) (\<lambda>ws. unless_abi (decode_bool (ws ! 0))))) (rd_urls rd)))"

section \<open>Readings\<close>

record clock =
  ck_moment :: "int \<Rightarrow> pystr option"
  ck_age :: "pystr \<Rightarrow> int option"

definition ledger_liveness :: "(bytes \<Rightarrow> bytes) \<Rightarrow> clock \<Rightarrow> evm_reader \<Rightarrow> pystr \<Rightarrow> liveness_verdict asked" where
  "ledger_liveness sha ck rd chain_id =
     (case sum_bind (latest_checkpoint sha rd chain_id) (\<lambda>l. sum_bind (deadline_of sha rd chain_id) (\<lambda>d. Inr (l, d))) of
        Inl x \<Rightarrow> if is_unreachable x then Inr (unreachable_ledger ''ledger_unreachable'') else Inl x
      | Inr (latest, deadline) \<Rightarrow>
          Inr (delinquency (ck_moment ck) (ck_age ck) (map_option (\<lambda>c. int (oc_block_time c)) latest) (map_option int deadline)))"

definition ledger_bond :: "evm_reader \<Rightarrow> pystr \<Rightarrow> bond_status asked" where
  "ledger_bond rd writer =
     (case bond_status_of rd writer of
        Inl x \<Rightarrow> if is_unreachable x then Inr (unreachable_bond writer ''ledger_unreachable'') else Inl x
      | Inr b \<Rightarrow> Inr b)"

definition registry_agreement :: "(bytes \<Rightarrow> bytes) \<Rightarrow> version_registry \<Rightarrow> evm_reader \<Rightarrow> pystr \<Rightarrow> registry_finding asked" where
  "registry_agreement sha reg rd fp =
     (case registry_lookup rd fp of
        Inl x \<Rightarrow> if is_unreachable x then escaping (cross_check sha reg fp None False) else Inl x
      | Inr d \<Rightarrow> escaping (cross_check sha reg fp d True))"

section \<open>The checks of the command line\<close>

text \<open>\<open>absorb\<close>: the worst verdict and the first reason so far.\<close>

definition absorb :: "verdict \<times> string option \<Rightarrow> verdict \<Rightarrow> string option \<Rightarrow> verdict \<times> string option" where
  "absorb st v r = (join (fst st) v, if snd st = None then r else snd st)"

text \<open>A caller that catches \<^verbatim>\<open>LedgerDisagreement\<close>: \<^verbatim>\<open>LedgerError\<close> is a \<^verbatim>\<open>RuntimeError\<close>, every other exception leaves the command.\<close>

definition unless_disagreement :: "'a asked \<Rightarrow> 'b res \<Rightarrow> ('a \<Rightarrow> 'b res) \<Rightarrow> 'b res" where
  "unless_disagreement m dis f =
     (case m of
        Inr v \<Rightarrow> f v
      | Inl LedgerDisagreement \<Rightarrow> dis
      | Inl (Escaped x) \<Rightarrow> Inl x
      | Inl _ \<Rightarrow> Inl RuntimeError)"

definition fingerprints_of :: "entry list \<Rightarrow> pystr list" where
  "fingerprints_of es = sort (remdups (map (\<lambda>e. hash_version (header e)) es))"

fun registry_loop ::
  "(bytes \<Rightarrow> bytes) \<Rightarrow> version_registry \<Rightarrow> evm_reader \<Rightarrow> pystr list \<Rightarrow> verdict \<times> string option \<Rightarrow> (verdict \<times> string option) res" where
  "registry_loop sha reg rd [] st = Inr st"
| "registry_loop sha reg rd (fp # fps) st =
     res_bind (unless_disagreement (registry_agreement sha reg rd fp) (Inr (absorb st UNVERIFIABLE (Some ''ledger_unreachable'')))
                 (\<lambda>f. res_map (\<lambda>v. absorb st v (rf_reason f)) (registry_to_verdict f)))
       (registry_loop sha reg rd fps)"

definition liveness_part ::
  "(bytes \<Rightarrow> bytes) \<Rightarrow> clock \<Rightarrow> evm_reader \<Rightarrow> pystr \<Rightarrow> verdict \<times> string option \<Rightarrow> (verdict \<times> string option) res" where
  "liveness_part sha ck rd trail_id st =
     unless_disagreement (ledger_liveness sha ck rd trail_id) (Inr (absorb st UNVERIFIABLE (Some ''ledger_unreachable'')))
       (\<lambda>lv. res_map (\<lambda>v. absorb st v (lv_reason lv)) (to_verify_verdict lv))"

definition registry_part ::
  "(bytes \<Rightarrow> bytes) \<Rightarrow> evm_reader \<Rightarrow> entry list \<Rightarrow> verdict \<times> string option \<Rightarrow> (verdict \<times> string option) res" where
  "registry_part sha rd es st = res_bind (new_registry sha) (\<lambda>reg. registry_loop sha reg rd (fingerprints_of es) st)"

definition ledger_check ::
  "(bytes \<Rightarrow> bytes) \<Rightarrow> clock \<Rightarrow> (evm_contracts \<Rightarrow> evm_reader res) \<Rightarrow> pystr option \<Rightarrow> pystr option \<Rightarrow> pystr \<Rightarrow> entry list \<Rightarrow> check_summary res" where
  "ledger_check sha ck open_reader liveness registry trail_id es =
     (case open_reader \<lparr>ec_liveness = liveness, ec_registry = registry, ec_bond = None\<rparr> of
        Inl x \<Rightarrow>
          if is_ValueError x
          then Inr \<lparr>su_ok = True, su_checked = 0, su_reason = Some ''ledger_unreachable'', su_unverifiable = True\<rparr>
          else Inl x
      | Inr rd \<Rightarrow>
          res_bind (if liveness = None then Inr (OK, None) else liveness_part sha ck rd trail_id (OK, None)) (\<lambda>st.
          res_map (\<lambda>st'. \<lparr>su_ok = True, su_checked = 1, su_reason = snd st', su_unverifiable = (fst st' = UNVERIFIABLE)\<rparr>)
            (if registry = None then Inr st else registry_part sha rd es st)))"

text \<open>\<^verbatim>\<open>ledger-status\<close>: the verdicts of the configured dimensions, in their order, and the exit code of the worst.\<close>

fun registry_findings :: "(bytes \<Rightarrow> bytes) \<Rightarrow> version_registry \<Rightarrow> evm_reader \<Rightarrow> pystr list \<Rightarrow> verdict list res" where
  "registry_findings sha reg rd [] = Inr []"
| "registry_findings sha reg rd (fp # fps) =
     res_bind (unless_disagreement (registry_agreement sha reg rd fp) (Inr UNVERIFIABLE) registry_to_verdict) (\<lambda>v.
     res_map (Cons v) (registry_findings sha reg rd fps))"

definition ledger_status ::
  "(bytes \<Rightarrow> bytes) \<Rightarrow> clock \<Rightarrow> (evm_contracts \<Rightarrow> evm_reader res) \<Rightarrow> pystr \<Rightarrow> pystr option \<Rightarrow> (pystr \<times> pystr) option \<Rightarrow> pystr
    \<Rightarrow> entry list res \<Rightarrow> int res" where
  "ledger_status sha ck open_reader liveness registry bond trail_id entries =
     (case open_reader \<lparr>ec_liveness = Some liveness, ec_registry = registry, ec_bond = map_option fst bond\<rparr> of
        Inl x \<Rightarrow> if is_ValueError x then Inr 2 else Inl x
      | Inr rd \<Rightarrow>
          res_bind (unless_disagreement (ledger_liveness sha ck rd trail_id) (Inr UNVERIFIABLE) liveness_to_verdict) (\<lambda>l.
          res_bind (case registry of
                      None \<Rightarrow> Inr []
                    | Some _ \<Rightarrow> res_bind entries (\<lambda>es. res_bind (new_registry sha) (\<lambda>reg.
                        if es = [] then Inr [OK] else registry_findings sha reg rd (fingerprints_of es)))) (\<lambda>rs.
          res_bind (case bond of
                      None \<Rightarrow> Inr []
                    | Some (_, writer) \<Rightarrow>
                        res_map (\<lambda>v. [v]) (unless_disagreement (ledger_bond rd writer) (Inr UNVERIFIABLE) bond_to_verdict)) (\<lambda>bs.
            Inr (to_exit_code (fold (\<lambda>v acc. join acc v) (l # rs @ bs) OK))))))"

section \<open>What agreement means\<close>

lemma all_agree_eq: "all_agree (=) vs \<longleftrightarrow> (\<forall>v \<in> set vs. \<forall>w \<in> set vs. v = w)"
  by (induction vs) (auto simp: list_all_iff)

fun answers :: "('u \<Rightarrow> 'a asked) \<Rightarrow> 'u list \<Rightarrow> 'a list" where
  "answers ask [] = []"
| "answers ask (u # us) = (case ask u of Inr v \<Rightarrow> v # answers ask us | Inl _ \<Rightarrow> answers ask us)"

lemma ask_all_Inr:
  "ask_all ask us = Inr vs \<longleftrightarrow>
     (\<forall>u \<in> set us. \<forall>x. ask u = Inl x \<longrightarrow> is_unreachable x) \<and> vs = answers ask us"
  by (induction us arbitrary: vs) (auto simp: sum_bind_Inr split: sum.splits if_splits)

lemma in_answers: "v \<in> set (answers ask us) \<longleftrightarrow> (\<exists>u \<in> set us. ask u = Inr v)"
  by (induction us) (auto split: sum.splits)

lemma same_answers:
  "\<forall>u \<in> set us. \<forall>v. ask u = Inr v \<longrightarrow> v = w
    \<Longrightarrow> answers ask us = replicate (length (filter (\<lambda>u. ask u = Inr w) us)) w"
proof (induction us)
  case (Cons u us)
  then show ?case by (cases "ask u") simp_all
qed simp

text \<open>
  A value is returned exactly when every endpoint that answers gives this value, at least two do, and the others are
  silent: no endpoint is outvoted, and a single voice is not an answer.
\<close>

theorem agreement_exact:
  "agreement (=) ask urls = Inr w \<longleftrightarrow>
     (\<forall>u \<in> set urls. case ask u of Inr v \<Rightarrow> v = w | Inl x \<Rightarrow> is_unreachable x)
     \<and> 2 \<le> length (filter (\<lambda>u. ask u = Inr w) urls)"
proof
  assume "agreement (=) ask urls = Inr w"
  then have a: "\<forall>u \<in> set urls. \<forall>x. ask u = Inl x \<longrightarrow> is_unreachable x" "all_agree (=) (answers ask urls)"
    "2 \<le> length (answers ask urls)" "w = hd (answers ask urls)"
    by (auto simp: agreement_def sum_bind_Inr ask_all_Inr MIN_ENDPOINTS_def split: if_splits)
  have "w \<in> set (answers ask urls)" unfolding a(4) using a(3) by (intro hd_in_set) auto
  then have w: "\<forall>u \<in> set urls. \<forall>v. ask u = Inr v \<longrightarrow> v = w" using a(2) in_answers unfolding all_agree_eq by metis
  then show "(\<forall>u \<in> set urls. case ask u of Inr v \<Rightarrow> v = w | Inl x \<Rightarrow> is_unreachable x) \<and> 2 \<le> length (filter (\<lambda>u. ask u = Inr w) urls)"
    using a(1,3) same_answers [OF w] by (auto split: sum.split)
next
  assume r: "(\<forall>u \<in> set urls. case ask u of Inr v \<Rightarrow> v = w | Inl x \<Rightarrow> is_unreachable x) \<and> 2 \<le> length (filter (\<lambda>u. ask u = Inr w) urls)"
  then have "ask_all ask urls = Inr (answers ask urls)" unfolding ask_all_Inr by auto
  moreover have "answers ask urls = replicate (length (filter (\<lambda>u. ask u = Inr w) urls)) w"
    using r by (intro same_answers) (auto split: sum.splits)
  moreover obtain n where "length (filter (\<lambda>u. ask u = Inr w) urls) = Suc n"
    using r by (cases "length (filter (\<lambda>u. ask u = Inr w) urls)") auto
  ultimately show "agreement (=) ask urls = Inr w" using r by (auto simp: agreement_def all_agree_eq MIN_ENDPOINTS_def)
qed

section \<open>What a node says\<close>

definition word_reply :: "bytes \<Rightarrow> (int \<times> json res) res" where
  "word_reply raw = Inr (200, Inr (JObj [(str ''result'', JStr (str ''0x'' @ hex raw))]))"

definition seen_words :: "nat \<Rightarrow> bytes \<Rightarrow> bytes \<Rightarrow> nat \<Rightarrow> bytes" where
  "seen_words sq eh rt t = be_bytes WORD sq @ eh @ rt @ be_bytes WORD t"

lemma eth_call_word_reply:
  "rd_node rd url addr data = word_reply raw \<Longrightarrow> raw \<noteq> [] \<Longrightarrow> eth_call rd addr data url = Inr raw"
  by (simp add: eth_call_def word_reply_def rpc_result_def jget_def jget_null_def hex_bytes_def nonempty_def str_def)

lemma chunks_word: "length w = WORD \<Longrightarrow> chunks (w @ rest) = w # chunks rest"
  by (subst chunks.simps) (auto simp: WORD_def)

lemma read_checkpoint_seen:
  assumes "length eh = WORD" "length rt = WORD" "sq < 2 ^ 256" "t < 2 ^ 256"
  shows "read_checkpoint chain (seen_words sq eh rt t)
    = Inr \<lparr>oc_chain_id = chain, oc_seq = sq, oc_entry_hash = hex eh, oc_root = hex rt, oc_block_time = t\<rparr>"
proof -
  have "chunks (be_bytes WORD t) = [be_bytes WORD t]" using chunks_word [of "be_bytes WORD t" "[]"] by (simp add: chunks.simps)
  then have "chunks (seen_words sq eh rt t) = [be_bytes WORD sq, eh, rt, be_bytes WORD t]"
    using assms by (simp add: seen_words_def chunks_word)
  moreover have "length (seen_words sq eh rt t) mod WORD = 0" using assms by (simp add: seen_words_def)
  moreover have "be_val (be_bytes WORD sq) = sq" "be_val (be_bytes WORD t) = t"
    using assms by (simp_all add: be_val_be_bytes WORD_def)
  ultimately show ?thesis
    using assms by (simp add: read_checkpoint_def expected_words_def decode_words_def decode_uint_def decode_bytes32_def word_of_def)
qed

lemma seen_on_chain:
  assumes "rd_node rd url addr data = word_reply (seen_words sq eh rt t)"
    and "length eh = WORD" "length rt = WORD" "sq < 2 ^ 256" "t < 2 ^ 256"
  shows "absent_on_revert (eth_call rd addr data url) (read_checkpoint chain)
    = Inr (Some \<lparr>oc_chain_id = chain, oc_seq = sq, oc_entry_hash = hex eh, oc_root = hex rt, oc_block_time = t\<rparr>)"
proof -
  have "seen_words sq eh rt t \<noteq> []" using assms(2) by (auto simp: seen_words_def WORD_def)
  then show ?thesis
    using eth_call_word_reply [OF assms(1)] read_checkpoint_seen [OF assms(2-5)] by (simp add: absent_on_revert_def)
qed

lemma liveness_of_first:
  assumes "rd_urls rd = [a, b]" and "ec_liveness (rd_contracts rd) = Some addr"
    and "trail_call sha ''lastSeen(bytes32)'' chain = Inr data"
    and "rd_node rd a addr data = word_reply (seen_words sq eh rt t')" "rd_node rd b addr data = word_reply (seen_words sq eh rt t)"
    and "length eh = WORD" "length rt = WORD" "sq < 2 ^ 256" "t < 2 ^ 256" "t' < 2 ^ 256"
    and "deadline_of sha rd chain = Inr d"
  shows "ledger_liveness sha ck rd chain = Inr (delinquency (ck_moment ck) (ck_age ck) (Some (int t')) (map_option int d))"
proof -
  note seen = seen_on_chain [OF assms(4,6,7,8,10), of chain] seen_on_chain [OF assms(5,6,7,8,9), of chain]
  have "latest_checkpoint sha rd chain
      = Inr (Some \<lparr>oc_chain_id = chain, oc_seq = sq, oc_entry_hash = hex eh, oc_root = hex rt, oc_block_time = t'\<rparr>)"
    using assms(1-3) seen
    by (simp add: latest_checkpoint_def address_of_def agreement_def checkpoints_agree_def MIN_ENDPOINTS_def)
  then show ?thesis using assms(11) by (simp add: ledger_liveness_def)
qed

text \<open>C37. 
  The time of a checkpoint takes no part in the agreement, however far the endpoints are apart, and the first endpoint's value
  is used: of two endpoints that report one checkpoint, the one listed first decides alone how old it is, against an
  honest second one.
\<close>

theorem one_endpoint_sets_the_clock:
  assumes "rd_urls rd = [a, b]" and "ec_liveness (rd_contracts rd) = Some addr"
    and "trail_call sha ''lastSeen(bytes32)'' chain = Inr data"
    and "rd_node rd a addr data = word_reply (seen_words sq eh rt t')" "rd_node rd b addr data = word_reply (seen_words sq eh rt t)"
    and "length eh = WORD" "length rt = WORD" "sq < 2 ^ 256" "t < 2 ^ 256" "t' < 2 ^ 256"
    and "deadline_of sha rd chain = Inr d"
  shows "ledger_liveness sha ck rd chain = Inr (delinquency (ck_moment ck) (ck_age ck) (Some (int t')) (map_option int d))"
  by (rule liveness_of_first [OF assms])

definition sample_node :: node where
  "sample_node url addr data =
     (if take 4 data = selector_of ''deadlineOf(bytes32)'' then word_reply (be_bytes WORD 60)
      else word_reply (seen_words 5 (replicate 32 1) (replicate 32 2) (if url = str ''a'' then 1000 else 0)))"

definition sample_reader :: evm_reader where
  "sample_reader = \<lparr>rd_urls = [str ''a'', str ''b''],
     rd_contracts = \<lparr>ec_liveness = Some (str ''0x1''), ec_registry = None, ec_bond = None\<rparr>,
     rd_node = sample_node, rd_runtime = ascii_runtime, rd_lower = (\<lambda>s. s)\<rparr>"

definition sample_clock :: clock where
  "sample_clock = \<lparr>ck_moment = (\<lambda>n. Some [nat n]), ck_age = (\<lambda>m. Some ((1000 - int (hd m)) * 1000000))\<rparr>"

abbreviation zero_hash :: "bytes \<Rightarrow> bytes" where
  "zero_hash \<equiv> \<lambda>_. replicate 32 0"

lemma sample_selectors:
  "selector_of ''lastSeen(bytes32)'' = [26, 191, 232, 226]" "selector_of ''deadlineOf(bytes32)'' = [74, 203, 237, 227]"
  by (simp_all add: selector_of_def SELECTORS_def)

lemma sample_call:
  "length (selector_of sig) = 4 \<Longrightarrow> trail_call zero_hash sig (str ''trail'') = Inr (selector_of sig @ replicate 32 0)"
proof -
  assume sel: "length (selector_of sig) = 4"
  have "utf8_encode (str ''trail'') \<noteq> None" by (simp add: str_def utf8_cp_def)
  then have "trail_id_for zero_hash (str ''trail'') = Inr (replicate 32 0)" by (auto simp: trail_id_for_def)
  then show ?thesis using sel by (simp add: trail_call_def encode_bytes32_def encode_call_def WORD_def)
qed

lemma sample_deadline:
  assumes "rd_urls rd = [str ''a'', str ''b'']" "ec_liveness (rd_contracts rd) = Some addr" "rd_node rd = sample_node"
  shows "deadline_of zero_hash rd (str ''trail'') = Inr (Some 60)"
proof -
  have w: "chunks (be_bytes WORD 60) = [be_bytes WORD 60]"
    using chunks_word [of "be_bytes WORD 60" "[]"] by (simp add: chunks.simps)
  have "eth_call rd addr (selector_of ''deadlineOf(bytes32)'' @ replicate 32 0) url = Inr (be_bytes WORD 60)" for url
    by (rule eth_call_word_reply) (simp_all add: assms sample_node_def sample_selectors WORD_def flip: length_0_conv)
  then show ?thesis
    using sample_call [of "''deadlineOf(bytes32)''"] w
    by (simp add: deadline_of_def address_of_def agreement_def MIN_ENDPOINTS_def expected_words_def decode_words_def decode_uint_def
        word_of_def assms be_val_be_bytes sample_selectors) (simp add: WORD_def)
qed

lemma sample_replies:
  assumes "rd_node rd = sample_node"
  shows "rd_node rd (str ''a'') addr (selector_of ''lastSeen(bytes32)'' @ d) = word_reply (seen_words 5 (replicate 32 1) (replicate 32 2) 1000)"
    "rd_node rd (str ''b'') addr (selector_of ''lastSeen(bytes32)'' @ d) = word_reply (seen_words 5 (replicate 32 1) (replicate 32 2) 0)"
  by (simp_all add: assms sample_node_def sample_selectors str_def)

lemma sample_hashes:
  "length (replicate 32 x) = WORD" "(5 :: nat) < 2 ^ 256" "(0 :: nat) < 2 ^ 256" "(1000 :: nat) < 2 ^ 256"
  by (simp_all add: WORD_def)

theorem one_endpoint_sets_the_clock_witness:
  "ledger_liveness zero_hash sample_clock sample_reader (str ''trail'')
     = Inr \<lparr>lv_status = LIVE, lv_reason = None, lv_age_s = Some 0, lv_deadline_s = Some 60\<rparr>
   \<and> lv_status (delinquency (ck_moment sample_clock) (ck_age sample_clock) (Some 0) (Some 60)) = DELINQUENT"
proof -
  have rd: "rd_urls sample_reader = [str ''a'', str ''b'']" "ec_liveness (rd_contracts sample_reader) = Some (str ''0x1'')"
    "rd_node sample_reader = sample_node"
    by (simp_all add: sample_reader_def)
  have "ledger_liveness zero_hash sample_clock sample_reader (str ''trail'')
      = Inr (delinquency (ck_moment sample_clock) (ck_age sample_clock) (Some (int 1000)) (map_option int (Some 60)))"
    by (rule one_endpoint_sets_the_clock [OF rd(1,2) sample_call sample_replies [OF rd(3)] sample_hashes(1,1,2,3,4) sample_deadline [OF rd]])
      (simp add: sample_selectors)
  then show ?thesis
    by (simp add: delinquency_def sample_clock_def anchor_staleness_def liveness_status_defs age_seconds_def)
qed

section \<open>The dimension of a verification run\<close>

definition clean :: "verdict \<times> string option \<Rightarrow> bool" where
  "clean st \<longleftrightarrow> fst st = OK"

definition unbroken :: "verdict \<times> string option \<Rightarrow> bool" where
  "unbroken st \<longleftrightarrow> fst st \<noteq> BROKEN"

lemma absorb_unbroken: "v \<noteq> BROKEN \<Longrightarrow> unbroken (absorb st v r) \<longleftrightarrow> unbroken st"
  by (cases "fst st"; cases v) (auto simp: absorb_def unbroken_def join_def)

lemma absorb_clean: "clean (absorb st v r) \<longleftrightarrow> clean st \<and> v = OK"
  by (cases "fst st"; cases v) (auto simp: absorb_def clean_def join_def)

lemma registry_verdict_range:
  "registry_to_verdict f = Inr v \<Longrightarrow> v \<noteq> BROKEN \<and> (v = OK \<longleftrightarrow> rf_status f = REGISTRY_AGREES)"
  by (auto simp: registry_to_verdict_def REGISTRY_STATUS_def registry_status_defs split: option.splits if_splits)

lemma verify_verdict_range:
  "to_verify_verdict lv = Inr v \<Longrightarrow> v \<noteq> BROKEN \<and> (v = OK \<longleftrightarrow> lv_status lv = LIVE)"
  by (auto simp: to_verify_verdict_def status_lookup_def VERIFY_STATUS_def liveness_status_defs split: option.splits if_splits)

lemma unless_disagreement_Inr:
  "unless_disagreement m dis f = Inr y \<longleftrightarrow> (m = Inl LedgerDisagreement \<and> dis = Inr y) \<or> (\<exists>v. m = Inr v \<and> f v = Inr y)"
  by (auto simp: unless_disagreement_def split: sum.splits ledger_exn.splits)

definition agrees_on_chain :: "(bytes \<Rightarrow> bytes) \<Rightarrow> version_registry \<Rightarrow> evm_reader \<Rightarrow> pystr \<Rightarrow> bool" where
  "agrees_on_chain sha reg rd fp = (case registry_agreement sha reg rd fp of Inr f \<Rightarrow> rf_status f = REGISTRY_AGREES | Inl _ \<Rightarrow> False)"

lemma registry_loop_result:
  "registry_loop sha reg rd fps st = Inr st' \<Longrightarrow>
     (unbroken st' \<longleftrightarrow> unbroken st) \<and> (clean st' \<longleftrightarrow> clean st \<and> list_all (agrees_on_chain sha reg rd) fps)"
proof (induction fps arbitrary: st)
  case (Cons fp fps)
  then obtain st1 where s: "unless_disagreement (registry_agreement sha reg rd fp) (Inr (absorb st UNVERIFIABLE (Some ''ledger_unreachable'')))
      (\<lambda>f. res_map (\<lambda>v. absorb st v (rf_reason f)) (registry_to_verdict f)) = Inr st1" "registry_loop sha reg rd fps st1 = Inr st'"
    by (auto simp: res_elims)
  have "(unbroken st1 \<longleftrightarrow> unbroken st) \<and> (clean st1 \<longleftrightarrow> clean st \<and> agrees_on_chain sha reg rd fp)"
    using s(1) by (auto simp: unless_disagreement_Inr res_elims absorb_unbroken absorb_clean agrees_on_chain_def dest!: registry_verdict_range)
  then show ?case using Cons.IH [OF s(2)] by auto
qed simp

lemma liveness_part_result:
  assumes "liveness_part sha ck rd trail_id st = Inr st'"
  shows "(unbroken st' \<longleftrightarrow> unbroken st)
    \<and> (clean st' \<longleftrightarrow> clean st \<and> (\<exists>lv. ledger_liveness sha ck rd trail_id = Inr lv \<and> lv_status lv = LIVE))"
  using assms
  by (auto simp: liveness_part_def unless_disagreement_Inr res_elims absorb_unbroken absorb_clean dest!: verify_verdict_range)

text \<open>
  In a verification run the ledger never makes a trail broken, and it is clean exactly when a reader could be built, the
  writer is live where liveness was asked, and every fingerprint of the trail has its descriptor on the registry where
  the registry was asked.
\<close>

theorem ledger_dimension_exact:
  assumes "ledger_check sha ck open_reader liveness registry trail_id es = Inr su"
  shows "summary_verdict su \<noteq> BROKEN
    \<and> (summary_verdict su = OK \<longleftrightarrow>
        (\<exists>rd. open_reader \<lparr>ec_liveness = liveness, ec_registry = registry, ec_bond = None\<rparr> = Inr rd
         \<and> (liveness \<noteq> None \<longrightarrow> (\<exists>lv. ledger_liveness sha ck rd trail_id = Inr lv \<and> lv_status lv = LIVE))
         \<and> (registry \<noteq> None \<longrightarrow> (\<exists>reg. new_registry sha = Inr reg
              \<and> (\<forall>e \<in> set es. agrees_on_chain sha reg rd (hash_version (header e)))))))"
proof (cases "open_reader \<lparr>ec_liveness = liveness, ec_registry = registry, ec_bond = None\<rparr>")
  case (Inl x)
  then show ?thesis using assms
    by (auto simp: ledger_check_def summary_verdict_def check_verdict_def split: if_splits)
next
  case (Inr rd)
  let ?start = "(OK, None) :: verdict \<times> string option"
  obtain st st' where s: "(if liveness = None then Inr ?start else liveness_part sha ck rd trail_id ?start) = Inr st"
    "(if registry = None then Inr st else registry_part sha rd es st) = Inr st'"
    and su: "su = \<lparr>su_ok = True, su_checked = 1, su_reason = snd st', su_unverifiable = (fst st' = UNVERIFIABLE)\<rparr>"
    using assms Inr by (auto simp: ledger_check_def res_elims)
  have a: "unbroken st \<and> (clean st \<longleftrightarrow> (liveness \<noteq> None \<longrightarrow> (\<exists>lv. ledger_liveness sha ck rd trail_id = Inr lv \<and> lv_status lv = LIVE)))"
    using s(1) liveness_part_result [of sha ck rd trail_id ?start st]
    by (auto simp: unbroken_def clean_def split: if_splits)
  have b: "unbroken st' \<and> (clean st' \<longleftrightarrow> clean st \<and> (registry \<noteq> None \<longrightarrow> (\<exists>reg. new_registry sha = Inr reg
      \<and> (\<forall>e \<in> set es. agrees_on_chain sha reg rd (hash_version (header e))))))"
  proof (cases "registry = None")
    case False
    then obtain reg where reg: "new_registry sha = Inr reg" "registry_loop sha reg rd (fingerprints_of es) st = Inr st'"
      using s(2) by (auto simp: registry_part_def res_elims)
    then show ?thesis using a False registry_loop_result [OF reg(2)] by (simp add: fingerprints_of_def list_all_iff)
  qed (use s(2) a in auto)
  have "summary_verdict su = fst st'" using b by (cases "fst st'") (auto simp: su summary_verdict_def check_verdict_def unbroken_def)
  then show ?thesis using a b Inr by (auto simp: unbroken_def clean_def)
qed

text \<open>
  A fingerprint that is not 32 bytes of hex, as a row of another format may carry, is a reason to call the row unverifiable;
  with \<^verbatim>\<open>--registry\<close> it ends the run with an exception instead, because it is encoded before anything catches the error.
\<close>

lemma registry_loop_raises:
  "fp \<in> set fps \<Longrightarrow> registry_agreement sha reg rd fp = Inl (Escaped x) \<Longrightarrow> \<exists>y. registry_loop sha reg rd fps st = Inl y"
proof (induction fps arbitrary: st)
  case (Cons g fps)
  show ?case
  proof (cases "g = fp")
    case True
    then show ?thesis using Cons.prems by (simp add: unless_disagreement_def)
  next
    case False
    then show ?thesis using Cons by (auto simp: res_bind_def split: sum.split)
  qed
qed simp

theorem foreign_fingerprint_ends_run:
  assumes "open_reader \<lparr>ec_liveness = None, ec_registry = Some addr, ec_bond = None\<rparr> = Inr rd"
    and "ec_registry (rd_contracts rd) = Some addr" and "e \<in> set es" and "encode_bytes32 (HexText (hash_version (header e))) = Inl AbiError"
  shows "\<exists>x. ledger_check sha ck open_reader None (Some addr) trail_id es = Inl x"
proof -
  have "registry_agreement sha reg rd (hash_version (header e)) = Inl (Escaped AbiError)" for reg
    using assms(2,4) by (simp add: registry_agreement_def registry_lookup_def address_of_def)
  moreover have "hash_version (header e) \<in> set (fingerprints_of es)" using assms(3) by (simp add: fingerprints_of_def)
  ultimately have "\<exists>x. registry_part sha rd es (OK, None) = Inl x"
    using registry_loop_raises by (cases "new_registry sha") (auto simp: registry_part_def)
  then show ?thesis using assms(1) by (auto simp: ledger_check_def)
qed

definition foreign_row :: entry where
  "foreign_row = \<lparr>header = \<lparr>seq = 0, ts = [], hash_version = str ''v0'', payload_type = [], payload_hash = [], prev_hash = []\<rparr>,
     entry_hash = [], payload = None\<rparr>"

theorem foreign_fingerprint_ends_run_witness:
  "\<exists>x. ledger_check zero_hash sample_clock (\<lambda>c. new_reader [str ''a'', str ''b''] c sample_node ascii_runtime (\<lambda>s. s))
     None (Some (str ''0x1'')) (str ''trail'') [foreign_row] = Inl x"
proof -
  let ?open = "\<lambda>c. new_reader [str ''a'', str ''b''] c sample_node ascii_runtime (\<lambda>s. s)"
  obtain rd where rd: "?open \<lparr>ec_liveness = None, ec_registry = Some (str ''0x1''), ec_bond = None\<rparr> = Inr rd"
    "ec_registry (rd_contracts rd) = Some (str ''0x1'')"
    by (auto simp: new_reader_def MIN_ENDPOINTS_def str_def)
  have "encode_bytes32 (HexText (hash_version (header foreign_row))) = Inl AbiError"
    by (simp add: str_def foreign_row_def encode_bytes32_def ascii_space_def hexval_def)
  from foreign_fingerprint_ends_run [of ?open, OF rd _ this] show ?thesis by simp
qed

lemma sample_live:
  assumes "rd_urls rd = [str ''a'', str ''b'']" "ec_liveness (rd_contracts rd) = Some addr" "rd_node rd = sample_node"
  shows "ledger_liveness zero_hash sample_clock rd (str ''trail'')
    = Inr \<lparr>lv_status = LIVE, lv_reason = None, lv_age_s = Some 0, lv_deadline_s = Some 60\<rparr>"
proof -
  have "ledger_liveness zero_hash sample_clock rd (str ''trail'')
      = Inr (delinquency (ck_moment sample_clock) (ck_age sample_clock) (Some (int 1000)) (map_option int (Some 60)))"
    by (rule liveness_of_first [OF assms(1,2) sample_call sample_replies [OF assms(3)] sample_hashes(1,1,2,3,4) sample_deadline [OF assms]])
      (simp add: sample_selectors)
  then show ?thesis
    by (simp add: delinquency_def sample_clock_def anchor_staleness_def liveness_status_defs age_seconds_def)
qed

theorem ledger_dimension_exact_witness:
  "\<exists>su. ledger_check zero_hash sample_clock (\<lambda>c. new_reader [str ''a'', str ''b''] c sample_node ascii_runtime (\<lambda>s. s))
     (Some (str ''0x1'')) None (str ''trail'') [] = Inr su \<and> summary_verdict su = OK"
proof -
  let ?open = "\<lambda>c. new_reader [str ''a'', str ''b''] c sample_node ascii_runtime (\<lambda>s. s)"
  obtain rd where rd: "?open \<lparr>ec_liveness = Some (str ''0x1''), ec_registry = None, ec_bond = None\<rparr> = Inr rd"
    "rd_urls rd = [str ''a'', str ''b'']" "ec_liveness (rd_contracts rd) = Some (str ''0x1'')" "rd_node rd = sample_node"
    by (auto simp: new_reader_def MIN_ENDPOINTS_def str_def)
  note live = sample_live [OF rd(2-4)]
  have "\<exists>su. ledger_check zero_hash sample_clock ?open (Some (str ''0x1'')) None (str ''trail'') [] = Inr su"
    using rd(1) live
    by (simp add: ledger_check_def liveness_part_def unless_disagreement_def to_verify_verdict_def status_lookup_def VERIFY_STATUS_def
        liveness_status_defs)
  then obtain su where su: "ledger_check zero_hash sample_clock ?open (Some (str ''0x1'')) None (str ''trail'') [] = Inr su" by blast
  from ledger_dimension_exact [OF this] show ?thesis using su rd(1) live by auto
qed

end
