(* ===== verification/Verification.thy ===== *)
theory Verification
  imports Signatures Ledger Receipts Anchors
begin

text \<open>
  The verify command (\<^verbatim>\<open>cli/verify.py\<close>, \<^verbatim>\<open>cli/_dimensions.py\<close>, \<^verbatim>\<open>cli/_anchors.py\<close>, \<^verbatim>\<open>cli/pin.py\<close>) with the witness client (\<^verbatim>\<open>adapters/witness.py\<close>) and the pin file
  (\<^verbatim>\<open>adapters/pinstore.py\<close>). A run takes what it reads (the log, the sidecars, what witnesses and nodes answer) and the pin file, and
  gives an exit code or the exception that leaves it, and the pin file after it. The lines it prints are not modelled. The
  code of a run is the worst of its dimensions; over any sequence of runs the trails a pin accepted are one growing trail.
\<close>

section \<open>One anchor record\<close>

datatype receipt_status = RECEIPT_CHECKED | RECEIPT_BROKEN | RECEIPT_UNVERIFIABLE | RECEIPT_NOTED | RECEIPT_ABSENT

fun ts_reason_text :: "ts_reason \<Rightarrow> string" where
  "ts_reason_text MALFORMED_TOKEN = ''malformed_token''"
| "ts_reason_text TIMESTAMP_REJECTED = ''timestamp_rejected''"
| "ts_reason_text RECEIPT_IMPRINT_MISMATCH = ''receipt_imprint_mismatch''"
| "ts_reason_text NONCE_MISMATCH = ''nonce_mismatch''"
| "ts_reason_text UNSUPPORTED_DIGEST_ALGORITHM = ''unsupported_digest_algorithm''"

definition RECEIPT_CHECKED_FALSE :: "ts_reason list" where
  "RECEIPT_CHECKED_FALSE = [RECEIPT_IMPRINT_MISMATCH, NONCE_MISMATCH]"

definition starts_with :: "pystr \<Rightarrow> pystr \<Rightarrow> bool" where
  "starts_with s p \<longleftrightarrow> take (length p) s = p"

definition receipt_verdict :: "(bytes \<Rightarrow> bytes) \<Rightarrow> anchor_record \<Rightarrow> (receipt_status \<times> string option) res" where
  "receipt_verdict sha rec =
     (case an_receipt rec of
        None \<Rightarrow> Inr (RECEIPT_ABSENT, None)
      | Some receipt \<Rightarrow>
          if starts_with receipt RFC3161_PREFIX then
            (case decode_receipt receipt of
               None \<Rightarrow> Inr (RECEIPT_UNVERIFIABLE, Some (ts_reason_text MALFORMED_TOKEN))
             | Some der \<Rightarrow>
                 res_map (\<lambda>frame.
                   case read_timestamp_resp sha der frame (an_nonce rec) of
                     (Some _, _) \<Rightarrow> (RECEIPT_CHECKED, None)
                   | (None, why) \<Rightarrow>
                       (if why \<in> Some ` set RECEIPT_CHECKED_FALSE then RECEIPT_BROKEN else RECEIPT_UNVERIFIABLE,
                        map_option ts_reason_text why))
                   (checkpoint_frame (an_checkpoint rec)))
          else if starts_with receipt OTS_PREFIX then Inr (RECEIPT_NOTED, None)
          else Inr (RECEIPT_UNVERIFIABLE, Some ''unknown_receipt_type''))"

text \<open>The signature dimension: one answer for each record with a readable RFC 3161 receipt.\<close>

definition signature_checks :: "(bytes \<Rightarrow> signature_check) \<Rightarrow> anchor_record list \<Rightarrow> signature_check list" where
  "signature_checks check records =
     map check (List.map_filter (\<lambda>rec. case an_receipt rec of
                                    None \<Rightarrow> None
                                  | Some receipt \<Rightarrow> if starts_with receipt RFC3161_PREFIX then decode_receipt receipt else None) records)"

section \<open>The anchor dimension\<close>

definition summary :: "bool \<Rightarrow> int \<Rightarrow> string option \<Rightarrow> bool \<Rightarrow> check_summary" where
  "summary ok checked reason unverifiable = \<lparr>su_ok = ok, su_checked = checked, su_reason = reason, su_unverifiable = unverifiable\<rparr>"

definition sidecar_error :: "exn \<Rightarrow> bool" where
  "sidecar_error x \<longleftrightarrow> is_ValueError x \<or> x = KeyError \<or> x = TypeError"

fun first_break :: "(bytes \<Rightarrow> bytes) \<Rightarrow> pystr list \<Rightarrow> anchor_record list \<Rightarrow> string option" where
  "first_break sha hs [] = None"
| "first_break sha hs (r # rs) =
     (case verify_checkpoint sha hs (an_checkpoint r) of Some why \<Rightarrow> Some why | None \<Rightarrow> first_break sha hs rs)"

definition anchor_summary ::
  "(bytes \<Rightarrow> bytes) \<Rightarrow> bool \<Rightarrow> (bytes \<Rightarrow> signature_check) \<Rightarrow> pystr list \<Rightarrow> anchor_sidecar \<Rightarrow> check_summary res" where
  "anchor_summary sha engaged check hs sidecar =
     (let records = as_records sidecar; n = int (length records) in
      if records = [] \<and> as_unreadable sidecar = [] then Inr (summary True 0 (Some ''no_anchors_recorded'') False)
      else (case first_break sha hs records of
              Some why \<Rightarrow> Inr (summary False 0 (Some why) False)
            | None \<Rightarrow>
                res_map (\<lambda>receipts.
                  case find (\<lambda>r. fst r = RECEIPT_BROKEN) receipts of
                    Some r \<Rightarrow> summary False n (snd r) False
                  | None \<Rightarrow>
                      let unverifiable = filter (\<lambda>r. fst r = RECEIPT_UNVERIFIABLE) receipts;
                          signature = (if engaged then fold (\<lambda>c v. join v (sc_verdict c)) (signature_checks check records) OK else OK) in
                      if signature = BROKEN then summary False n (Some ''signature_invalid'') False
                      else summary True n
                             (if as_unreadable sidecar \<noteq> [] then Some ''unreadable_record_version''
                              else if unverifiable \<noteq> [] then snd (hd unverifiable)
                              else if signature = UNVERIFIABLE then Some ''signature_unchecked''
                              else None)
                             (as_unreadable sidecar \<noteq> [] \<or> unverifiable \<noteq> [] \<or> signature = UNVERIFIABLE))
                  (res_mapM (receipt_verdict sha) records)))"

definition anchor_check ::
  "(bytes \<Rightarrow> bytes) \<Rightarrow> runtime \<Rightarrow> bool \<Rightarrow> (bytes \<Rightarrow> signature_check) \<Rightarrow> pystr list \<Rightarrow> json res list \<Rightarrow> check_summary res" where
  "anchor_check sha rt engaged check hs lines =
     (case read_anchor_records rt lines of
        Inl x \<Rightarrow> if sidecar_error x then Inr (summary False 0 (Some ''malformed_anchor'') False) else Inl x
      | Inr sidecar \<Rightarrow> anchor_summary sha engaged check hs sidecar)"

text \<open>The three further reads of the sidecar, with their defaults for a file that does not parse.\<close>

definition observed_anchor_sinks :: "runtime \<Rightarrow> json res list \<Rightarrow> int res" where
  "observed_anchor_sinks rt lines =
     (case read_anchor_records rt lines of
        Inl x \<Rightarrow> if sidecar_error x then Inr 0 else Inl x
      | Inr sc \<Rightarrow> Inr (int (length (remdups (filter (\<lambda>s. s \<noteq> str ''file'') (map an_sink (as_records sc)))))))"

definition observed_anchor_records :: "runtime \<Rightarrow> json res list \<Rightarrow> anchor_record list res" where
  "observed_anchor_records rt lines =
     (case read_anchor_records rt lines of
        Inl x \<Rightarrow> if sidecar_error x then Inr [] else Inl x
      | Inr sc \<Rightarrow> Inr (as_records sc))"

definition observed_anchor_unreadable :: "runtime \<Rightarrow> json res list \<Rightarrow> bool res" where
  "observed_anchor_unreadable rt lines =
     (case read_anchor_records rt lines of
        Inl x \<Rightarrow> if sidecar_error x then Inr True else Inl x
      | Inr sc \<Rightarrow> Inr (as_unreadable sc \<noteq> []))"

section \<open>Receipts\<close>

text \<open>\<open>None\<close> is a remote target without a sidecar location; otherwise what opening the file gives.\<close>

definition receipts_check :: "(bytes \<Rightarrow> bytes) \<Rightarrow> runtime \<Rightarrow> pystr list \<Rightarrow> receipts_file res option \<Rightarrow> check_summary res" where
  "receipts_check sha rt hs file =
     (case file of
        None \<Rightarrow> Inr (summary True 0 (Some ''no_receipts_recorded'') False)
      | Some opened \<Rightarrow>
          (case res_bind opened (read_receipts sha rt) of
             Inl x \<Rightarrow> if x = OSError then Inr (summary True 0 None True) else Inl x
           | Inr sidecar \<Rightarrow>
               if \<not> rs_present sidecar then Inr (summary True 0 (Some ''no_receipts_recorded'') False)
               else (let readable = list_ex (\<lambda>l. case l of ReceiptRecord _ \<Rightarrow> True | _ \<Rightarrow> False) (rs_lines sidecar);
                         r = reconcile_receipts (if readable then hs else []) sidecar in
                     Inr (summary (rc_verdict r \<noteq> BROKEN) (int (rc_checked r)) (rc_reason r) (rc_verdict r = UNVERIFIABLE)))))"

section \<open>Witnesses\<close>

definition parse_witnessed :: "runtime \<Rightarrow> json \<Rightarrow> checkpoint option res" where
  "parse_witnessed rt v =
     (case v of
        JObj fs \<Rightarrow>
          (case res_bind (res_bind (jindex fs ''seq'') (py_int rt)) (\<lambda>n.
                res_bind (jindex fs ''entry_hash'') (\<lambda>eh.
                res_bind (jindex fs ''root'') (\<lambda>root.
                res_bind (optional_int rt fs ''agg_epoch'') (\<lambda>epoch.
                  make_checkpoint n (py_str rt eh) (py_str rt root) (Anchors.optional_str rt fs ''agg_commit'') epoch)))) of
             Inl x \<Rightarrow> if x = KeyError \<or> x = TypeError \<or> is_ValueError x then Inr None else Inl x
           | Inr cp \<Rightarrow> Inr (Some cp))
      | _ \<Rightarrow> Inr None)"

definition fetch :: "runtime \<Rightarrow> (int \<times> json res) res \<Rightarrow> witness_observation res" where
  "fetch rt answer =
     res_bind answer (\<lambda>(status, body).
       if status = 404 then Inr \<lparr>wo_checkpoints = [], wo_unreadable = 0\<rparr>
       else if status \<noteq> 200 then Inl RemoteError
       else (case body of
               Inl x \<Rightarrow> if is_ValueError x \<or> x = TypeError then Inl RemoteError else Inl x
             | Inr (JObj fs) \<Rightarrow>
                 (case jget_null fs ''checkpoints'' of
                    JList vs \<Rightarrow>
                      res_map (\<lambda>ps. \<lparr>wo_checkpoints = List.map_filter id ps, wo_unreadable = length (filter (\<lambda>p. p = None) ps)\<rparr>)
                        (res_mapM (parse_witnessed rt) vs)
                  | _ \<Rightarrow> Inl RemoteError)
             | Inr _ \<Rightarrow> Inl RemoteError))"

fun witness_verdicts ::
  "(bytes \<Rightarrow> bytes) \<Rightarrow> runtime \<Rightarrow> pystr list \<Rightarrow> (pystr \<times> (int \<times> json res) res) list \<Rightarrow> witness_verdict list res" where
  "witness_verdicts sha rt hs [] = Inr []"
| "witness_verdicts sha rt hs ((name, answer) # ws) =
     res_bind (case fetch rt answer of
                 Inl x \<Rightarrow> if x = OSError \<or> x = RemoteError then Inr (unreachable_witness name ''unreachable'') else Inl x
               | Inr obs \<Rightarrow> Inr (check_witnessed sha hs obs name)) (\<lambda>v.
     res_map (Cons v) (witness_verdicts sha rt hs ws))"

definition witness_exit_code :: "witness_verdict list \<Rightarrow> int" where
  "witness_exit_code vs =
     (if list_ex (\<lambda>v. wv_status v = WITNESS_INCONSISTENT) vs then 1
      else if list_ex (\<lambda>v. wv_status v = WITNESS_UNREACHABLE) vs then 2 else 0)"

definition observed_witness_consistent :: "witness_verdict list \<Rightarrow> bool" where
  "observed_witness_consistent vs = list_ex (\<lambda>v. wv_status v = WITNESS_CONSISTENT) vs"

definition observed_ledger_ok :: "check_summary \<Rightarrow> bool" where
  "observed_ledger_ok su \<longleftrightarrow> summary_verdict su = OK"

section \<open>The pin\<close>

text \<open>The pin file: missing, or what decoding its text gives.\<close>

type_synonym pin_file = "json res option"

definition load_pin :: "pin_file \<Rightarrow> pin_state option res" where
  "load_pin file = (case file of None \<Rightarrow> Inr None | Some text \<Rightarrow> res_map Some (parse_pin_state text))"

definition save_pin :: "pin_state \<Rightarrow> pin_file" where
  "save_pin st = Some (Inr (JObj (render_pin_state st)))"

record declared_flags =
  dc_expect_binding :: bool
  dc_max_age :: "int option"
  dc_topology :: "separation_topology option"

record observed =
  ob_anchor :: "check_summary option"
  ob_sinks :: "int option"
  ob_records :: "anchor_record list option"
  ob_unreadable :: "bool option"
  ob_witnesses :: "witness_verdict list option"
  ob_witness_ok :: "bool option"
  ob_ledger :: "check_summary option"
  ob_ledger_ok :: "bool option"

definition or_else :: "'a option \<Rightarrow> 'a option \<Rightarrow> 'a option" where
  "or_else a b = (if a = None then b else a)"

text \<open>The state a run may record: this run's declarations where it made them, the stored ones otherwise.\<close>

definition next_pin ::
  "pystr \<Rightarrow> pystr option \<Rightarrow> pystr \<Rightarrow> declared_flags \<Rightarrow> pin_state option \<Rightarrow> checkpoint \<Rightarrow> pin_state" where
  "next_pin target chain now dc stored head =
     \<lparr>ps_target = target, ps_chain_id = chain, ps_checkpoint = head, ps_pinned_ts = now,
      declared_topology = or_else (dc_topology dc) (Option.bind stored declared_topology),
      max_anchor_age_s = or_else (dc_max_age dc) (Option.bind stored max_anchor_age_s),
      expect_anchor_binding = (dc_expect_binding dc \<or> (case stored of None \<Rightarrow> False | Some st \<Rightarrow> expect_anchor_binding st))\<rparr>"

text \<open>The four comparisons of what was declared with what this run observed, in their order; a dimension that was not measured is not compared.\<close>

definition downgrade_finding :: "pin_state \<Rightarrow> observed \<Rightarrow> string option" where
  "downgrade_finding st ob =
     (if expect_anchor_binding st then
        Option.bind (ob_records ob) (\<lambda>rs. Option.bind (ob_unreadable ob) (\<lambda>u.
          anchor_policy_downgrade (cp_seq (ps_checkpoint st)) (map (\<lambda>r. (cp_seq (an_checkpoint r), agg_commit (an_checkpoint r))) rs) u))
      else None)"

definition staleness_finding :: "(pystr \<Rightarrow> int option) \<Rightarrow> pin_state \<Rightarrow> observed \<Rightarrow> string option" where
  "staleness_finding age st ob =
     Option.bind (max_anchor_age_s st) (\<lambda>m. Option.bind (ob_records ob) (\<lambda>rs.
       anchor_staleness age m (map (\<lambda>r. (cp_seq (an_checkpoint r), an_ts r)) rs)))"

definition ledger_finding :: "pin_state \<Rightarrow> observed \<Rightarrow> string option" where
  "ledger_finding st ob =
     Option.bind (declared_topology st) (\<lambda>t. Option.bind (ob_ledger_ok ob) (\<lambda>ok.
       if ledger_shortfall t ok then Some ''ledger_shortfall'' else None))"

definition separation_finding :: "pin_state \<Rightarrow> observed \<Rightarrow> string option" where
  "separation_finding st ob =
     Option.bind (declared_topology st) (\<lambda>t. Option.bind (ob_sinks ob) (\<lambda>n. Option.bind (ob_witness_ok ob) (\<lambda>w.
       if separation_shortfall t n w then Some ''separation_shortfall'' else None)))"

definition policy_finding :: "(pystr \<Rightarrow> int option) \<Rightarrow> pin_state \<Rightarrow> observed \<Rightarrow> string option" where
  "policy_finding age st ob =
     or_else (downgrade_finding st ob) (or_else (staleness_finding age st ob) (or_else (ledger_finding st ob) (separation_finding st ob)))"

definition pin_check ::
  "(bytes \<Rightarrow> bytes) \<Rightarrow> pin_file \<Rightarrow> pystr \<Rightarrow> pystr option \<Rightarrow> pystr \<Rightarrow> (pystr \<Rightarrow> int option) \<Rightarrow> declared_flags \<Rightarrow> observed \<Rightarrow> pystr list
    \<Rightarrow> (check_summary \<times> pin_state option) res" where
  "pin_check sha file target chain now age dc ob hs =
     (case load_pin file of
        Inl PinVersionUnknown \<Rightarrow> Inr (summary True 0 (Some ''pin_version_unknown'') True, None)
      | Inl PinMalformed \<Rightarrow> Inr (summary False 0 (Some ''malformed_pin'') False, None)
      | Inl x \<Rightarrow> Inl x
      | Inr None \<Rightarrow>
          if hs = [] then Inr (summary True 0 (Some ''empty_trail_not_pinned'') False, None)
          else res_map (\<lambda>head. (summary True 0 (Some ''trust_on_first_use'') False, Some (next_pin target chain now dc None head)))
                 (checkpoint_for sha hs None None None)
      | Inr (Some st) \<Rightarrow>
          (case check_pin_target st target chain of
             Some why \<Rightarrow> Inr (summary False 0 (Some why) False, None)
           | None \<Rightarrow>
               (case check_pin sha hs (ps_checkpoint st) of
                  Some why \<Rightarrow> Inr (summary False 0 (Some why) False, None)
                | None \<Rightarrow>
                    res_map (\<lambda>head.
                      let why = policy_finding age st ob in
                      (summary True (cp_seq (ps_checkpoint st) + 1) why (why \<noteq> None), Some (next_pin target chain now dc (Some st) head)))
                      (checkpoint_for sha hs None None None))))"

section \<open>A run\<close>

record run =
  vn_log :: "(verify_result \<times> entry list) res"
  vn_drops :: "nat option res"
  vn_anchors :: "json res list option"
  vn_engaged :: bool
  vn_signature :: "bytes \<Rightarrow> signature_check"
  vn_witnesses :: "(pystr \<times> (int \<times> json res) res) list"
  vn_ledger :: "(entry list \<Rightarrow> check_summary res) option"
  vn_receipts :: "receipts_file res option"
  vn_pin :: bool
  vn_target :: pystr
  vn_chain :: "pystr option"
  vn_now :: pystr
  vn_age :: "pystr \<Rightarrow> int option"
  vn_declared :: declared_flags

definition observe_anchors ::
  "(bytes \<Rightarrow> bytes) \<Rightarrow> runtime \<Rightarrow> run \<Rightarrow> pystr list \<Rightarrow> (check_summary \<times> int \<times> anchor_record list \<times> bool) option res" where
  "observe_anchors sha rt run hs =
     (case vn_anchors run of
        None \<Rightarrow> Inr None
      | Some lines \<Rightarrow>
          res_bind (anchor_check sha rt (vn_engaged run) (vn_signature run) hs lines) (\<lambda>su.
          res_bind (observed_anchor_sinks rt lines) (\<lambda>n.
          res_bind (observed_anchor_records rt lines) (\<lambda>rs.
          res_map (\<lambda>u. Some (su, n, rs, u)) (observed_anchor_unreadable rt lines)))))"

definition observe :: "(bytes \<Rightarrow> bytes) \<Rightarrow> runtime \<Rightarrow> run \<Rightarrow> entry list \<Rightarrow> observed res" where
  "observe sha rt run es =
     (let hs = map entry_hash es in
      res_bind (observe_anchors sha rt run hs) (\<lambda>a.
      res_bind (if vn_witnesses run = [] then Inr None else res_map Some (witness_verdicts sha rt hs (vn_witnesses run))) (\<lambda>w.
      res_map (\<lambda>l. \<lparr>ob_anchor = map_option fst a, ob_sinks = map_option (\<lambda>(_, n, _). n) a,
                    ob_records = map_option (\<lambda>(_, _, rs, _). rs) a, ob_unreadable = map_option (\<lambda>(_, _, _, u). u) a,
                    ob_witnesses = w, ob_witness_ok = map_option observed_witness_consistent w,
                    ob_ledger = l, ob_ledger_ok = map_option observed_ledger_ok l\<rparr>)
        (case vn_ledger run of None \<Rightarrow> Inr None | Some check \<Rightarrow> res_map Some (check es)))))"

definition chain_code :: "verify_result \<Rightarrow> int list" where
  "chain_code r = (if \<not> vr_ok r then [1] else if vr_unverifiable r \<noteq> [] then [2] else [])"

definition opt_code :: "check_summary option \<Rightarrow> int list" where
  "opt_code c = (case c of None \<Rightarrow> [] | Some su \<Rightarrow> [check_exit_code su])"

definition run_pin ::
  "(bytes \<Rightarrow> bytes) \<Rightarrow> run \<Rightarrow> pin_file \<Rightarrow> observed \<Rightarrow> pystr list \<Rightarrow> (check_summary option \<times> pin_state option) res" where
  "run_pin sha run file ob hs =
     (if vn_pin run
      then res_map (\<lambda>(su, p). (Some su, p))
             (pin_check sha file (vn_target run) (vn_chain run) (vn_now run) (vn_age run) (vn_declared run) ob hs)
      else Inr (None, None))"

text \<open>The codes of a run in the order of the code, and the pin state it may record.\<close>

definition run_codes :: "(bytes \<Rightarrow> bytes) \<Rightarrow> runtime \<Rightarrow> run \<Rightarrow> pin_file \<Rightarrow> (int list \<times> pin_state option) res" where
  "run_codes sha rt run file =
     res_bind (vn_log run) (\<lambda>(result, es).
     res_bind (vn_drops run) (\<lambda>_.
     res_bind (observe sha rt run es) (\<lambda>ob.
     res_bind (run_pin sha run file ob (map entry_hash es)) (\<lambda>(pc, pending).
     res_map (\<lambda>rc.
       ([0] @ chain_code result @ opt_code pc @ opt_code (ob_anchor ob)
        @ (case ob_witnesses ob of None \<Rightarrow> [] | Some vs \<Rightarrow> [witness_exit_code vs])
        @ opt_code (ob_ledger ob) @ [check_exit_code rc], pending))
       (receipts_check sha rt (map entry_hash es) (vn_receipts run))))))"

definition verify_run :: "(bytes \<Rightarrow> bytes) \<Rightarrow> runtime \<Rightarrow> run \<Rightarrow> pin_file \<Rightarrow> int res \<times> pin_file" where
  "verify_run sha rt run file =
     (case res_bind (run_codes sha rt run file) (\<lambda>(codes, pending). res_map (\<lambda>c. (c, pending)) (combine codes)) of
        Inl x \<Rightarrow> (Inl x, file)
      | Inr (code, pending) \<Rightarrow>
          (Inr code, case pending of Some st \<Rightarrow> if code \<noteq> 1 then save_pin st else file | None \<Rightarrow> file))"

text \<open>A sequence of runs over one pin file.\<close>

fun verify_all :: "(bytes \<Rightarrow> bytes) \<Rightarrow> runtime \<Rightarrow> run list \<Rightarrow> pin_file \<Rightarrow> int res list" where
  "verify_all sha rt [] file = []"
| "verify_all sha rt (r # rs) file =
     (case verify_run sha rt r file of (c, file') \<Rightarrow> c # verify_all sha rt rs file')"

section \<open>What an exit code means\<close>

lemma exit_code_range: "check_exit_code su \<in> {0, 1, 2}"
  by (cases "summary_verdict su") (simp_all add: check_exit_code_def)

lemma run_codes_range: "run_codes sha rt run file = Inr (codes, pending) \<Longrightarrow> set codes \<subseteq> {0, 1, 2}"
  using exit_code_range
  by (fastforce simp: run_codes_def res_elims chain_code_def opt_code_def witness_exit_code_def split: option.splits if_splits)

lemma combine_exit_codes:
  assumes "set codes \<subseteq> {0, 1, 2}"
  shows "combine codes = Inr (if 1 \<in> set codes then 1 else if 2 \<in> set codes then 2 else 0)"
proof -
  define v where "v c = (if c = 1 then BROKEN else if c = 2 then UNVERIFIABLE else OK)" for c :: int
  have m: "res_mapM from_exit_code codes = Inr (map v codes)"
    using assms by (induction codes) (auto simp: from_exit_code_def v_def)
  have "fold (\<lambda>x a. join a x) vs a = (if BROKEN \<in> set (a # vs) then BROKEN else if UNVERIFIABLE \<in> set (a # vs) then UNVERIFIABLE else OK)"
    for vs a
  proof (induction vs arbitrary: a)
    case Nil
    then show ?case by (cases a) simp_all
  next
    case (Cons x vs)
    then show ?case by (cases a; cases x) (simp_all add: join_def)
  qed
  moreover have "BROKEN \<in> v ` set codes \<longleftrightarrow> 1 \<in> set codes" "1 \<notin> set codes \<Longrightarrow> UNVERIFIABLE \<in> v ` set codes \<longleftrightarrow> 2 \<in> set codes"
    using assms by (auto simp: v_def image_iff split: if_splits)
  ultimately show ?thesis by (simp add: combine_def m)
qed

definition run_hashes :: "run \<Rightarrow> pystr list" where
  "run_hashes r = (case vn_log r of Inr (_, es) \<Rightarrow> map entry_hash es | Inl _ \<Rightarrow> [])"

definition accepted_run :: "int res \<Rightarrow> bool" where
  "accepted_run c \<longleftrightarrow> c = Inr 0 \<or> c = Inr 2"

lemma verify_run_result:
  assumes "verify_run sha rt r file = (Inr code, file')"
  obtains codes pending where "run_codes sha rt r file = Inr (codes, pending)"
    "code = (if 1 \<in> set codes then 1 else if 2 \<in> set codes then 2 else 0)"
    "file' = (case pending of Some st \<Rightarrow> if code \<noteq> 1 then save_pin st else file | None \<Rightarrow> file)"
proof -
  obtain codes pending where c: "run_codes sha rt r file = Inr (codes, pending)"
    using assms by (cases "run_codes sha rt r file") (auto simp: verify_run_def)
  then show thesis using assms combine_exit_codes [OF run_codes_range [OF c]] that by (auto simp: verify_run_def)
qed

lemma verify_run_not_accepted:
  "verify_run sha rt r file = (c, file') \<Longrightarrow> \<not> accepted_run c \<Longrightarrow> file' = file"
proof (cases c)
  case (Inr code)
  assume v: "verify_run sha rt r file = (c, file')" "\<not> accepted_run c"
  obtain codes pending where "run_codes sha rt r file = Inr (codes, pending)"
    "code = (if 1 \<in> set codes then 1 else if 2 \<in> set codes then 2 else 0)"
    "file' = (case pending of Some st \<Rightarrow> if code \<noteq> 1 then save_pin st else file | None \<Rightarrow> file)"
    by (rule verify_run_result [OF v(1) [unfolded Inr]])
  moreover have "code = 1" using calculation(2) v(2) Inr by (simp add: accepted_run_def split: if_splits)
  ultimately show ?thesis by (cases pending) simp_all
next
  case (Inl x)
  assume "verify_run sha rt r file = (c, file')"
  then show ?thesis using Inl by (cases "res_bind (run_codes sha rt r file) (\<lambda>(codes, pending). res_map (\<lambda>c. (c, pending)) (combine codes))")
    (auto simp: verify_run_def)
qed

lemma run_codes_pin:
  assumes "run_codes sha rt r file = Inr (codes, pending)"
  obtains result es ob pc where "vn_log r = Inr (result, es)"
    "run_pin sha r file ob (map entry_hash es) = Inr (pc, pending)" "set (opt_code pc) \<subseteq> set codes"
proof -
  obtain result es where l: "vn_log r = Inr (result, es)"
    using assms by (cases "vn_log r") (auto simp: run_codes_def)
  obtain d where d: "vn_drops r = Inr d" using assms l by (cases "vn_drops r") (auto simp: run_codes_def)
  obtain ob where ob: "observe sha rt r es = Inr ob"
    using assms l d by (cases "observe sha rt r es") (auto simp: run_codes_def)
  obtain pc pend where p: "run_pin sha r file ob (map entry_hash es) = Inr (pc, pend)"
    using assms l d ob by (cases "run_pin sha r file ob (map entry_hash es)") (auto simp: run_codes_def)
  obtain rc where rc: "receipts_check sha rt (map entry_hash es) (vn_receipts r) = Inr rc"
    using assms l d ob p by (cases "receipts_check sha rt (map entry_hash es) (vn_receipts r)") (auto simp: run_codes_def)
  have "pend = pending" "set (opt_code pc) \<subseteq> set codes"
    using assms l d ob p rc by (auto simp: run_codes_def)
  then show thesis using that l p by simp
qed

lemma accepted_pin:
  assumes "verify_run sha rt r file = (c, file')" "accepted_run c" "vn_pin r"
  obtains ob su pending where
    "pin_check sha file (vn_target r) (vn_chain r) (vn_now r) (vn_age r) (vn_declared r) ob (run_hashes r) = Inr (su, pending)"
    "summary_verdict su \<noteq> BROKEN" "file' = (case pending of Some st \<Rightarrow> save_pin st | None \<Rightarrow> file)"
proof -
  from assms(2) have "\<exists>code. c = Inr code \<and> code \<noteq> 1" unfolding accepted_run_def by (elim disjE) simp_all
  then obtain code where code: "c = Inr code" "code \<noteq> 1" by (elim exE conjE)
  obtain codes pending where r: "run_codes sha rt r file = Inr (codes, pending)"
    "code = (if 1 \<in> set codes then 1 else if 2 \<in> set codes then 2 else 0)"
    "file' = (case pending of Some st \<Rightarrow> if code \<noteq> 1 then save_pin st else file | None \<Rightarrow> file)"
    by (rule verify_run_result [OF assms(1) [unfolded code(1)]])
  obtain result es ob pc where q: "vn_log r = Inr (result, es)"
    "run_pin sha r file ob (map entry_hash es) = Inr (pc, pending)" "set (opt_code pc) \<subseteq> set codes"
    by (rule run_codes_pin [OF r(1)])
  from q(2) assms(3) obtain su where p: "pc = Some su"
    "pin_check sha file (vn_target r) (vn_chain r) (vn_now r) (vn_age r) (vn_declared r) ob (map entry_hash es) = Inr (su, pending)"
    by (auto simp: run_pin_def res_elims)
  have "check_exit_code su \<noteq> 1" using p(1) q(3) r(2) code(2) by (auto simp: opt_code_def split: if_splits)
  then have "summary_verdict su \<noteq> BROKEN" by (auto simp: check_exit_code_def)
  moreover have "file' = (case pending of Some st \<Rightarrow> save_pin st | None \<Rightarrow> file)" using r(3) code(2) by (simp split: option.split)
  moreover have "run_hashes r = map entry_hash es" using q(1) by (simp add: run_hashes_def)
  ultimately show thesis using that [of ob su pending] p(2) by simp
qed

section \<open>A pin over many runs\<close>

text \<open>What the pin file holds between runs: nothing, or a head of the trail last accepted.\<close>

definition pinned :: "(bytes \<Rightarrow> bytes) \<Rightarrow> pin_file \<Rightarrow> pystr list \<Rightarrow> bool" where
  "pinned sha file hs \<longleftrightarrow>
     file = None \<and> hs = [] \<or> (\<exists>st. file = save_pin st \<and> checkpoint_for sha hs None None None = Inr (ps_checkpoint st))"

definition decoded :: "pystr list \<Rightarrow> bytes list" where
  "decoded hs = (case res_mapM fromhex hs of Inr ls \<Rightarrow> ls | Inl _ \<Rightarrow> [])"

definition hex_decodes :: "pystr list \<Rightarrow> bool" where
  "hex_decodes hs \<longleftrightarrow> res_mapM fromhex hs = Inr (decoded hs)"

definition trail_inputs :: "(bytes \<Rightarrow> bytes) \<Rightarrow> pystr list \<Rightarrow> bytes set" where
  "trail_inputs sha hs = (\<Union>n. tree_inputs sha (take n (decoded hs)))"

lemma checkpoint_for_decodes:
  assumes "checkpoint_for sha hs c ep None = Inr cp"
  shows "hex_decodes hs"
proof -
  obtain ls where "res_mapM fromhex hs = Inr ls"
    using assms by (auto simp: checkpoint_for_def batch_root_def res_elims split: if_splits)
  then show ?thesis by (simp add: hex_decodes_def decoded_def)
qed

lemma checkpoint_for_unbound:
  "checkpoint_for sha hs None None root = Inr cp \<Longrightarrow> agg_commit cp = None \<and> agg_epoch cp = None"
  by (auto simp: checkpoint_for_def make_checkpoint_def res_elims split: if_splits)

lemma pinned_save: "checkpoint_for sha hs None None None = Inr (ps_checkpoint st) \<Longrightarrow> pinned sha (save_pin st) hs"
  unfolding pinned_def by (rule disjI2) (rule exI [of _ st], simp)

lemma pinned_decodes: "pinned sha file hs \<Longrightarrow> hex_decodes hs"
  unfolding pinned_def by (auto dest: checkpoint_for_decodes simp: hex_decodes_def decoded_def)

lemma load_pinned:
  assumes "pinned sha file hs"
  shows "load_pin file = Inr None \<and> hs = []
    \<or> (\<exists>st. load_pin file = Inr (Some st) \<and> checkpoint_for sha hs None None None = Inr (ps_checkpoint st))"
  using assms unfolding pinned_def
  by (elim disjE exE conjE)
     (simp_all add: load_pin_def save_pin_def pin_state_round_trip checkpoint_for_unbound [THEN conjunct1]
        checkpoint_for_unbound [THEN conjunct2])

lemma next_pin_checkpoint [simp]: "ps_checkpoint (next_pin target chain now dc stored head) = head"
  by (simp add: next_pin_def)

lemma broken_summary [simp]: "summary_verdict (summary False n why u) = BROKEN"
  by (simp add: summary_def summary_verdict_def check_verdict_def)

text \<open>An accepted check of a pin: the trail passes the stored pin, and the state to record is of its own head.\<close>

lemma pin_check_accepts:
  assumes "pinned sha file hs0" "summary_verdict su \<noteq> BROKEN"
    and "pin_check sha file target chain now age dc ob hs = Inr (su, pending)"
  shows "file = None \<and> hs0 = [] \<and> hs = [] \<and> pending = None
    \<or> (\<exists>st. pending = Some st \<and> checkpoint_for sha hs None None None = Inr (ps_checkpoint st)
         \<and> (hs0 = [] \<or> (\<exists>pin. checkpoint_for sha hs0 None None None = Inr pin \<and> check_pin sha hs pin = None)))"
  using load_pinned [OF assms(1)]
proof (elim disjE exE conjE)
  assume l: "load_pin file = Inr None" "hs0 = []"
  then have "file = None" using assms(1) by (auto simp: pinned_def checkpoint_for_def)
  with l assms(3) show ?thesis by (cases "hs = []") (auto simp: pin_check_def res_elims)
next
  fix st assume l: "load_pin file = Inr (Some st)" "checkpoint_for sha hs0 None None None = Inr (ps_checkpoint st)"
  have t: "check_pin_target st target chain = None"
    using assms(2,3) l(1) by (cases "check_pin_target st target chain") (auto simp: pin_check_def)
  have c: "check_pin sha hs (ps_checkpoint st) = None"
    using assms(2,3) l(1) t by (cases "check_pin sha hs (ps_checkpoint st)") (auto simp: pin_check_def)
  obtain head where "checkpoint_for sha hs None None None = Inr head" "pending = Some (next_pin target chain now dc (Some st) head)"
    using assms(3) l(1) t c by (auto simp: pin_check_def res_elims Let_def)
  with l(2) c show ?thesis by simp
qed

lemma tree_inputs_in_trail: "tree_inputs sha (take n (decoded hs)) \<subseteq> trail_inputs sha hs" "tree_inputs sha (decoded hs) \<subseteq> trail_inputs sha hs"
proof -
  show "tree_inputs sha (take n (decoded hs)) \<subseteq> trail_inputs sha hs" for n by (auto simp: trail_inputs_def)
  from this [of "length (decoded hs)"] show "tree_inputs sha (decoded hs) \<subseteq> trail_inputs sha hs" by simp
qed

lemma pin_extends_trail:
  assumes "digest32 sha" "checkpoint_for sha hs c ep None = Inr pin" "check_pin sha hs' pin = None" "hex_decodes hs'"
    and "inj_on sha (trail_inputs sha hs \<union> trail_inputs sha hs')"
  shows "prefix (decoded hs) (decoded hs')"
proof -
  have "inj_on sha (tree_inputs sha (decoded hs) \<union> tree_inputs sha (take (length hs) (decoded hs')))"
    by (rule inj_on_subset [OF assms(5)]) (use tree_inputs_in_trail in blast)
  from pin_extends [OF assms(1-3) _ _ this] checkpoint_for_decodes [OF assms(2)] assms(4)
  have "take (length hs) (decoded hs') = decoded hs" by (simp add: hex_decodes_def)
  then show ?thesis by (metis take_is_prefix)
qed

text \<open>One run over a pin file that holds the head of an accepted trail.\<close>

lemma verify_run_pinned:
  assumes "digest32 sha" "pinned sha file hs" "verify_run sha rt r file = (c, file')" "accepted_run c" "vn_pin r"
    and "inj_on sha (trail_inputs sha hs \<union> trail_inputs sha (run_hashes r))"
  shows "pinned sha file' (run_hashes r) \<and> prefix (decoded hs) (decoded (run_hashes r))"
proof -
  obtain ob su pending where p: "pin_check sha file (vn_target r) (vn_chain r) (vn_now r) (vn_age r) (vn_declared r) ob (run_hashes r) = Inr (su, pending)"
    "summary_verdict su \<noteq> BROKEN" "file' = (case pending of Some st \<Rightarrow> save_pin st | None \<Rightarrow> file)"
    by (rule accepted_pin [OF assms(3-5)])
  from pin_check_accepts [OF assms(2) p(2,1)] show ?thesis
  proof (elim disjE exE conjE)
    assume "file = None" "hs = []" "run_hashes r = []" "pending = None"
    then show ?thesis using p(3) by (simp add: pinned_def)
  next
    fix st assume a: "pending = Some st" "checkpoint_for sha (run_hashes r) None None None = Inr (ps_checkpoint st)" "hs = []"
    then show ?thesis using p(3) pinned_save [OF a(2)] by (simp add: decoded_def)
  next
    fix st pin
    assume a: "pending = Some st" "checkpoint_for sha (run_hashes r) None None None = Inr (ps_checkpoint st)"
      and pin: "checkpoint_for sha hs None None None = Inr pin" "check_pin sha (run_hashes r) pin = None"
    have "prefix (decoded hs) (decoded (run_hashes r))"
      by (rule pin_extends_trail [OF assms(1) pin checkpoint_for_decodes [OF a(2)] assms(6)])
    then show ?thesis using p(3) a(1) pinned_save [OF a(2)] by simp
  qed
qed

lemma verify_run_unpinned:
  assumes "verify_run sha rt r file = (c, file')" "\<not> (vn_pin r \<and> accepted_run c)"
  shows "file' = file"
proof (cases "accepted_run c")
  case False
  then show ?thesis by (rule verify_run_not_accepted [OF assms(1)])
next
  case True
  then have "\<not> vn_pin r" using assms(2) by simp
  from True obtain code where code: "c = Inr code" unfolding accepted_run_def by (elim disjE) simp_all
  obtain codes pending where r: "run_codes sha rt r file = Inr (codes, pending)"
    "file' = (case pending of Some st \<Rightarrow> if code \<noteq> 1 then save_pin st else file | None \<Rightarrow> file)"
    by (rule verify_run_result [OF assms(1) [unfolded code]])
  obtain result es ob pc where "vn_log r = Inr (result, es)"
    and "run_pin sha r file ob (map entry_hash es) = Inr (pc, pending)" and "set (opt_code pc) \<subseteq> set codes"
    by (rule run_codes_pin [OF r(1)])
  then have "pending = None" using \<open>\<not> vn_pin r\<close> by (simp add: run_pin_def)
  then show ?thesis using r(2) by simp
qed

text \<open>The trail the pin file stands for after a run.\<close>

definition next_trail :: "pystr list \<Rightarrow> run \<Rightarrow> int res \<Rightarrow> pystr list" where
  "next_trail hs r c = (if vn_pin r \<and> accepted_run c then run_hashes r else hs)"

lemma verify_run_next:
  assumes "digest32 sha" "pinned sha file hs" "verify_run sha rt r file = (c, file')"
    and "inj_on sha (trail_inputs sha hs \<union> trail_inputs sha (run_hashes r))"
  shows "pinned sha file' (next_trail hs r c)" "prefix (decoded hs) (decoded (next_trail hs r c))"
proof -
  have "pinned sha file' (next_trail hs r c) \<and> prefix (decoded hs) (decoded (next_trail hs r c))"
  proof (cases "vn_pin r \<and> accepted_run c")
    case True
    then show ?thesis using verify_run_pinned [OF assms(1-3) _ _ assms(4)] by (simp add: next_trail_def)
  next
    case False
    then show ?thesis using verify_run_unpinned [OF assms(3) False] assms(2) by (auto simp: next_trail_def)
  qed
  then show "pinned sha file' (next_trail hs r c)" "prefix (decoded hs) (decoded (next_trail hs r c))" by simp_all
qed

definition runs_inputs :: "(bytes \<Rightarrow> bytes) \<Rightarrow> pystr list \<Rightarrow> run list \<Rightarrow> bytes set" where
  "runs_inputs sha hs runs = trail_inputs sha hs \<union> (\<Union>r \<in> set runs. trail_inputs sha (run_hashes r))"

lemma runs_inputs_Cons:
  "trail_inputs sha hs \<union> trail_inputs sha (run_hashes r) \<subseteq> runs_inputs sha hs (r # rs)"
  "runs_inputs sha (next_trail hs r c) rs \<subseteq> runs_inputs sha hs (r # rs)"
  by (auto simp: runs_inputs_def next_trail_def)

lemma verify_all_pinned:
  assumes "digest32 sha" "pinned sha pf hs" "j < length runs" "vn_pin (runs ! j)" "accepted_run (verify_all sha rt runs pf ! j)"
    and "inj_on sha (runs_inputs sha hs runs)"
  shows "hex_decodes (run_hashes (runs ! j)) \<and> prefix (decoded hs) (decoded (run_hashes (runs ! j)))"
  using assms(2-)
proof (induction runs arbitrary: pf hs j)
  case (Cons r rs)
  obtain c pf' where v: "verify_run sha rt r pf = (c, pf')" by fastforce
  note inj = inj_on_subset [OF Cons.prems(5)]
  note step = verify_run_next [OF assms(1) Cons.prems(1) v inj [OF runs_inputs_Cons(1)]]
  show ?case
  proof (cases j)
    case 0
    then have "next_trail hs r c = run_hashes r" using Cons.prems(3,4) v by (simp add: next_trail_def)
    then show ?thesis using step pinned_decodes [OF step(1)] 0 by simp
  next
    case (Suc k)
    have "hex_decodes (run_hashes (rs ! k)) \<and> prefix (decoded (next_trail hs r c)) (decoded (run_hashes (rs ! k)))"
      by (rule Cons.IH [OF step(1) _ _ _ inj [OF runs_inputs_Cons(2)]]) (use Cons.prems(2-4) v Suc in simp_all)
    then show ?thesis using step(2) Suc prefix_order.trans by (simp, blast)
  qed
qed simp

lemma verify_all_grows:
  assumes "digest32 sha" "pinned sha pf hs" "i < j" "j < length runs" "vn_pin (runs ! i)" "vn_pin (runs ! j)"
    and "accepted_run (verify_all sha rt runs pf ! i)" "accepted_run (verify_all sha rt runs pf ! j)"
    and "inj_on sha (runs_inputs sha hs runs)"
  shows "prefix (decoded (run_hashes (runs ! i))) (decoded (run_hashes (runs ! j)))"
  using assms(2-)
proof (induction runs arbitrary: pf hs i j)
  case (Cons r rs)
  obtain c pf' where v: "verify_run sha rt r pf = (c, pf')" by fastforce
  note inj = inj_on_subset [OF Cons.prems(8)]
  note step = verify_run_next [OF assms(1) Cons.prems(1) v inj [OF runs_inputs_Cons(1)]]
  obtain k where k: "j = Suc k" using Cons.prems(2) by (cases j) auto
  show ?case
  proof (cases i)
    case 0
    then have "next_trail hs r c = run_hashes r" using Cons.prems(4,6) v by (simp add: next_trail_def)
    moreover have "hex_decodes (run_hashes (rs ! k)) \<and> prefix (decoded (next_trail hs r c)) (decoded (run_hashes (rs ! k)))"
      by (rule verify_all_pinned [OF assms(1) step(1) _ _ _ inj [OF runs_inputs_Cons(2)]])
         (use Cons.prems(3,5,7) v k in simp_all)
    ultimately show ?thesis using 0 k by simp
  next
    case (Suc l)
    have "prefix (decoded (run_hashes (rs ! l))) (decoded (run_hashes (rs ! k)))"
      by (rule Cons.IH [OF step(1) _ _ _ _ _ _ inj [OF runs_inputs_Cons(2)]]) (use Cons.prems(2-7) v k Suc in simp_all)
    then show ?thesis using Suc k by simp
  qed
qed simp

section \<open>Properties\<close>

text \<open>The exit code of a run is the worst of its dimensions, a break before an unmeasured dimension before a pass, and the
  pin moves to the new head only on a run without a break.\<close>

theorem verify_exit_code:
  assumes "run_codes sha rt r file = Inr (codes, pending)"
  shows "verify_run sha rt r file =
    (if 1 \<in> set codes then (Inr 1, file)
     else (Inr (if 2 \<in> set codes then 2 else 0), case pending of Some st \<Rightarrow> save_pin st | None \<Rightarrow> file))"
  using combine_exit_codes [OF run_codes_range [OF assms]]
  by (cases pending) (simp_all add: verify_run_def assms)

text \<open>C9. Over any sequence of verify runs that share a pin file, mixed with runs that use no pin, fail, or raise, the trails the
  pinned runs accept are one growing trail: every later accepted trail extends every earlier one, entry hash for entry hash,
  unless two of the trails give a collision of the hash function. Nothing is assumed of the other dimensions: what the trail,
  the sidecars, the witnesses and the nodes answer is arbitrary in every run.\<close>

theorem verified_trail_only_grows:
  assumes "digest32 sha" "i < j" "j < length runs" "vn_pin (runs ! i)" "vn_pin (runs ! j)"
    and "accepted_run (verify_all sha rt runs None ! i)" "accepted_run (verify_all sha rt runs None ! j)"
    and "inj_on sha (\<Union>r \<in> set runs. trail_inputs sha (run_hashes r))"
  shows "prefix (decoded (run_hashes (runs ! i))) (decoded (run_hashes (runs ! j)))"
proof (rule verify_all_grows [OF assms(1) _ assms(2-7)])
  show "pinned sha None []" by (simp add: pinned_def)
  have "trail_inputs sha [] \<subseteq> trail_inputs sha (run_hashes (runs ! j))"
    using tree_inputs_in_trail(1) [of sha 0 "run_hashes (runs ! j)"] by (simp add: trail_inputs_def decoded_def)
  then have "runs_inputs sha [] runs = (\<Union>r \<in> set runs. trail_inputs sha (run_hashes r))"
    using assms(3) nth_mem unfolding runs_inputs_def by blast
  then show "inj_on sha (runs_inputs sha [] runs)" using assms(8) by simp
qed

text \<open>A run of the pin and nothing else over entries with the given hashes.\<close>

definition no_flags :: declared_flags where
  "no_flags = \<lparr>dc_expect_binding = False, dc_max_age = None, dc_topology = None\<rparr>"

definition no_observed :: observed where
  "no_observed = \<lparr>ob_anchor = None, ob_sinks = None, ob_records = None, ob_unreadable = None, ob_witnesses = None,
     ob_witness_ok = None, ob_ledger = None, ob_ledger_ok = None\<rparr>"

definition pin_run :: "pystr list \<Rightarrow> run" where
  "pin_run hs =
     \<lparr>vn_log = Inr (\<lparr>vr_ok = True, vr_checked = length hs, vr_broken_seq = None, vr_reason = None, vr_unverifiable = [],
                     dropped_writes = None, drops_source = None\<rparr>,
                    map (\<lambda>h. \<lparr>header = sample_header 0 [], entry_hash = h, payload = None\<rparr>) hs),
      vn_drops = Inr None, vn_anchors = None, vn_engaged = False, vn_signature = (\<lambda>_. \<lparr>sc_state = SIGNATURE_VALID, sc_label = Chained\<rparr>),
      vn_witnesses = [], vn_ledger = None, vn_receipts = None, vn_pin = True, vn_target = [], vn_chain = None, vn_now = [],
      vn_age = (\<lambda>_. None), vn_declared = no_flags\<rparr>"

lemma ok_summary [simp]: "check_exit_code (summary True n why False) = 0"
  by (simp add: check_exit_code_def summary_def summary_verdict_def check_verdict_def)

lemma sample_run_codes:
  assumes "pin_check sha file [] None [] (\<lambda>_. None) no_flags no_observed hs = Inr (su, pending)"
  shows "run_codes sha rt (pin_run hs) file = Inr ([0, check_exit_code su, 0], pending)"
proof -
  have o: "observe sha rt (pin_run hs) es = Inr no_observed" for es
    by (simp add: observe_def observe_anchors_def pin_run_def no_observed_def Let_def)
  have p: "run_pin sha (pin_run hs) file no_observed hs = Inr (Some su, pending)"
    using assms by (simp add: run_pin_def pin_run_def)
  obtain r es where l: "vn_log (pin_run hs) = Inr (r, es)" "map entry_hash es = hs" "chain_code r = []"
    by (rule that [of "fst (projr (vn_log (pin_run hs)))" "snd (projr (vn_log (pin_run hs)))"])
       (simp_all add: pin_run_def chain_code_def comp_def)
  have "vn_receipts (pin_run hs) = None" "vn_drops (pin_run hs) = Inr None" by (simp_all add: pin_run_def)
  with o p l show ?thesis by (simp add: run_codes_def receipts_check_def) (simp add: opt_code_def no_observed_def)
qed

lemma sample_first_use:
  assumes "checkpoint_for sha hs None None None = Inr head"
  shows "pin_check sha None [] None [] (\<lambda>_. None) no_flags no_observed hs =
    Inr (summary True 0 (Some ''trust_on_first_use'') False, Some (next_pin [] None [] no_flags None head))"
  using assms by (auto simp: pin_check_def load_pin_def checkpoint_for_def)

lemma sample_grown:
  assumes "checkpoint_for sha hs None None None = Inr head" "checkpoint_for sha (hs @ later) None None None = Inr head'"
  shows "\<exists>st. pin_check sha (save_pin (next_pin [] None [] no_flags None head)) [] None [] (\<lambda>_. None) no_flags no_observed (hs @ later)
    = Inr (summary True (cp_seq head + 1) None False, Some st)"
proof -
  have "check_pin sha (hs @ later) head = None"
    using checkpoint_for_verifies [OF assms(1)] by (simp add: check_pin_None)
  moreover have "load_pin (save_pin (next_pin [] None [] no_flags None head)) = Inr (Some (next_pin [] None [] no_flags None head))"
    using checkpoint_for_unbound [OF assms(1)] by (simp add: load_pin_def save_pin_def pin_state_round_trip)
  moreover have "policy_finding (\<lambda>_. None) (next_pin [] None [] no_flags None head) no_observed = None"
    by (simp add: policy_finding_def or_else_def downgrade_finding_def staleness_finding_def ledger_finding_def separation_finding_def
        no_observed_def next_pin_def no_flags_def)
  moreover have "check_pin_target (next_pin [] None [] no_flags None head) [] None = None"
    by (simp add: check_pin_target_def next_pin_def)
  ultimately show ?thesis using assms(2) by (simp add: pin_check_def Let_def)
qed

text \<open>Two verify runs, the second over the trail after one more append.\<close>

lemma sample_runs:
  assumes "checkpoint_for sha hs None None None = Inr head" "checkpoint_for sha (hs @ later) None None None = Inr head'"
  shows "verify_all sha rt [pin_run hs, pin_run (hs @ later)] None = [Inr 0, Inr 0]"
proof -
  obtain st where st: "pin_check sha (save_pin (next_pin [] None [] no_flags None head)) [] None [] (\<lambda>_. None) no_flags no_observed (hs @ later)
      = Inr (summary True (cp_seq head + 1) None False, Some st)"
    using sample_grown [OF assms] by (elim exE)
  have c: "combine [0, 0, 0] = Inr 0" by (simp add: combine_exit_codes)
  have "verify_run sha rt (pin_run hs) None = (Inr 0, save_pin (next_pin [] None [] no_flags None head))"
    by (simp add: verify_run_def sample_run_codes [OF sample_first_use [OF assms(1)]] c)
  then show ?thesis by (simp add: verify_run_def sample_run_codes [OF st] c)
qed

theorem verified_trail_only_grows_witness:
  "accepted_run (verify_all first32 ascii_runtime [pin_run [str ''01''], pin_run [str ''01'', str ''02'']] None ! 1)
   \<and> prefix (decoded (run_hashes (pin_run [str ''01'']))) (decoded (run_hashes (pin_run [str ''01'', str ''02''])))"
proof -
  let ?a = "[str ''01'']" and ?b = "[str ''01'', str ''02'']"
  let ?runs = "[pin_run ?a, pin_run (?a @ [str ''02''])]"
  have r: "res_mapM fromhex ?a = Inr [[1]]" "res_mapM fromhex ?b = Inr [[1], [2]]"
    by (simp_all add: str_def ascii_space_def hexval_def)
  obtain head where a: "checkpoint_for first32 ?a None None None = Inr head"
    using r by (auto simp: checkpoint_for_def batch_root_def make_checkpoint_def)
  obtain head' where b: "checkpoint_for first32 (?a @ [str ''02'']) None None None = Inr head'"
    using r by (auto simp: checkpoint_for_def batch_root_def make_checkpoint_def)
  note v = sample_runs [OF a b]
  have d: "decoded ?a = [[1]]" "decoded ?b = [[1], [2]]" using r by (simp_all add: decoded_def)
  have h: "run_hashes (pin_run hs) = hs" for hs by (simp add: run_hashes_def pin_run_def comp_def)
  let ?u = "tree_inputs first32 [] \<union> tree_inputs first32 [[1]] \<union> tree_inputs first32 [[1], [2]]"
  have t: "take n [x, y] = [] \<or> take n [x, y] = [x] \<or> take n [x, y] = [x, y]" for n and x y :: bytes
    by (cases n; cases "n - 1") simp_all
  have t1: "take n [x] = [] \<or> take n [x] = [x]" for n and x :: bytes by (cases n) simp_all
  have "tree_inputs first32 (take n [[1], [2]]) \<subseteq> ?u" for n using t [of n "[1]" "[2]"] by (elim disjE) (simp_all only:, blast+)
  moreover have "tree_inputs first32 (take n [[1]]) \<subseteq> ?u" for n using t1 [of n "[1]"] by (elim disjE) (simp_all only:, blast+)
  ultimately have "trail_inputs first32 ?a \<subseteq> ?u" "trail_inputs first32 ?b \<subseteq> ?u"
    unfolding trail_inputs_def d by (intro UN_least; simp)+
  then have s: "(\<Union>x \<in> set ?runs. trail_inputs first32 (run_hashes x)) \<subseteq> ?u" by (simp add: h)
  have z: "replicate 32 (0 :: byte) = 0 # 0 # replicate 30 0" by (simp add: numeral_eq_Suc)
  have "inj_on first32 ?u"
    by (simp add: z tree_inputs_pair tree_inputs_single tree_inputs.simps [of _ "[]"] inj_on_def first32_def leaf_hash_def LEAF_PREFIX_def NODE_PREFIX_def)
  note inj = inj_on_subset [OF this s]
  have "vn_pin (pin_run hs)" for hs by (simp add: pin_run_def)
  then have "prefix (decoded (run_hashes (?runs ! 0))) (decoded (run_hashes (?runs ! 1)))"
    by (intro verified_trail_only_grows [OF digest32_first32 _ _ _ _ _ _ inj, where rt = ascii_runtime]) (use v in \<open>simp_all add: accepted_run_def\<close>)
  then show ?thesis using v by (simp add: accepted_run_def)
qed

theorem verify_exit_code_witness:
  "\<exists>st. verify_run first32 ascii_runtime (pin_run [str ''01'']) None = (Inr 0, save_pin st)"
proof -
  obtain head where a: "checkpoint_for first32 [str ''01''] None None None = Inr head"
    by (simp add: checkpoint_for_def batch_root_def make_checkpoint_def str_def ascii_space_def hexval_def)
  show ?thesis
    using verify_exit_code [OF sample_run_codes [OF sample_first_use [OF a]], of ascii_runtime] by (intro exI [of _ "next_pin [] None [] no_flags None head"]) simp
qed

text \<open>A token the time-stamping sink filed reads back as checked in every later verify run: the response it accepted is the one
  the receipt carries, and it attests the frame of the record beside it.\<close>

lemma filed_token_checks:
  assumes "rfc3161_anchor sha post nonce cp w = (Inr (SinkReceipt receipt n), w')"
    and "an_checkpoint rec = cp" "an_receipt rec = Some receipt" "an_nonce rec = n"
  shows "receipt_verdict sha rec = Inr (RECEIPT_CHECKED, None)"
proof -
  obtain frame der where f: "checkpoint_frame cp = Inr frame" "SinkReceipt receipt n = SinkReceipt (encode_receipt der) nonce"
    "check_timestamp_resp sha der frame nonce = None"
    by (rule rfc3161_anchor_files [OF assms(1)])
  obtain tok where "read_timestamp_resp sha der frame nonce = (Some tok, None)"
    using f(3) by (auto simp: check_timestamp_resp_def read_timestamp_resp_def split: sum.splits option.splits if_splits)
  moreover have "starts_with (encode_receipt der) RFC3161_PREFIX" by (simp add: starts_with_def encode_receipt_def)
  moreover have "decode_receipt (encode_receipt der) = Some der"
    by (simp add: decode_receipt_def encode_receipt_def b64_strict_encode)
  ultimately show ?thesis using f assms(2-) by (simp add: receipt_verdict_def)
qed

text \<open>A frame field that has no UTF-8 encoding.\<close>

lemma unencodable_frame:
  assumes "agg_commit cp = Some commit" "utf8_encode commit = None"
  shows "\<exists>x. checkpoint_frame cp = Inl x"
proof (cases "checkpoint_frame cp")
  case (Inr f)
  then obtain n b where "enc_all lp (map Str [str_int (cp_seq cp), cp_entry_hash cp, cp_root cp, str_opt_int (agg_epoch cp), commit]) = Inr b"
    using assms(1) by (auto simp: checkpoint_frame_def pae_frame_def res_elims)
  moreover have "lp (Str commit) = Inl LpEncodingError" using assms(2) by (simp add: lp_def)
  ultimately show ?thesis by (auto simp: enc_all_def res_elims)
qed simp

lemma res_mapM_raises: "x \<in> set xs \<Longrightarrow> f x = Inl e \<Longrightarrow> \<exists>e'. res_mapM f xs = Inl e'"
  by (induction xs) (auto simp: res_bind_def res_map_def split: sum.splits)

lemma run_raises: "run_codes sha rt r file = Inl x \<Longrightarrow> verify_run sha rt r file = (Inl x, file)"
  by (simp add: verify_run_def)

text \<open>C39. An anchor record is read from a file the writer of the trail can edit, and a JSON string may hold a lone surrogate. A record
  whose aggregate commitment has no UTF-8 form passes the check of its checkpoint, and with an RFC 3161 receipt beside it the
  frame it is compared with cannot be built: the encoding error leaves the verify command and no verdict is given, where
  the code promises a verdict for every malformed record.\<close>

theorem unencodable_commitment_ends_run:
  assumes "vn_log r = Inr (result, es)" "vn_drops r = Inr drops" "vn_anchors r = Some lines" "read_anchor_records rt lines = Inr sidecar"
    and "first_break sha (map entry_hash es) (as_records sidecar) = None" "rec \<in> set (as_records sidecar)"
    and "an_receipt rec = Some (encode_receipt der)" "agg_commit (an_checkpoint rec) = Some commit" "utf8_encode commit = None"
  shows "\<exists>x. verify_run sha rt r file = (Inl x, file)"
proof -
  obtain x where x: "checkpoint_frame (an_checkpoint rec) = Inl x" using unencodable_frame [OF assms(8,9)] by (elim exE)
  have v: "receipt_verdict sha rec = Inl x"
    using x assms(7) by (simp add: receipt_verdict_def starts_with_def decode_receipt_def encode_receipt_def b64_strict_encode)
  obtain y where "res_mapM (receipt_verdict sha) (as_records sidecar) = Inl y"
    using res_mapM_raises [where f = "receipt_verdict sha", OF assms(6) v] by (elim exE)
  moreover have "as_records sidecar \<noteq> []" using assms(6) by auto
  ultimately have "anchor_check sha rt eng chk (map entry_hash es) lines = Inl y" for eng chk
    using assms(4,5) by (simp add: anchor_check_def anchor_summary_def Let_def)
  then have "observe sha rt r es = Inl y" using assms(3) by (simp add: observe_def observe_anchors_def Let_def)
  then have "run_codes sha rt r file = Inl y" using assms(1,2) by (simp add: run_codes_def)
  then show ?thesis by (intro exI [of _ y] run_raises)
qed

text \<open>A first verify with a pin over a trail with a stored entry hash that is not hexadecimal: the head to record is built before any
  dimension has been combined, so the conversion error leaves the command whatever the chain check found, and no pin is written.\<close>

theorem unreadable_hash_ends_pin_run:
  assumes "vn_log r = Inr (result, es)" "vn_drops r = Inr drops" "observe sha rt r es = Inr ob" "vn_pin r"
    and "res_mapM fromhex (map entry_hash es) = Inl x"
  shows "verify_run sha rt r None = (Inl x, None)"
proof -
  have "es \<noteq> []" using assms(5) by auto
  then have "run_pin sha r None ob (map entry_hash es) = Inl x"
    using assms(4,5) by (simp add: run_pin_def pin_check_def load_pin_def checkpoint_for_def batch_root_def)
  then have "run_codes sha rt r None = Inl x" using assms(1-3) by (simp add: run_codes_def)
  then show ?thesis by (rule run_raises)
qed

theorem unreadable_hash_ends_pin_run_witness:
  "verify_run first32 ascii_runtime (pin_run [str ''zz'']) None = (Inl ValueError, None)"
proof (rule unreadable_hash_ends_pin_run)
  show "observe first32 ascii_runtime (pin_run [str ''zz'']) es = Inr no_observed" for es
    by (simp add: observe_def observe_anchors_def pin_run_def no_observed_def Let_def)
  show "res_mapM fromhex (map entry_hash (map (\<lambda>h. \<lparr>header = sample_header 0 [], entry_hash = h, payload = None\<rparr>) [str ''zz''])) = Inl ValueError"
    by (simp add: str_def ascii_space_def hexval_def)
qed (simp_all add: pin_run_def)

theorem unencodable_commitment_ends_run_witness:
  "\<exists>cp x. verify_run first32 ascii_runtime
      ((pin_run [str ''01''])\<lparr>vn_anchors := Some [Inr (record_obj cp (str ''tsa'') (Some (encode_receipt [])) [] None)]\<rparr>) None = (Inl x, None)"
proof -
  obtain cp where cp: "checkpoint_for first32 [str ''01''] (Some [0xD800]) (Some 0) None = Inr cp"
    by (simp add: checkpoint_for_def batch_root_def make_checkpoint_def str_def ascii_space_def hexval_def)
  then have m: "agg_commit cp = Some [0xD800]" "whole_binding cp"
    by (auto simp: checkpoint_for_def make_checkpoint_def whole_binding_def res_elims)
  let ?line = "record_obj cp (str ''tsa'') (Some (encode_receipt [])) [] None"
  obtain rec where rec: "read_anchor_line ascii_runtime ?line = Inr (Inr rec)" "an_checkpoint rec = cp" "an_receipt rec = Some (encode_receipt [])"
    using ascii.read_record_obj [OF m(2)] by simp
  have "read_anchor_records ascii_runtime ([] @ [Inr ?line]) = Inr (\<lparr>as_records = [], as_unreadable = []\<rparr>\<lparr>as_records := [] @ [rec]\<rparr>)"
    using read_anchor_records_snoc [OF _ rec(1), of "[]" "\<lparr>as_records = [], as_unreadable = []\<rparr>"] by (simp add: read_anchor_records_def)
  then have sc: "read_anchor_records ascii_runtime [Inr ?line] = Inr \<lparr>as_records = [rec], as_unreadable = []\<rparr>" by simp
  let ?es = "[\<lparr>header = sample_header 0 [], entry_hash = str ''01'', payload = None\<rparr>]"
  have "\<exists>x. verify_run first32 ascii_runtime ((pin_run [str ''01''])\<lparr>vn_anchors := Some [Inr ?line]\<rparr>) None = (Inl x, None)"
  proof (rule unencodable_commitment_ends_run [OF _ _ _ sc, where rec = rec and es = ?es and commit = "[0xD800]" and der = "[]"])
    show "first_break first32 (map entry_hash ?es) (as_records \<lparr>as_records = [rec], as_unreadable = []\<rparr>) = None"
      using checkpoint_for_verifies [OF cp, of "[]"] rec(2) by simp
    show "utf8_encode [0xD800] = None" by (simp add: utf8_cp_def surrogate_def)
  qed (simp_all add: rec m pin_run_def)
  then show ?thesis by blast
qed

end
