(* ===== verification/Declarations.thy ===== *)
theory Declarations
  imports Pins Tickets
begin

text \<open>
  What the operator declares for a pin (\<^verbatim>\<open>cli/pin.py\<close>: \<^verbatim>\<open>--declare-topology\<close>). The text \<^verbatim>\<open>key=value,...\<close> is read into a topology or refused; a
  declaration is complete or nothing, and each topology has a text that is read as exactly it.
\<close>

section \<open>Reading a declaration\<close>

definition DECLARED_TOPOLOGY_FIELDS :: "pystr list" where
  "DECLARED_TOPOLOGY_FIELDS = map str [''seal_escrow'', ''anchor_sinks'', ''witness'', ''pin_separate'']"

definition DECLARED_TOPOLOGY_OPTIONAL_FIELD :: pystr where
  "DECLARED_TOPOLOGY_OPTIONAL_FIELD = str ''ledger''"

definition parse_bool_field :: "(pystr \<Rightarrow> pystr) \<Rightarrow> pystr \<Rightarrow> bool res" where
  "parse_bool_field lower s =
     (let lowered = lower (py_strip s) in
      if lowered = str ''true'' then Inr True else if lowered = str ''false'' then Inr False else Inl ValueError)"

definition parse_int_field :: "runtime \<Rightarrow> pystr \<Rightarrow> int res" where
  "parse_int_field rt s = (case int_of_str rt (py_strip s) of Inl x \<Rightarrow> if is_ValueError x then Inl ValueError else Inl x | Inr n \<Rightarrow> Inr n)"

text \<open>The dictionary of the loop, as the list of its items.\<close>

fun spec_fields :: "pystr list \<Rightarrow> (pystr \<times> pystr) list \<Rightarrow> (pystr \<times> pystr) list res" where
  "spec_fields [] fs = Inr fs"
| "spec_fields (raw # raws) fs =
     (let token = py_strip raw in
      if token = [] then spec_fields raws fs
      else if 61 \<notin> set token then Inl ValueError
      else (case partition_at 61 token of (k, v) \<Rightarrow>
              let key = py_strip k in
              if key \<in> fst ` set fs then Inl ValueError else spec_fields raws (fs @ [(key, py_strip v)])))"

definition field_of :: "(pystr \<times> pystr) list \<Rightarrow> string \<Rightarrow> pystr" where
  "field_of fs k = the (map_of fs (str k))"

definition parse_declared_topology_spec :: "(pystr \<Rightarrow> pystr) \<Rightarrow> runtime \<Rightarrow> pystr \<Rightarrow> separation_topology res" where
  "parse_declared_topology_spec lower rt spec =
     res_bind (spec_fields (split_on 44 spec) []) (\<lambda>fs.
       if \<exists>f \<in> set DECLARED_TOPOLOGY_FIELDS. f \<notin> fst ` set fs then Inl ValueError
       else if \<exists>k \<in> fst ` set fs. k \<notin> set (DECLARED_TOPOLOGY_OPTIONAL_FIELD # DECLARED_TOPOLOGY_FIELDS) then Inl ValueError
       else
         res_bind (case map_of fs DECLARED_TOPOLOGY_OPTIONAL_FIELD of
                     None \<Rightarrow> Inr None | Some raw \<Rightarrow> res_map Some (parse_bool_field lower raw)) (\<lambda>led.
         res_bind (parse_bool_field lower (field_of fs ''seal_escrow'')) (\<lambda>escrow.
         res_bind (parse_int_field rt (field_of fs ''anchor_sinks'')) (\<lambda>sinks.
         res_bind (parse_bool_field lower (field_of fs ''witness'')) (\<lambda>wit.
         res_map (\<lambda>sep. \<lparr>seal_escrow = escrow, anchor_sinks = sinks, st_witness = wit, pin_separate = sep, ledger = led\<rparr>)
           (parse_bool_field lower (field_of fs ''pin_separate'')))))))"

section \<open>Texts without separators\<close>

definition plain_text :: "pystr \<Rightarrow> bool" where
  "plain_text s \<longleftrightarrow> (\<forall>c \<in> set s. \<not> py_space c \<and> c \<noteq> 44 \<and> c \<noteq> 61)"

definition spec_item :: "string \<Rightarrow> pystr \<Rightarrow> pystr" where
  "spec_item k v = str k @ 61 # v"

lemma py_strip_id: "(\<forall>c \<in> set s. \<not> py_space c) \<Longrightarrow> py_strip s = s"
  unfolding py_strip_def by (metis dropWhile_eq_self_iff hd_in_set rev_rev_ident set_rev)

lemma split_on_single: "c \<notin> set s \<Longrightarrow> split_on c s = [s]"
  by (induction s) auto

lemma split_on_append: "c \<notin> set s \<Longrightarrow> split_on c (s @ c # rest) = s # split_on c rest"
  by (induction s) auto

lemma partition_at_item: "c \<notin> set k \<Longrightarrow> partition_at c (k @ c # v) = (k, v)"
  by (induction k) (auto simp: partition_at_def)

lemma spec_fields_item:
  assumes "plain_text (str k)" "plain_text v"
  shows "spec_fields (spec_item k v # raws) fs =
    (if str k \<in> fst ` set fs then Inl ValueError else spec_fields raws (fs @ [(str k, v)]))"
proof -
  have "\<forall>c \<in> set (spec_item k v). \<not> py_space c" using assms by (auto simp: spec_item_def plain_text_def py_space_def)
  then have "py_strip (spec_item k v) = spec_item k v" by (rule py_strip_id)
  moreover have "py_strip (str k) = str k" "py_strip v = v" using assms by (auto simp: plain_text_def intro: py_strip_id)
  moreover have "partition_at 61 (spec_item k v) = (str k, v)"
    using assms(1) unfolding spec_item_def by (intro partition_at_item) (auto simp: plain_text_def)
  ultimately show ?thesis by (simp add: spec_item_def Let_def)
qed

lemma item_no_comma: "plain_text (str k) \<Longrightarrow> plain_text v \<Longrightarrow> 44 \<notin> set (spec_item k v)"
  by (auto simp: spec_item_def plain_text_def)

definition bool_text :: "bool \<Rightarrow> pystr" where
  "bool_text b = str (if b then ''true'' else ''false'')"

lemma plain_texts: "plain_text (bool_text b)" "plain_text (str_int n)"
proof -
  show "plain_text (bool_text b)" by (simp add: bool_text_def plain_text_def str_def py_space_def)
  have "c \<in> set (str_int n) \<Longrightarrow> c = 45 \<or> 48 \<le> c \<and> c \<le> 57" for c
    using digits_range [of c] by (auto simp: str_int_def split: if_splits)
  then show "plain_text (str_int n)" by (fastforce simp: plain_text_def py_space_def)
qed

lemma plain_keys: "plain_text (str ''seal_escrow'')" "plain_text (str ''anchor_sinks'')" "plain_text (str ''witness'')" "plain_text (str ''pin_separate'')" "plain_text (str ''ledger'')"
  by (simp_all add: plain_text_def str_def py_space_def)

section \<open>Properties\<close>

definition topology_items :: "separation_topology \<Rightarrow> pystr list" where
  "topology_items t =
     [spec_item ''seal_escrow'' (bool_text (seal_escrow t)), spec_item ''anchor_sinks'' (str_int (anchor_sinks t)),
      spec_item ''witness'' (bool_text (st_witness t)), spec_item ''pin_separate'' (bool_text (pin_separate t))]
     @ (case ledger t of None \<Rightarrow> [] | Some b \<Rightarrow> [spec_item ''ledger'' (bool_text b)])"

fun comma_joined :: "pystr list \<Rightarrow> pystr" where
  "comma_joined [] = []"
| "comma_joined [x] = x"
| "comma_joined (x # y # ys) = x @ 44 # comma_joined (y # ys)"

lemma split_on_joined: "xs \<noteq> [] \<Longrightarrow> \<forall>x \<in> set xs. 44 \<notin> set x \<Longrightarrow> split_on 44 (comma_joined xs) = xs"
  by (induction xs rule: comma_joined.induct) (simp_all add: split_on_single split_on_append)

lemma topology_fields:
  "spec_fields (topology_items t) [] =
     Inr ([(str ''seal_escrow'', bool_text (seal_escrow t)), (str ''anchor_sinks'', str_int (anchor_sinks t)),
           (str ''witness'', bool_text (st_witness t)), (str ''pin_separate'', bool_text (pin_separate t))]
          @ (case ledger t of None \<Rightarrow> [] | Some b \<Rightarrow> [(str ''ledger'', bool_text b)]))"
  by (cases "ledger t") (simp_all add: topology_items_def spec_fields_item plain_keys plain_texts del: spec_fields.simps(2))

lemma parse_bool_text:
  assumes "\<forall>b. lower (bool_text b) = bool_text b"
  shows "parse_bool_field lower (bool_text b) = Inr b"
  using assms py_strip_id [of "bool_text b"] plain_texts(1) [of b]
  by (cases b) (simp_all add: parse_bool_field_def plain_text_def, simp_all add: bool_text_def str_def)

text \<open>Every topology has a declaration, and the flag reads it as exactly that topology: a missing ledger field is an
  undeclared ledger, a declared false one stays declared.\<close>

theorem declared_topology_round_trip:
  assumes "py_runtime rt" "\<forall>b. lower (bool_text b) = bool_text b"
  shows "parse_declared_topology_spec lower rt (comma_joined (topology_items t)) = Inr t"
proof -
  have "\<forall>x \<in> set (topology_items t). 44 \<notin> set x"
    by (cases "ledger t") (auto simp: topology_items_def item_no_comma plain_keys plain_texts)
  then have s: "split_on 44 (comma_joined (topology_items t)) = topology_items t"
    by (intro split_on_joined) (simp_all add: topology_items_def)
  have i: "parse_int_field rt (str_int n) = Inr n" for n
    using py_strip_id [of "str_int n"] plain_texts(2) [of n] py_runtime.int_of_str_str_int [OF assms(1)]
    by (simp add: parse_int_field_def plain_text_def)
  show ?thesis
    unfolding parse_declared_topology_spec_def s topology_fields
    by (cases t; cases "ledger t")
       (simp_all add: DECLARED_TOPOLOGY_FIELDS_def DECLARED_TOPOLOGY_OPTIONAL_FIELD_def field_of_def str_def parse_bool_text [OF assms(2)] i)
qed

theorem declared_topology_round_trip_witness:
  "parse_declared_topology_spec (\<lambda>s. s) ascii_runtime (str ''seal_escrow=true,anchor_sinks=2,witness=true,pin_separate=false,ledger=false'') =
     Inr \<lparr>seal_escrow = True, anchor_sinks = 2, st_witness = True, pin_separate = False, ledger = Some False\<rparr>"
  using declared_topology_round_trip [OF ascii.py_runtime_axioms, of "\<lambda>s. s"
      "\<lparr>seal_escrow = True, anchor_sinks = 2, st_witness = True, pin_separate = False, ledger = Some False\<rparr>"]
  by (simp add: topology_items_def spec_item_def bool_text_def str_def str_int_def digits.simps)

text \<open>A declaration is complete or refused: a text that is read names each of the four fields, and no field but those and the
  ledger.\<close>

theorem declared_topology_complete:
  assumes "parse_declared_topology_spec lower rt spec = Inr t" "spec_fields (split_on 44 spec) [] = Inr items"
  shows "set DECLARED_TOPOLOGY_FIELDS \<subseteq> fst ` set items
    \<and> fst ` set items \<subseteq> set (DECLARED_TOPOLOGY_OPTIONAL_FIELD # DECLARED_TOPOLOGY_FIELDS)
    \<and> (ledger t = None \<longleftrightarrow> DECLARED_TOPOLOGY_OPTIONAL_FIELD \<notin> fst ` set items)"
proof -
  have "set DECLARED_TOPOLOGY_FIELDS \<subseteq> fst ` set items"
    and "fst ` set items \<subseteq> set (DECLARED_TOPOLOGY_OPTIONAL_FIELD # DECLARED_TOPOLOGY_FIELDS)"
    using assms by (auto simp: parse_declared_topology_spec_def split: if_splits)
  moreover have "ledger t = None \<longleftrightarrow> map_of items DECLARED_TOPOLOGY_OPTIONAL_FIELD = None"
    using assms by (cases "map_of items DECLARED_TOPOLOGY_OPTIONAL_FIELD")
      (auto simp: parse_declared_topology_spec_def res_elims split: if_splits)
  ultimately show ?thesis by (simp add: map_of_eq_None_iff)
qed

end
