(* ===== verification/Archive.thy ===== *)
theory Archive
  imports Rotation "HOL-Library.Sublist"
begin

text \<open>
  The archive of sealed segments: retention in an object store (\<^verbatim>\<open>adapters/s3/worm.py\<close>), the upload (\<^verbatim>\<open>adapters/s3/upload.py\<close>) and the two destinations a
  rotation may be given (\<^verbatim>\<open>adapters/segment_archive.py\<close>). The store's client and the transport are arguments. Of a rendered line
  only the three values in front are modelled, not the sentence after them.
  A report says a version is locked exactly when the store named a known mode and a date still ahead; what is posted to a server has
  the segment as its one part, byte for byte.
\<close>

section \<open>Answers of the store\<close>

text \<open>A value of a reply: a time knows whether it carries a zone, and is then an instant. \<open>ROther\<close> stands for the other hashable values.\<close>

datatype aws_value = RNone | RStr pystr | RTime bool int | ROther nat | RList "aws_value list" | RDict "(pystr \<times> aws_value) list"

text \<open>What a question may raise: an attribute of a value that has none, a value that cannot be looked up in a set, a report
  that contradicts itself, a label that is not in the table, or the request itself.\<close>

datatype worm_exn = NoAttribute | Unhashable | BadReport | NoLabel | RequestFailed

type_synonym 'a wres = "worm_exn + 'a"

text \<open>A failed request is the \<^verbatim>\<open>response\<close> attribute of its exception, if it has one.\<close>

type_synonym failure = "aws_value option"

definition rget :: "(pystr \<times> aws_value) list \<Rightarrow> string \<Rightarrow> aws_value" where
  "rget fs k = (case map_of fs (str k) of None \<Rightarrow> RNone | Some v \<Rightarrow> v)"

definition reply_str :: "(aws_value \<Rightarrow> pystr) \<Rightarrow> aws_value \<Rightarrow> pystr" where
  "reply_str shown v = (case v of RStr s \<Rightarrow> s | _ \<Rightarrow> shown v)"

definition error_code :: "(aws_value \<Rightarrow> pystr) \<Rightarrow> failure \<Rightarrow> pystr wres" where
  "error_code shown f =
     (case f of
        Some (RDict fs) \<Rightarrow>
          (case map_of fs (str ''Error'') of
             None \<Rightarrow> Inr []
           | Some (RDict es) \<Rightarrow> Inr (case map_of es (str ''Code'') of None \<Rightarrow> [] | Some c \<Rightarrow> reply_str shown c)
           | Some _ \<Rightarrow> Inl NoAttribute)
      | _ \<Rightarrow> Inr [])"

section \<open>Retention\<close>

datatype worm_subject = OBJECT_VERSION | BUCKET
datatype worm_state = LOCKED | UNLOCKED | UNKNOWN
datatype worm_strength = IRREVERSIBLE | BYPASSABLE | UNESTABLISHED

definition RETENTION_MODE_STRENGTH :: "(pystr \<times> worm_strength) list" where
  "RETENTION_MODE_STRENGTH = [(str ''COMPLIANCE'', IRREVERSIBLE), (str ''GOVERNANCE'', BYPASSABLE)]"

definition RETENTION_MODES :: "pystr list" where
  "RETENTION_MODES = map fst RETENTION_MODE_STRENGTH"

definition NOT_CONFIGURED_CODES :: "pystr list" where
  "NOT_CONFIGURED_CODES = map str [''NoSuchObjectLockConfiguration'', ''ObjectLockConfigurationNotFoundError'', ''InvalidRequest'']"

definition LOCK_ENABLED_VALUES :: "pystr list" where
  "LOCK_ENABLED_VALUES = [str ''Enabled'']"

text \<open>\<^verbatim>\<open>v in s\<close> for a set of strings.\<close>

definition in_names :: "aws_value \<Rightarrow> pystr list \<Rightarrow> bool wres" where
  "in_names v names =
     (case v of RStr s \<Rightarrow> Inr (s \<in> set names) | RList _ \<Rightarrow> Inl Unhashable | RDict _ \<Rightarrow> Inl Unhashable | _ \<Rightarrow> Inr False)"

record worm_retention =
  rt_mode :: pystr
  rt_until :: int

text \<open>The declaration of the operator, with the guards of its constructor.\<close>

definition make_retention :: "pystr \<Rightarrow> aws_value \<Rightarrow> worm_retention res" where
  "make_retention mode until =
     (if mode \<notin> set RETENTION_MODES then Inl ValueError
      else (case until of RTime True t \<Rightarrow> Inr \<lparr>rt_mode = mode, rt_until = t\<rparr> | _ \<Rightarrow> Inl ValueError))"

record worm_report =
  wm_subject :: worm_subject
  wm_state :: worm_state
  wm_strength :: worm_strength

definition worm_report_of :: "worm_subject \<Rightarrow> worm_state \<Rightarrow> worm_strength \<Rightarrow> worm_report wres" where
  "worm_report_of subject state strength =
     (if state \<noteq> LOCKED \<and> strength \<noteq> UNESTABLISHED then Inl BadReport
      else Inr \<lparr>wm_subject = subject, wm_state = state, wm_strength = strength\<rparr>)"

text \<open>What is called of the injected client; a client may lack the two questions.\<close>

record put_request =
  pr_bucket :: pystr
  pr_key :: pystr
  pr_body :: bytes
  pr_lock :: "(pystr \<times> int \<times> pystr) option"

record 'w archive_client =
  ac_put :: "'w \<Rightarrow> put_request \<Rightarrow> failure option \<times> 'w"
  ac_retention :: "('w \<Rightarrow> pystr \<Rightarrow> pystr \<Rightarrow> pystr option \<Rightarrow> failure + aws_value) option"
  ac_lock :: "('w \<Rightarrow> pystr \<Rightarrow> failure + aws_value) option"

definition unretained_by_configuration :: "(aws_value \<Rightarrow> pystr) \<Rightarrow> failure \<Rightarrow> bool wres" where
  "unretained_by_configuration shown f = sum_bind (error_code shown f) (\<lambda>c. Inr (c \<in> set NOT_CONFIGURED_CODES))"

definition unanswered :: "(aws_value \<Rightarrow> pystr) \<Rightarrow> worm_subject \<Rightarrow> failure \<Rightarrow> worm_report wres" where
  "unanswered shown subject f =
     sum_bind (unretained_by_configuration shown f) (\<lambda>no.
       worm_report_of subject (if no then UNLOCKED else UNKNOWN) UNESTABLISHED)"

text \<open>The strength of a mode that is in the table.\<close>

definition mode_strength :: "aws_value \<Rightarrow> worm_strength" where
  "mode_strength v = (case v of RStr s \<Rightarrow> the (map_of RETENTION_MODE_STRENGTH s) | _ \<Rightarrow> UNESTABLISHED)"

definition retention_state :: "int \<Rightarrow> (pystr \<times> aws_value) list \<Rightarrow> worm_report wres" where
  "retention_state now retention =
     sum_bind (in_names (rget retention ''Mode'') RETENTION_MODES) (\<lambda>known.
       if \<not> known then worm_report_of OBJECT_VERSION UNKNOWN UNESTABLISHED
       else (case rget retention ''RetainUntilDate'' of
               RTime True t \<Rightarrow>
                 if t \<le> now then worm_report_of OBJECT_VERSION UNLOCKED UNESTABLISHED
                 else worm_report_of OBJECT_VERSION LOCKED (mode_strength (rget retention ''Mode''))
             | _ \<Rightarrow> worm_report_of OBJECT_VERSION UNKNOWN UNESTABLISHED))"

definition object_worm_state ::
  "(aws_value \<Rightarrow> pystr) \<Rightarrow> int \<Rightarrow> 'w archive_client \<Rightarrow> 'w \<Rightarrow> pystr \<Rightarrow> pystr \<Rightarrow> pystr option \<Rightarrow> worm_report wres" where
  "object_worm_state shown now client w bucket key version =
     (case ac_retention client of
        None \<Rightarrow> worm_report_of OBJECT_VERSION UNKNOWN UNESTABLISHED
      | Some ask \<Rightarrow>
          (case ask w bucket key version of
             Inl f \<Rightarrow> unanswered shown OBJECT_VERSION f
           | Inr (RDict fs) \<Rightarrow>
               (case rget fs ''Retention'' of
                  RDict retention \<Rightarrow> retention_state now retention
                | _ \<Rightarrow> worm_report_of OBJECT_VERSION UNKNOWN UNESTABLISHED)
           | Inr _ \<Rightarrow> worm_report_of OBJECT_VERSION UNKNOWN UNESTABLISHED))"

definition default_mode :: "(pystr \<times> aws_value) list \<Rightarrow> aws_value" where
  "default_mode config =
     (case rget config ''Rule'' of
        RDict rule \<Rightarrow> (case rget rule ''DefaultRetention'' of RDict d \<Rightarrow> rget d ''Mode'' | _ \<Rightarrow> RNone)
      | _ \<Rightarrow> RNone)"

definition bucket_worm_state :: "(aws_value \<Rightarrow> pystr) \<Rightarrow> 'w archive_client \<Rightarrow> 'w \<Rightarrow> pystr \<Rightarrow> worm_report wres" where
  "bucket_worm_state shown client w bucket =
     (case ac_lock client of
        None \<Rightarrow> worm_report_of BUCKET UNKNOWN UNESTABLISHED
      | Some ask \<Rightarrow>
          (case ask w bucket of
             Inl f \<Rightarrow> unanswered shown BUCKET f
           | Inr reply \<Rightarrow>
               (case (case reply of RDict fs \<Rightarrow> rget fs ''ObjectLockConfiguration'' | _ \<Rightarrow> RNone) of
                  RDict config \<Rightarrow>
                    sum_bind (in_names (rget config ''ObjectLockEnabled'') LOCK_ENABLED_VALUES) (\<lambda>enabled.
                      if \<not> enabled then worm_report_of BUCKET UNKNOWN UNESTABLISHED
                      else sum_bind (in_names (default_mode config) RETENTION_MODES) (\<lambda>known.
                        worm_report_of BUCKET LOCKED (if known then mode_strength (default_mode config) else UNESTABLISHED)))
                | _ \<Rightarrow> worm_report_of BUCKET UNKNOWN UNESTABLISHED)))"

text \<open>The keys of the table of labels, in its order.\<close>

definition WORM_LABEL :: "(worm_subject \<times> worm_state \<times> worm_strength) list" where
  "WORM_LABEL =
     [(OBJECT_VERSION, LOCKED, IRREVERSIBLE), (OBJECT_VERSION, LOCKED, BYPASSABLE), (OBJECT_VERSION, LOCKED, UNESTABLISHED),
      (OBJECT_VERSION, UNLOCKED, UNESTABLISHED), (OBJECT_VERSION, UNKNOWN, UNESTABLISHED),
      (BUCKET, LOCKED, IRREVERSIBLE), (BUCKET, LOCKED, BYPASSABLE), (BUCKET, LOCKED, UNESTABLISHED),
      (BUCKET, UNLOCKED, UNESTABLISHED), (BUCKET, UNKNOWN, UNESTABLISHED)]"

fun subject_value :: "worm_subject \<Rightarrow> pystr" where
  "subject_value OBJECT_VERSION = str ''object_version''"
| "subject_value BUCKET = str ''bucket''"

fun state_value :: "worm_state \<Rightarrow> pystr" where
  "state_value LOCKED = str ''worm_locked''"
| "state_value UNLOCKED = str ''worm_unlocked''"
| "state_value UNKNOWN = str ''worm_unknown''"

fun strength_value :: "worm_strength \<Rightarrow> pystr" where
  "strength_value IRREVERSIBLE = str ''strength_irreversible''"
| "strength_value BYPASSABLE = str ''strength_bypassable''"
| "strength_value UNESTABLISHED = str ''strength_unestablished''"

definition render_worm_state :: "worm_report \<Rightarrow> pystr wres" where
  "render_worm_state r =
     (if (wm_subject r, wm_state r, wm_strength r) \<notin> set WORM_LABEL then Inl NoLabel
      else Inr (subject_value (wm_subject r) @ str ''/'' @ state_value (wm_state r) @ str ''/'' @ strength_value (wm_strength r)))"

section \<open>The upload\<close>

record segment_upload =
  up_key :: pystr
  up_uploaded :: bool
  up_worm :: worm_report

text \<open>The injected client, or the one the installed library gives.\<close>

definition resolve_client :: "'w archive_client option \<Rightarrow> 'w archive_client option \<Rightarrow> 'w archive_client option" where
  "resolve_client injected boto = (if injected \<noteq> None then injected else boto)"

definition upload_sealed_segment ::
  "(bytes \<Rightarrow> bytes) \<Rightarrow> (aws_value \<Rightarrow> pystr) \<Rightarrow> int \<Rightarrow> 'w archive_client option \<Rightarrow> pystr \<Rightarrow> pystr \<Rightarrow> bytes \<Rightarrow> worm_retention option \<Rightarrow> 'w
    \<Rightarrow> segment_upload wres \<times> 'w" where
  "upload_sealed_segment md5 shown now resolved bucket key body retention w =
     (case resolved of
        None \<Rightarrow> (sum_bind (worm_report_of OBJECT_VERSION UNKNOWN UNESTABLISHED) (\<lambda>r.
                   Inr \<lparr>up_key = key, up_uploaded = False, up_worm = r\<rparr>), w)
      | Some client \<Rightarrow>
          (case ac_put client w \<lparr>pr_bucket = bucket, pr_key = key, pr_body = body,
                  pr_lock = map_option (\<lambda>t. (rt_mode t, rt_until t, b64encode (md5 body))) retention\<rparr> of
             (Some _, w') \<Rightarrow> (Inl RequestFailed, w')
           | (None, w') \<Rightarrow>
               (sum_bind (object_worm_state shown now client w' bucket key None) (\<lambda>r.
                  Inr \<lparr>up_key = key, up_uploaded = True, up_worm = r\<rparr>), w')))"

section \<open>Destinations\<close>

text \<open>The text of a report names the cause by the kind of the exception only.\<close>

fun worm_exn_name :: "worm_exn \<Rightarrow> pystr" where
  "worm_exn_name NoAttribute = str ''AttributeError''"
| "worm_exn_name Unhashable = str ''TypeError''"
| "worm_exn_name BadReport = str ''ValueError''"
| "worm_exn_name NoLabel = str ''KeyError''"
| "worm_exn_name RequestFailed = str ''ClientError''"

definition s3_destination ::
  "(bytes \<Rightarrow> bytes) \<Rightarrow> (aws_value \<Rightarrow> pystr) \<Rightarrow> int \<Rightarrow> 'w archive_client option \<Rightarrow> pystr \<Rightarrow> pystr \<Rightarrow> worm_retention option \<Rightarrow> pystr \<Rightarrow> bytes \<Rightarrow> 'w
    \<Rightarrow> archive_report wres \<times> 'w" where
  "s3_destination md5 shown now resolved bucket key_prefix retention name body w =
     (let key = key_prefix @ name; destination = str ''s3://'' @ bucket @ str ''/'' @ key in
      case upload_sealed_segment md5 shown now resolved bucket key body retention w of
        (Inl e, w') \<Rightarrow> (Inr \<lparr>arc_state = FAILED, arc_destination = destination, arc_detail = worm_exn_name e\<rparr>, w')
      | (Inr up, w') \<Rightarrow>
          (if \<not> up_uploaded up then
             Inr \<lparr>arc_state = NOT_ATTEMPTED, arc_destination = destination, arc_detail = str ''the s3 extra is not installed''\<rparr>
           else sum_bind (render_worm_state (up_worm up)) (\<lambda>line.
             Inr \<lparr>arc_state = STORED, arc_destination = destination, arc_detail = line\<rparr>), w'))"

definition MULTIPART_BOUNDARY :: string where
  "MULTIPART_BOUNDARY = ''waxseal-sealed-segment-boundary''"

definition UNSAFE_IN_FILENAME :: pystr where
  "UNSAFE_IN_FILENAME = [34, 92, 13, 10]"

definition IMPORTS_PATH :: pystr where
  "IMPORTS_PATH = str ''/v1/imports''"

definition CRLF :: bytes where "CRLF = [13, 10]"

definition marker :: bytes where
  "marker = asc (''--'' @ MULTIPART_BOUNDARY)"

text \<open>\<^verbatim>\<open>.encode("ascii")\<close>.\<close>

definition encode_ascii :: "pystr \<Rightarrow> bytes res" where
  "encode_ascii s = (if \<forall>c \<in> set s. c < 128 then Inr (map of_nat s) else Inl UnicodeEncodeError)"

definition part_head :: "bytes \<Rightarrow> bytes" where
  "part_head name =
     marker @ CRLF @ asc ''Content-Disposition: form-data; name='' @ [34] @ asc ''file'' @ [34] @ asc ''; filename='' @ [34] @ name @ [34] @ CRLF
     @ asc ''Content-Type: application/octet-stream'' @ CRLF @ CRLF"

definition part_tail :: bytes where
  "part_tail = CRLF @ marker @ asc ''--'' @ CRLF"

definition multipart :: "pystr \<Rightarrow> bytes \<Rightarrow> bytes res" where
  "multipart name body =
     (if set name \<inter> set UNSAFE_IN_FILENAME \<noteq> {} then Inl ValueError
      else if sublist marker body then Inl ValueError
      else res_map (\<lambda>n. part_head n @ body @ part_tail) (encode_ascii name))"

definition rstrip_slash :: "pystr \<Rightarrow> pystr" where
  "rstrip_slash s = rev (dropWhile (\<lambda>c. c = 47) (rev s))"

definition import_id :: "runtime \<Rightarrow> json res \<Rightarrow> pystr res" where
  "import_id rt body =
     (case res_bind body (\<lambda>v. jsub v ''import_id'') of
        Inr v \<Rightarrow> Inr (str ''import_id='' @ py_str rt v)
      | Inl x \<Rightarrow> if is_ValueError x \<or> x = KeyError \<or> x = TypeError then Inr (str ''the response named no import_id this build could read'') else Inl x)"

text \<open>The post to a chain server; a transport takes the address, the token and the body, and gives a status and the decoded body.\<close>

definition server_import_destination ::
  "runtime \<Rightarrow> ('w \<Rightarrow> pystr \<Rightarrow> pystr option \<Rightarrow> bytes \<Rightarrow> (int \<times> json res) res \<times> 'w) \<Rightarrow> pystr \<Rightarrow> pystr option \<Rightarrow> pystr \<Rightarrow> bytes \<Rightarrow> 'w
    \<Rightarrow> archive_report res \<times> 'w" where
  "server_import_destination rt send base_url api_key name body w =
     (let destination = rstrip_slash base_url @ IMPORTS_PATH;
          failed = (\<lambda>why. \<lparr>arc_state = FAILED, arc_destination = destination, arc_detail = why\<rparr>) in
      case multipart name body of
        Inl e \<Rightarrow> (Inr (failed (exn_name e)), w)
      | Inr encoded \<Rightarrow>
          (case send w destination api_key encoded of
             (Inl e, w') \<Rightarrow> (Inr (failed (exn_name e)), w')
           | (Inr (status, reply), w') \<Rightarrow>
               (if status \<noteq> 201 then Inr (failed (str ''HTTP '' @ str_int status))
                else res_map (\<lambda>i. \<lparr>arc_state = STORED, arc_destination = destination, arc_detail = i\<rparr>) (import_id rt reply), w')))"

section \<open>What a report of the store means\<close>

text \<open>A report that has a strength only where a retention is in force.\<close>

definition legal_report :: "worm_report \<Rightarrow> bool" where
  "legal_report r \<longleftrightarrow> wm_state r = LOCKED \<or> wm_strength r = UNESTABLISHED"

lemma worm_report_of_Inr:
  "worm_report_of subject st sg = Inr r \<longleftrightarrow>
     (st = LOCKED \<or> sg = UNESTABLISHED) \<and> r = \<lparr>wm_subject = subject, wm_state = st, wm_strength = sg\<rparr>"
  by (auto simp: worm_report_of_def)

lemma legal_has_label: "legal_report r \<Longrightarrow> \<exists>line. render_worm_state r = Inr line"
  by (cases "wm_subject r"; cases "wm_state r"; cases "wm_strength r") (simp_all add: legal_report_def render_worm_state_def WORM_LABEL_def)

lemma unanswered_report:
  "unanswered shown subject f = Inr r \<Longrightarrow> wm_subject r = subject \<and> wm_state r \<noteq> LOCKED \<and> wm_strength r = UNESTABLISHED"
  by (auto simp: unanswered_def sum_bind_Inr worm_report_of_Inr split: if_splits)

lemma known_mode: "in_names v RETENTION_MODES = Inr True \<longleftrightarrow> (\<exists>m. v = RStr m \<and> m \<in> set RETENTION_MODES)"
  by (cases v) (simp_all add: in_names_def)

text \<open>A retention block: the version is locked exactly if the mode is known and the date, with its zone, is ahead.\<close>

lemma retention_locked:
  assumes "retention_state now fs = Inr r"
  shows "wm_subject r = OBJECT_VERSION \<and> legal_report r
    \<and> (wm_state r = LOCKED \<longleftrightarrow> (\<exists>m t. rget fs ''Mode'' = RStr m \<and> m \<in> set RETENTION_MODES
          \<and> rget fs ''RetainUntilDate'' = RTime True t \<and> now < t))
    \<and> (wm_state r = LOCKED \<longrightarrow> wm_strength r = mode_strength (rget fs ''Mode''))"
proof -
  obtain known where k: "in_names (rget fs ''Mode'') RETENTION_MODES = Inr known"
    using assms by (auto simp: retention_state_def sum_bind_Inr)
  show ?thesis
  proof (cases known)
    case False
    then have "\<not> (\<exists>m. rget fs ''Mode'' = RStr m \<and> m \<in> set RETENTION_MODES)" using k False by (auto simp: in_names_def)
    then show ?thesis using assms k False by (auto simp: retention_state_def worm_report_of_Inr legal_report_def)
  next
    case True
    then have "\<exists>m. rget fs ''Mode'' = RStr m \<and> m \<in> set RETENTION_MODES" using k known_mode [of "rget fs ''Mode''"] by simp
    then obtain m where m: "rget fs ''Mode'' = RStr m" "m \<in> set RETENTION_MODES" by (elim exE conjE)
    show ?thesis
    proof (cases "\<exists>t. rget fs ''RetainUntilDate'' = RTime True t")
      case True
      then obtain t where "rget fs ''RetainUntilDate'' = RTime True t" by (elim exE)
      then show ?thesis using assms k \<open>known\<close> m by (cases "t \<le> now") (auto simp: retention_state_def worm_report_of_Inr legal_report_def)
    next
      case False
      then have "retention_state now fs = worm_report_of OBJECT_VERSION UNKNOWN UNESTABLISHED"
        using k \<open>known\<close> by (simp add: retention_state_def split: aws_value.split bool.split)
      then have "worm_report_of OBJECT_VERSION UNKNOWN UNESTABLISHED = Inr r" using assms by simp
      then show ?thesis using False by (simp add: worm_report_of_Inr legal_report_def)
    qed
  qed
qed

lemma object_report:
  assumes "object_worm_state shown now client w bucket key version = Inr r"
  shows "wm_subject r = OBJECT_VERSION \<and> legal_report r
    \<and> (wm_state r = LOCKED \<longrightarrow> (\<exists>ask fs rs. ac_retention client = Some ask \<and> ask w bucket key version = Inr (RDict fs)
          \<and> rget fs ''Retention'' = RDict rs \<and> retention_state now rs = Inr r))"
proof (cases "ac_retention client")
  case None
  then show ?thesis using assms by (simp add: object_worm_state_def worm_report_of_Inr legal_report_def)
next
  case (Some ask)
  show ?thesis
  proof (cases "ask w bucket key version")
    case (Inl f)
    then show ?thesis using assms Some unanswered_report [of shown OBJECT_VERSION f r] by (simp add: object_worm_state_def legal_report_def)
  next
    case (Inr v)
    show ?thesis
    proof (cases "\<exists>fs rs. v = RDict fs \<and> rget fs ''Retention'' = RDict rs")
      case True
      then obtain fs rs where v: "v = RDict fs" "rget fs ''Retention'' = RDict rs" by (elim exE conjE)
      then have "retention_state now rs = Inr r" using assms Some Inr by (simp add: object_worm_state_def)
      then show ?thesis using retention_locked [of now rs r] v Some Inr by simp
    next
      case False
      then have "object_worm_state shown now client w bucket key version = worm_report_of OBJECT_VERSION UNKNOWN UNESTABLISHED"
        using Some Inr by (auto simp: object_worm_state_def split: aws_value.split)
      then have "worm_report_of OBJECT_VERSION UNKNOWN UNESTABLISHED = Inr r" using assms by simp
      then show ?thesis by (simp add: worm_report_of_Inr legal_report_def)
    qed
  qed
qed

lemma mode_strengths:
  "m \<in> set RETENTION_MODES \<Longrightarrow> mode_strength (RStr m) = (if m = str ''COMPLIANCE'' then IRREVERSIBLE else BYPASSABLE)"
  by (auto simp: RETENTION_MODES_def RETENTION_MODE_STRENGTH_def mode_strength_def)

section \<open>A part of a posted body\<close>

text \<open>What a receiver takes for a part: the bytes before the first delimiter.\<close>

fun before :: "bytes \<Rightarrow> bytes \<Rightarrow> bytes option" where
  "before d [] = (if d = [] then Some [] else None)"
| "before d (x # xs) = (if prefix d (x # xs) then Some [] else map_option (Cons x) (before d xs))"

lemma before_first:
  assumes "d \<noteq> []" "\<And>s. s \<noteq> [] \<Longrightarrow> suffix s xs \<Longrightarrow> \<not> prefix d (s @ d @ rest)"
  shows "before d (xs @ d @ rest) = Some xs"
  using assms(2)
proof (induction xs)
  case Nil
  then show ?case using assms(1) by (cases d) simp_all
next
  case (Cons x xs)
  have "\<not> prefix d ((x # xs) @ d @ rest)" by (rule Cons.prems) simp_all
  moreover have "before d (xs @ d @ rest) = Some xs" by (rule Cons.IH) (use Cons.prems in \<open>simp add: suffix_Cons\<close>)
  ultimately show ?case by simp
qed

text \<open>A delimiter whose first byte does not occur in it again overlaps no other occurrence of itself.\<close>

lemma no_overlap:
  assumes "d = c # ds" "c \<notin> set ds" "s \<noteq> []" "prefix d (s @ d @ rest)"
  shows "prefix d s"
proof (rule ccontr)
  assume "\<not> prefix d s"
  have "prefix s (s @ d @ rest)" by simp
  from prefix_length_prefix [OF assms(4) this] \<open>\<not> prefix d s\<close> have l: "length s < length d" by (cases "length d \<le> length s") simp_all
  obtain u where u: "s @ d @ rest = d @ u" using assms(4) by (rule prefixE)
  have "d ! length s = (d @ u) ! length s" using l by (simp add: nth_append)
  also have "\<dots> = (s @ d @ rest) ! length s" by (simp only: u)
  also have "\<dots> = c" using assms(1) by (simp add: nth_append)
  finally have e: "d ! length s = c" .
  obtain k where k: "length s = Suc k" using assms(3) by (cases s) simp_all
  have "ds ! k = c" "k < length ds" using e k l assms(1) by simp_all
  then show False using assms(2) nth_mem by metis
qed

lemma marker_plain: "13 \<notin> set (10 # marker)" "10 \<notin> set marker"
  by (simp_all add: marker_def MULTIPART_BOUNDARY_def asc_def)

lemma body_before_delimiter:
  assumes "\<not> sublist marker body"
  shows "before (CRLF @ marker) (body @ (CRLF @ marker) @ rest) = Some body"
proof (rule before_first)
  show "CRLF @ marker \<noteq> []" by (simp add: CRLF_def)
  fix s assume s: "s \<noteq> []" "suffix s body"
  show "\<not> prefix (CRLF @ marker) (s @ (CRLF @ marker) @ rest)"
  proof
    assume "prefix (CRLF @ marker) (s @ (CRLF @ marker) @ rest)"
    with s(1) have "prefix (CRLF @ marker) s"
      using no_overlap [of "CRLF @ marker" 13 "10 # marker" s rest] marker_plain(1) by (simp add: CRLF_def)
    then obtain u where "s = CRLF @ marker @ u" by (auto simp: prefix_def)
    moreover obtain v where "body = v @ s" using s(2) by (auto simp: suffix_def)
    ultimately have "body = (v @ CRLF) @ marker @ u" by simp
    then have "sublist marker body" by (simp only: sublist_appendI)
    then show False using assms by simp
  qed
qed

lemma before_skip: "c \<notin> set xs \<Longrightarrow> before (c # ds) (xs @ ys) = map_option ((@) xs) (before (c # ds) ys)"
  by (induction xs; cases "before (c # ds) ys") simp_all

lemma take_length_append: "take (length xs) (xs @ ys) = xs"
  by simp

lemma ascii_no_cr: "encode_ascii name = Inr n \<Longrightarrow> 13 \<notin> set name \<Longrightarrow> 13 \<notin> set n"
proof
  assume a: "encode_ascii name = Inr n" "13 \<notin> set name" "13 \<in> set n"
  then obtain c where c: "c \<in> set name" "c < 128" "of_nat c = (13 :: byte)" by (auto simp: encode_ascii_def split: if_splits)
  have "unat (of_nat c :: byte) = c" using c(2) by (simp add: unsigned_of_nat take_bit_nat_eq_self)
  then have "c = unat (13 :: byte)" using c(3) by simp
  then show False using a(2) c(1) by simp
qed

text \<open>The header of the part, and the line break between its two lines.\<close>

lemma header_before_body:
  assumes "13 \<notin> set n"
  shows "before (CRLF @ CRLF) (part_head n @ rest) = Some (take (length (part_head n) - 4) (part_head n @ rest))"
proof -
  let ?m = "marker" and ?t = "asc ''Content-Type: application/octet-stream''"
  let ?d = "asc ''Content-Disposition: form-data; name='' @ [34] @ asc ''file'' @ [34] @ asc ''; filename='' @ [34] @ n @ [34]"
  have h: "part_head n @ rest = ?m @ 13 # 10 # (?d @ 13 # 10 # (?t @ 13 # 10 # 13 # 10 # rest))"
    by (simp add: part_head_def CRLF_def)
  have nt: "13 \<notin> set ?m" "13 \<notin> set ?d" "13 \<notin> set ?t" using marker_plain(1) assms by (simp_all add: asc_def)
  have c: "CRLF @ CRLF = 13 # [10, 13, 10]" by (simp add: CRLF_def)
  have t: "before (13 # [10, 13, 10]) (?t @ 13 # 10 # 13 # 10 # rest) = Some ?t" by (simp add: before_skip [OF nt(3)])
  have u: "before (13 # [10, 13, 10]) (13 # 10 # ?t @ 13 # 10 # 13 # 10 # rest) = Some (13 # 10 # ?t)" using t by (simp add: asc_def)
  have d: "before (13 # [10, 13, 10]) (?d @ 13 # 10 # ?t @ 13 # 10 # 13 # 10 # rest) = Some (?d @ 13 # 10 # ?t)"
    unfolding before_skip [OF nt(2)] u by simp
  have e: "before (13 # [10, 13, 10]) (13 # 10 # ?d @ 13 # 10 # ?t @ 13 # 10 # 13 # 10 # rest) = Some (13 # 10 # ?d @ 13 # 10 # ?t)"
    using d by (simp add: asc_def)
  have "before (13 # [10, 13, 10]) (part_head n @ rest) = Some (?m @ 13 # 10 # ?d @ 13 # 10 # ?t)"
    unfolding h before_skip [OF nt(1)] e by simp
  moreover have "length (part_head n) - 4 = length (?m @ 13 # 10 # ?d @ 13 # 10 # ?t)" by (simp add: part_head_def CRLF_def)
  moreover have "part_head n @ rest = (?m @ 13 # 10 # ?d @ 13 # 10 # ?t) @ CRLF @ CRLF @ rest" by (simp add: part_head_def CRLF_def)
  then have "take (length (?m @ 13 # 10 # ?d @ 13 # 10 # ?t)) (part_head n @ rest) = ?m @ 13 # 10 # ?d @ 13 # 10 # ?t"
    by (simp only: take_length_append)
  ultimately show ?thesis by (simp only: c)
qed

section \<open>Properties\<close>

text \<open>C28. A version is reported locked exactly on evidence: the store was asked about this version, answered with a known mode and a date
  with its zone that is still ahead. The irreversible strength is reported for compliance mode only, a report always has a
  label, and no other answer, a refused question included, is ever rendered as locked.\<close>

theorem locked_only_on_evidence:
  assumes "object_worm_state shown now client w bucket key version = Inr r"
  shows "wm_subject r = OBJECT_VERSION \<and> (\<exists>line. render_worm_state r = Inr line)
    \<and> (wm_state r = LOCKED \<longrightarrow>
        (\<exists>ask fs rs m t. ac_retention client = Some ask \<and> ask w bucket key version = Inr (RDict fs) \<and> rget fs ''Retention'' = RDict rs
           \<and> rget rs ''Mode'' = RStr m \<and> m \<in> set RETENTION_MODES \<and> rget rs ''RetainUntilDate'' = RTime True t \<and> now < t
           \<and> wm_strength r = (if m = str ''COMPLIANCE'' then IRREVERSIBLE else BYPASSABLE)))"
proof -
  note o = object_report [OF assms]
  have "\<exists>ask fs rs m t. ac_retention client = Some ask \<and> ask w bucket key version = Inr (RDict fs) \<and> rget fs ''Retention'' = RDict rs
           \<and> rget rs ''Mode'' = RStr m \<and> m \<in> set RETENTION_MODES \<and> rget rs ''RetainUntilDate'' = RTime True t \<and> now < t
           \<and> wm_strength r = (if m = str ''COMPLIANCE'' then IRREVERSIBLE else BYPASSABLE)" if l: "wm_state r = LOCKED"
  proof -
    obtain ask fs rs where a: "ac_retention client = Some ask" "ask w bucket key version = Inr (RDict fs)" "rget fs ''Retention'' = RDict rs"
      "retention_state now rs = Inr r" using o l by auto
    note rl = retention_locked [OF a(4)]
    obtain m t where "rget rs ''Mode'' = RStr m" "m \<in> set RETENTION_MODES" "rget rs ''RetainUntilDate'' = RTime True t" "now < t"
      using rl l by auto
    moreover have "wm_strength r = mode_strength (RStr m)" using rl l calculation(1) by simp
    ultimately show ?thesis using a(1-3) mode_strengths [of m] by auto
  qed
  then show ?thesis using o legal_has_label by simp
qed

text \<open>The destination of an object store always gives a report and names where the segment was headed. It says stored exactly when the
  store accepted the put and the question after it did not raise, and not attempted exactly when there is no client, in
  which case the store was not touched.\<close>

theorem s3_destination_reports:
  assumes "s3_destination md5 shown now resolved bucket pre retention name body w = (result, w')"
  shows "\<exists>r. result = Inr r \<and> arc_destination r = str ''s3://'' @ bucket @ str ''/'' @ pre @ name
    \<and> (arc_state r = NOT_ATTEMPTED \<longleftrightarrow> resolved = None) \<and> (resolved = None \<longrightarrow> w' = w)
    \<and> (arc_state r = STORED \<longleftrightarrow> (\<exists>client worm. resolved = Some client
          \<and> ac_put client w \<lparr>pr_bucket = bucket, pr_key = pre @ name, pr_body = body,
               pr_lock = map_option (\<lambda>t. (rt_mode t, rt_until t, b64encode (md5 body))) retention\<rparr> = (None, w')
          \<and> object_worm_state shown now client w' bucket (pre @ name) None = Inr worm))"
proof (cases resolved)
  case None
  then show ?thesis using assms
    by (auto simp: s3_destination_def upload_sealed_segment_def worm_report_of_def Let_def)
next
  case (Some client)
  let ?req = "\<lparr>pr_bucket = bucket, pr_key = pre @ name, pr_body = body,
               pr_lock = map_option (\<lambda>t. (rt_mode t, rt_until t, b64encode (md5 body))) retention\<rparr>"
  obtain f w1 where p: "ac_put client w ?req = (f, w1)" by fastforce
  show ?thesis
  proof (cases f)
    case (Some code)
    then show ?thesis using assms \<open>resolved = Some client\<close> p by (auto simp: s3_destination_def upload_sealed_segment_def Let_def)
  next
    case None
    show ?thesis
    proof (cases "object_worm_state shown now client w1 bucket (pre @ name) None")
      case (Inl e)
      then show ?thesis using assms \<open>resolved = Some client\<close> p None by (auto simp: s3_destination_def upload_sealed_segment_def Let_def)
    next
      case (Inr worm)
      obtain line where "render_worm_state worm = Inr line" using object_report [OF Inr] legal_has_label by auto
      then show ?thesis using assms \<open>resolved = Some client\<close> p None Inr by (auto simp: s3_destination_def upload_sealed_segment_def Let_def)
    qed
  qed
qed

text \<open>C22. What is posted to a server is one part with the segment in it byte for byte: whatever bytes an agent put into the trail, the
  delimiter first occurs after the segment, and whatever the name of the file, the header ends where the segment begins.\<close>

theorem posted_segment_intact:
  assumes "multipart name body = Inr encoded"
  shows "\<exists>n. encode_ascii name = Inr n \<and> encoded = part_head n @ body @ part_tail
    \<and> before (CRLF @ marker) (drop (length (part_head n)) encoded) = Some body
    \<and> before (CRLF @ CRLF) encoded = Some (take (length (part_head n) - 4) encoded)"
proof -
  have b: "\<not> sublist marker body" "set name \<inter> set UNSAFE_IN_FILENAME = {}" using assms by (auto simp: multipart_def split: if_splits)
  obtain n where n: "encode_ascii name = Inr n" "encoded = part_head n @ body @ part_tail"
    using assms b by (auto simp: multipart_def res_elims)
  have "before (CRLF @ marker) (body @ part_tail) = Some body"
    using body_before_delimiter [OF b(1), of "asc ''--'' @ CRLF"] by (simp add: part_tail_def)
  moreover have "13 \<notin> set name" using b(2) by (auto simp: UNSAFE_IN_FILENAME_def)
  then have "before (CRLF @ CRLF) encoded = Some (take (length (part_head n) - 4) encoded)"
    using header_before_body [OF ascii_no_cr [OF n(1)], of "body @ part_tail"] n(2) by simp
  ultimately show ?thesis using n by simp
qed

text \<open>A store that accepts every put, and answers about retention with the given mode and a date far ahead.\<close>

definition sample_client :: "aws_value \<Rightarrow> unit archive_client" where
  "sample_client mode =
     \<lparr>ac_put = (\<lambda>w _. (None, w)),
      ac_retention = Some (\<lambda>_ _ _ _. Inr (RDict [(str ''Retention'', RDict [(str ''Mode'', mode), (str ''RetainUntilDate'', RTime True 9)])])),
      ac_lock = None\<rparr>"

lemma sample_state:
  "object_worm_state shown 3 (sample_client (RStr (str ''GOVERNANCE''))) () b k None =
     Inr \<lparr>wm_subject = OBJECT_VERSION, wm_state = LOCKED, wm_strength = BYPASSABLE\<rparr>"
  by (simp add: object_worm_state_def sample_client_def retention_state_def rget_def in_names_def RETENTION_MODES_def RETENTION_MODE_STRENGTH_def
      mode_strength_def worm_report_of_def)

theorem locked_only_on_evidence_witness:
  "\<exists>ask. ac_retention (sample_client (RStr (str ''GOVERNANCE''))) = Some ask
   \<and> (\<exists>line. render_worm_state \<lparr>wm_subject = OBJECT_VERSION, wm_state = LOCKED, wm_strength = BYPASSABLE\<rparr> = Inr line)"
  using locked_only_on_evidence [OF sample_state [of "\<lambda>_. []" "[]" "[]"]] by (auto simp: sample_client_def)

theorem s3_destination_reports_witness:
  "\<exists>r. fst (s3_destination (\<lambda>_. []) (\<lambda>_. []) 3 (Some (sample_client (RStr (str ''GOVERNANCE'')))) (str ''b'') [] None (str ''s'') [1] ()) = Inr r
     \<and> arc_state r = STORED"
proof -
  obtain result w where d: "s3_destination (\<lambda>_. []) (\<lambda>_. []) 3 (Some (sample_client (RStr (str ''GOVERNANCE'')))) (str ''b'') [] None (str ''s'') [1] () = (result, w)"
    by (rule prod.exhaust)
  have "ac_put (sample_client (RStr (str ''GOVERNANCE''))) () q = (None, w)" for q by (simp add: sample_client_def)
  then show ?thesis
    using s3_destination_reports [OF d] d sample_state [of "\<lambda>_. []" "str ''b''" "str ''s''"] by auto
qed

theorem posted_segment_intact_witness:
  "\<exists>encoded. multipart (str ''s'') [7] = Inr encoded \<and> before (CRLF @ marker) (drop (length (part_head [115])) encoded) = Some [7]"
proof -
  have n: "encode_ascii (str ''s'') = Inr [115]" by (simp add: encode_ascii_def str_def)
  have "\<not> sublist marker [7]"
    using set_mono_sublist [of marker "[7]"] by (auto simp: marker_def asc_def MULTIPART_BOUNDARY_def)
  then obtain encoded where m: "multipart (str ''s'') [7] = Inr encoded"
    using n by (simp add: multipart_def UNSAFE_IN_FILENAME_def str_def)
  then show ?thesis using posted_segment_intact [OF m] n by auto
qed

text \<open>A reply whose mode is a list, which a service that only resembles the original may send, is looked up in a set: the question raises
  where an unreadable reply is meant to be reported as unknown, and the destination says failed of a segment that is stored.\<close>

theorem stored_segment_reported_failed:
  assumes "ac_put client w \<lparr>pr_bucket = bucket, pr_key = pre @ name, pr_body = body, pr_lock = None\<rparr> = (None, w')"
    and "ac_retention client = Some ask" "ask w' bucket (pre @ name) None = Inr (RDict fs)" "rget fs ''Retention'' = RDict rs"
    and "rget rs ''Mode'' = RList vs"
  shows "\<exists>r. s3_destination md5 shown now (Some client) bucket pre None name body w = (Inr r, w') \<and> arc_state r = FAILED"
proof -
  have "object_worm_state shown now client w' bucket (pre @ name) None = Inl Unhashable"
    using assms(2-5) by (simp add: object_worm_state_def retention_state_def in_names_def)
  then show ?thesis using assms(1) by (simp add: s3_destination_def upload_sealed_segment_def Let_def)
qed

theorem stored_segment_reported_failed_witness:
  "\<exists>r. s3_destination (\<lambda>_. []) (\<lambda>_. []) 3 (Some (sample_client (RList []))) (str ''b'') [] None (str ''s'') [1] () = (Inr r, ()) \<and> arc_state r = FAILED"
  by (rule stored_segment_reported_failed
      [of _ _ _ _ _ _ _ "\<lambda>_ _ _ _. Inr (RDict [(str ''Retention'', RDict [(str ''Mode'', RList []), (str ''RetainUntilDate'', RTime True 9)])])"
         "[(str ''Retention'', RDict [(str ''Mode'', RList []), (str ''RetainUntilDate'', RTime True 9)])]"
         "[(str ''Mode'', RList []), (str ''RetainUntilDate'', RTime True 9)]" "[]"])
     (simp_all add: sample_client_def rget_def)

end
