(* ===== verification/Preflight.thy ===== *)
theory Preflight
  imports Verification Rotation
begin

text \<open>
  Reading a configuration (\<^verbatim>\<open>domain/preflight.py\<close>, \<^verbatim>\<open>cli/preflight.py\<close>): what a run sees of seals, anchors and segments, and which rung of the ladder of
  attackers it stops. The explanations printed with each finding are not modelled.
  The number a run states is backed by what it saw, and what it did not look at is never called absent.
\<close>

section \<open>The ladder\<close>

datatype rung_state = PRESENT | ABSENT | NOT_MEASURED | NO_MECHANISM

text \<open>What a run found of one mechanism; \<open>None\<close> if it could not look.\<close>

type_synonym found = "bool option"

record observation =
  pf_seal :: found
  pf_records :: found
  pf_external :: found
  pf_aggregate :: found
  pf_witness :: found
  pf_ledger :: found

record rung =
  rg_number :: nat
  rg_state :: rung_state
  rg_needs :: bool

record ladder_reading =
  lr_rungs :: "rung list"
  lr_stops_at :: nat
  lr_next :: rung
  lr_above :: "nat list"

definition state_of :: "found list \<Rightarrow> rung_state" where
  "state_of fs = (if Some True \<in> set fs then PRESENT else if None \<in> set fs then NOT_MEASURED else ABSENT)"

definition rungs_of :: "observation \<Rightarrow> rung list" where
  "rungs_of ob =
     [\<lparr>rg_number = 1, rg_state = state_of [pf_seal ob], rg_needs = True\<rparr>,
      \<lparr>rg_number = 2, rg_state = state_of [pf_records ob], rg_needs = True\<rparr>,
      \<lparr>rg_number = 3, rg_state = state_of [pf_external ob, pf_witness ob, pf_ledger ob], rg_needs = True\<rparr>,
      \<lparr>rg_number = 4, rg_state = state_of [pf_aggregate ob], rg_needs = True\<rparr>,
      \<lparr>rg_number = 5, rg_state = NO_MECHANISM, rg_needs = False\<rparr>,
      \<lparr>rg_number = 6, rg_state = NO_MECHANISM, rg_needs = False\<rparr>]"

definition ladder_for :: "observation \<Rightarrow> ladder_reading res" where
  "ladder_for ob =
     (let rungs = rungs_of ob; stops_at = length (takeWhile (\<lambda>r. rg_state r = PRESENT) rungs) in
      if stops_at \<ge> length rungs then Inl IndexError
      else Inr \<lparr>lr_rungs = rungs, lr_stops_at = stops_at, lr_next = rungs ! stops_at,
                lr_above = map rg_number (filter (\<lambda>r. stops_at < rg_number r \<and> rg_state r = PRESENT) rungs)\<rparr>)"

section \<open>What a run sees\<close>

record anchor_view =
  av_records :: found
  av_external :: found
  av_aggregate :: found
  av_latest :: "int option"

definition seen :: "bool \<Rightarrow> anchor_sidecar \<Rightarrow> found" where
  "seen b sc = (if b then Some True else if as_unreadable sc \<noteq> [] then None else Some False)"

definition preflight_anchors :: "runtime \<Rightarrow> json res list \<Rightarrow> anchor_view res" where
  "preflight_anchors rt lines =
     (case read_anchor_records rt lines of
        Inl x \<Rightarrow> if sidecar_error x then Inr \<lparr>av_records = None, av_external = None, av_aggregate = None, av_latest = None\<rparr> else Inl x
      | Inr sc \<Rightarrow>
          let records = as_records sc in
          Inr \<lparr>av_records = seen (records \<noteq> []) sc,
               av_external = seen (\<exists>r \<in> set records. an_sink r \<noteq> str ''file'') sc,
               av_aggregate = seen (\<exists>r \<in> set records. agg_commit (an_checkpoint r) \<noteq> None) sc,
               av_latest = (if records = [] then None else Some (cp_seq (an_checkpoint (last records))))\<rparr>)"

text \<open>The pin is only read; a state that cannot be read is no declaration.\<close>

definition preflight_pin :: "pin_file option \<Rightarrow> separation_topology option res" where
  "preflight_pin pin =
     (case pin of
        None \<Rightarrow> Inr None
      | Some file \<Rightarrow>
          (case load_pin file of
             Inl x \<Rightarrow> if x = PinVersionUnknown \<or> x = PinMalformed then Inr None else Inl x
           | Inr stored \<Rightarrow> Inr (Option.bind stored declared_topology)))"

text \<open>The place of the trail among its segments, and their number.\<close>

definition segment_group :: "directory \<Rightarrow> pystr \<Rightarrow> pystr list" where
  "segment_group d name =
     filter (\<lambda>n. n = dir_stem name @ SEGMENT_SUFFIX \<or> segment_ordinal n (dir_stem name) \<noteq> None) (discover_segments d)"

fun index_of :: "pystr list \<Rightarrow> pystr \<Rightarrow> nat res" where
  "index_of [] x = Inl ValueError"
| "index_of (y # ys) x = (if y = x then Inr 0 else res_map Suc (index_of ys x))"

definition preflight_segments :: "directory \<Rightarrow> pystr \<Rightarrow> (nat \<times> nat) option res" where
  "preflight_segments d name =
     (let group = segment_group d name in
      if group = [] then Inr None else res_map (\<lambda>i. Some (i + 1, length group)) (index_of group name))"

text \<open>How many rows the run could read, if any.\<close>

definition preflight_trail :: "pystr list res \<Rightarrow> nat option res" where
  "preflight_trail hashes =
     (case hashes of
        Inl x \<Rightarrow> if is_ValueError x \<or> x = KeyError \<or> x = TypeError \<or> x = OSError then Inr None else Inl x
      | Inr hs \<Rightarrow> Inr (Some (length hs)))"

record preflight_input =
  pi_url :: bool
  pi_dir :: directory
  pi_name :: pystr
  pi_hashes :: "pystr list res"
  pi_anchors :: "json res list"
  pi_sealed :: bool
  pi_pin :: "pin_file option"

definition preflight_observation :: "anchor_view \<Rightarrow> bool \<Rightarrow> observation" where
  "preflight_observation view sealed =
     \<lparr>pf_seal = Some sealed, pf_records = av_records view, pf_external = av_external view, pf_aggregate = av_aggregate view,
      pf_witness = None, pf_ledger = None\<rparr>"

definition preflight :: "runtime \<Rightarrow> preflight_input \<Rightarrow> (int \<times> ladder_reading option) res" where
  "preflight rt inp =
     (if pi_url inp \<or> pi_name inp \<notin> fst ` set (pi_dir inp) then Inr (3, None)
      else
        res_bind (preflight_anchors rt (pi_anchors inp)) (\<lambda>view.
        res_bind (preflight_pin (pi_pin inp)) (\<lambda>_.
        res_bind (preflight_trail (pi_hashes inp)) (\<lambda>_.
        res_bind (preflight_segments (pi_dir inp) (pi_name inp)) (\<lambda>_.
        res_map (\<lambda>reading. (0, Some reading)) (ladder_for (preflight_observation view (pi_sealed inp))))))))"

section \<open>Properties\<close>

lemma state_of_PRESENT [simp]: "state_of fs = PRESENT \<longleftrightarrow> Some True \<in> set fs"
  by (simp add: state_of_def)

lemma seen_True [simp]: "seen b sc = Some True \<longleftrightarrow> b" "Some True = seen b sc \<longleftrightarrow> b"
  by (simp_all add: seen_def eq_commute [of "Some True"])

lemma ladder_facts:
  assumes "ladder_for ob = Inr r"
  shows "lr_rungs r = rungs_of ob" "lr_stops_at r \<le> 4" "lr_next r = rungs_of ob ! lr_stops_at r"
    "rg_state (rungs_of ob ! lr_stops_at r) \<noteq> PRESENT" "k < lr_stops_at r \<Longrightarrow> rg_state (rungs_of ob ! k) = PRESENT"
proof -
  let ?k = "length (takeWhile (\<lambda>r. rg_state r = PRESENT) (rungs_of ob))"
  have r: "lr_rungs r = rungs_of ob" "lr_stops_at r = ?k" "lr_next r = rungs_of ob ! ?k"
    using assms by (auto simp: ladder_for_def Let_def split: if_splits)
  have k: "?k \<le> 4" by (simp add: rungs_of_def)
  then have l: "?k < length (rungs_of ob)" by (simp add: rungs_of_def)
  show "lr_rungs r = rungs_of ob" "lr_stops_at r \<le> 4" "lr_next r = rungs_of ob ! lr_stops_at r" using r k by simp_all
  show "rg_state (rungs_of ob ! lr_stops_at r) \<noteq> PRESENT" using nth_length_takeWhile [OF l] r(2) by simp
  show "rg_state (rungs_of ob ! k) = PRESENT" if "k < lr_stops_at r"
  proof -
    have "k < ?k" using that r(2) by simp
    from takeWhile_nth [OF this] set_takeWhileD [OF nth_mem [OF this]] show ?thesis by simp
  qed
qed

lemma ladder_reads: "\<exists>r. ladder_for ob = Inr r"
  by (simp add: ladder_for_def rungs_of_def Let_def)

lemma index_of_foreign: "x \<notin> set xs \<Longrightarrow> index_of xs x = Inl ValueError"
  by (induction xs) auto

text \<open>The ladder always has a reading, the number in it is at most four and exactly the count of leading rungs whose stopper is
  present, and the next rung is the first one that is not.\<close>

theorem ladder_total:
  "\<exists>r. ladder_for ob = Inr r \<and> lr_stops_at r \<le> 4 \<and> lr_next r = rungs_of ob ! lr_stops_at r
     \<and> rg_state (lr_next r) \<noteq> PRESENT \<and> (\<forall>k < lr_stops_at r. rg_state (rungs_of ob ! k) = PRESENT)
     \<and> (\<forall>n \<in> set (lr_above r). lr_stops_at r + 1 < n)"
proof -
  obtain r where r: "ladder_for ob = Inr r" using ladder_reads [of ob] by (elim exE)
  note f = ladder_facts [OF r]
  have "lr_stops_at r + 1 < n" if n: "n \<in> set (lr_above r)" for n
  proof -
    obtain g where g: "g \<in> set (rungs_of ob)" "n = rg_number g" "rg_state g = PRESENT" "lr_stops_at r < n"
      using n r by (auto simp: ladder_for_def Let_def split: if_splits)
    obtain i where "i < length (rungs_of ob)" "g = rungs_of ob ! i" using g(1) unfolding in_set_conv_nth by (elim exE conjE) simp
    then have i: "i < length (rungs_of ob)" "n = rg_number (rungs_of ob ! i)" "rg_state (rungs_of ob ! i) = PRESENT" "lr_stops_at r < n"
      using g by simp_all
    have "n = i + 1" using i(1,2) by (auto simp: rungs_of_def less_Suc_eq numeral_eq_Suc)
    moreover have "i \<noteq> lr_stops_at r" using f(4) i(3) by auto
    ultimately show ?thesis using i(4) by simp
  qed
  then show ?thesis using r f by auto
qed

text \<open>The number a run states is backed by what it saw: from one on there is a seal file, from two on an anchor record, from three on a
  record of a sink other than the local file, from four on a record with an aggregate binding. The third rung is never
  called absent, since a run asks no witness and no ledger.\<close>

theorem preflight_backed:
  assumes "preflight rt inp = Inr (code, Some reading)" "read_anchor_records rt (pi_anchors inp) = Inr sc"
  shows "code = 0 \<and> lr_stops_at reading \<le> 4
    \<and> (1 \<le> lr_stops_at reading \<longrightarrow> pi_sealed inp)
    \<and> (2 \<le> lr_stops_at reading \<longrightarrow> as_records sc \<noteq> [])
    \<and> (3 \<le> lr_stops_at reading \<longrightarrow> (\<exists>r \<in> set (as_records sc). an_sink r \<noteq> str ''file''))
    \<and> (4 \<le> lr_stops_at reading \<longrightarrow> (\<exists>r \<in> set (as_records sc). agg_commit (an_checkpoint r) \<noteq> None))
    \<and> rg_state (lr_rungs reading ! 2) \<noteq> ABSENT"
proof -
  obtain view where v: "preflight_anchors rt (pi_anchors inp) = Inr view" and c: "code = 0"
    and l: "ladder_for (preflight_observation view (pi_sealed inp)) = Inr reading"
    using assms(1) by (auto simp: preflight_def res_elims split: if_splits)
  let ?ob = "preflight_observation view (pi_sealed inp)"
  note f = ladder_facts [OF l]
  have view: "av_records view = seen (as_records sc \<noteq> []) sc" "av_external view = seen (\<exists>r \<in> set (as_records sc). an_sink r \<noteq> str ''file'') sc"
    "av_aggregate view = seen (\<exists>r \<in> set (as_records sc). agg_commit (an_checkpoint r) \<noteq> None) sc"
    using v assms(2) by (auto simp: preflight_anchors_def Let_def)
  have "pi_sealed inp" if "1 \<le> lr_stops_at reading"
    using f(5) [of 0] that by (simp add: rungs_of_def preflight_observation_def)
  moreover have "as_records sc \<noteq> []" if "2 \<le> lr_stops_at reading"
    using f(5) [of 1] that view(1) by (simp add: rungs_of_def preflight_observation_def)
  moreover have "\<exists>r \<in> set (as_records sc). an_sink r \<noteq> str ''file''" if "3 \<le> lr_stops_at reading"
    using f(5) [of 2] that view(2) by (simp add: rungs_of_def preflight_observation_def)
  moreover have "\<exists>r \<in> set (as_records sc). agg_commit (an_checkpoint r) \<noteq> None" if "4 \<le> lr_stops_at reading"
    using f(5) [of 3] that view(3) by (simp add: rungs_of_def preflight_observation_def)
  moreover have "rg_state (lr_rungs reading ! 2) \<noteq> ABSENT"
    by (simp add: f(1) rungs_of_def preflight_observation_def state_of_def)
  ultimately show ?thesis using c f(2) by simp
qed

text \<open>A run over a trail whose file has not the suffix of a segment, beside numbered segments of that name, looks for the trail in a list
  that does not have it: the command, which states a reading for every trail, raises.\<close>

theorem unlisted_trail_ends_preflight:
  assumes "\<not> pi_url inp" "pi_name inp \<in> fst ` set (pi_dir inp)" "preflight_anchors rt (pi_anchors inp) = Inr view"
    and "preflight_pin (pi_pin inp) = Inr t" "preflight_trail (pi_hashes inp) = Inr n"
    and "segment_group (pi_dir inp) (pi_name inp) \<noteq> []" "\<not> endswith (pi_name inp) SEGMENT_SUFFIX"
  shows "preflight rt inp = Inl ValueError"
proof -
  have "endswith x SEGMENT_SUFFIX" if "x \<in> set (segment_group (pi_dir inp) (pi_name inp))" for x
    using that by (auto simp: segment_group_def segment_ordinal_def Let_def endswith_def split: if_splits)
  then have "pi_name inp \<notin> set (segment_group (pi_dir inp) (pi_name inp))" using assms(7) by auto
  then have "preflight_segments (pi_dir inp) (pi_name inp) = Inl ValueError"
    using assms(6) index_of_foreign by (simp add: preflight_segments_def Let_def)
  then show ?thesis using assms(1-5) by (simp add: preflight_def)
qed

definition sample_preflight :: "pystr \<Rightarrow> preflight_input" where
  "sample_preflight name =
     \<lparr>pi_url = False, pi_dir = [(str ''t'', \<lparr>sf_lines = [], sf_open = False, sf_anchors = []\<rparr>), (str ''t.00000.jsonl'', \<lparr>sf_lines = [], sf_open = False, sf_anchors = []\<rparr>)],
      pi_name = name, pi_hashes = Inr [], pi_anchors = [], pi_sealed = True, pi_pin = None\<rparr>"

lemma sample_group: "segment_group (pi_dir (sample_preflight n)) (str ''t'') = [str ''t.00000.jsonl'']"
  by code_simp

theorem unlisted_trail_ends_preflight_witness: "preflight ascii_runtime (sample_preflight (str ''t'')) = Inl ValueError"
proof (rule unlisted_trail_ends_preflight)
  show "segment_group (pi_dir (sample_preflight (str ''t''))) (pi_name (sample_preflight (str ''t''))) \<noteq> []"
    using sample_group [of "str ''t''"] by (simp add: sample_preflight_def)
  show "preflight_anchors ascii_runtime (pi_anchors (sample_preflight (str ''t''))) =
      Inr \<lparr>av_records = Some False, av_external = Some False, av_aggregate = Some False, av_latest = None\<rparr>"
    by (simp add: sample_preflight_def preflight_anchors_def read_anchor_records_def seen_def)
qed (simp_all add: sample_preflight_def preflight_pin_def preflight_trail_def endswith_def SEGMENT_SUFFIX_def str_def)

theorem preflight_backed_witness:
  "\<exists>reading. preflight ascii_runtime (sample_preflight (str ''t.00000.jsonl'')) = Inr (0, Some reading)
     \<and> lr_stops_at reading \<le> 4 \<and> rg_state (lr_rungs reading ! 2) \<noteq> ABSENT"
proof -
  let ?i = "sample_preflight (str ''t.00000.jsonl'')"
  have a: "read_anchor_records ascii_runtime (pi_anchors ?i) = Inr \<lparr>as_records = [], as_unreadable = []\<rparr>"
    by (simp add: sample_preflight_def read_anchor_records_def)
  have p: "preflight_segments (pi_dir ?i) (pi_name ?i) = Inr (Some (1, 1))" by code_simp
  obtain v where v: "preflight_anchors ascii_runtime (pi_anchors ?i) = Inr v" using a by (simp add: preflight_anchors_def Let_def)
  obtain r where r: "ladder_for (preflight_observation v (pi_sealed ?i)) = Inr r"
    using ladder_reads [of "preflight_observation v (pi_sealed ?i)"] by (elim exE)
  have "preflight ascii_runtime ?i = Inr (0, Some r)"
    unfolding preflight_def by (simp add: v p r) (simp add: sample_preflight_def preflight_pin_def preflight_trail_def)
  with preflight_backed [OF this a] show ?thesis by blast
qed

end
