(* ===== verification/Evidence.thy ===== *)
theory Evidence
  imports Timestamps Anchors
begin

text \<open>
  Handing stored receipts to outside verifiers (\<^verbatim>\<open>cli/receipt.py\<close>): each receipt of the anchor sidecar and the frame it attests are written to files.
  The command gives the files in the order they are written, also when it raises on the way. The lines it prints are not modelled.
  The loop that looks for an unused name has a bound one larger than the names in use, and a lemma shows it is enough.
\<close>

section \<open>The command\<close>

type_synonym written_file = "pystr \<times> bytes"

definition seq_base :: "int \<Rightarrow> pystr" where
  "seq_base n = str ''seq-'' @ str_int n"

definition numbered_base :: "int \<Rightarrow> nat \<Rightarrow> pystr" where
  "numbered_base sq n = seq_base sq @ str ''-'' @ str_int (int n)"

fun unused_base :: "nat \<Rightarrow> int \<Rightarrow> pystr list \<Rightarrow> pystr \<Rightarrow> nat \<Rightarrow> pystr option" where
  "unused_base 0 sq used base n = None"
| "unused_base (Suc fuel) sq used base n =
     (if base \<in> set used then unused_base fuel sq used (numbered_base sq n) (n + 1) else Some base)"

definition new_base :: "int \<Rightarrow> pystr list \<Rightarrow> pystr" where
  "new_base sq used = the (unused_base (Suc (length used)) sq used (seq_base sq) 2)"

text \<open>The bytes of a receipt and the extension of its file, if this build can extract it.\<close>

definition extracted :: "pystr \<Rightarrow> (bytes \<times> pystr) option" where
  "extracted receipt =
     (case decode_receipt receipt of
        Some der \<Rightarrow> Some (der, str ''.tsr'')
      | None \<Rightarrow> map_option (\<lambda>ots. (ots, str ''.ots'')) (decode_ots_receipt receipt))"

definition wanted :: "int option \<Rightarrow> anchor_record \<Rightarrow> (bytes \<times> pystr) option" where
  "wanted sq rec =
     (case an_receipt rec of
        None \<Rightarrow> None
      | Some receipt \<Rightarrow> if sq \<noteq> None \<and> Some (cp_seq (an_checkpoint rec)) \<noteq> sq then None else extracted receipt)"

fun export_records :: "int option \<Rightarrow> anchor_record list \<Rightarrow> pystr list \<Rightarrow> written_file list \<Rightarrow> nat res \<times> written_file list" where
  "export_records sq [] used files = (Inr (length used), files)"
| "export_records sq (rec # recs) used files =
     (case wanted sq rec of
        None \<Rightarrow> export_records sq recs used files
      | Some (data, ext) \<Rightarrow>
          let base = new_base (cp_seq (an_checkpoint rec)) used; files1 = files @ [(base @ ext, data)] in
          (case checkpoint_frame (an_checkpoint rec) of
             Inl x \<Rightarrow> (Inl x, files1)
           | Inr frame \<Rightarrow> export_records sq recs (used @ [base]) (files1 @ [(base @ str ''.frame'', frame)])))"

text \<open>The exit code; the sidecar is missing or what reading its lines gives.\<close>

definition receipt_export :: "runtime \<Rightarrow> json res list option \<Rightarrow> int option \<Rightarrow> int res \<times> written_file list" where
  "receipt_export rt sidecar sq =
     (case sidecar of
        None \<Rightarrow> (Inr 3, [])
      | Some lines \<Rightarrow>
          (case read_anchor_records rt lines of
             Inl x \<Rightarrow> (if is_ValueError x \<or> x = KeyError \<or> x = TypeError then Inr 1 else Inl x, [])
           | Inr sc \<Rightarrow>
               (case export_records sq (as_records sc) [] [] of
                  (Inl x, files) \<Rightarrow> (Inl x, files)
                | (Inr written, files) \<Rightarrow> (Inr (if written = 0 then 2 else 0), files))))"

section \<open>Names\<close>

lemma numbered_base_inj: "numbered_base sq m = numbered_base sq n \<Longrightarrow> m = n"
  using str_int_inj [of "int m" "int n"] by (simp add: numbered_base_def)

lemma numbered_not_seq: "numbered_base sq n \<noteq> seq_base sq"
  by (simp add: numbered_base_def str_def)

lemma unused_base_numbered:
  assumes "card (set used \<inter> numbered_base sq ` {n..}) < fuel"
  shows "\<exists>b. unused_base fuel sq used (numbered_base sq n) (n + 1) = Some b \<and> b \<notin> set used"
  using assms
proof (induction fuel arbitrary: n)
  case (Suc fuel)
  show ?case
  proof (cases "numbered_base sq n \<in> set used")
    case True
    have "numbered_base sq n \<notin> numbered_base sq ` {Suc n..}" using numbered_base_inj by fastforce
    moreover have "{n..} = insert n {Suc n..}" by auto
    ultimately have "set used \<inter> numbered_base sq ` {Suc n..} \<subset> set used \<inter> numbered_base sq ` {n..}" using True by auto
    then have "card (set used \<inter> numbered_base sq ` {Suc n..}) < card (set used \<inter> numbered_base sq ` {n..})"
      by (intro psubset_card_mono) simp_all
    then show ?thesis using Suc.IH [of "Suc n"] Suc.prems True by simp
  qed simp
qed simp

text \<open>The bound is enough: the loop ends with a name that is not in use.\<close>

lemma new_base_unused: "\<exists>b. unused_base (Suc (length used)) sq used (seq_base sq) 2 = Some b \<and> b \<notin> set used"
proof (cases "seq_base sq \<in> set used")
  case True
  have "seq_base sq \<notin> numbered_base sq ` {2..}" using numbered_not_seq [of sq] by (auto simp: image_iff eq_commute)
  then have "set used \<inter> numbered_base sq ` {2..} \<subset> set used" using True by auto
  then have "card (set used \<inter> numbered_base sq ` {2..}) < card (set used)" by (intro psubset_card_mono) simp_all
  then have "card (set used \<inter> numbered_base sq ` {2..}) < length used" using card_length [of used] by linarith
  from unused_base_numbered [OF this] show ?thesis using True by (simp add: numeral_3_eq_3)
qed simp

lemma new_base_fresh: "new_base sq used \<notin> set used"
  using new_base_unused [of used sq] by (auto simp: new_base_def)

section \<open>What is written\<close>

definition extensions :: "pystr set" where
  "extensions = {str ''.tsr'', str ''.ots'', str ''.frame''}"

lemma extension_split: "a @ e = b @ f \<Longrightarrow> e \<in> extensions \<Longrightarrow> f \<in> extensions \<Longrightarrow> a = b \<and> e = f"
  by (auto simp: extensions_def str_def append_eq_append_conv2 Cons_eq_append_conv append_eq_Cons_conv)

lemma wanted_extension: "wanted sq rec = Some (data, ext) \<Longrightarrow> ext \<in> {str ''.tsr'', str ''.ots''}"
  by (auto simp: wanted_def extracted_def split: option.splits if_splits)

definition used_names :: "pystr list \<Rightarrow> pystr set" where
  "used_names used = {b @ e | b e. b \<in> set used \<and> e \<in> extensions}"

lemma used_names_more: "used_names used \<subseteq> used_names (used @ [base])"
  by (auto simp: used_names_def)

lemma used_names_new: "e \<in> extensions \<Longrightarrow> base @ e \<in> used_names (used @ [base])"
  by (auto simp: used_names_def)

lemma fresh_names: "b \<notin> set used \<Longrightarrow> e \<in> extensions \<Longrightarrow> b @ e \<notin> used_names used"
  using extension_split unfolding used_names_def by blast

text \<open>The contents of the two files of a record.\<close>

definition exported :: "int option \<Rightarrow> anchor_record \<Rightarrow> bytes list" where
  "exported sq rec =
     (case (wanted sq rec, checkpoint_frame (an_checkpoint rec)) of (Some (data, _), Inr frame) \<Rightarrow> [data, frame] | _ \<Rightarrow> [])"

lemma export_records_files:
  assumes "export_records sq recs used files = (Inr written, files')" "distinct (map fst files)" "fst ` set files \<subseteq> used_names used"
  shows "distinct (map fst files') \<and> map snd files' = map snd files @ concat (map (exported sq) recs)
    \<and> written = length used + length (filter (\<lambda>r. wanted sq r \<noteq> None) recs)"
  using assms
proof (induction recs arbitrary: used files)
  case (Cons rec recs)
  show ?case
  proof (cases "wanted sq rec")
    case None
    then show ?thesis using Cons by (simp add: exported_def)
  next
    case (Some de)
    obtain data ext where de: "de = (data, ext)" by (rule prod.exhaust)
    define base where "base = new_base (cp_seq (an_checkpoint rec)) used"
    have ext: "ext \<in> extensions" "ext \<noteq> str ''.frame''" "str ''.frame'' \<in> extensions"
      using wanted_extension [of sq rec data ext] Some de by (auto simp: extensions_def)
    obtain frame where f: "checkpoint_frame (an_checkpoint rec) = Inr frame"
      using Cons.prems(1) Some de by (cases "checkpoint_frame (an_checkpoint rec)") (auto simp: Let_def)
    let ?files = "files @ [(base @ ext, data), (base @ str ''.frame'', frame)]"
    have "base @ ext \<notin> fst ` set files" "base @ str ''.frame'' \<notin> fst ` set files"
      using fresh_names [of base used] new_base_fresh Cons.prems(3) ext unfolding base_def by blast+
    then have d: "distinct (map fst ?files)" using Cons.prems(2) ext(2) by simp
    have u: "fst ` set ?files \<subseteq> used_names (used @ [base])"
      using Cons.prems(3) ext used_names_more [of used base] used_names_new [of _ base used] by auto
    have "export_records sq recs (used @ [base]) ?files = (Inr written, files')"
      using Cons.prems(1) Some de f by (simp add: base_def Let_def)
    from Cons.IH [OF this d u] show ?thesis using Some de f by (simp add: exported_def)
  qed
qed simp

section \<open>Properties\<close>

text \<open>A finished export loses no evidence: the files it writes have different names, two records of one head included, and they hold, for
  every stored receipt that was asked for and can be read, its bytes and the frame it attests, in the order of the
  records. The code says whether there was any.\<close>

theorem receipts_exported:
  assumes "read_anchor_records rt lines = Inr sc" "receipt_export rt (Some lines) sq = (Inr code, files)"
  shows "distinct (map fst files) \<and> map snd files = concat (map (exported sq) (as_records sc))
    \<and> code = (if \<exists>r \<in> set (as_records sc). wanted sq r \<noteq> None then 0 else 2)"
proof -
  obtain written where w: "export_records sq (as_records sc) [] [] = (Inr written, files)" "code = (if written = 0 then 2 else 0)"
    using assms by (auto simp: receipt_export_def split: sum.splits prod.splits)
  from export_records_files [OF w(1)] show ?thesis using w(2) by (auto simp: filter_empty_conv)
qed

text \<open>Two records of one head, from two time stamps.\<close>

definition sample_head :: checkpoint where
  "sample_head = \<lparr>cp_seq = 0, cp_entry_hash = str ''ab'', cp_root = str ''cd'', agg_commit = None, agg_epoch = None\<rparr>"

definition sample_lines :: "json res list" where
  "sample_lines = [Inr (record_obj sample_head (str ''tsa'') (Some (encode_receipt [1])) [] None),
                   Inr (record_obj sample_head (str ''tsa'') (Some (encode_receipt [2])) [] None)]"

lemma receipt_decoded: "decode_receipt (encode_receipt der) = Some der"
  by (simp add: decode_receipt_def encode_receipt_def b64_strict_encode)

theorem receipts_exported_witness:
  "\<exists>files frame. receipt_export ascii_runtime (Some sample_lines) None = (Inr 0, files) \<and> distinct (map fst files)
     \<and> map snd files = [[1], frame, [2], frame]"
proof -
  let ?rec = "\<lambda>b. \<lparr>an_checkpoint = sample_head, an_sink = str ''tsa'', an_receipt = Some (encode_receipt [b]), an_ts = [],
                   an_version = 1, an_nonce = None\<rparr>"
  let ?sc = "\<lparr>as_records = [?rec 1, ?rec 2], as_unreadable = []\<rparr>"
  have "whole_binding sample_head" by (simp add: whole_binding_def sample_head_def)
  from ascii.read_record_obj [OF this] have r: "read_anchor_line ascii_runtime (record_obj sample_head (str ''tsa'') (Some (encode_receipt [b])) [] None)
      = Inr (Inr (?rec b))" for b by (simp add: sample_head_def)
  have a: "read_anchor_records ascii_runtime sample_lines = Inr ?sc" by (simp add: read_anchor_records_def sample_lines_def r)
  have "\<exists>b. enc_all lp (map Str [str ''0'', str ''ab'', str ''cd'']) = Inr b"
    by (intro enc_all_total) (auto intro!: lp_encodable encodable_ascii simp: str_def)
  then obtain f where f: "checkpoint_frame sample_head = Inr f"
    by (auto simp: checkpoint_frame_def pae_frame_def pack_Q_small sample_head_def str_int_def digits.simps str_def)
  have w: "wanted None (?rec b) = Some ([b], str ''.tsr'')" for b
    by (simp add: wanted_def extracted_def receipt_decoded)
  obtain written files where e: "export_records None [?rec 1, ?rec 2] [] [] = (Inr written, files)" by (simp add: w f Let_def)
  obtain code where b: "receipt_export ascii_runtime (Some sample_lines) None = (Inr code, files)" 
    using e by (simp add: receipt_export_def a del: export_records.simps)
  show ?thesis using receipts_exported [OF a b] b by (simp add: exported_def w f)
qed

end
