(* ===== verification/Transactions.thy ===== *)
theory Transactions
  imports Ledger Anchors
begin

text \<open>
  Writing to the ledger (\<^verbatim>\<open>adapters/evm/sink.py\<close>, \<^verbatim>\<open>adapters/evm/anchor.py\<close>, \<^verbatim>\<open>adapters/evm/contracts.py\<close>): the calls, one transaction from its fields to its
  confirmation, and the anchor sink over it. The node has a state of its own and answers one request at a time; the signer
  is a parameter. A transaction is sent at most once and never after a refused estimate, a receipt is only given for a
  mined and confirmed one, and a call ends after a bounded number of requests.
\<close>

section \<open>Actions\<close>

datatype tx_exn = Asked ledger_exn | LedgerError | Raised_by exn

type_synonym ('w, 'a) act = "'w \<Rightarrow> (tx_exn + 'a) \<times> 'w"

definition act_return :: "'a \<Rightarrow> ('w, 'a) act" where
  "act_return a w = (Inr a, w)"

definition act_raise :: "tx_exn \<Rightarrow> ('w, 'a) act" where
  "act_raise x w = (Inl x, w)"

definition act_bind :: "('w, 'a) act \<Rightarrow> ('a \<Rightarrow> ('w, 'b) act) \<Rightarrow> ('w, 'b) act" where
  "act_bind m f w = (case m w of (Inl x, w') \<Rightarrow> (Inl x, w') | (Inr a, w') \<Rightarrow> f a w')"

definition act_asked :: "'a asked \<Rightarrow> ('w, 'a) act" where
  "act_asked r w = (case r of Inl x \<Rightarrow> (Inl (Asked x), w) | Inr a \<Rightarrow> (Inr a, w))"

definition act_res :: "'a res \<Rightarrow> ('w, 'a) act" where
  "act_res r w = (case r of Inl x \<Rightarrow> (Inl (Raised_by x), w) | Inr a \<Rightarrow> (Inr a, w))"

text \<open>\<^verbatim>\<open>except _RpcRevert\<close> around a request of the write path.\<close>

definition refused_on_revert :: "('w, 'a) act \<Rightarrow> ('w, 'a) act" where
  "refused_on_revert m w = (case m w of (Inl (Asked (RpcRevert _)), w') \<Rightarrow> (Inl LedgerError, w') | r \<Rightarrow> r)"

section \<open>The sink\<close>

datatype rpc_request =
    ChainId
  | TransactionCount pystr
  | Block pystr
  | PriorityFee
  | EstimateGas pystr pystr bytes int
  | SendRaw bytes
  | Receipt pystr

record tx_fields =
  tx_chain_id :: int
  tx_nonce :: int
  tx_to :: pystr
  tx_value :: int
  tx_data :: bytes
  tx_gas :: int
  tx_max_fee :: int
  tx_priority_fee :: int

record tx_receipt =
  tr_hash :: pystr
  tr_block :: int
  tr_chain_id :: int

text \<open>The reader classifies the answers; \<^verbatim>\<open>int(s, 16)\<close> is a parameter, as are the signer and the wait between two polls.\<close>

record 'w ledger_sink =
  ls_reader :: evm_reader
  ls_node :: "'w \<Rightarrow> rpc_request \<Rightarrow> (int \<times> json res) res \<times> 'w"
  ls_int16 :: "pystr \<Rightarrow> int res"
  ls_address :: pystr
  ls_sign :: "'w \<Rightarrow> tx_fields \<Rightarrow> bytes res \<times> 'w"
  ls_sleep :: "'w \<Rightarrow> 'w"
  ls_confirm_tag :: pystr
  ls_max_polls :: nat

definition new_sink :: "'w ledger_sink \<Rightarrow> 'w ledger_sink res" where
  "new_sink s = (if ls_max_polls s < 1 then Inl ValueError else Inr s)"

definition hex_int :: "'w ledger_sink \<Rightarrow> json \<Rightarrow> int asked" where
  "hex_int s v =
     (case v of
        JStr t \<Rightarrow> (case ls_int16 s t of Inl x \<Rightarrow> Inl (if is_ValueError x then LedgerUnreachable else Escaped x) | Inr n \<Rightarrow> Inr n)
      | _ \<Rightarrow> Inl LedgerUnreachable)"

definition sink_rpc :: "'w ledger_sink \<Rightarrow> rpc_request \<Rightarrow> ('w, json) act" where
  "sink_rpc s req w = (case ls_node s w req of (answer, w') \<Rightarrow> act_asked (rpc_result (ls_reader s) answer) w')"

definition ask_int :: "'w ledger_sink \<Rightarrow> rpc_request \<Rightarrow> ('w, int) act" where
  "ask_int s req = act_bind (sink_rpc s req) (\<lambda>v. act_asked (hex_int s v))"

definition act_sign :: "'w ledger_sink \<Rightarrow> tx_fields \<Rightarrow> ('w, bytes) act" where
  "act_sign s flds w = (case ls_sign s w flds of (r, w') \<Rightarrow> act_res r w')"

text \<open>The loop of \<^verbatim>\<open>_poll\<close>: the number of polls left.\<close>

fun poll_loop :: "'w ledger_sink \<Rightarrow> nat \<Rightarrow> ('w, 'a option) act \<Rightarrow> ('w, 'a) act" where
  "poll_loop s 0 probe = act_raise (Asked LedgerUnreachable)"
| "poll_loop s (Suc k) probe =
     act_bind probe (\<lambda>found.
       case found of
         Some v \<Rightarrow> act_return v
       | None \<Rightarrow> (\<lambda>w. poll_loop s k probe (if 0 < k then ls_sleep s w else w)))"

definition poll :: "'w ledger_sink \<Rightarrow> ('w, 'a option) act \<Rightarrow> ('w, 'a) act" where
  "poll s probe = poll_loop s (ls_max_polls s) probe"

definition receipt_of_tx :: "'w ledger_sink \<Rightarrow> pystr \<Rightarrow> ('w, jobj option) act" where
  "receipt_of_tx s h = act_bind (sink_rpc s (Receipt h)) (\<lambda>v. act_return (case v of JObj fs \<Rightarrow> Some fs | _ \<Rightarrow> None))"

definition confirmed :: "'w ledger_sink \<Rightarrow> int \<Rightarrow> ('w, bool option) act" where
  "confirmed s n =
     act_bind (sink_rpc s (Block (ls_confirm_tag s))) (\<lambda>v.
       case v of
         JObj fs \<Rightarrow> act_bind (act_asked (hex_int s (jget_null fs ''number''))) (\<lambda>head. act_return (if head \<ge> n then Some True else None))
       | _ \<Rightarrow> act_return None)"

text \<open>The first half of \<^verbatim>\<open>_send\<close>: what the node says before anything is signed.\<close>

definition gather :: "'w ledger_sink \<Rightarrow> pystr \<Rightarrow> bytes \<Rightarrow> int \<Rightarrow> ('w, tx_fields) act" where
  "gather s to data value =
     act_bind (ask_int s ChainId) (\<lambda>chain.
     act_bind (ask_int s (TransactionCount (ls_address s))) (\<lambda>nonce.
     act_bind (sink_rpc s (Block (str ''latest''))) (\<lambda>block.
     act_bind (case block of JObj fs \<Rightarrow> act_asked (hex_int s (jget_null fs ''baseFeePerGas'')) | _ \<Rightarrow> act_raise (Asked LedgerUnreachable)) (\<lambda>base.
     act_bind (ask_int s PriorityFee) (\<lambda>priority.
     act_bind (refused_on_revert (ask_int s (EstimateGas (ls_address s) to data value))) (\<lambda>gas.
       act_return \<lparr>tx_chain_id = chain, tx_nonce = nonce, tx_to = to, tx_value = value, tx_data = data, tx_gas = gas,
                   tx_max_fee = 2 * base + priority, tx_priority_fee = priority\<rparr>))))))"

definition confirm :: "'w ledger_sink \<Rightarrow> int \<Rightarrow> pystr \<Rightarrow> ('w, tx_receipt) act" where
  "confirm s chain h =
     act_bind (poll s (receipt_of_tx s h)) (\<lambda>fs.
     act_bind (act_asked (hex_int s (jget_null fs ''status''))) (\<lambda>status.
       if status \<noteq> 1 then act_raise LedgerError
       else
         act_bind (act_asked (hex_int s (jget_null fs ''blockNumber''))) (\<lambda>n.
         act_bind (poll s (confirmed s n)) (\<lambda>_.
           act_return \<lparr>tr_hash = h, tr_block = n, tr_chain_id = chain\<rparr>))))"

definition send_tx :: "'w ledger_sink \<Rightarrow> pystr \<Rightarrow> bytes \<Rightarrow> int \<Rightarrow> ('w, tx_receipt) act" where
  "send_tx s to data value =
     act_bind (gather s to data value) (\<lambda>flds.
     act_bind (act_sign s flds) (\<lambda>raw.
       if raw = [] then act_raise LedgerError
       else
         act_bind (refused_on_revert (sink_rpc s (SendRaw raw))) (\<lambda>sent.
           confirm s (tx_chain_id flds) (py_str (rd_runtime (ls_reader s)) sent))))"

section \<open>The calls\<close>

definition signed_checkpoint :: "checkpoint \<Rightarrow> bytes \<Rightarrow> abi_arg res" where
  "signed_checkpoint cp sig =
     res_bind (encode_uint (cp_seq cp) 64) (\<lambda>a.
     res_bind (encode_bytes32 (HexText (cp_entry_hash cp))) (\<lambda>b.
     res_bind (encode_bytes32 (HexText (cp_root cp))) (\<lambda>c.
     res_bind (encode_uint (int (4 * WORD)) 256) (\<lambda>d.
     res_map (\<lambda>e. Dynamic (a @ b @ c @ d @ e)) (encode_bytes sig)))))"

definition leaf_claim :: "divergent_leaf \<Rightarrow> abi_arg res" where
  "leaf_claim l =
     res_bind (encode_uint (dl_index l) 256) (\<lambda>a.
     res_bind (encode_bytes32 (HexText (dl_entry_hash l))) (\<lambda>b.
     res_bind (encode_uint (int (3 * WORD)) 256) (\<lambda>c.
     res_map (\<lambda>d. Dynamic (a @ b @ c @ d)) (encode_bytes32_array (map HexText (dl_proof l))))))"

definition trail_word :: "(bytes \<Rightarrow> bytes) \<Rightarrow> pystr \<Rightarrow> abi_arg res" where
  "trail_word sha chain_id = res_bind (trail_id_for sha chain_id) (\<lambda>t. res_map Static (encode_bytes32 (RawBytes t)))"

definition register_trail_call :: "(bytes \<Rightarrow> bytes) \<Rightarrow> pystr \<Rightarrow> pystr \<Rightarrow> int \<Rightarrow> bytes res" where
  "register_trail_call sha chain_id writer deadline =
     res_bind (trail_word sha chain_id) (\<lambda>t. res_bind (encode_address writer) (\<lambda>w. res_bind (encode_uint deadline 64) (\<lambda>d.
       encode_call (selector_of ''registerTrail(bytes32,address,uint64)'') [t, Static w, Static d])))"

definition submit_call :: "(bytes \<Rightarrow> bytes) \<Rightarrow> pystr \<Rightarrow> checkpoint \<Rightarrow> bytes \<Rightarrow> pystr list \<Rightarrow> bytes res" where
  "submit_call sha chain_id cp sig path =
     res_bind (trail_word sha chain_id) (\<lambda>t. res_bind (encode_uint (cp_seq cp) 64) (\<lambda>n.
     res_bind (encode_bytes32 (HexText (cp_entry_hash cp))) (\<lambda>h. res_bind (encode_bytes32 (HexText (cp_root cp))) (\<lambda>r.
     res_bind (encode_bytes sig) (\<lambda>g. res_bind (encode_bytes32_array (map HexText path)) (\<lambda>p.
       encode_call (selector_of ''submit(bytes32,uint64,bytes32,bytes32,bytes,bytes32[])'')
         [t, Static n, Static h, Static r, Dynamic g, Dynamic p]))))))"

definition register_call :: "bytes \<Rightarrow> bytes res" where
  "register_call descriptor = res_bind (encode_bytes descriptor) (\<lambda>d. encode_call (selector_of ''register(bytes)'') [Dynamic d])"

definition equivocation_call :: "(bytes \<Rightarrow> bytes) \<Rightarrow> equivocation_proof \<Rightarrow> bytes res" where
  "equivocation_call sha p =
     res_bind (trail_word sha (eq_chain_id p)) (\<lambda>t. res_bind (encode_uint (cp_seq (checkpoint_a p)) 64) (\<lambda>n.
     res_bind (signed_checkpoint (checkpoint_a p) (signature_a p)) (\<lambda>a. res_bind (signed_checkpoint (checkpoint_b p) (signature_b p)) (\<lambda>b.
       encode_call (selector_of ''proveEquivocation(bytes32,uint64,(uint64,bytes32,bytes32,bytes),(uint64,bytes32,bytes32,bytes))'') [t, Static n, a, b]))))"

definition non_extension_call :: "(bytes \<Rightarrow> bytes) \<Rightarrow> non_extension_proof \<Rightarrow> bytes res" where
  "non_extension_call sha p =
     res_bind (trail_word sha (ne_chain_id p)) (\<lambda>t.
     res_bind (signed_checkpoint (ne_older p) (older_signature p)) (\<lambda>a. res_bind (signed_checkpoint (ne_newer p) (newer_signature p)) (\<lambda>b.
     res_bind (leaf_claim (in_older p)) (\<lambda>c. res_bind (leaf_claim (in_newer p)) (\<lambda>d.
       encode_call (selector_of ''proveNonExtension(bytes32,(uint64,bytes32,bytes32,bytes),(uint64,bytes32,bytes32,bytes),(uint256,bytes32,bytes32[]),(uint256,bytes32,bytes32[]))'')
         [t, a, b, c, d])))))"

text \<open>The calldata is built before the address is looked up.\<close>

definition send_call :: "'w ledger_sink \<Rightarrow> (evm_contracts \<Rightarrow> pystr option) \<Rightarrow> bytes res \<Rightarrow> int \<Rightarrow> ('w, tx_receipt) act" where
  "send_call s which calldata value =
     act_bind (act_res calldata) (\<lambda>data.
     act_bind (act_asked (address_of (which (rd_contracts (ls_reader s))))) (\<lambda>to. send_tx s to data value))"

definition register_trail :: "(bytes \<Rightarrow> bytes) \<Rightarrow> 'w ledger_sink \<Rightarrow> pystr \<Rightarrow> pystr \<Rightarrow> int \<Rightarrow> ('w, tx_receipt) act" where
  "register_trail sha s chain_id writer deadline = send_call s ec_liveness (register_trail_call sha chain_id writer deadline) 0"

definition submit_checkpoint :: "(bytes \<Rightarrow> bytes) \<Rightarrow> 'w ledger_sink \<Rightarrow> pystr \<Rightarrow> checkpoint \<Rightarrow> bytes \<Rightarrow> pystr list \<Rightarrow> ('w, tx_receipt) act" where
  "submit_checkpoint sha s chain_id cp sig path = send_call s ec_liveness (submit_call sha chain_id cp sig path) 0"

definition register_fingerprint :: "'w ledger_sink \<Rightarrow> bytes \<Rightarrow> ('w, tx_receipt) act" where
  "register_fingerprint s descriptor = send_call s ec_registry (register_call descriptor) 0"

definition deposit_bond :: "'w ledger_sink \<Rightarrow> int \<Rightarrow> ('w, tx_receipt) act" where
  "deposit_bond s amount = send_call s ec_bond (encode_call (selector_of ''deposit()'') []) amount"

datatype fraud_proof = Equivocation equivocation_proof | NonExtension non_extension_proof

fun submit_fraud_proof :: "(bytes \<Rightarrow> bytes) \<Rightarrow> 'w ledger_sink \<Rightarrow> fraud_proof \<Rightarrow> ('w, tx_receipt) act" where
  "submit_fraud_proof sha s (NonExtension p) =
     (if non_extension_validate p \<noteq> None then act_raise LedgerError else send_call s ec_bond (non_extension_call sha p) 0)"
| "submit_fraud_proof sha s (Equivocation p) =
     (if equivocation_validate p \<noteq> None then act_raise LedgerError else send_call s ec_bond (equivocation_call sha p) 0)"

definition SIGNATURE_BYTES :: nat where "SIGNATURE_BYTES = 65"

definition anchor_receipt :: "tx_receipt \<Rightarrow> pystr" where
  "anchor_receipt r = str ''evm:'' @ str_int (tr_chain_id r) @ str '':'' @ str_int (tr_block r) @ str '':'' @ tr_hash r"

definition evm_anchor ::
  "(bytes \<Rightarrow> bytes) \<Rightarrow> 'w ledger_sink \<Rightarrow> pystr \<Rightarrow> ('w \<Rightarrow> bytes \<Rightarrow> bytes res \<times> 'w) \<Rightarrow> (checkpoint \<Rightarrow> pystr list res) option \<Rightarrow> checkpoint
    \<Rightarrow> ('w, pystr) act" where
  "evm_anchor sha s chain_id sign proof_fn cp =
     act_bind (act_res (checkpoint_signing_digest sha chain_id cp)) (\<lambda>digest.
     act_bind (\<lambda>w. case sign w digest of (r, w') \<Rightarrow> act_res r w') (\<lambda>sig.
       if length sig \<noteq> SIGNATURE_BYTES then act_raise LedgerError
       else
         act_bind (act_res (case proof_fn of None \<Rightarrow> Inr [] | Some f \<Rightarrow> f cp)) (\<lambda>path.
         act_bind (submit_checkpoint sha s chain_id cp sig path) (\<lambda>r. act_return (anchor_receipt r)))))"

section \<open>Recording the requests\<close>

type_synonym exchange = "rpc_request \<times> (int \<times> json res) res"

text \<open>The same sink over a world that also keeps what was asked and answered.\<close>

definition logged :: "'w ledger_sink \<Rightarrow> ('w \<times> exchange list) ledger_sink" where
  "logged s =
     \<lparr>ls_reader = ls_reader s,
      ls_node = (\<lambda>(w, l) req. case ls_node s w req of (a, w') \<Rightarrow> (a, (w', l @ [(req, a)]))),
      ls_int16 = ls_int16 s, ls_address = ls_address s,
      ls_sign = (\<lambda>(w, l) flds. case ls_sign s w flds of (r, w') \<Rightarrow> (r, (w', l))),
      ls_sleep = (\<lambda>(w, l). (ls_sleep s w, l)),
      ls_confirm_tag = ls_confirm_tag s, ls_max_polls = ls_max_polls s\<rparr>"

fun is_send :: "exchange \<Rightarrow> bool" where
  "is_send (SendRaw raw, a) = True"
| "is_send e = False"

definition sends :: "exchange list \<Rightarrow> nat" where
  "sends l = length (filter is_send l)"

text \<open>An action that makes at most \<open>n\<close> requests, \<open>m\<close> of them transactions, whatever comes of it.\<close>

definition adds :: "nat \<Rightarrow> nat \<Rightarrow> ('w \<times> exchange list, 'a) act \<Rightarrow> bool" where
  "adds n m act \<longleftrightarrow>
     (\<forall>w l r w' l'. act (w, l) = (r, (w', l')) \<longrightarrow> (\<exists>new. l' = l @ new \<and> length new \<le> n \<and> sends new \<le> m))"

lemma addsD: "adds n m act \<Longrightarrow> act (w, l) = (r, (w', l')) \<Longrightarrow> \<exists>new. l' = l @ new \<and> length new \<le> n \<and> sends new \<le> m"
  by (simp add: adds_def)

lemma adds_nothing: "(\<And>w l. \<exists>r w'. act (w, l) = (r, (w', l))) \<Longrightarrow> adds n m act"
  unfolding adds_def by (metis Pair_inject append_Nil2 filter.simps(1) le0 list.size(3) sends_def)

lemma adds_pure: "adds n m (act_return a)" "adds n m (act_raise x)" "adds n m (act_asked q)" "adds n m (act_res p)"
  by (rule adds_nothing; simp add: act_return_def act_raise_def act_asked_def act_res_def split: sum.split)+

lemma adds_mono: "adds n m act \<Longrightarrow> n \<le> n' \<Longrightarrow> m \<le> m' \<Longrightarrow> adds n' m' act"
  unfolding adds_def by (meson le_trans)

lemma adds_bind:
  assumes "adds n m act" "\<And>a. adds n' m' (f a)"
  shows "adds (n + n') (m + m') (act_bind act f)"
  unfolding adds_def
proof (intro allI impI)
  fix w l r w' l' assume b: "act_bind act f (w, l) = (r, (w', l'))"
  obtain q w1 l1 where a: "act (w, l) = (q, (w1, l1))" by (metis surj_pair)
  obtain new where new: "l1 = l @ new" "length new \<le> n" "sends new \<le> m" using addsD [OF assms(1) a] by (elim exE conjE)
  show "\<exists>new. l' = l @ new \<and> length new \<le> n + n' \<and> sends new \<le> m + m'"
  proof (cases q)
    case (Inl x)
    then show ?thesis using b a new by (auto simp: act_bind_def)
  next
    case (Inr v)
    then have "f v (w1, l1) = (r, (w', l'))" using b a by (simp add: act_bind_def)
    from addsD [OF assms(2) this] obtain new' where "l' = l1 @ new'" "length new' \<le> n'" "sends new' \<le> m'" by (elim exE conjE)
    then show ?thesis using new by (intro exI [of _ "new @ new'"]) (simp add: sends_def)
  qed
qed

text \<open>One of the two halves makes no request.\<close>

lemma adds_before: "adds n m act \<Longrightarrow> (\<And>a. adds 0 0 (f a)) \<Longrightarrow> adds n m (act_bind act f)"
  using adds_bind [of n m act 0 0 f] by simp

lemma adds_after: "adds 0 0 act \<Longrightarrow> (\<And>a. adds n m (f a)) \<Longrightarrow> adds n m (act_bind act f)"
  using adds_bind [of 0 0 act n m f] by simp

lemma adds_refused: "adds n m act \<Longrightarrow> adds n m (refused_on_revert act)"
  unfolding adds_def refused_on_revert_def by (fastforce split: prod.splits sum.splits tx_exn.splits ledger_exn.splits)

lemma adds_rpc: "adds 1 (if \<exists>raw. req = SendRaw raw then 1 else 0) (sink_rpc (logged s) req)"
  by (cases req) (auto simp: adds_def sink_rpc_def logged_def act_asked_def sends_def split: prod.splits sum.splits)

lemma adds_quiet: "(\<And>raw. req \<noteq> SendRaw raw) \<Longrightarrow> adds 1 0 (sink_rpc (logged s) req)"
  using adds_rpc [of req s] by simp

lemma adds_ask: "(\<And>raw. req \<noteq> SendRaw raw) \<Longrightarrow> adds 1 0 (ask_int (logged s) req)"
  unfolding ask_int_def by (intro adds_before adds_quiet adds_pure)

lemma adds_sign: "adds 0 0 (act_sign (logged s) flds)"
  by (rule adds_nothing) (simp add: act_sign_def logged_def act_res_def split: prod.split sum.split)

lemma adds_poll_loop:
  assumes "adds 1 0 probe"
  shows "adds k 0 (poll_loop (logged s) k probe)"
proof (induction k)
  case 0
  then show ?case by (simp add: adds_pure)
next
  case (Suc k)
  have "adds k 0 (\<lambda>w. poll_loop (logged s) k probe (if 0 < k then ls_sleep (logged s) w else w))"
    using Suc.IH unfolding adds_def by (auto simp: logged_def split: if_splits)
  then have "adds k 0 (case found of Some v \<Rightarrow> act_return v
      | None \<Rightarrow> \<lambda>w. poll_loop (logged s) k probe (if 0 < k then ls_sleep (logged s) w else w))" for found
    by (cases found) (simp_all add: adds_pure)
  from adds_bind [OF assms this] show ?case by simp
qed

lemma logged_polls: "ls_max_polls (logged s) = ls_max_polls s"
  by (simp add: logged_def)

lemma adds_poll: "adds 1 0 probe \<Longrightarrow> adds (ls_max_polls s) 0 (poll (logged s) probe)"
  by (simp add: poll_def logged_polls adds_poll_loop)

lemma adds_receipt: "adds 1 0 (receipt_of_tx (logged s) h)"
  unfolding receipt_of_tx_def by (intro adds_before adds_quiet adds_pure) simp

lemma adds_confirmed: "adds 1 0 (confirmed (logged s) n)"
  unfolding confirmed_def
proof (rule adds_before [OF adds_quiet])
  show "adds 0 0 (case v of JObj fs \<Rightarrow> act_bind (act_asked (hex_int (logged s) (jget_null fs ''number'')))
      (\<lambda>head. act_return (if head \<ge> n then Some True else None)) | _ \<Rightarrow> act_return None)" for v
    by (cases v) (auto intro: adds_before adds_pure)
qed simp

lemma adds_base:
  "adds 0 0 (case block of JObj fs \<Rightarrow> act_asked (hex_int (logged s) (jget_null fs ''baseFeePerGas'')) | _ \<Rightarrow> act_raise (Asked LedgerUnreachable))"
  by (cases block) (simp_all add: adds_pure)

lemma adds_gather: "adds 5 0 (gather (logged s) to data value)"
proof -
  have "adds (1 + (1 + (1 + (0 + (1 + (1 + 0)))))) (0 + (0 + (0 + (0 + (0 + (0 + 0)))))) (gather (logged s) to data value)"
    unfolding gather_def by (intro adds_bind adds_ask adds_quiet adds_refused adds_base adds_pure) simp_all
  then show ?thesis by (simp add: eval_nat_numeral)
qed

lemma adds_confirm: "adds (2 * ls_max_polls s) 0 (confirm (logged s) chain h)"
proof -
  have "adds (ls_max_polls s) 0 (act_bind (act_asked q) (\<lambda>n. act_bind (poll (logged s) (confirmed (logged s) n)) (\<lambda>_.
      act_return \<lparr>tr_hash = h, tr_block = n, tr_chain_id = chain\<rparr>)))" for q :: "int asked"
    by (intro adds_after [OF adds_pure(3)] adds_before [OF adds_poll [OF adds_confirmed]] adds_pure)
  then have "adds (ls_max_polls s) 0 (if status \<noteq> 1 then act_raise LedgerError
       else act_bind (act_asked q) (\<lambda>n. act_bind (poll (logged s) (confirmed (logged s) n)) (\<lambda>_.
         act_return \<lparr>tr_hash = h, tr_block = n, tr_chain_id = chain\<rparr>)))" for q and status :: int
    by (simp add: adds_pure)
  then have "adds (ls_max_polls s + ls_max_polls s) (0 + 0) (confirm (logged s) chain h)"
    unfolding confirm_def by (intro adds_bind [OF adds_poll [OF adds_receipt]] adds_after [OF adds_pure(3)])
  then show ?thesis by (simp add: mult_2)
qed

lemma adds_send: "adds (6 + 2 * ls_max_polls s) 1 (send_tx (logged s) to data value)"
proof -
  have r: "adds 1 1 (sink_rpc (logged s) (SendRaw raw))" for raw using adds_rpc [of "SendRaw raw" s] by simp
  have c: "adds (1 + 2 * ls_max_polls s) (1 + 0) (if raw = [] then act_raise LedgerError
      else act_bind (refused_on_revert (sink_rpc (logged s) (SendRaw raw)))
        (\<lambda>sent. confirm (logged s) chain (py_str (rd_runtime (ls_reader (logged s))) sent)))" for raw chain
    using adds_bind [OF adds_refused [OF r] adds_confirm] by (simp add: adds_pure)
  have "adds (5 + (1 + 2 * ls_max_polls s)) (0 + (1 + 0)) (send_tx (logged s) to data value)"
    unfolding send_tx_def by (intro adds_bind [OF adds_gather] adds_after [OF adds_sign] c)
  then show ?thesis by (simp add: add.assoc [symmetric])
qed

section \<open>What a receipt stands for\<close>

lemma bindE:
  assumes "act_bind m f w = (Inr b, w')"
  obtains a w1 where "m w = (Inr a, w1)" "f a w1 = (Inr b, w')"
  using assms by (auto simp: act_bind_def split: prod.splits sum.splits)

lemma bindE_logged:
  assumes "act_bind m f st = (Inr b, st')"
  obtains a w l where "m st = (Inr a, (w, l))" "f a (w, l) = (Inr b, st')"
  using assms by (auto simp: act_bind_def split: prod.splits sum.splits)

lemma asked_Inr: "act_asked q w = (Inr a, w') \<longleftrightarrow> q = Inr a \<and> w' = w"
  by (auto simp: act_asked_def split: sum.split)

lemma refused_Inr: "refused_on_revert m w = (Inr a, w') \<Longrightarrow> m w = (Inr a, w')"
  by (auto simp: refused_on_revert_def split: prod.splits sum.splits tx_exn.splits ledger_exn.splits)

lemma rpc_logged:
  "sink_rpc (logged s) req (w, l) = (Inr v, (w', l')) \<Longrightarrow> \<exists>a. l' = l @ [(req, a)] \<and> rpc_result (ls_reader s) a = Inr v"
  by (auto simp: sink_rpc_def logged_def asked_Inr split: prod.splits)

lemma poll_found: "poll_loop (logged s) k probe st = (Inr v, st') \<Longrightarrow> \<exists>w l. probe (w, l) = (Inr (Some v), st')"
proof (induction k arbitrary: st)
  case (Suc k)
  obtain found w l where p: "probe st = (Inr found, (w, l))"
      "(case found of Some v \<Rightarrow> act_return v | None \<Rightarrow> (\<lambda>w. poll_loop (logged s) k probe (if 0 < k then ls_sleep (logged s) w else w))) (w, l) = (Inr v, st')"
    using Suc.prems unfolding poll_loop.simps by (rule bindE_logged)
  show ?case
  proof (cases found)
    case None
    then show ?thesis using p(2) Suc.IH by simp
  next
    case (Some v')
    then show ?thesis using p by (cases st) (auto simp: act_return_def)
  qed
qed (simp add: act_raise_def)

lemma logged_int16 [simp]: "ls_int16 (logged s) = ls_int16 s"
  by (simp add: logged_def)

lemma logged_fields [simp]:
  "ls_reader (logged s) = ls_reader s" "ls_confirm_tag (logged s) = ls_confirm_tag s" "hex_int (logged s) = hex_int s"
proof -
  show "hex_int (logged s) = hex_int s" by (rule ext) (simp only: hex_int_def logged_int16)
qed (simp_all add: logged_def)

definition mined_in :: "'w ledger_sink \<Rightarrow> exchange list \<Rightarrow> tx_receipt \<Rightarrow> bool" where
  "mined_in s l r \<longleftrightarrow>
     (\<exists>a fs. (Receipt (tr_hash r), a) \<in> set l \<and> rpc_result (ls_reader s) a = Inr (JObj fs)
        \<and> hex_int s (jget_null fs ''status'') = Inr 1 \<and> hex_int s (jget_null fs ''blockNumber'') = Inr (tr_block r))
   \<and> (\<exists>a fs n. (Block (ls_confirm_tag s), a) \<in> set l \<and> rpc_result (ls_reader s) a = Inr (JObj fs)
        \<and> hex_int s (jget_null fs ''number'') = Inr n \<and> tr_block r \<le> n)"

lemma receipt_found:
  assumes "receipt_of_tx (logged s) h (w, l) = (Inr (Some fs), (w', l'))"
  shows "\<exists>a. (Receipt h, a) \<in> set l' \<and> rpc_result (ls_reader s) a = Inr (JObj fs)"
proof -
  obtain v w1 l1 where v: "sink_rpc (logged s) (Receipt h) (w, l) = (Inr v, (w1, l1))"
      "act_return (case v of JObj fs \<Rightarrow> Some fs | _ \<Rightarrow> None) (w1, l1) = (Inr (Some fs), (w', l'))"
    using assms unfolding receipt_of_tx_def by (rule bindE_logged)
  then have "v = JObj fs" "l' = l1" by (auto simp: act_return_def split: json.splits)
  then show ?thesis using rpc_logged [OF v(1)] by auto
qed

lemma confirmed_found:
  assumes "confirmed (logged s) n (w, l) = (Inr (Some b), (w', l'))"
  shows "\<exists>a fs m. (Block (ls_confirm_tag s), a) \<in> set l' \<and> rpc_result (ls_reader s) a = Inr (JObj fs)
    \<and> hex_int s (jget_null fs ''number'') = Inr m \<and> n \<le> m"
proof -
  obtain v w1 l1 where v: "sink_rpc (logged s) (Block (ls_confirm_tag s)) (w, l) = (Inr v, (w1, l1))"
      "(case v of JObj fs \<Rightarrow> act_bind (act_asked (hex_int s (jget_null fs ''number''))) (\<lambda>head. act_return (if head \<ge> n then Some True else None))
         | _ \<Rightarrow> act_return None) (w1, l1) = (Inr (Some b), (w', l'))"
    using assms unfolding confirmed_def logged_fields by (rule bindE_logged)
  then obtain fs where fs: "v = JObj fs" by (auto simp: act_return_def split: json.splits)
  then obtain m where "hex_int s (jget_null fs ''number'') = Inr m" "n \<le> m" "l' = l1"
    using v(2) by (auto simp: act_return_def asked_Inr elim!: bindE split: if_splits)
  then show ?thesis using rpc_logged [OF v(1)] fs by auto
qed

lemma confirm_mined:
  assumes "confirm (logged s) chain h (w, l) = (Inr r, (w', l'))"
  shows "mined_in s l' r \<and> tr_hash r = h \<and> tr_chain_id r = chain"
proof -
  obtain fs w1 l1 where a: "poll (logged s) (receipt_of_tx (logged s) h) (w, l) = (Inr fs, (w1, l1))"
    "act_bind (act_asked (hex_int s (jget_null fs ''status''))) (\<lambda>status.
       if status \<noteq> 1 then act_raise LedgerError
       else act_bind (act_asked (hex_int s (jget_null fs ''blockNumber''))) (\<lambda>n.
         act_bind (poll (logged s) (confirmed (logged s) n)) (\<lambda>_. act_return \<lparr>tr_hash = h, tr_block = n, tr_chain_id = chain\<rparr>))) (w1, l1)
     = (Inr r, (w', l'))"
    using assms unfolding confirm_def logged_fields by (rule bindE_logged)
  obtain w2 l2 where "receipt_of_tx (logged s) h (w2, l2) = (Inr (Some fs), (w1, l1))"
    using poll_found [OF a(1) [unfolded poll_def]] by (elim exE)
  from receipt_found [OF this] obtain e where e: "(Receipt h, e) \<in> set l1" "rpc_result (ls_reader s) e = Inr (JObj fs)" by (elim exE conjE)
  obtain status w3 l3 where t: "act_asked (hex_int s (jget_null fs ''status'')) (w1, l1) = (Inr status, (w3, l3))"
    "(if status \<noteq> 1 then act_raise LedgerError
       else act_bind (act_asked (hex_int s (jget_null fs ''blockNumber''))) (\<lambda>n.
         act_bind (poll (logged s) (confirmed (logged s) n)) (\<lambda>_. act_return \<lparr>tr_hash = h, tr_block = n, tr_chain_id = chain\<rparr>))) (w3, l3) = (Inr r, (w', l'))"
    using a(2) by (rule bindE_logged)
  have st: "hex_int s (jget_null fs ''status'') = Inr 1" "(w3, l3) = (w1, l1)" "status = 1"
    using t by (auto simp: asked_Inr act_raise_def split: if_splits)
  have t2: "act_bind (act_asked (hex_int s (jget_null fs ''blockNumber''))) (\<lambda>n.
         act_bind (poll (logged s) (confirmed (logged s) n)) (\<lambda>_. act_return \<lparr>tr_hash = h, tr_block = n, tr_chain_id = chain\<rparr>)) (w1, l1) = (Inr r, (w', l'))"
    using t(2) st(2,3) by simp
  obtain n w4 l4 where n: "act_asked (hex_int s (jget_null fs ''blockNumber'')) (w1, l1) = (Inr n, (w4, l4))"
    "act_bind (poll (logged s) (confirmed (logged s) n)) (\<lambda>_. act_return \<lparr>tr_hash = h, tr_block = n, tr_chain_id = chain\<rparr>) (w4, l4) = (Inr r, (w', l'))"
    using t2 by (rule bindE_logged)
  have bn: "hex_int s (jget_null fs ''blockNumber'') = Inr n" "(w4, l4) = (w1, l1)" using n(1) by (auto simp: asked_Inr)
  obtain ok w5 l5 where k: "poll (logged s) (confirmed (logged s) n) (w1, l1) = (Inr ok, (w5, l5))"
    "act_return \<lparr>tr_hash = h, tr_block = n, tr_chain_id = chain\<rparr> (w5, l5) = (Inr r, (w', l'))"
    using n(2) unfolding bn(2) by (rule bindE_logged)
  have b: "poll (logged s) (confirmed (logged s) n) (w1, l1) = (Inr ok, (w', l'))" "r = \<lparr>tr_hash = h, tr_block = n, tr_chain_id = chain\<rparr>"
    using k by (auto simp: act_return_def)
  obtain w6 l6 where "confirmed (logged s) n (w6, l6) = (Inr (Some ok), (w', l'))"
    using poll_found [OF b(1) [unfolded poll_def]] by (elim exE)
  note c = confirmed_found [OF this]
  have "set l1 \<subseteq> set l'" using addsD [OF adds_poll [OF adds_confirmed] b(1)] by auto
  then show ?thesis unfolding mined_in_def b(2) using e st(1) bn(1) c by auto
qed

lemma send_evidence:
  assumes "send_tx (logged s) to data value (w, l0) = (Inr r, (w', l))"
  shows "mined_in s l r
    \<and> (\<exists>raw a sent. raw \<noteq> [] \<and> (SendRaw raw, a) \<in> set l \<and> rpc_result (ls_reader s) a = Inr sent \<and> tr_hash r = py_str (rd_runtime (ls_reader s)) sent)"
proof -
  obtain flds w1 l1 where g: "gather (logged s) to data value (w, l0) = (Inr flds, (w1, l1))"
    "act_bind (act_sign (logged s) flds) (\<lambda>raw.
       if raw = [] then act_raise LedgerError
       else act_bind (refused_on_revert (sink_rpc (logged s) (SendRaw raw))) (\<lambda>sent.
         confirm (logged s) (tx_chain_id flds) (py_str (rd_runtime (ls_reader s)) sent))) (w1, l1) = (Inr r, (w', l))"
    using assms unfolding send_tx_def logged_fields by (rule bindE_logged)
  obtain raw w2 l2 where sg: "act_sign (logged s) flds (w1, l1) = (Inr raw, (w2, l2))"
    "(if raw = [] then act_raise LedgerError
       else act_bind (refused_on_revert (sink_rpc (logged s) (SendRaw raw))) (\<lambda>sent.
         confirm (logged s) (tx_chain_id flds) (py_str (rd_runtime (ls_reader s)) sent))) (w2, l2) = (Inr r, (w', l))"
    using g(2) by (rule bindE_logged)
  have raw: "raw \<noteq> []" using sg(2) by (auto simp: act_raise_def)
  have b: "act_bind (refused_on_revert (sink_rpc (logged s) (SendRaw raw))) (\<lambda>sent.
         confirm (logged s) (tx_chain_id flds) (py_str (rd_runtime (ls_reader s)) sent)) (w2, l2) = (Inr r, (w', l))"
    using sg(2) raw by simp
  obtain sent w3 l3 where t: "refused_on_revert (sink_rpc (logged s) (SendRaw raw)) (w2, l2) = (Inr sent, (w3, l3))"
    "confirm (logged s) (tx_chain_id flds) (py_str (rd_runtime (ls_reader s)) sent) (w3, l3) = (Inr r, (w', l))"
    using b by (rule bindE_logged)
  obtain a where a: "l3 = l2 @ [(SendRaw raw, a)]" "rpc_result (ls_reader s) a = Inr sent"
    using rpc_logged [OF refused_Inr [OF t(1)]] by (elim exE conjE)
  have "set l3 \<subseteq> set l" using addsD [OF adds_confirm t(2)] by auto
  then have m: "(SendRaw raw, a) \<in> set l" using a(1) by auto
  then show ?thesis using confirm_mined [OF t(2)] a(2) raw by auto
qed

lemma call_mined:
  assumes "send_call (logged s) which calldata value st = (Inr r, (w', l))"
  shows "mined_in s l r"
proof -
  obtain data w1 l1 where a: "act_bind (act_asked (address_of (which (rd_contracts (ls_reader (logged s)))))) (\<lambda>to. send_tx (logged s) to data value) (w1, l1)
      = (Inr r, (w', l))"
    using assms unfolding send_call_def by (rule bindE_logged)
  obtain to w2 l2 where "send_tx (logged s) to data value (w2, l2) = (Inr r, (w', l))" using a by (rule bindE_logged)
  from send_evidence [OF this] show ?thesis by (rule conjunct1)
qed

section \<open>Properties\<close>

text \<open>However the node, the signer and the contract behave, a call makes a bounded number of requests and sends at most one
  transaction.\<close>

theorem send_bounded:
  assumes "send_tx (logged s) to data value (w, []) = (r, (w', l))"
  shows "length l \<le> 6 + 2 * ls_max_polls s \<and> sends l \<le> 1"
  using addsD [OF adds_send assms] by auto

text \<open>C34. A receipt is only given for a transaction that was sent by this call, exactly once, whose receipt the node gave with status one
  in the block the receipt names, with the confirmed head at or past that block.\<close>

theorem receipt_is_confirmed:
  assumes "send_tx (logged s) to data value (w, []) = (Inr r, (w', l))"
  shows "sends l = 1 \<and> mined_in s l r
    \<and> (\<exists>raw a sent. raw \<noteq> [] \<and> (SendRaw raw, a) \<in> set l \<and> rpc_result (ls_reader s) a = Inr sent \<and> tr_hash r = py_str (rd_runtime (ls_reader s)) sent)"
proof -
  note e = send_evidence [OF assms]
  then obtain raw a where "(SendRaw raw, a) \<in> set (filter is_send l)" by auto
  then have "0 < sends l" unfolding sends_def by (metis length_pos_if_in_set)
  moreover have "sends l \<le> 1" using addsD [OF adds_send assms] by auto
  ultimately have "sends l = 1" by linarith
  then show ?thesis using e by simp
qed

text \<open>A node that mines what it is sent, and a signer.\<close>

definition hex16 :: "pystr \<Rightarrow> int res" where
  "hex16 t = (if t = str ''0x1'' then Inr 1 else if t = str ''0x7'' then Inr 7 else Inl ValueError)"

definition mining_answer :: "rpc_request \<Rightarrow> (int \<times> json res) res" where
  "mining_answer req =
     Inr (200, Inr (JObj [(str ''result'',
       case req of
         Block _ \<Rightarrow> JObj [(str ''baseFeePerGas'', JStr (str ''0x1'')), (str ''number'', JStr (str ''0x7''))]
       | Receipt _ \<Rightarrow> JObj [(str ''status'', JStr (str ''0x1'')), (str ''blockNumber'', JStr (str ''0x7''))]
       | _ \<Rightarrow> JStr (str ''0x1''))]))"

definition sample_sink :: "unit ledger_sink" where
  "sample_sink =
     \<lparr>ls_reader = \<lparr>rd_urls = [], rd_contracts = \<lparr>ec_liveness = Some [], ec_registry = None, ec_bond = None\<rparr>, rd_node = (\<lambda>_ _ _. Inl OSError),
        rd_runtime = ascii_runtime, rd_lower = (\<lambda>s. s)\<rparr>,
      ls_node = (\<lambda>w req. (mining_answer req, w)), ls_int16 = hex16, ls_address = [], ls_sign = (\<lambda>w _. (Inr [1], w)), ls_sleep = (\<lambda>w. w),
      ls_confirm_tag = str ''finalized'', ls_max_polls = 1\<rparr>"

lemma sample_sent:
  "case send_tx (logged sample_sink) [] [] 0 ((), []) of (Inr r, _) \<Rightarrow> r = \<lparr>tr_hash = str ''0x1'', tr_block = 7, tr_chain_id = 1\<rparr> | _ \<Rightarrow> False"
  by code_simp

theorem receipt_is_confirmed_witness:
  "\<exists>l. send_tx (logged sample_sink) [] [] 0 ((), []) = (Inr \<lparr>tr_hash = str ''0x1'', tr_block = 7, tr_chain_id = 1\<rparr>, ((), l)) \<and> sends l = 1"
proof -
  obtain q u l where t: "send_tx (logged sample_sink) [] [] 0 ((), []) = (q, (u, l))" by (metis surj_pair)
  have q: "q = Inr \<lparr>tr_hash = str ''0x1'', tr_block = 7, tr_chain_id = 1\<rparr>" using sample_sent unfolding t by (cases q) simp_all
  have "sends l = 1" using receipt_is_confirmed [OF t [unfolded q]] by simp
  then show ?thesis using t q by auto
qed

theorem send_bounded_witness: "\<exists>r w l. send_tx (logged sample_sink) [] [] 0 ((), []) = (r, (w, l)) \<and> length l \<le> 8"
proof -
  obtain q u l where t: "send_tx (logged sample_sink) [] [] 0 ((), []) = (q, (u, l))" by (metis surj_pair)
  have "length l \<le> 8" using send_bounded [OF t] by (simp add: sample_sink_def)
  then show ?thesis using t by blast
qed

text \<open>The receipt an anchor record keeps of the ledger names a transaction that was mined and confirmed, of a signature of the
  length the contract reads.\<close>

theorem ledger_anchor_confirmed:
  assumes "evm_anchor sha (logged s) chain_id signer proof_fn cp (w, l0) = (Inr receipt, (w', l))"
  shows "\<exists>r d sig w1 w2. receipt = anchor_receipt r \<and> mined_in s l r \<and> checkpoint_signing_digest sha chain_id cp = Inr d
    \<and> signer w1 d = (Inr sig, w2) \<and> length sig = SIGNATURE_BYTES"
proof -
  obtain d w1 l1 where d: "act_res (checkpoint_signing_digest sha chain_id cp) (w, l0) = (Inr d, (w1, l1))"
    "act_bind (\<lambda>w. case signer w d of (r, w') \<Rightarrow> act_res r w') (\<lambda>sig.
       if length sig \<noteq> SIGNATURE_BYTES then act_raise LedgerError
       else act_bind (act_res (case proof_fn of None \<Rightarrow> Inr [] | Some f \<Rightarrow> f cp)) (\<lambda>path.
         act_bind (submit_checkpoint sha (logged s) chain_id cp sig path) (\<lambda>r. act_return (anchor_receipt r)))) (w1, l1) = (Inr receipt, (w', l))"
    using assms unfolding evm_anchor_def by (rule bindE_logged)
  obtain sig w2 l2 where sg: "(case signer (w1, l1) d of (r, w') \<Rightarrow> act_res r w') = (Inr sig, (w2, l2))"
    "(if length sig \<noteq> SIGNATURE_BYTES then act_raise LedgerError
       else act_bind (act_res (case proof_fn of None \<Rightarrow> Inr [] | Some f \<Rightarrow> f cp)) (\<lambda>path.
         act_bind (submit_checkpoint sha (logged s) chain_id cp sig path) (\<lambda>r. act_return (anchor_receipt r)))) (w2, l2) = (Inr receipt, (w', l))"
    using d(2) by (rule bindE_logged)
  have len: "length sig = SIGNATURE_BYTES" using sg(2) by (auto simp: act_raise_def split: if_splits)
  have b: "act_bind (act_res (case proof_fn of None \<Rightarrow> Inr [] | Some f \<Rightarrow> f cp)) (\<lambda>path.
         act_bind (submit_checkpoint sha (logged s) chain_id cp sig path) (\<lambda>r. act_return (anchor_receipt r))) (w2, l2) = (Inr receipt, (w', l))"
    using sg(2) len by simp
  obtain path w3 l3 where p: "act_bind (submit_checkpoint sha (logged s) chain_id cp sig path) (\<lambda>r. act_return (anchor_receipt r)) (w3, l3) = (Inr receipt, (w', l))"
    using b by (rule bindE_logged)
  obtain r w4 l4 where r: "submit_checkpoint sha (logged s) chain_id cp sig path (w3, l3) = (Inr r, (w4, l4))"
    "act_return (anchor_receipt r) (w4, l4) = (Inr receipt, (w', l))"
    using p by (rule bindE_logged)
  have m: "mined_in s l4 r" using r(1) unfolding submit_checkpoint_def
    by (rule call_mined)
  have "checkpoint_signing_digest sha chain_id cp = Inr d" using d(1) by (auto simp: act_res_def split: sum.splits)
  moreover have "signer (w1, l1) d = (Inr sig, (w2, l2))" using sg(1) by (auto simp: act_res_def split: prod.splits sum.splits)
  moreover have "receipt = anchor_receipt r" "l = l4" using r(2) by (simp_all add: act_return_def)
  ultimately show ?thesis using m len by blast
qed

end
