(* ===== verification/Spec2Isabelle.thy ===== *)
theory Spec2Isabelle
  imports Consistency AuditLog Pins Abi Bond Export Segments Receipts Tickets Rotation ChainServer Remote Stores Tables Records Verification Declarations Archive Preflight Evidence Transactions
begin

text \<open>
  \<^bold>\<open>waxseal\<close>: a tamper-evident audit log. The program appends entries to a hash chain, keeps a Merkle tree over their
  hashes, seals them with forward-secure keys, publishes checkpoints to outside sinks, rotates a growing trail into
  segments and re-checks all of it later. The package is \<^verbatim>\<open>src/src/waxseal/\<close>; its layers are pure rules (\<^verbatim>\<open>domain/\<close>),
  adapters for storage and outside services (\<^verbatim>\<open>adapters/\<close>), the facade \<^verbatim>\<open>AuditLog\<close> (\<^verbatim>\<open>log/\<close>), readers and rotation
  (\<^verbatim>\<open>sources/\<close>) and the command line (\<^verbatim>\<open>cli/\<close>). Paths below are relative to the package.

  \<^bold>\<open>How the model is built.\<close> A function of the code is a function here, with the name it has there; a class is a record
  or a datatype; an exception is the left side of the result type \<open>res\<close> (Prelude), so every \<^verbatim>\<open>raise\<close> is a branch; a
  method that changes state takes the state and returns the new one next to its result, also when it fails. Python's
  integers are \<open>int\<close>, a string is the list of its code points (\<open>pystr\<close>, surrogates included), bytes are lists of
  \<open>8 word\<close>. Loops are recursive functions with proved termination. A count of rounds that the code has is an argument (Remote);
  where the code follows requests without a bound (Stores) the number of requests is one, and theorems say how many are enough. A stored file is the list of its
  lines, each the JSON value it decodes to or the exception decoding raises, because no property depends on the spacing
  of JSON; the exceptions are a tail read and a last line without its line end, which are modelled on bytes and on a flag.

  \<^bold>\<open>Parameters.\<close> Standard-library behaviour the rules only pass values through is an argument with named assumptions:
  the hash function (locale \<open>digest32\<close>, interpreted at the SHA-256 of theory Sha256; where a theorem needs that no two
  inputs collide it says so for the frames at hand), \<^verbatim>\<open>int()\<close> and \<^verbatim>\<open>str()\<close> of JSON values (the record \<open>runtime\<close>, with an ASCII
  instance), \<^verbatim>\<open>json.loads\<close> of a payload, the regular expressions of a redactor, \<^verbatim>\<open>str.lower\<close>, \<^verbatim>\<open>repr\<close> of floats, the clock,
  signatures, and what an outside sink answers.

  \<^bold>\<open>Theories.\<close>

    \<^item> Prelude, PyBytes, Json, Sha256: results and their rules, byte and text codecs (UTF-8, hex, base64, decimal), JSON
      values, the hash function.
    \<^item> Hashing (\<^verbatim>\<open>domain/header.py\<close>, \<^verbatim>\<open>domain/hashing.py\<close>): header and entry records, the length-prefixed frame, the two hashes;
      the frame is injective on encodable headers.
    \<^item> Registry (\<^verbatim>\<open>domain/fingerprint.py\<close>, \<^verbatim>\<open>domain/registry.py\<close>, \<^verbatim>\<open>domain/receipt_fingerprint.py\<close>): schema fingerprints and the append-only registry
      with its on-chain cross-check; a registered fingerprint never changes its meaning, and the descriptor decoder
      accepts exactly the frames. Verdict (\<^verbatim>\<open>domain/verdict.py\<close>, \<^verbatim>\<open>cli/_common.py\<close>): the join of verdicts and exit codes.
    \<^item> Chain (\<^verbatim>\<open>domain/verify.py\<close>): the verification pass. It never raises, reports exactly the first failing row, and two
      trails that verify with the same last hash are the same trail.
    \<^item> Merkle, Membership, Consistency (\<^verbatim>\<open>domain/anchoring.py\<close>): the tree hash, the incremental forest, proofs and their
      verifiers. The forest's root is the recursive one at every size; honest proofs are accepted; an accepted membership
      proof proves its leaf at its index.
    \<^item> Payload (\<^verbatim>\<open>domain/canonical.py\<close>, \<^verbatim>\<open>adapters/redactors.py\<close>): canonical JSON, which determines a payload up to key order,
      and redaction, which leaves no sensitive value.
    \<^item> Checkpoint (\<^verbatim>\<open>domain/checkpoint.py\<close>, \<^verbatim>\<open>domain/_pinning_checks.py\<close>, \<^verbatim>\<open>domain/witnessing.py\<close>): checkpoints, their frames, pins and
      witness checks; a satisfied pin fixes the pinned prefix.
    \<^item> Sealing and Attestor (\<^verbatim>\<open>domain/sealing.py\<close>, \<^verbatim>\<open>adapters/attest.py\<close>, \<^verbatim>\<open>log/_attestation.py\<close>): HMAC seals under an evolving key, the
      aggregate and its anchored commitment, the sidecar files of the attestor as a state machine and their check.
    \<^item> Backend (\<^verbatim>\<open>ports/backend.py\<close>, \<^verbatim>\<open>adapters/_envelope.py\<close>, \<^verbatim>\<open>adapters/memory.py\<close>, \<^verbatim>\<open>adapters/jsonl.py\<close>): the contract of a backend as locale
      \<open>backend\<close>, interpreted by the in-memory and the JSONL backend; the backward tail read is the last line of the file.
    \<^item> Anchors (\<^verbatim>\<open>adapters/anchors.py\<close>, \<^verbatim>\<open>log/_anchoring.py\<close>): sinks, their records and the anchored aggregates.
    \<^item> AuditLog (\<^verbatim>\<open>log/facade.py\<close>, \<^verbatim>\<open>adapters/drops.py\<close>): the facade over locale \<open>log_backend\<close>. Every run of best-effort appends leaves
      a verified chain and accounts for each call; the JSONL log refines the in-memory one; a healthy log stores what it is
      given; published checkpoints verify against every later trail.
    \<^item> Pins (\<^verbatim>\<open>domain/pinning.py\<close>, \<^verbatim>\<open>domain/separation.py\<close>, \<^verbatim>\<open>domain/liveness.py\<close>), Abi (\<^verbatim>\<open>domain/abi.py\<close>), Bond (\<^verbatim>\<open>domain/bond.py\<close>): the pin record and its
      parser, the contract codec, and the fraud evidence of bonded checkpoints, which never convicts an honest writer with
      lowercase hashes and always exists against a fork.
    \<^item> Export (\<^verbatim>\<open>domain/export.py\<close>), Receipts (\<^verbatim>\<open>domain/receipts.py\<close>, \<^verbatim>\<open>adapters/receipts.py\<close>), Tickets (\<^verbatim>\<open>domain/tickets.py\<close>, \<^verbatim>\<open>cli/tickets.py\<close>): proof
      bundles, acknowledgement receipts and admission tickets with their reconciliations.
    \<^item> Segments (\<^verbatim>\<open>domain/segments.py\<close>, \<^verbatim>\<open>domain/handoff.py\<close>) and Rotation (\<^verbatim>\<open>sources/rotation.py\<close>, \<^verbatim>\<open>cli/segments.py\<close>, \<^verbatim>\<open>domain/archive.py\<close>): the verdict
      on a directory of segments, which detects a deleted segment whenever a later one survives, and the rotation step on a
      directory, which keeps a trail in order and happens once however many writers race to it.
    \<^item> ChainServer (\<^verbatim>\<open>server/waxseal_server/\<close>: \<^verbatim>\<open>domain/\<close>, \<^verbatim>\<open>storage/chains.py\<close> and its helpers, \<^verbatim>\<open>api/_chains_writes.py\<close>): the hosted chain.
      Its append is three critical sections, so the server is a step relation on the files and the requests in flight; in
      every reachable state no chain is forked and everything acknowledged is stored.
    \<^item> Remote (\<^verbatim>\<open>adapters/remote.py\<close>, \<^verbatim>\<open>server/waxseal_server/api/views.py\<close>): the client of the hosted chain over any transport. Its append
      ends within 64 requests on every transport and returns only what the server took; run against ChainServer it reads
      what is stored, page by page, and what it returns is durable.
    \<^item> Records (\<^verbatim>\<open>domain/decision.py\<close>, \<^verbatim>\<open>domain/intervention.py\<close>, \<^verbatim>\<open>domain/incident.py\<close> and their readers in \<^verbatim>\<open>sources/\<close>): payload schemas. The parsers
      accept exactly the well-formed records, a listing of incidents is the fold of the readable rows, and an incident
      recorded through the facade is listed.
    \<^item> Timestamps (\<^verbatim>\<open>domain/rfc3161.py\<close>, \<^verbatim>\<open>domain/ots.py\<close> and their sinks in \<^verbatim>\<open>adapters/\<close>): DER and the structural check of a time-stamp response.
      The reader inverts the encoder, a response as the standard has it is accepted with exactly its fields, an accepted
      one holds the digest of the message. Signatures (\<^verbatim>\<open>adapters/rfc3161_verify.py\<close>): the optional check of the signature over any library of
      certificates; a valid answer covers the time that was read and a chain to a named anchor.
    \<^item> Ledger (\<^verbatim>\<open>adapters/evm/reader.py\<close>, \<^verbatim>\<open>adapters/evm/_rpc.py\<close>, \<^verbatim>\<open>cli/ledger.py\<close>): reading contracts through several endpoints. A value is returned exactly
      when all that answer agree and two do; in a verification run the ledger never breaks a trail.
    \<^item> Transactions (\<^verbatim>\<open>adapters/evm/sink.py\<close>, \<^verbatim>\<open>adapters/evm/anchor.py\<close>, \<^verbatim>\<open>adapters/evm/contracts.py\<close>): writing to the ledger over a node
      with a state of its own. A call sends at most one transaction in a bounded number of requests (the polls are bounded by
      \<^verbatim>\<open>max_polls\<close>, so no fuel is needed), and a receipt is only given for a mined and confirmed one.
    \<^item> Verification (\<^verbatim>\<open>cli/verify.py\<close>, \<^verbatim>\<open>cli/_dimensions.py\<close>, \<^verbatim>\<open>cli/_anchors.py\<close>, \<^verbatim>\<open>cli/pin.py\<close>, \<^verbatim>\<open>adapters/witness.py\<close>, \<^verbatim>\<open>adapters/pinstore.py\<close>): the verify
      command as a step on its pin file, with every dimension it measures. The exit code is the worst of them, and over any
      sequence of runs the trails accepted under one pin are one growing trail. Declarations (\<^verbatim>\<open>cli/pin.py\<close>): the text an
      operator declares a topology with; every topology has one, and it is read as exactly that topology or refused.
    \<^item> Stores (\<^verbatim>\<open>adapters/s3/backend.py\<close>) and Tables (\<^verbatim>\<open>adapters/sqlite.py\<close>, \<^verbatim>\<open>adapters/postgres.py\<close>): the other backends. Writers on an object
      store share no lock and are a step relation of single requests; they never fork the chain. Alone, each of these backends
      is the in-memory one. The laws of a store and of a keyed table are locales \<open>object_store\<close>, \<open>reliable_store\<close> and \<open>sql_table\<close>.
    \<^item> Archive (\<^verbatim>\<open>adapters/s3/worm.py\<close>, \<^verbatim>\<open>adapters/s3/upload.py\<close>, \<^verbatim>\<open>adapters/segment_archive.py\<close>): where a sealed segment is copied to. A version is
      reported locked only on evidence, and a segment posted to a server arrives as the one part of the body, byte for byte.
    \<^item> Preflight (\<^verbatim>\<open>domain/preflight.py\<close>, \<^verbatim>\<open>cli/preflight.py\<close>) and Evidence (\<^verbatim>\<open>cli/receipt.py\<close>): the reading of a configuration, whose number is backed by what
      the run saw, and the export of stored receipts, which loses none.

  \<^bold>\<open>Interaction.\<close> An append of the facade builds an entry (Hashing, Payload), stores it through a backend under the lock
  (Backend), pushes its hash on the forest (Merkle), seals it (Attestor) and may anchor a checkpoint (Checkpoint, Anchors).
  Rotation opens logs through the facade and writes a binding as row 0 of the new segment, which Segments checks.
  Concurrency is modelled where the code serialises it: a lock makes its critical section one step, and what another
  process did between an unlocked check and the lock is a second state argument of \<open>open_segmented\<close>. The verify command
  runs the chain check, the sidecar checks, the witness, ledger and pin checks over one read of the trail (Verification).

  \<^bold>\<open>Defects the model shows\<close> are stated as theorems: a stored row counted as dropped, an append after a torn line end, two
  trails in one directory, a foreign newest row at rotation, letter case in divergence evidence, a hash with a final
  newline at the server, a malformed page at the client, a confidence too large for a float, a cross-signed time-stamp authority,
  an anchor record or a stored hash that ends the verify command with an exception,
  an archived segment reported as failed, a trail without its suffix at preflight.

  \<^bold>\<open>Not modelled\<close>: the transports themselves (HTTP, contract nodes, time-stamp services), the signer process, file
  locks and atomic replacement of the operating system, argument parsing, printing and report text, statistics over floats
  (\<^verbatim>\<open>domain/cadence.py\<close>), hook entry points, tools. The report command repeats the modelled
  dimensions and renders them. Of the chain server its operator pages and the summary are left out.
\<close>

end
